(* ===== verification/F64.thy ===== *)
theory F64
  imports Complex_Main "HOL-Library.Log_Nat"
begin

text \<open>
  Rust's \<open>f64\<close> as the server's rate limiters use it. A finite IEEE-754 binary64 value is
  its exact rational value; every arithmetic operation computes the exact result and rounds it
  once, to nearest with ties to even, on a grid of 53 significant bits (2 to the -1074 is the
  finest step, so gradual underflow is included). Infinities and NaN are not represented: the
  limiters only ever hold values between 0 and a few million, and rates times seconds of a
  clock, far below the overflow threshold.

  The lemmas are the facts about rounding the limiters need: it fixes the integers up to
  2 to the 53, is monotone, keeps 0 and non-negative values, and is off by at most one part in
  2 to the 53 (or half the finest step).
\<close>

type_synonym f64 = rat

definition round_half_even :: "rat \<Rightarrow> int" where
  "round_half_even r =
     (let f = \<lfloor>r\<rfloor>; d = r - of_int f
      in if d < 1 / 2 then f else if 1 / 2 < d then f + 1 else if even f then f else f + 1)"

definition ilog2 :: "rat \<Rightarrow> int" where
  "ilog2 x = (let e = bitlen (fst (quotient_of x)) - bitlen (snd (quotient_of x))
              in if 2 powi e \<le> x then e else e - 1)"

definition f64_step :: "int \<Rightarrow> rat" where
  "f64_step e = 2 powi (max (e - 52) (- 1074))"

definition f64_round :: "rat \<Rightarrow> f64" where
  "f64_round x = (let u = f64_step (ilog2 \<bar>x\<bar>) in of_int (round_half_even (x / u)) * u)"

definition f64_add :: "f64 \<Rightarrow> f64 \<Rightarrow> f64" where
  "f64_add a b = f64_round (a + b)"

definition f64_sub :: "f64 \<Rightarrow> f64 \<Rightarrow> f64" where
  "f64_sub a b = f64_round (a - b)"

definition f64_mul :: "f64 \<Rightarrow> f64 \<Rightarrow> f64" where
  "f64_mul a b = f64_round (a * b)"

definition f64_div :: "f64 \<Rightarrow> f64 \<Rightarrow> f64" where
  "f64_div a b = f64_round (a / b)"

definition f64_of_nat :: "nat \<Rightarrow> f64" where
  "f64_of_nat n = f64_round (of_nat n)"

subsection \<open>Rounding to an integer\<close>

lemma round_half_even_bounds:
  "of_int (round_half_even r) \<le> r + 1 / 2" "r - 1 / 2 \<le> of_int (round_half_even r)"
proof -
  have f: "of_int \<lfloor>r\<rfloor> \<le> r" "r < of_int \<lfloor>r\<rfloor> + 1" by linarith+
  show "of_int (round_half_even r) \<le> r + 1 / 2" "r - 1 / 2 \<le> of_int (round_half_even r)"
    unfolding round_half_even_def Let_def using f by (simp_all split: if_split) linarith+
qed

lemma round_half_even_of_int [simp]: "round_half_even (of_int n) = n"
  by (simp add: round_half_even_def)

lemma round_half_even_mono: "r \<le> s \<Longrightarrow> round_half_even r \<le> round_half_even s"
proof -
  assume rs: "r \<le> s"
  show ?thesis
  proof (cases "\<lfloor>r\<rfloor> = \<lfloor>s\<rfloor>")
    case True
    with rs show ?thesis by (auto simp: round_half_even_def Let_def)
  next
    case False
    with rs have "\<lfloor>r\<rfloor> + 1 \<le> \<lfloor>s\<rfloor>" using floor_mono [OF rs] by linarith
    moreover have "round_half_even r \<le> \<lfloor>r\<rfloor> + 1" "\<lfloor>s\<rfloor> \<le> round_half_even s"
      by (auto simp: round_half_even_def Let_def)
    ultimately show ?thesis by linarith
  qed
qed

subsection \<open>The binary exponent\<close>

lemma two_powi_nat: "0 \<le> k \<Longrightarrow> (2::rat) powi k = of_int (2 ^ nat k)"
  by (simp add: power_int_def)

lemma two_powi_mono: "a \<le> b \<Longrightarrow> (2::rat) powi a \<le> 2 powi b"
  by (rule power_int_increasing) auto

lemma bitlen_powi:
  assumes "0 < p"
  shows "(2::rat) powi (bitlen p - 1) \<le> of_int p" "of_int p < (2::rat) powi (bitlen p)"
proof -
  have pos: "0 < bitlen p" using bitlen_nonneg [of p] bitlen_eq_zero_iff [of p] assms by linarith
  have b: "2 ^ nat (bitlen p - 1) \<le> p" "p < 2 ^ nat (bitlen p)"
    using bitlen_bounds [OF assms] by auto
  have "(of_int (2 ^ nat (bitlen p - 1)) :: rat) \<le> of_int p" using b(1) of_int_le_iff by blast
  then show "(2::rat) powi (bitlen p - 1) \<le> of_int p" using pos by (simp add: two_powi_nat)
  have "(of_int p :: rat) < of_int (2 ^ nat (bitlen p))" using b(2) of_int_less_iff by blast
  then show "of_int p < (2::rat) powi (bitlen p)" using pos by (simp add: two_powi_nat)
qed

lemma ilog2_bounds:
  assumes "0 < x"
  shows "2 powi (ilog2 x) \<le> x" "x < 2 powi (ilog2 x + 1)"
proof -
  obtain p q where pq: "quotient_of x = (p, q)" by (cases "quotient_of x")
  have q: "0 < q" using quotient_of_denom_pos [OF pq] .
  have x: "x = of_int p / of_int q" using quotient_of_div [OF pq] .
  have p: "0 < p" using assms x q by (simp add: zero_less_divide_iff)
  let ?e = "bitlen p - bitlen q"
  have "x < 2 powi bitlen p / 2 powi (bitlen q - 1)"
    unfolding x using bitlen_powi [OF p] bitlen_powi [OF q] q p
    by (intro frac_less) auto
  also have "\<dots> = 2 powi (?e + 1)"
    by (simp add: power_int_diff [symmetric] algebra_simps)
  finally have up: "x < 2 powi (?e + 1)" .
  have "2 powi (?e - 1) = (2::rat) powi (bitlen p - 1) / 2 powi bitlen q"
    by (simp add: power_int_diff [symmetric] algebra_simps)
  also have "\<dots> \<le> x"
    unfolding x using bitlen_powi [OF p] bitlen_powi [OF q] q p
    by (intro frac_le) auto
  finally have lo: "2 powi (?e - 1) \<le> x" .
  show "2 powi (ilog2 x) \<le> x" using lo by (simp add: ilog2_def pq Let_def)
  show "x < 2 powi (ilog2 x + 1)" using up by (auto simp: ilog2_def pq Let_def)
qed

lemma ilog2_mono:
  assumes "0 < x" "x \<le> y"
  shows "ilog2 x \<le> ilog2 y"
proof (rule ccontr)
  assume "\<not> ilog2 x \<le> ilog2 y"
  then have "(2::rat) powi (ilog2 y + 1) \<le> 2 powi (ilog2 x)" by (intro two_powi_mono) simp
  with ilog2_bounds [of x] ilog2_bounds [of y] assms show False by linarith
qed

subsection \<open>Rounding to the grid\<close>

lemma f64_step_pos [simp]: "0 < f64_step e"
  by (simp add: f64_step_def)

lemma f64_step_nonneg [simp]: "0 \<le> f64_step e"
  by (simp add: f64_step_def)

lemma f64_step_nonzero [simp]: "f64_step e \<noteq> 0"
  by (simp add: f64_step_def)

lemma f64_step_mono: "a \<le> b \<Longrightarrow> f64_step a \<le> f64_step b"
  unfolding f64_step_def by (intro two_powi_mono) simp

lemma f64_round_0 [simp]: "f64_round 0 = 0"
proof -
  have "round_half_even 0 = 0" using round_half_even_of_int [of 0] by (simp only: of_int_0)
  then show ?thesis by (simp add: f64_round_def Let_def)
qed

lemma grid_multiple:
  assumes "a - 52 \<le> b" "- 1074 \<le> b"
  obtains n where "(2::rat) powi b = of_int n * f64_step a"
proof -
  let ?m = "max (a - 52) (- 1074)"
  have "(2::rat) powi b = 2 powi (b - ?m) * 2 powi ?m"
    by (simp add: power_int_add [symmetric])
  moreover have "(2::rat) powi (b - ?m) = of_int (2 ^ nat (b - ?m))"
    using assms by (intro two_powi_nat) simp
  ultimately show thesis using that by (simp add: f64_step_def)
qed

lemma f64_round_step:
  assumes "0 \<le> x"
  shows "f64_round x = of_int (round_half_even (x / f64_step (ilog2 x))) * f64_step (ilog2 x)"
  using assms by (simp add: f64_round_def Let_def)

text \<open>A power of two on the grid of a value's binade is a bound of the rounded value too.\<close>

lemma f64_round_below_pow:
  assumes "0 \<le> x" "x \<le> 2 powi b" "ilog2 x - 52 \<le> b" "- 1074 \<le> b"
  shows "f64_round x \<le> 2 powi b"
proof -
  obtain n where n: "(2::rat) powi b = of_int n * f64_step (ilog2 x)"
    using grid_multiple assms(3,4) by blast
  have "x / f64_step (ilog2 x) \<le> of_int n"
    using assms(2) n by (simp add: divide_le_eq)
  then have "round_half_even (x / f64_step (ilog2 x)) \<le> n"
    using round_half_even_mono round_half_even_of_int by metis
  then have "of_int (round_half_even (x / f64_step (ilog2 x))) \<le> (of_int n :: rat)"
    by (simp only: of_int_le_iff)
  then show ?thesis using assms(1) n by (simp add: f64_round_step mult_right_mono)
qed

lemma f64_round_above_pow:
  assumes "0 \<le> x" "2 powi b \<le> x" "ilog2 x - 52 \<le> b" "- 1074 \<le> b"
  shows "2 powi b \<le> f64_round x"
proof -
  obtain n where n: "(2::rat) powi b = of_int n * f64_step (ilog2 x)"
    using grid_multiple assms(3,4) by blast
  have "of_int n \<le> x / f64_step (ilog2 x)"
    using assms(2) n by (simp add: le_divide_eq)
  then have "n \<le> round_half_even (x / f64_step (ilog2 x))"
    using round_half_even_mono round_half_even_of_int by metis
  then have "(of_int n :: rat) \<le> of_int (round_half_even (x / f64_step (ilog2 x)))"
    by (simp only: of_int_le_iff)
  then show ?thesis using assms(1) n by (simp add: f64_round_step mult_right_mono)
qed

lemma f64_round_nonneg:
  assumes "0 \<le> x"
  shows "0 \<le> f64_round x"
proof -
  have "round_half_even (of_int 0) \<le> round_half_even (x / f64_step (ilog2 x))"
    using assms by (intro round_half_even_mono) simp
  then have "0 \<le> round_half_even (x / f64_step (ilog2 x))"
    by (simp only: round_half_even_of_int)
  then show ?thesis using assms by (simp add: f64_round_step)
qed

lemma f64_round_same_step:
  assumes "0 \<le> x" "x \<le> y" "f64_step (ilog2 x) = f64_step (ilog2 y)"
  shows "f64_round x \<le> f64_round y"
proof -
  let ?u = "f64_step (ilog2 y)"
  have "x / ?u \<le> y / ?u" using assms(2) by (simp add: divide_right_mono less_imp_le)
  then have "round_half_even (x / ?u) \<le> round_half_even (y / ?u)"
    by (rule round_half_even_mono)
  then have "(of_int (round_half_even (x / ?u)) :: rat) \<le> of_int (round_half_even (y / ?u))"
    by (simp only: of_int_le_iff)
  then show ?thesis
    using assms by (simp add: f64_round_step mult_right_mono less_imp_le)
qed

lemma f64_round_mono:
  assumes "0 \<le> x" "x \<le> y"
  shows "f64_round x \<le> f64_round y"
proof (cases "x = 0 \<or> f64_step (ilog2 x) = f64_step (ilog2 y)")
  case True
  then show ?thesis
    using assms f64_round_nonneg f64_round_same_step by auto
next
  case False
  with assms have x: "0 < x" and y: "0 < y" by auto
  have le: "ilog2 x \<le> ilog2 y" using x assms(2) by (rule ilog2_mono)
  have "ilog2 x \<noteq> ilog2 y" using False by auto
  with le have lt: "ilog2 x + 1 \<le> ilog2 y" by simp
  have big: "- 1022 < ilog2 y"
  proof (rule ccontr)
    assume "\<not> - 1022 < ilog2 y"
    with le have "f64_step (ilog2 x) = f64_step (ilog2 y)" by (simp add: f64_step_def)
    with False show False by blast
  qed
  let ?b = "ilog2 y"
  have "x \<le> 2 powi (ilog2 x + 1)" using ilog2_bounds(2) [OF x] by simp
  also have "\<dots> \<le> 2 powi ?b" using lt by (rule two_powi_mono)
  finally have "f64_round x \<le> 2 powi ?b"
    using x lt big by (intro f64_round_below_pow) auto
  also have "\<dots> \<le> f64_round y"
    using ilog2_bounds(1) [OF y] y big by (intro f64_round_above_pow) auto
  finally show ?thesis .
qed

subsection \<open>Exactness and error\<close>

definition is_f64 :: "rat \<Rightarrow> bool" where
  "is_f64 x \<longleftrightarrow> f64_round x = x"

lemma f64_round_on_grid:
  assumes "0 \<le> x" "x = of_int n * f64_step (ilog2 x)"
  shows "is_f64 x"
proof -
  have "x / f64_step (ilog2 x) = of_int n" using assms(2) by (simp add: divide_eq_eq)
  then show ?thesis using assms by (simp add: is_f64_def f64_round_step)
qed

lemma ilog2_less:
  assumes "0 < x" "x < 2 powi b"
  shows "ilog2 x < b"
proof (rule ccontr)
  assume "\<not> ilog2 x < b"
  then have "(2::rat) powi b \<le> 2 powi ilog2 x" by (intro two_powi_mono) simp
  with ilog2_bounds(1) [OF assms(1)] assms(2) show False by linarith
qed

lemma f64_nat_exact:
  assumes "n < 2 ^ 53"
  shows "is_f64 (of_nat n)"
proof (cases "n = 0")
  case False
  let ?x = "of_nat n :: rat"
  have "int n < 2 ^ 53" using assms by simp
  then have "(of_int (int n) :: rat) < of_int (2 ^ 53)" using of_int_less_iff by blast
  then have "?x < 2 powi 53" by (simp add: two_powi_nat)
  then have "ilog2 ?x < 53" using False by (intro ilog2_less) auto
  then obtain k where k: "(2::rat) powi 0 = of_int k * f64_step (ilog2 ?x)"
    using grid_multiple [of "ilog2 ?x" 0] by auto
  then have one: "of_int k * f64_step (ilog2 ?x) = 1" by simp
  have "?x = of_int (int n * k) * f64_step (ilog2 ?x)"
    unfolding of_int_mult mult.assoc one by simp
  then show ?thesis by (rule f64_round_on_grid [rotated]) simp
qed (simp add: is_f64_def)

text \<open>Arithmetic on small whole numbers is exact, which evaluates concrete runs of a limiter.\<close>

lemma f64_round_of_nat: "n < 2 ^ 53 \<Longrightarrow> f64_round (of_nat n) = of_nat n"
  using f64_nat_exact [of n] by (simp only: is_f64_def)

lemma f64_round_numeral: "numeral k < (2 ^ 53 :: nat) \<Longrightarrow> f64_round (numeral k) = numeral k"
  using f64_round_of_nat [of "numeral k"] by simp

lemma f64_round_1 [simp]: "f64_round 1 = 1"
  using f64_round_of_nat [of 1] by simp

lemmas f64_eval = f64_add_def f64_sub_def f64_mul_def f64_div_def f64_of_nat_def f64_round_numeral

text \<open>One rounding errs by at most \<open>f64_eps\<close> of the value, or half the finest step.\<close>

definition f64_eps :: rat where
  "f64_eps = 2 powi (- 53)"

definition f64_tiny :: rat where
  "f64_tiny = 2 powi (- 1075)"

lemma f64_step_le:
  assumes "0 < x"
  shows "f64_step (ilog2 x) / 2 \<le> x * f64_eps + f64_tiny"
proof -
  have "(2::rat) powi (ilog2 x - 53) = 2 powi (ilog2 x) * f64_eps"
    using power_int_add [of "2::rat" "ilog2 x" "- 53"] by (simp only: f64_eps_def) simp
  also have "\<dots> \<le> x * f64_eps"
    using ilog2_bounds(1) [OF assms] by (simp add: f64_eps_def mult_right_mono)
  finally have a: "(2::rat) powi (ilog2 x - 53) \<le> x * f64_eps" .
  have h: "(2::rat) powi k / 2 = 2 powi (k - 1)" for k by (simp add: power_int_diff)
  have t: "f64_tiny = 2 powi (- 1075)" by (rule f64_tiny_def)
  have nn: "0 \<le> x * f64_eps" using assms by (simp add: f64_eps_def)
  have tn: "0 \<le> f64_tiny" unfolding t by simp
  show ?thesis
  proof (cases "ilog2 x - 52 \<le> - 1074")
    case True
    then have "f64_step (ilog2 x) / 2 = f64_tiny" unfolding f64_step_def h t by (simp add: max_def)
    then show ?thesis using nn by simp
  next
    case False
    then have "f64_step (ilog2 x) / 2 = 2 powi (ilog2 x - 53)"
      unfolding f64_step_def h by (simp add: max_def)
    then show ?thesis using a tn by linarith
  qed
qed

lemma f64_round_upper:
  assumes "0 \<le> x"
  shows "f64_round x \<le> x + (x * f64_eps + f64_tiny)"
proof (cases "x = 0")
  case True
  then show ?thesis by (simp add: f64_tiny_def)
next
  case False
  with assms have x: "0 < x" by simp
  let ?u = "f64_step (ilog2 x)"
  have "of_int (round_half_even (x / ?u)) * ?u \<le> (x / ?u + 1 / 2) * ?u"
    using round_half_even_bounds(1) [of "x / ?u"] by (intro mult_right_mono) (auto simp: less_imp_le)
  also have "\<dots> = x + ?u / 2"
    using f64_step_pos [of "ilog2 x"] by (simp add: distrib_right)
  also have "\<dots> \<le> x + (x * f64_eps + f64_tiny)" using f64_step_le [OF x] by simp
  finally show ?thesis using assms by (simp add: f64_round_step)
qed

end
