(* ===== verification/Prelude.thy ===== *)
theory Prelude
  imports F64 "HOL-Library.Word" "HOL-Library.Finite_Map" "HOL-Library.Code_Target_Nat"
begin

text \<open>
  Shared vocabulary of the development: machine integers, big-endian bytes, time, the finite
  maps that stand for Rust's \<open>HashMap\<close> and \<open>BTreeMap\<close>, and computations that change a state
  and may fail while keeping what they changed (a Rust method on \<open>&mut self\<close> that returns a
  \<open>Result\<close>).
\<close>

unbundle bit_operations_syntax

type_synonym u8 = "8 word"
type_synonym u16 = "16 word"
type_synonym u32 = "32 word"
type_synonym u64 = "64 word"
type_synonym bytes = "u8 list"

subsection \<open>Time\<close>

text \<open>
  An \<open>Instant\<close> is a number of nanoseconds since some origin of the monotonic clock, a
  \<open>Duration\<close> a number of nanoseconds. \<open>saturating_duration_since\<close> (and \<open>duration_since\<close>,
  which saturates too) is truncated subtraction.
\<close>

type_synonym instant = nat
type_synonym duration = nat

definition from_secs :: "nat \<Rightarrow> duration" where
  "from_secs n = n * 1000000000"

definition from_millis :: "nat \<Rightarrow> duration" where
  "from_millis n = n * 1000000"

definition duration_since :: "instant \<Rightarrow> instant \<Rightarrow> duration" where
  "duration_since now t = now - t"

definition as_secs_f64 :: "duration \<Rightarrow> f64" where
  "as_secs_f64 d =
     f64_add (f64_of_nat (d div 1000000000)) (f64_div (f64_of_nat (d mod 1000000000)) 1000000000)"

lemma unat_of_nat_small: "n < 2 ^ LENGTH('a) \<Longrightarrow> unat (of_nat n :: 'a::len word) = n"
  by (simp add: unat_of_nat)

subsection \<open>Big-endian bytes\<close>

definition to_be_bytes :: "u32 \<Rightarrow> bytes" where
  "to_be_bytes w = [ucast (drop_bit 24 w), ucast (drop_bit 16 w), ucast (drop_bit 8 w), ucast w]"

definition from_be_bytes :: "u8 \<Rightarrow> u8 \<Rightarrow> u8 \<Rightarrow> u8 \<Rightarrow> u32" where
  "from_be_bytes a b c d =
     push_bit 24 (ucast a) OR push_bit 16 (ucast b) OR push_bit 8 (ucast c) OR ucast d"

lemma length_to_be_bytes [simp]: "length (to_be_bytes w) = 4"
  by (simp add: to_be_bytes_def)

lemma from_to_be_bytes [simp]:
  "from_be_bytes (ucast (drop_bit 24 w)) (ucast (drop_bit 16 w)) (ucast (drop_bit 8 w)) (ucast w)
     = w"
proof (rule bit_word_eqI)
  fix n
  assume "n < LENGTH(32)"
  then have n: "n < 32" by simp
  consider "n < 8" | "8 \<le> n" "n < 16" | "16 \<le> n" "n < 24" | "24 \<le> n" using n by linarith
  then show "bit (from_be_bytes (ucast (drop_bit 24 w)) (ucast (drop_bit 16 w))
       (ucast (drop_bit 8 w)) (ucast w)) n = bit w n"
    using n by cases (auto simp: from_be_bytes_def bit_simps)
qed

lemma to_from_be_bytes [simp]: "to_be_bytes (from_be_bytes a b c d) = [a, b, c, d]"
proof -
  have "ucast (drop_bit 24 (from_be_bytes a b c d)) = a"
    by (rule bit_word_eqI) (auto simp: from_be_bytes_def bit_simps dest: bit_imp_le_length)
  moreover have "ucast (drop_bit 16 (from_be_bytes a b c d)) = b"
    by (rule bit_word_eqI) (auto simp: from_be_bytes_def bit_simps dest: bit_imp_le_length)
  moreover have "ucast (drop_bit 8 (from_be_bytes a b c d)) = c"
    by (rule bit_word_eqI) (auto simp: from_be_bytes_def bit_simps dest: bit_imp_le_length)
  moreover have "ucast (from_be_bytes a b c d) = d"
    by (rule bit_word_eqI) (auto simp: from_be_bytes_def bit_simps dest: bit_imp_le_length)
  ultimately show ?thesis by (simp add: to_be_bytes_def)
qed

subsection \<open>Finite maps\<close>

text \<open>
  A \<open>BTreeMap\<close> is a finite map read in ascending key order; a \<open>HashMap\<close> is a finite map too,
  and where the order of its iteration could matter the definitions say how it is settled.
\<close>

definition fmkeys :: "('k::linorder, 'v) fmap \<Rightarrow> 'k list" where
  "fmkeys m = sorted_list_of_fset (fmdom m)"

definition fmvals :: "('k::linorder, 'v) fmap \<Rightarrow> 'v list" where
  "fmvals m = map (\<lambda>k. the (fmlookup m k)) (fmkeys m)"

definition fmsize :: "('k, 'v) fmap \<Rightarrow> nat" where
  "fmsize m = fcard (fmdom m)"

definition fmretain :: "('k \<Rightarrow> 'v \<Rightarrow> bool) \<Rightarrow> ('k, 'v) fmap \<Rightarrow> ('k, 'v) fmap" where
  "fmretain P m =
     fmfilter (\<lambda>k. case fmlookup m k of None \<Rightarrow> False | Some v \<Rightarrow> P k v) m"

definition fmget :: "('k, 'v) fmap \<Rightarrow> 'k \<Rightarrow> 'v \<Rightarrow> 'v" where
  "fmget m k d = (case fmlookup m k of None \<Rightarrow> d | Some v \<Rightarrow> v)"

lemma set_fmkeys [simp]: "set (fmkeys m) = fmdom' m"
  by (simp add: fmkeys_def fmdom'_alt_def)

lemma distinct_fmkeys [simp]: "distinct (fmkeys m)"
  by (simp add: fmkeys_def sorted_list_of_fset.rep_eq)

lemma sorted_fmkeys [simp]: "sorted (fmkeys m)"
  by (simp add: fmkeys_def sorted_list_of_fset.rep_eq)

lemma length_fmkeys [simp]: "length (fmkeys m) = fmsize m"
  by (simp add: fmkeys_def fmsize_def sorted_list_of_fset.rep_eq fcard.rep_eq)

lemma fmlookup_retain [simp]:
  "fmlookup (fmretain P m) k =
     (case fmlookup m k of None \<Rightarrow> None | Some v \<Rightarrow> if P k v then Some v else None)"
  by (auto simp: fmretain_def split: option.splits)

lemma fmsize_eq_card: "fmsize m = card (fmdom' m)"
  by (simp add: fmsize_def fmdom'_alt_def fcard.rep_eq)

lemma fmsize_empty [simp]: "fmsize fmempty = 0"
  by (simp add: fmsize_def)

lemma fmsize_upd: "fmsize (fmupd k v m) = (if fmlookup m k = None then Suc (fmsize m) else fmsize m)"
proof -
  have iff: "k |\<in>| fmdom m \<longleftrightarrow> fmlookup m k \<noteq> None" by (auto simp: fmlookup_dom_iff)
  show ?thesis
  proof (cases "fmlookup m k = None")
    case True
    then show ?thesis using iff by (simp add: fmsize_def fcard_finsert_disjoint)
  next
    case False
    then show ?thesis using iff by (simp add: fmsize_def finsert_absorb)
  qed
qed

lemma fmsize_drop: "fmsize (fmdrop k m) = (if fmlookup m k = None then fmsize m else fmsize m - 1)"
proof (cases "fmlookup m k = None")
  case True
  then have "fmdrop k m = m" by (intro fmap_ext) (auto simp: fmlookup_drop)
  with True show ?thesis by simp
next
  case False
  then have "k \<in> fmdom' m" by (auto simp: fmlookup_dom'_iff)
  then have "card (fmdom' m - {k}) = card (fmdom' m) - 1" by simp
  with False show ?thesis by (simp only: fmsize_eq_card fmdom'_drop if_False)
qed

lemma fmkeys_empty [simp]: "fmkeys fmempty = []"
  by (simp add: fmkeys_def sorted_list_of_fset.rep_eq)

lemma set_fmvals: "set (fmvals m) = {v. \<exists>k. fmlookup m k = Some v}"
  by (force simp: fmvals_def fmlookup_dom'_iff image_iff)

subsection \<open>Computations with state and errors\<close>

type_synonym ('s, 'e, 'a) se = "'s \<Rightarrow> ('e + 'a) \<times> 's"

definition retE :: "'a \<Rightarrow> ('s, 'e, 'a) se" where
  "retE x s = (Inr x, s)"

definition failE :: "'e \<Rightarrow> ('s, 'e, 'a) se" where
  "failE e s = (Inl e, s)"

definition bindE :: "('s, 'e, 'a) se \<Rightarrow> ('a \<Rightarrow> ('s, 'e, 'b) se) \<Rightarrow> ('s, 'e, 'b) se" where
  "bindE m f s = (case m s of (Inl e, t) \<Rightarrow> (Inl e, t) | (Inr x, t) \<Rightarrow> f x t)"

definition getE :: "('s \<Rightarrow> 'a) \<Rightarrow> ('s, 'e, 'a) se" where
  "getE f s = (Inr (f s), s)"

definition modifyE :: "('s \<Rightarrow> 's) \<Rightarrow> ('s, 'e, unit) se" where
  "modifyE f s = (Inr (), f s)"

definition liftE :: "('s \<Rightarrow> 'e + 'a) \<Rightarrow> ('s, 'e, 'a) se" where
  "liftE f s = (f s, s)"

lemma retE_simp [simp]: "retE x s = (Inr x, s)"
  by (simp add: retE_def)

lemma failE_simp [simp]: "failE e s = (Inl e, s)"
  by (simp add: failE_def)

lemma getE_simp [simp]: "getE f s = (Inr (f s), s)"
  by (simp add: getE_def)

lemma modifyE_simp [simp]: "modifyE f s = (Inr (), f s)"
  by (simp add: modifyE_def)

lemma liftE_simp [simp]: "liftE f s = (f s, s)"
  by (simp add: liftE_def)

lemma bindE_Inl: "m s = (Inl e, t) \<Longrightarrow> bindE m f s = (Inl e, t)"
  by (simp add: bindE_def)

lemma bindE_Inr: "m s = (Inr x, t) \<Longrightarrow> bindE m f s = f x t"
  by (simp add: bindE_def)

text \<open>
  A run of a composite either fails in its first part or goes on with what that part returned.
\<close>

lemma bindE_elim:
  assumes "bindE m f s = (r, t)"
  obtains e where "m s = (Inl e, t)" "r = Inl e"
  | x u where "m s = (Inr x, u)" "f x u = (r, t)"
  using assms by (cases "m s"; cases "fst (m s)") (auto simp: bindE_def)

lemma bindE_success:
  assumes "bindE m f s = (Inr y, t)"
  obtains x u where "m s = (Inr x, u)" "f x u = (Inr y, t)"
  using assms by (rule bindE_elim) auto

text \<open>
  \<open>keeps P m\<close>: whatever \<open>m\<close> answers, it leaves a state with \<open>P\<close> if it found one. The rules in
  \<open>keeps_intros\<close> take a computation apart along its structure.
\<close>

definition keeps :: "('s \<Rightarrow> bool) \<Rightarrow> ('s, 'e, 'a) se \<Rightarrow> bool" where
  "keeps P m \<longleftrightarrow> (\<forall>s. P s \<longrightarrow> P (snd (m s)))"

named_theorems keeps_intros

lemma keepsI: "(\<And>s. P s \<Longrightarrow> P (snd (m s))) \<Longrightarrow> keeps P m"
  by (simp add: keeps_def)

lemma keepsD: "keeps P m \<Longrightarrow> P s \<Longrightarrow> P (snd (m s))"
  by (simp add: keeps_def)

lemma keepsD': "keeps P m \<Longrightarrow> m s = (r, t) \<Longrightarrow> P s \<Longrightarrow> P t"
  using keepsD by fastforce

lemma keeps_ret [keeps_intros]: "keeps P (retE x)"
  by (simp add: keeps_def)

lemma keeps_fail [keeps_intros]: "keeps P (failE e)"
  by (simp add: keeps_def)

lemma keeps_get [keeps_intros]: "keeps P (getE f)"
  by (simp add: keeps_def)

lemma keeps_lift [keeps_intros]: "keeps P (liftE f)"
  by (simp add: keeps_def)

lemma keeps_modify: "(\<And>s. P s \<Longrightarrow> P (f s)) \<Longrightarrow> keeps P (modifyE f)"
  by (simp add: keeps_def)

lemma keeps_bind [keeps_intros]:
  "keeps P m \<Longrightarrow> (\<And>x. keeps P (f x)) \<Longrightarrow> keeps P (bindE m f)"
  by (auto simp: keeps_def bindE_def split: prod.splits sum.splits)

lemma keeps_if [keeps_intros]:
  "(b \<Longrightarrow> keeps P m) \<Longrightarrow> (\<not> b \<Longrightarrow> keeps P n) \<Longrightarrow> keeps P (if b then m else n)"
  by simp

lemma keeps_option [keeps_intros]:
  "(x = None \<Longrightarrow> keeps P m) \<Longrightarrow> (\<And>y. x = Some y \<Longrightarrow> keeps P (n y)) \<Longrightarrow>
   keeps P (case x of None \<Rightarrow> m | Some y \<Rightarrow> n y)"
  by (cases x) simp_all

lemma keeps_prod [keeps_intros]:
  "(\<And>a b. x = (a, b) \<Longrightarrow> keeps P (m a b)) \<Longrightarrow> keeps P (case x of (a, b) \<Rightarrow> m a b)"
  by (cases x) simp

lemma keeps_let [keeps_intros]: "(\<And>y. y = x \<Longrightarrow> keeps P (m y)) \<Longrightarrow> keeps P (let y = x in m y)"
  by simp

lemma keeps_conj: "keeps P m \<Longrightarrow> keeps Q m \<Longrightarrow> keeps (\<lambda>s. P s \<and> Q s) m"
  by (auto simp: keeps_def)

text \<open>\<open>forE\<close>: a \<open>for\<close> loop that stops at the first error.\<close>

fun forE :: "('a \<Rightarrow> ('s, 'e, unit) se) \<Rightarrow> 'a list \<Rightarrow> ('s, 'e, unit) se" where
  "forE f [] = retE ()"
| "forE f (x # xs) = bindE (f x) (\<lambda>_. forE f xs)"

lemma keeps_for [keeps_intros]: "(\<And>x. x \<in> set xs \<Longrightarrow> keeps P (f x)) \<Longrightarrow> keeps P (forE f xs)"
  by (induction xs) (auto intro!: keeps_ret keeps_bind)

end
