(* ===== verification/Roles.thy ===== *)
theory Roles
  imports Prelude
begin

text \<open>
  \<open>throcc-proto\<close>'s \<open>ids.rs\<close>, \<open>limits.rs\<close> and \<open>permissions.rs\<close>: identifiers, roles with
  their order, the shared limits and who may do what. The id newtypes are their integers.
  The lemmas show that ranks round-trip and that every permission over another user goes
  strictly down the ranks.
\<close>

type_synonym user_id = u64
type_synonym room_id = u64
type_synonym media_id = u32
type_synonym epoch = u32
type_synonym hash = bytes

definition MAX_ROOM_MEMBERS :: nat where "MAX_ROOM_MEMBERS = 30"
definition MAX_ROOM_SHARES :: nat where "MAX_ROOM_SHARES = 5"
definition MAX_WATCHED :: nat where "MAX_WATCHED = 2 * MAX_ROOM_SHARES"
definition MAX_ROOMS :: nat where "MAX_ROOMS = 50"
definition MAX_ONLINE :: nat where "MAX_ONLINE = 250"
definition ADMIN_HEADROOM :: nat where "ADMIN_HEADROOM = 10"
definition MAX_SIGNED_IN :: nat where "MAX_SIGNED_IN = MAX_ONLINE + ADMIN_HEADROOM"

datatype role = User | Manager | Admin

fun rank :: "role \<Rightarrow> u8" where
  "rank User = 0"
| "rank Manager = 1"
| "rank Admin = 2"

definition from_rank :: "u8 \<Rightarrow> role option" where
  "from_rank r =
     (if r = 0 then Some User else if r = 1 then Some Manager else if r = 2 then Some Admin
      else None)"

text \<open>\<open>#[derive(PartialOrd, Ord)]\<close> on \<open>Role\<close> is the order of its discriminants.\<close>

instantiation role :: linorder
begin

definition less_eq_role :: "role \<Rightarrow> role \<Rightarrow> bool" where
  "a \<le> b \<longleftrightarrow> rank a \<le> rank b"

definition less_role :: "role \<Rightarrow> role \<Rightarrow> bool" where
  "a < b \<longleftrightarrow> rank a < rank b"

instance
proof
  fix x y z :: role
  show "(x < y) = (x \<le> y \<and> \<not> y \<le> x)" by (auto simp: less_eq_role_def less_role_def)
  show "x \<le> x" by (simp add: less_eq_role_def)
  show "x \<le> y \<Longrightarrow> y \<le> z \<Longrightarrow> x \<le> z" by (simp add: less_eq_role_def)
  show "x = y" if "x \<le> y" "y \<le> x"
  proof -
    from that have "rank x = rank y" by (simp add: less_eq_role_def)
    then show ?thesis by (cases x; cases y) simp_all
  qed
  show "x \<le> y \<or> y \<le> x" by (auto simp: less_eq_role_def)
qed

end

lemmas role_order = less_eq_role_def less_role_def

lemma from_rank_rank: "from_rank (rank r) = Some r"
  by (cases r) (simp_all add: from_rank_def)

lemma rank_from_rank: "from_rank n = Some r \<Longrightarrow> rank r = n"
  by (auto simp: from_rank_def split: if_splits)

lemma role_less_Admin: "r < Admin \<longleftrightarrow> r \<noteq> Admin"
  by (cases r) (simp_all add: role_order)

lemma role_ge_Manager: "Manager \<le> r \<longleftrightarrow> r = Manager \<or> r = Admin"
  by (cases r) (simp_all add: role_order)

definition DAILY_INVITES :: nat where "DAILY_INVITES = 3"

definition can_manage_rooms :: "role \<Rightarrow> bool" where
  "can_manage_rooms actor \<longleftrightarrow> Manager \<le> actor"

definition can_list_users :: "role \<Rightarrow> bool" where
  "can_list_users actor \<longleftrightarrow> actor = Admin"

definition can_edit_server :: "role \<Rightarrow> bool" where
  "can_edit_server actor \<longleftrightarrow> actor = Admin"

definition invite_cap :: "role \<Rightarrow> nat option" where
  "invite_cap actor = (if actor \<noteq> Admin then Some DAILY_INVITES else None)"

definition can_set_role :: "role \<Rightarrow> role \<Rightarrow> role \<Rightarrow> bool" where
  "can_set_role actor target new \<longleftrightarrow> actor = Admin \<and> target < actor \<and> new < actor"

definition can_kick_from_room :: "role \<Rightarrow> role \<Rightarrow> bool" where
  "can_kick_from_room actor target \<longleftrightarrow> Manager \<le> actor \<and> target < actor"

definition can_remove :: "role \<Rightarrow> role \<Rightarrow> bool" where
  "can_remove actor target \<longleftrightarrow> actor = Admin \<and> target < actor"

lemma can_set_role_iff: "can_set_role a t n \<longleftrightarrow> a = Admin \<and> t \<noteq> Admin \<and> n \<noteq> Admin"
  by (auto simp: can_set_role_def role_less_Admin)

lemma can_remove_iff: "can_remove a t \<longleftrightarrow> a = Admin \<and> t \<noteq> Admin"
  by (auto simp: can_remove_def role_less_Admin)

lemma kick_never_admin: "can_kick_from_room a t \<Longrightarrow> t \<noteq> Admin"
  by (cases a; cases t) (simp_all add: can_kick_from_room_def role_order)

end
