(* ===== verification/Wire.thy ===== *)
theory Wire
  imports Roles
begin

text \<open>
  The wire formats of \<open>throcc-proto\<close>: the media datagram header (\<open>frame.rs\<close>), the framing of
  control messages (\<open>framing.rs\<close>), the datagram size check (\<open>transport.rs\<close>) and the reading
  of a frame off a stream (\<open>session.rs\<close>). Serialising one message is postcard's work and a
  parameter here, with the round trip the code relies on as the hypothesis \<open>postcard_ok\<close>.
\<close>

subsection \<open>The media datagram header\<close>

definition DATAGRAM_PAYLOAD_FLOOR :: nat where "DATAGRAM_PAYLOAD_FLOOR = 1162"
definition HEADER_BYTES :: nat where "HEADER_BYTES = 13"
definition NONCE_BYTES :: nat where "NONCE_BYTES = 12"
definition TAG_BYTES :: nat where "TAG_BYTES = 16"
definition BODY_BYTES :: nat where "BODY_BYTES = DATAGRAM_PAYLOAD_FLOOR - HEADER_BYTES - TAG_BYTES"

type_synonym flags = u8

definition KEYFRAME :: flags where "KEYFRAME = 1"
definition FIRST :: flags where "FIRST = push_bit 1 1"
definition LAST :: flags where "LAST = push_bit 2 1"
definition DEFINED :: flags where "DEFINED = 0x07"

definition contains :: "flags \<Rightarrow> flags \<Rightarrow> bool" where
  "contains self other \<longleftrightarrow> self AND other = other"

definition flags_with :: "flags \<Rightarrow> flags \<Rightarrow> bool \<Rightarrow> flags" where
  "flags_with self other on = (if on then self OR other else self AND NOT other)"

definition has_reserved :: "flags \<Rightarrow> bool" where
  "has_reserved self \<longleftrightarrow> self AND NOT DEFINED \<noteq> 0"

record header =
  h_media_id :: media_id
  h_epoch :: epoch
  h_seq :: u32
  h_flags :: flags

datatype header_error = Short | ReservedFlags

definition encode_header :: "header \<Rightarrow> bytes" where
  "encode_header h =
     to_be_bytes (h_media_id h) @ to_be_bytes (h_epoch h) @ to_be_bytes (h_seq h) @ [h_flags h]"

fun parse :: "bytes \<Rightarrow> header_error + header" where
  "parse (m0 # m1 # m2 # m3 # e0 # e1 # e2 # e3 # s0 # s1 # s2 # s3 # f # _) =
     Inr \<lparr> h_media_id = from_be_bytes m0 m1 m2 m3, h_epoch = from_be_bytes e0 e1 e2 e3,
           h_seq = from_be_bytes s0 s1 s2 s3, h_flags = f \<rparr>"
| "parse _ = Inl Short"

definition parse_strict :: "bytes \<Rightarrow> header_error + header" where
  "parse_strict datagram =
     (case parse datagram of
        Inl e \<Rightarrow> Inl e
      | Inr h \<Rightarrow> if has_reserved (h_flags h) then Inl ReservedFlags else Inr h)"

definition nonce :: "header \<Rightarrow> bytes" where
  "nonce h = butlast (encode_header h)"

definition timestamp_before :: "u32 \<Rightarrow> u32 \<Rightarrow> bool" where
  "timestamp_before a b \<longleftrightarrow> a \<noteq> b \<and> b - a < push_bit 31 1"

lemma length_encode_header: "length (encode_header h) = HEADER_BYTES"
  by (simp add: encode_header_def HEADER_BYTES_def)

lemma parse_encode: "parse (encode_header h @ rest) = Inr h"
  by (cases h) (simp add: encode_header_def to_be_bytes_def)

lemma parse_short: "parse d = Inl e \<longleftrightarrow> length d < HEADER_BYTES \<and> e = Short"
  by (cases d rule: parse.cases) (auto simp: HEADER_BYTES_def)

lemma encode_parse:
  assumes "parse d = Inr h"
  shows "encode_header h = take HEADER_BYTES d"
  using assms by (cases d rule: parse.cases) (auto simp: encode_header_def HEADER_BYTES_def)

lemma nonce_eq: "nonce h = to_be_bytes (h_media_id h) @ to_be_bytes (h_epoch h) @ to_be_bytes (h_seq h)"
  by (simp add: nonce_def encode_header_def butlast_append)

lemma to_be_bytes_inj: "to_be_bytes a = to_be_bytes b \<longleftrightarrow> a = b"
proof
  assume "to_be_bytes a = to_be_bytes b"
  then have "from_be_bytes (ucast (drop_bit 24 a)) (ucast (drop_bit 16 a)) (ucast (drop_bit 8 a)) (ucast a)
    = from_be_bytes (ucast (drop_bit 24 b)) (ucast (drop_bit 16 b)) (ucast (drop_bit 8 b)) (ucast b)"
    by (simp add: to_be_bytes_def)
  then show "a = b" by simp
qed simp

text \<open>
  C39. The header round trip, both ways: parsing what \<open>encode\<close> wrote gives the header back and
  leaves the payload alone, a datagram parses exactly when it holds 13 bytes, and then
  re-encoding what was parsed gives its first 13 bytes; the client's strict parser accepts the
  same datagrams except those with a reserved flag bit.
\<close>

theorem header_roundtrip:
  "parse (encode_header h @ payload) = Inr h \<and>
   (case parse d of
      Inl e \<Rightarrow> e = Short \<and> length d < HEADER_BYTES
    | Inr g \<Rightarrow> HEADER_BYTES \<le> length d \<and> encode_header g = take HEADER_BYTES d) \<and>
   parse_strict d =
     (case parse d of Inl e \<Rightarrow> Inl e
      | Inr g \<Rightarrow> if h_flags g AND 0xF8 = 0 then Inr g else Inl ReservedFlags)"
proof (intro conjI)
  show "parse (encode_header h @ payload) = Inr h" by (rule parse_encode)
  show "case parse d of Inl e \<Rightarrow> e = Short \<and> length d < HEADER_BYTES
      | Inr g \<Rightarrow> HEADER_BYTES \<le> length d \<and> encode_header g = take HEADER_BYTES d"
    using parse_short [of d] encode_parse [of d] by (auto split: sum.splits) fastforce
  have "NOT DEFINED = 0xF8" by (simp add: DEFINED_def)
  then show "parse_strict d = (case parse d of Inl e \<Rightarrow> Inl e
      | Inr g \<Rightarrow> if h_flags g AND 0xF8 = 0 then Inr g else Inl ReservedFlags)"
    by (auto simp: parse_strict_def has_reserved_def split: sum.splits)
qed

text \<open>
  The AEAD nonce is 12 bytes and determines the track, the epoch and the sequence number:
  two headers share a nonce only if all three agree.
\<close>

theorem nonce_injective:
  "length (nonce g) = NONCE_BYTES \<and>
   (nonce g = nonce h \<longleftrightarrow>
      h_media_id g = h_media_id h \<and> h_epoch g = h_epoch h \<and> h_seq g = h_seq h)"
  by (auto simp: nonce_eq NONCE_BYTES_def to_be_bytes_inj)

text \<open>
  Timestamps compare as RFC 1982 serial numbers: \<open>a\<close> is before \<open>b\<close> exactly when \<open>b\<close> is
  reached from \<open>a\<close> by a forward step of fewer than 2 to the 31 ticks, across the wrap-around;
  so the order is irreflexive and antisymmetric.
\<close>

theorem timestamp_before_serial:
  "(timestamp_before a b \<longleftrightarrow> (\<exists>k::nat. 0 < k \<and> k < 2 ^ 31 \<and> b = a + of_nat k)) \<and>
   \<not> (timestamp_before a b \<and> timestamp_before b a)"
proof (intro conjI)
  have lt: "b - a < push_bit 31 1 \<longleftrightarrow> unat (b - a) < 2 ^ 31" for a b :: u32
    by (simp add: word_less_nat_alt)
  show "timestamp_before a b \<longleftrightarrow> (\<exists>k::nat. 0 < k \<and> k < 2 ^ 31 \<and> b = a + of_nat k)"
  proof
    assume t: "timestamp_before a b"
    then have "0 < unat (b - a)" by (auto simp: timestamp_before_def unat_gt_0)
    moreover have "unat (b - a) < 2 ^ 31" using t lt by (simp only: timestamp_before_def)
    moreover have "b = a + of_nat (unat (b - a))" by simp
    ultimately show "\<exists>k::nat. 0 < k \<and> k < 2 ^ 31 \<and> b = a + of_nat k" by blast
  next
    assume "\<exists>k::nat. 0 < k \<and> k < 2 ^ 31 \<and> b = a + of_nat k"
    then obtain k where k: "0 < k" "k < 2 ^ 31" "b = a + of_nat k" by blast
    then have "unat (b - a) = k" by (simp add: unat_of_nat_small)
    with k have "a \<noteq> b" "unat (b - a) < 2 ^ 31" by auto
    then show "timestamp_before a b" unfolding timestamp_before_def lt by simp
  qed
  show "\<not> (timestamp_before a b \<and> timestamp_before b a)"
  proof
    assume "timestamp_before a b \<and> timestamp_before b a"
    then have "a \<noteq> b" "unat (b - a) < 2 ^ 31" "unat (a - b) < 2 ^ 31"
      using lt by (auto simp only: timestamp_before_def)
    moreover have "(unat (b - a) + unat (a - b)) mod 2 ^ 32 = 0"
      using unat_word_ariths(1) [of "b - a" "a - b"] by simp
    ultimately have "unat (b - a) = 0" by simp
    with \<open>a \<noteq> b\<close> show False by (simp add: unat_eq_0)
  qed
qed

subsection \<open>Framing of control messages\<close>

definition MAX_FRAME_BYTES :: nat where "MAX_FRAME_BYTES = 2 ^ 20"
definition LEN_BYTES :: nat where "LEN_BYTES = 4"

datatype 'e frame_error = TooLarge nat | Malformed 'e | Trailing nat

definition encode :: "('m \<Rightarrow> 'e + bytes) \<Rightarrow> 'm \<Rightarrow> 'e frame_error + bytes" where
  "encode to_bytes message =
     (case to_bytes message of
        Inl e \<Rightarrow> Inl (Malformed e)
      | Inr body \<Rightarrow>
          if MAX_FRAME_BYTES < length body then Inl (TooLarge (length body))
          else Inr (to_be_bytes (of_nat (length body)) @ body))"

definition body_len :: "u32 \<Rightarrow> 'e frame_error + nat" where
  "body_len header =
     (let len = unat header in if MAX_FRAME_BYTES < len then Inl (TooLarge len) else Inr len)"

definition decode :: "(bytes \<Rightarrow> 'e + 'm \<times> bytes) \<Rightarrow> bytes \<Rightarrow> 'e frame_error + 'm" where
  "decode take_from body =
     (case take_from body of
        Inl e \<Rightarrow> Inl (Malformed e)
      | Inr (message, rest) \<Rightarrow>
          if rest \<noteq> [] then Inl (Trailing (length rest)) else Inr message)"

fun split :: "bytes \<Rightarrow> 'e frame_error + (bytes \<times> bytes) option" where
  "split (a # b # c # d # rest) =
     (case body_len (from_be_bytes a b c d) of
        Inl e \<Rightarrow> Inl e
      | Inr len \<Rightarrow>
          Inr (if len \<le> length rest then Some (take len rest, drop len rest) else None))"
| "split _ = Inr None"

text \<open>What framing relies on of postcard: it reads back what it wrote and leaves the rest.\<close>

definition postcard_ok :: "('m \<Rightarrow> 'e + bytes) \<Rightarrow> (bytes \<Rightarrow> 'e + 'm \<times> bytes) \<Rightarrow> bool" where
  "postcard_ok to_bytes take_from \<longleftrightarrow>
     (\<forall>m b rest. to_bytes m = Inr b \<longrightarrow> take_from (b @ rest) = Inr (m, rest))"

lemma encode_ok:
  assumes "encode to_bytes m = Inr frame"
  obtains body where "to_bytes m = Inr body" "length body \<le> MAX_FRAME_BYTES"
    "frame = to_be_bytes (of_nat (length body)) @ body"
  using assms by (auto simp: encode_def split: sum.splits if_splits)

lemma split_frame:
  assumes "length body \<le> MAX_FRAME_BYTES"
  shows "split (to_be_bytes (of_nat (length body)) @ body @ rest) = Inr (Some (body, rest))"
proof -
  let ?w = "of_nat (length body) :: u32"
  have len: "unat ?w = length body"
    using assms by (intro unat_of_nat_small) (simp add: MAX_FRAME_BYTES_def)
  have bl: "body_len ?w = Inr (length body)"
    using assms unfolding body_len_def len Let_def by simp
  show ?thesis
    unfolding to_be_bytes_def by (simp only: append.simps split.simps from_to_be_bytes bl) simp
qed

text \<open>
  C40. Framing round trip: with postcard reading back what it writes, every message that
  \<open>encode\<close> accepts becomes a frame that \<open>split\<close> takes off the front of any buffer, leaving
  exactly the bytes behind it, and whose body decodes to the message; and \<open>encode\<close> refuses
  exactly the messages whose body exceeds the cap.
\<close>

theorem framing_roundtrip:
  assumes "postcard_ok to_bytes take_from" and "to_bytes m = Inr body"
  shows "(if length body \<le> MAX_FRAME_BYTES
          then \<exists>frame. encode to_bytes m = Inr frame \<and> length frame = LEN_BYTES + length body \<and>
                 split (frame @ rest) = Inr (Some (body, rest)) \<and>
                 decode take_from body = Inr m
          else encode to_bytes m = Inl (TooLarge (length body)))"
proof -
  have "take_from (body @ []) = Inr (m, [])" using assms by (simp only: postcard_ok_def)
  then have "decode take_from body = Inr m" by (simp add: decode_def)
  then show ?thesis
    using assms(2) split_frame [of body rest] by (auto simp: encode_def LEN_BYTES_def)
qed

text \<open>
  A postcard for single bytes witnesses the hypothesis.
\<close>

definition byte_to_bytes :: "u8 \<Rightarrow> unit + bytes" where
  "byte_to_bytes b = Inr [b]"

fun byte_take_from :: "bytes \<Rightarrow> unit + u8 \<times> bytes" where
  "byte_take_from [] = Inl ()"
| "byte_take_from (b # rest) = Inr (b, rest)"

lemma byte_postcard_ok: "postcard_ok byte_to_bytes byte_take_from"
  by (auto simp: postcard_ok_def byte_to_bytes_def)

theorem framing_roundtrip_witness:
  "\<exists>frame. encode byte_to_bytes 7 = Inr frame \<and> length frame = 5 \<and>
     split (frame @ [1, 2]) = (Inr (Some ([7], [1, 2])) :: unit frame_error + _) \<and>
     decode byte_take_from [7] = Inr 7"
  using framing_roundtrip [OF byte_postcard_ok, of 7 "[7]" "[1, 2]"]
  by (simp add: byte_to_bytes_def MAX_FRAME_BYTES_def LEN_BYTES_def)

subsection \<open>Reading a frame off a stream\<close>

definition HANDSHAKE_FRAME_BYTES :: nat where "HANDSHAKE_FRAME_BYTES = 4096"

datatype 'e read_error = Closed | Frame "'e frame_error"

text \<open>
  The stream is what the peer will have sent before closing it: \<open>read_exact\<close> takes that many
  bytes, or fails as closed. The result carries the bytes not yet read.
\<close>

fun read_capped ::
  "(bytes \<Rightarrow> 'e + 'm \<times> bytes) \<Rightarrow> nat \<Rightarrow> bytes \<Rightarrow> ('e read_error + 'm) \<times> bytes" where
  "read_capped take_from cap (a # b # c # d # recv) =
     (case body_len (from_be_bytes a b c d) of
        Inl e \<Rightarrow> (Inl (Frame e), recv)
      | Inr len \<Rightarrow>
          if cap < len then (Inl (Frame (TooLarge len)), recv)
          else if length recv < len then (Inl Closed, [])
          else (case decode take_from (take len recv) of
                  Inl e \<Rightarrow> (Inl (Frame e), drop len recv)
                | Inr m \<Rightarrow> (Inr m, drop len recv)))"
| "read_capped take_from cap _ = (Inl Closed, [])"

definition read_frame :: "(bytes \<Rightarrow> 'e + 'm \<times> bytes) \<Rightarrow> bytes \<Rightarrow> ('e read_error + 'm) \<times> bytes" where
  "read_frame take_from recv = read_capped take_from MAX_FRAME_BYTES recv"

definition read_handshake ::
  "(bytes \<Rightarrow> 'e + 'm \<times> bytes) \<Rightarrow> bytes \<Rightarrow> ('e read_error + 'm) \<times> bytes" where
  "read_handshake take_from recv = read_capped take_from HANDSHAKE_FRAME_BYTES recv"

lemma read_capped_frame:
  assumes "length body \<le> MAX_FRAME_BYTES" "length body \<le> cap" "decode take_from body = Inr m"
  shows "read_capped take_from cap (to_be_bytes (of_nat (length body)) @ body @ rest) = (Inr m, rest)"
proof -
  let ?w = "of_nat (length body) :: u32"
  have len: "unat ?w = length body"
    using assms(1) by (intro unat_of_nat_small) (simp add: MAX_FRAME_BYTES_def)
  have bl: "body_len ?w = Inr (length body)"
    using assms(1) unfolding body_len_def len Let_def by simp
  show ?thesis
    unfolding to_be_bytes_def using assms(2,3)
    by (simp only: append.simps read_capped.simps from_to_be_bytes bl) simp
qed

subsection \<open>Datagram support\<close>

datatype datagram_error = Unsupported | TooSmall nat

definition check_datagrams :: "nat option \<Rightarrow> datagram_error + unit" where
  "check_datagrams max_datagram_size =
     (case max_datagram_size of
        None \<Rightarrow> Inl Unsupported
      | Some n \<Rightarrow> if n < DATAGRAM_PAYLOAD_FLOOR then Inl (TooSmall n) else Inr ())"

end
