(* ===== verification/Rate_Limits.thy ===== *)
theory Rate_Limits
  imports Roles
begin

text \<open>
  The server's admission control, \<open>limits.rs\<close> of \<open>throcc-server\<close>: token buckets, one bucket per
  key with lazy forgetting, the gate that caps concurrent holders, the grouping of addresses
  into sources, networks and regions, the arrival limiter and the sliding window of enrollment
  runs. Token arithmetic is \<open>f64\<close>, rounded as the hardware rounds it.

  The locale \<open>meter\<close> is the contract the clients of a bucket rely on: what \<open>holds\<close> promised,
  \<open>take\<close> at the same instant delivers. It is interpreted for a single bucket and for a keyed
  family of buckets.
\<close>

subsection \<open>Token buckets\<close>

record token_bucket =
  capacity :: f64
  per_second :: f64
  tokens :: f64
  updated :: instant

definition bucket_full :: "f64 \<Rightarrow> f64 \<Rightarrow> instant \<Rightarrow> token_bucket" where
  "bucket_full cap rate now =
     \<lparr> capacity = cap, per_second = rate, tokens = cap, updated = now \<rparr>"

definition refill :: "token_bucket \<Rightarrow> instant \<Rightarrow> token_bucket" where
  "refill b now =
     (let elapsed = as_secs_f64 (duration_since now (updated b))
      in b\<lparr> tokens := min (f64_add (tokens b) (f64_mul elapsed (per_second b))) (capacity b),
            updated := now \<rparr>)"

definition bucket_holds :: "token_bucket \<Rightarrow> f64 \<Rightarrow> instant \<Rightarrow> bool \<times> token_bucket" where
  "bucket_holds b cost now = (let b' = refill b now in (tokens b' \<ge> cost, b'))"

definition bucket_take :: "token_bucket \<Rightarrow> f64 \<Rightarrow> instant \<Rightarrow> bool \<times> token_bucket" where
  "bucket_take b cost now =
     (let (held, b') = bucket_holds b cost now
      in if \<not> held then (False, b')
         else (True, b'\<lparr> tokens := f64_sub (tokens b') cost \<rparr>))"

definition bucket_is_full :: "token_bucket \<Rightarrow> instant \<Rightarrow> bool \<times> token_bucket" where
  "bucket_is_full b now = (let b' = refill b now in (tokens b' \<ge> capacity b', b'))"

text \<open>What every bucket of the server satisfies at all times.\<close>

definition bucket_ok :: "token_bucket \<Rightarrow> bool" where
  "bucket_ok b \<longleftrightarrow> 0 \<le> tokens b \<and> tokens b \<le> capacity b \<and> 0 \<le> per_second b \<and> is_f64 (capacity b)"

lemma refill_fields [simp]:
  "capacity (refill b now) = capacity b" "per_second (refill b now) = per_second b"
  "updated (refill b now) = now" "tokens (refill b now) \<le> capacity b"
  by (simp_all add: refill_def Let_def)

lemma as_secs_f64_nonneg [simp]: "0 \<le> as_secs_f64 d"
  unfolding as_secs_f64_def f64_add_def f64_div_def f64_of_nat_def
  by (intro f64_round_nonneg add_nonneg_nonneg divide_nonneg_nonneg) auto

lemma refill_gain_nonneg:
  "0 \<le> per_second b \<Longrightarrow> 0 \<le> f64_mul (as_secs_f64 d) (per_second b)"
  unfolding f64_mul_def by (intro f64_round_nonneg mult_nonneg_nonneg) auto

lemma bucket_ok_full: "0 \<le> cap \<Longrightarrow> 0 \<le> rate \<Longrightarrow> is_f64 cap \<Longrightarrow> bucket_ok (bucket_full cap rate now)"
  by (simp add: bucket_ok_def bucket_full_def)

lemma bucket_ok_refill:
  assumes "bucket_ok b"
  shows "bucket_ok (refill b now)"
proof -
  have "0 \<le> f64_add (tokens b) (f64_mul (as_secs_f64 (duration_since now (updated b))) (per_second b))"
    unfolding f64_add_def using assms
    by (intro f64_round_nonneg add_nonneg_nonneg refill_gain_nonneg) (auto simp: bucket_ok_def)
  moreover have "0 \<le> capacity b" using assms by (auto simp: bucket_ok_def)
  ultimately show ?thesis using assms by (simp add: bucket_ok_def refill_def Let_def)
qed

text \<open>A refill never loses a whole cost the bucket already covered.\<close>

lemma refill_keeps:
  assumes "bucket_ok b" "is_f64 c" "0 \<le> c" "c \<le> tokens b"
  shows "c \<le> tokens (refill b now)"
proof -
  let ?g = "f64_mul (as_secs_f64 (duration_since now (updated b))) (per_second b)"
  have "0 \<le> ?g" using assms(1) by (intro refill_gain_nonneg) (simp add: bucket_ok_def)
  then have "f64_round c \<le> f64_round (tokens b + ?g)"
    using assms by (intro f64_round_mono) auto
  then have "c \<le> f64_add (tokens b) ?g" using assms(2) by (simp add: is_f64_def f64_add_def)
  moreover have "c \<le> capacity b" using assms by (simp add: bucket_ok_def)
  ultimately show ?thesis by (simp add: refill_def Let_def)
qed

lemma refill_full:
  assumes "bucket_ok b" "capacity b \<le> tokens b"
  shows "tokens (refill b now) = capacity b"
proof -
  have "capacity b \<le> tokens (refill b now)"
    using assms by (intro refill_keeps) (auto simp: bucket_ok_def)
  then show ?thesis using refill_fields(4) [of b now] by linarith
qed

lemma bucket_holds_simps [simp]:
  "fst (bucket_holds b c now) = (c \<le> tokens (refill b now))" "snd (bucket_holds b c now) = refill b now"
  by (simp_all add: bucket_holds_def Let_def)

lemma bucket_take_simps:
  "fst (bucket_take b c now) = (c \<le> tokens (refill b now))"
  "snd (bucket_take b c now) =
     (if c \<le> tokens (refill b now)
      then (refill b now)\<lparr> tokens := f64_sub (tokens (refill b now)) c \<rparr> else refill b now)"
  by (simp_all add: bucket_take_def bucket_holds_def Let_def)

lemma bucket_take_fields [simp]:
  "capacity (snd (bucket_take b c now)) = capacity b"
  "per_second (snd (bucket_take b c now)) = per_second b"
  "updated (snd (bucket_take b c now)) = now"
  by (simp_all add: bucket_take_simps)

lemma bucket_ok_take:
  assumes "bucket_ok b" "0 \<le> c"
  shows "bucket_ok (snd (bucket_take b c now))"
proof -
  have ok: "bucket_ok (refill b now)" using assms(1) by (rule bucket_ok_refill)
  show ?thesis
  proof (cases "c \<le> tokens (refill b now)")
    case True
    let ?t = "tokens (refill b now)"
    have "f64_round (?t - c) \<le> f64_round (capacity b)"
      using True assms(2) refill_fields(4) [of b now] by (intro f64_round_mono) linarith+
    then have "f64_sub ?t c \<le> capacity b"
      using assms(1) by (simp add: f64_sub_def bucket_ok_def is_f64_def)
    moreover have "0 \<le> f64_sub ?t c" using True by (simp add: f64_sub_def f64_round_nonneg)
    ultimately show ?thesis using True ok by (simp add: bucket_take_simps bucket_ok_def)
  next
    case False
    with ok show ?thesis by (simp add: bucket_take_simps)
  qed
qed

subsection \<open>How much a bucket grants\<close>

definition secs_of :: "duration \<Rightarrow> rat" where
  "secs_of d = of_nat d / 1000000000"

text \<open>The rounding error of one \<open>take\<close>, in tokens, besides the relative error of the rate.\<close>

definition bucket_slack :: "token_bucket \<Rightarrow> rat" where
  "bucket_slack b = 2 * capacity b * f64_eps + (7 * per_second b + 4) * f64_tiny"

fun granted :: "token_bucket \<Rightarrow> (f64 \<times> instant) list \<Rightarrow> f64" where
  "granted b [] = 0"
| "granted b ((cost, now) # ops) =
     (let (ok, b') = bucket_take b cost now in (if ok then cost else 0) + granted b' ops)"

lemma f64_eps_bounds: "0 \<le> f64_eps" "f64_eps \<le> 1 / 1000"
proof -
  have "f64_eps \<le> 2 powi (- 10)" unfolding f64_eps_def by (rule two_powi_mono) simp
  also have "\<dots> \<le> 1 / 1000" by (simp add: power_int_minus)
  finally show "f64_eps \<le> 1 / 1000" .
qed (simp add: f64_eps_def)

lemma f64_tiny_nonneg: "0 \<le> f64_tiny"
  by (simp add: f64_tiny_def)

lemma eps_factor:
  assumes "0 \<le> k" "k \<le> 10"
  shows "(1 + k * f64_eps) * (1 + f64_eps) \<le> 1 + (k + 2) * f64_eps"
proof -
  have "k * f64_eps \<le> 10 * (1 / 1000)"
    using assms f64_eps_bounds by (intro mult_mono) auto
  then have "k * f64_eps * f64_eps \<le> 1 * f64_eps"
    using f64_eps_bounds by (intro mult_right_mono) auto
  then show ?thesis by (simp add: algebra_simps)
qed

lemma round_scaled:
  assumes "0 \<le> x" "x \<le> s * (1 + k * f64_eps) + t * f64_tiny" "0 \<le> s" "0 \<le> t" "0 \<le> k" "k \<le> 10"
  shows "f64_round x \<le> s * (1 + (k + 2) * f64_eps) + (t * (1 + f64_eps) + 1) * f64_tiny"
proof -
  have "f64_round x \<le> x * (1 + f64_eps) + f64_tiny"
    using f64_round_upper [OF assms(1)] by (simp add: algebra_simps)
  also have "x * (1 + f64_eps) \<le> (s * (1 + k * f64_eps) + t * f64_tiny) * (1 + f64_eps)"
    using assms(2) f64_eps_bounds by (intro mult_right_mono) auto
  also have "\<dots> = s * ((1 + k * f64_eps) * (1 + f64_eps)) + t * (1 + f64_eps) * f64_tiny"
    by (simp add: algebra_simps)
  also have "s * ((1 + k * f64_eps) * (1 + f64_eps)) \<le> s * (1 + (k + 2) * f64_eps)"
    using eps_factor [OF assms(5,6)] assms(3) by (intro mult_left_mono)
  finally show ?thesis by (simp add: algebra_simps)
qed

lemma as_secs_f64_upper: "as_secs_f64 d \<le> secs_of d * (1 + 3 * f64_eps) + 4 * f64_tiny"
proof -
  let ?q = "d div 1000000000" and ?r = "d mod 1000000000"
  have S: "secs_of d = of_nat ?q + of_nat ?r / 1000000000"
  proof -
    have "(of_nat d :: rat) = of_nat (?q * 1000000000 + ?r)" by simp
    also have "\<dots> = of_nat ?q * 1000000000 + of_nat ?r" by (simp only: of_nat_add of_nat_mult of_nat_numeral)
    finally show ?thesis unfolding secs_of_def by (simp add: add_divide_distrib)
  qed
  have q: "f64_of_nat ?q \<le> of_nat ?q + (of_nat ?q * f64_eps + f64_tiny)"
    unfolding f64_of_nat_def by (rule f64_round_upper) simp
  have "?r < 2 ^ 53" by (rule less_trans [of _ 1000000000]) simp_all
  then have "f64_of_nat ?r = of_nat ?r"
    unfolding f64_of_nat_def using f64_nat_exact by (simp only: is_f64_def)
  then have r: "f64_div (f64_of_nat ?r) 1000000000
      \<le> of_nat ?r / 1000000000 + (of_nat ?r / 1000000000 * f64_eps + f64_tiny)"
    unfolding f64_div_def by (simp only:) (rule f64_round_upper, simp)
  let ?sum = "f64_of_nat ?q + f64_div (f64_of_nat ?r) 1000000000"
  have le: "?sum \<le> secs_of d * (1 + 1 * f64_eps) + 2 * f64_tiny"
    using q r unfolding S by (simp add: algebra_simps add_divide_distrib)
  have nn: "0 \<le> ?sum"
    unfolding f64_of_nat_def f64_div_def
    by (intro add_nonneg_nonneg f64_round_nonneg divide_nonneg_nonneg) auto
  have "as_secs_f64 d \<le> secs_of d * (1 + (1 + 2) * f64_eps) + (2 * (1 + f64_eps) + 1) * f64_tiny"
    unfolding as_secs_f64_def f64_add_def using nn le
    by (intro round_scaled) (auto simp: secs_of_def)
  also have "(2 * (1 + f64_eps) + 1) * f64_tiny \<le> 4 * f64_tiny"
    using f64_eps_bounds f64_tiny_nonneg by (intro mult_right_mono) auto
  finally show ?thesis by simp
qed

lemma refill_upper:
  assumes "bucket_ok b"
  shows "tokens (refill b now) \<le> tokens b + capacity b * f64_eps
     + per_second b * secs_of (duration_since now (updated b)) * (1 + 7 * f64_eps)
     + (7 * per_second b + 3) * f64_tiny"
proof -
  let ?r = "per_second b" and ?S = "secs_of (duration_since now (updated b))"
  let ?es = "as_secs_f64 (duration_since now (updated b))"
  let ?g = "f64_mul ?es ?r"
  have ok: "0 \<le> ?r" "0 \<le> tokens b" "tokens b \<le> capacity b" using assms by (auto simp: bucket_ok_def)
  have S0: "0 \<le> ?S" by (simp add: secs_of_def)
  have "?es * ?r \<le> (?S * (1 + 3 * f64_eps) + 4 * f64_tiny) * ?r"
    using as_secs_f64_upper ok(1) by (rule mult_right_mono)
  then have "?es * ?r \<le> (?r * ?S) * (1 + 3 * f64_eps) + (4 * ?r) * f64_tiny"
    by (simp add: algebra_simps)
  then have g: "?g \<le> (?r * ?S) * (1 + (3 + 2) * f64_eps) + (4 * ?r * (1 + f64_eps) + 1) * f64_tiny"
    unfolding f64_mul_def using ok S0 by (intro round_scaled) auto
  have "4 * ?r * (1 + f64_eps) \<le> 4 * ?r * (1 + 1 / 1000)"
    using ok f64_eps_bounds by (intro mult_left_mono) auto
  then have "(4 * ?r * (1 + f64_eps) + 1) * f64_tiny \<le> (5 * ?r + 1) * f64_tiny"
    using f64_tiny_nonneg ok by (intro mult_right_mono) auto
  with g have g': "?g \<le> (?r * ?S) * (1 + 5 * f64_eps) + (5 * ?r + 1) * f64_tiny" by simp
  have g0: "0 \<le> ?g" using ok(1) by (rule refill_gain_nonneg)
  have "tokens (refill b now) \<le> f64_add (tokens b) ?g"
    by (simp add: refill_def Let_def)
  also have "\<dots> \<le> (tokens b + ?g) + ((tokens b + ?g) * f64_eps + f64_tiny)"
    unfolding f64_add_def using ok g0 by (intro f64_round_upper) auto
  also have "\<dots> = tokens b + tokens b * f64_eps + ?g * (1 + f64_eps) + f64_tiny"
    by (simp add: algebra_simps)
  also have "tokens b * f64_eps \<le> capacity b * f64_eps"
    using ok f64_eps_bounds by (intro mult_right_mono) auto
  also have "?g * (1 + f64_eps)
      \<le> ((?r * ?S) * (1 + 5 * f64_eps) + (5 * ?r + 1) * f64_tiny) * (1 + f64_eps)"
    using g' f64_eps_bounds by (intro mult_right_mono) auto
  also have "\<dots> = (?r * ?S) * ((1 + 5 * f64_eps) * (1 + f64_eps)) + (5 * ?r + 1) * (1 + f64_eps) * f64_tiny"
    by (simp add: algebra_simps)
  also have "(?r * ?S) * ((1 + 5 * f64_eps) * (1 + f64_eps)) \<le> (?r * ?S) * (1 + (5 + 2) * f64_eps)"
    using eps_factor [of 5] ok S0 by (intro mult_left_mono) auto
  also have "(5 * ?r + 1) * (1 + f64_eps) * f64_tiny \<le> (5 * ?r + 1) * (1 + 1 / 1000) * f64_tiny"
    using ok f64_eps_bounds f64_tiny_nonneg by (intro mult_right_mono mult_left_mono) auto
  also have "(5 * ?r + 1) * (1 + 1 / 1000) * f64_tiny \<le> (7 * ?r + 2) * f64_tiny"
    using ok f64_tiny_nonneg by (intro mult_right_mono) auto
  finally show ?thesis by (simp add: algebra_simps)
qed

lemma bucket_take_upper:
  assumes "bucket_ok b" "0 \<le> c"
  shows "(if fst (bucket_take b c now) then c else 0) + tokens (snd (bucket_take b c now))
     \<le> tokens b + per_second b * secs_of (duration_since now (updated b)) * (1 + 7 * f64_eps)
        + bucket_slack b"
proof -
  let ?t = "tokens (refill b now)"
  have ok: "bucket_ok (refill b now)" using assms(1) by (rule bucket_ok_refill)
  have cap: "0 \<le> capacity b * f64_eps" "0 \<le> capacity b"
    using assms(1) f64_eps_bounds by (auto simp: bucket_ok_def intro: mult_nonneg_nonneg)
  note up = refill_upper [OF assms(1), of now]
  show ?thesis
  proof (cases "c \<le> ?t")
    case True
    have "f64_sub ?t c \<le> (?t - c) + ((?t - c) * f64_eps + f64_tiny)"
      unfolding f64_sub_def using True by (intro f64_round_upper) simp
    also have "(?t - c) * f64_eps \<le> capacity b * f64_eps"
      using assms(2) f64_eps_bounds refill_fields(4) [of b now] by (intro mult_right_mono) linarith+
    finally show ?thesis
      using True up by (simp add: bucket_take_simps bucket_slack_def algebra_simps)
  next
    case False
    then show ?thesis
      using up cap f64_tiny_nonneg by (simp add: bucket_take_simps bucket_slack_def algebra_simps)
  qed
qed

lemma secs_of_split:
  "a \<le> b \<Longrightarrow> b \<le> c \<Longrightarrow>
     secs_of (duration_since c a) = secs_of (duration_since b a) + secs_of (duration_since c b)"
  by (simp add: secs_of_def duration_since_def of_nat_diff add_divide_distrib [symmetric])

lemma bucket_slack_take [simp]: "bucket_slack (snd (bucket_take b c now)) = bucket_slack b"
  by (simp add: bucket_slack_def)

lemma granted_upper:
  assumes "bucket_ok b" "\<forall>op \<in> set ops. 0 \<le> fst op" "sorted (updated b # map snd ops)"
  shows "granted b ops \<le> tokens b
     + per_second b * secs_of (duration_since (last (updated b # map snd ops)) (updated b))
         * (1 + 7 * f64_eps)
     + of_nat (length ops) * bucket_slack b"
  using assms
proof (induction ops arbitrary: b)
  case Nil
  then show ?case by (simp add: duration_since_def secs_of_def bucket_ok_def)
next
  case (Cons op ops)
  obtain c now where op: "op = (c, now)" by (cases op)
  let ?b = "snd (bucket_take b c now)" and ?l = "last (now # map snd ops)"
  let ?R = "\<lambda>d. per_second b * secs_of d * (1 + 7 * f64_eps)"
  have c: "0 \<le> c" and ok: "bucket_ok ?b"
    using Cons.prems op bucket_ok_take by auto
  have srt: "sorted (updated ?b # map snd ops)" "updated b \<le> now" "now \<le> ?l"
    using Cons.prems(3) op by (auto simp: sorted_wrt_append last_map)
  have IH: "granted ?b ops \<le> tokens ?b + ?R (duration_since ?l now)
      + of_nat (length ops) * bucket_slack b"
    using Cons.IH [OF ok _ srt(1)] Cons.prems(2) by simp
  have split: "?R (duration_since ?l (updated b))
      = ?R (duration_since now (updated b)) + ?R (duration_since ?l now)"
    using secs_of_split [OF srt(2,3)] by (simp add: algebra_simps)
  show ?case
    using IH bucket_take_upper [OF Cons.prems(1) c, of now] split
    by (simp add: op split_beta algebra_simps)
qed

text \<open>
  C31. What a token bucket grants: whatever is asked of a full bucket, and however often, over
  any span of time it grants at most its burst plus its rate times the span, up to the rounding
  of \<open>f64\<close>: seven parts in 2 to the 53 of the rate and, per request, two parts in 2 to the 53 of
  the burst.
\<close>

theorem bucket_rate_bound:
  assumes "0 \<le> cap" "0 \<le> rate" "is_f64 cap"
    and "\<forall>op \<in> set ops. 0 \<le> fst op" and "sorted (start # map snd ops)"
  shows "granted (bucket_full cap rate start) ops
     \<le> cap + rate * secs_of (last (start # map snd ops) - start) * (1 + 7 * f64_eps)
        + of_nat (length ops) * (2 * cap * f64_eps + (7 * rate + 4) * f64_tiny)"
  using granted_upper [OF bucket_ok_full [OF assms(1,2,3), of start], of ops] assms(4,5)
  by (simp add: bucket_full_def bucket_slack_def duration_since_def)

theorem bucket_rate_bound_witness:
  "granted (bucket_full 2 1 0) [(1, 0), (1, 0), (1, 0), (1, 1000000000)] = 3 \<and>
   granted (bucket_full 2 1 0) [(1, 0), (1, 0), (1, 0), (1, 1000000000)]
     \<le> 2 + 1 * secs_of 1000000000 * (1 + 7 * f64_eps) + 4 * (4 * f64_eps + 11 * f64_tiny)"
proof
  show "granted (bucket_full 2 1 0) [(1, 0), (1, 0), (1, 0), (1, 1000000000)] = 3"
    by (simp add: bucket_full_def bucket_take_def bucket_holds_def refill_def Let_def
        as_secs_f64_def duration_since_def f64_eval)
  have "is_f64 2" by (simp add: is_f64_def f64_eval)
  from bucket_rate_bound [OF _ _ this, of 1 "[(1, 0), (1, 0), (1, 0), (1, 1000000000)]" 0]
  show "granted (bucket_full 2 1 0) [(1, 0), (1, 0), (1, 0), (1, 1000000000)]
     \<le> 2 + 1 * secs_of 1000000000 * (1 + 7 * f64_eps) + 4 * (4 * f64_eps + 11 * f64_tiny)"
    by simp
qed

subsection \<open>The contract of a meter\<close>

locale meter =
  fixes holds :: "'b \<Rightarrow> f64 \<Rightarrow> instant \<Rightarrow> bool \<times> 'b"
    and spend :: "'b \<Rightarrow> f64 \<Rightarrow> instant \<Rightarrow> bool \<times> 'b"
    and ok :: "'b \<Rightarrow> bool"
  assumes spend_after_holds:
      "ok b \<Longrightarrow> is_f64 c \<Longrightarrow> 0 \<le> c \<Longrightarrow> fst (holds b c now) \<Longrightarrow>
         fst (spend (snd (holds b c now)) c now)"
    and spend_iff_holds: "ok b \<Longrightarrow> fst (spend b c now) = fst (holds b c now)"
    and ok_holds: "ok b \<Longrightarrow> ok (snd (holds b c now))"
    and ok_spend: "ok b \<Longrightarrow> 0 \<le> c \<Longrightarrow> ok (snd (spend b c now))"
begin

text \<open>Asking two meters first and charging both then never charges only one of them.\<close>

lemma charge_both:
  assumes "ok a" "ok b" "is_f64 c" "0 \<le> c" "is_f64 d" "0 \<le> d"
    and "fst (holds a c now)" "fst (holds b d now)"
  shows "fst (spend (snd (holds a c now)) c now) \<and> fst (spend (snd (holds b d now)) d now)"
  using assms by (blast intro: spend_after_holds)

lemma ok_charge:
  assumes "ok a" "0 \<le> c"
  shows "ok (snd (spend (snd (holds a c now)) c now))"
  using assms by (blast intro: ok_holds ok_spend)

end

interpretation bucket: meter bucket_holds bucket_take bucket_ok
proof unfold_locales
  fix b :: token_bucket and c now
  assume ok: "bucket_ok b"
  show "fst (bucket_take b c now) = fst (bucket_holds b c now)" by (simp add: bucket_take_simps)
  show "bucket_ok (snd (bucket_holds b c now))" using ok by (simp add: bucket_ok_refill)
  show "bucket_ok (snd (bucket_take b c now))" if "0 \<le> c" using ok that by (rule bucket_ok_take)
  show "fst (bucket_take (snd (bucket_holds b c now)) c now)"
    if "is_f64 c" "0 \<le> c" "fst (bucket_holds b c now)"
    using refill_keeps [OF bucket_ok_refill [OF ok]] that by (simp add: bucket_take_simps)
qed

subsection \<open>One bucket per key\<close>

definition BUCKET_SWEEP :: duration where "BUCKET_SWEEP = from_secs 1"

record 'k buckets =
  b_capacity :: f64
  b_per_second :: f64
  b_buckets :: "('k, token_bucket) fmap"
  b_next_sweep :: "instant option"

definition buckets_new :: "f64 \<Rightarrow> f64 \<Rightarrow> 'k buckets" where
  "buckets_new cap rate =
     \<lparr> b_capacity = cap, b_per_second = rate, b_buckets = fmempty, b_next_sweep = None \<rparr>"

definition sweep_due :: "instant option \<Rightarrow> instant \<Rightarrow> bool" where
  "sweep_due next now = (case next of None \<Rightarrow> True | Some t \<Rightarrow> t \<le> now)"

text \<open>
  \<open>bucket\<close> hands out a mutable reference; here it returns the family with the entry in place
  and the entry, which the callers write back.
\<close>

definition buckets_bucket ::
  "'k buckets \<Rightarrow> 'k \<Rightarrow> instant \<Rightarrow> token_bucket \<times> 'k buckets" where
  "buckets_bucket bs key now =
     (let bs' =
        (if sweep_due (b_next_sweep bs) now
         then bs\<lparr> b_buckets := fmretain (\<lambda>_ b. \<not> capacity b \<le> tokens b)
                               (fmmap (\<lambda>b. snd (bucket_is_full b now)) (b_buckets bs)),
                 b_next_sweep := Some (now + BUCKET_SWEEP) \<rparr>
         else bs)
      in case fmlookup (b_buckets bs') key of
           Some b \<Rightarrow> (b, bs')
         | None \<Rightarrow>
             (let b = bucket_full (b_capacity bs') (b_per_second bs') now
              in (b, bs'\<lparr> b_buckets := fmupd key b (b_buckets bs') \<rparr>)))"

definition buckets_take :: "'k buckets \<Rightarrow> 'k \<Rightarrow> f64 \<Rightarrow> instant \<Rightarrow> bool \<times> 'k buckets" where
  "buckets_take bs key cost now =
     (let (b, bs') = buckets_bucket bs key now; (taken, b') = bucket_take b cost now
      in (taken, bs'\<lparr> b_buckets := fmupd key b' (b_buckets bs') \<rparr>))"

definition buckets_holds :: "'k buckets \<Rightarrow> 'k \<Rightarrow> f64 \<Rightarrow> instant \<Rightarrow> bool \<times> 'k buckets" where
  "buckets_holds bs key cost now =
     (let (b, bs') = buckets_bucket bs key now; (held, b') = bucket_holds b cost now
      in (held, bs'\<lparr> b_buckets := fmupd key b' (b_buckets bs') \<rparr>))"

definition bucket_of :: "f64 \<Rightarrow> f64 \<Rightarrow> token_bucket \<Rightarrow> bool" where
  "bucket_of cap rate b \<longleftrightarrow> bucket_ok b \<and> capacity b = cap \<and> per_second b = rate"

definition buckets_ok :: "'k buckets \<Rightarrow> bool" where
  "buckets_ok bs \<longleftrightarrow>
     0 \<le> b_capacity bs \<and> 0 \<le> b_per_second bs \<and> is_f64 (b_capacity bs) \<and>
     fmpred (\<lambda>_. bucket_of (b_capacity bs) (b_per_second bs)) (b_buckets bs)"

lemma buckets_ok_new: "0 \<le> cap \<Longrightarrow> 0 \<le> rate \<Longrightarrow> is_f64 cap \<Longrightarrow> buckets_ok (buckets_new cap rate)"
  by (simp add: buckets_ok_def buckets_new_def)

lemma bucket_of_closed:
  assumes "bucket_of cap rate b"
  shows "bucket_of cap rate (refill b now)"
    and "0 \<le> c \<Longrightarrow> bucket_of cap rate (snd (bucket_take b c now))"
  using assms by (auto simp: bucket_of_def bucket_ok_refill bucket_ok_take)

lemma buckets_bucket_fields:
  assumes "buckets_bucket bs key now = (b, bs')"
  shows "b_capacity bs' = b_capacity bs" "b_per_second bs' = b_per_second bs"
    and "fmlookup (b_buckets bs') key = Some b" "\<not> sweep_due (b_next_sweep bs') now"
  using assms
  by (auto simp: buckets_bucket_def Let_def sweep_due_def BUCKET_SWEEP_def from_secs_def
      split: if_splits option.splits)

lemma buckets_bucket_ok:
  assumes "buckets_ok bs" "buckets_bucket bs key now = (b, bs')"
  shows "buckets_ok bs'" "bucket_of (b_capacity bs) (b_per_second bs) b"
proof -
  let ?of = "bucket_of (b_capacity bs) (b_per_second bs)"
  have fresh: "?of (bucket_full (b_capacity bs) (b_per_second bs) now)"
    using assms(1) by (auto simp: buckets_ok_def bucket_of_def bucket_ok_full) (simp_all add: bucket_full_def)
  have old: "fmpred (\<lambda>_. ?of) (b_buckets bs)" using assms(1) by (simp add: buckets_ok_def)
  then have swept: "fmpred (\<lambda>_. ?of) (fmretain (\<lambda>_ b. \<not> capacity b \<le> tokens b)
      (fmmap (\<lambda>b. snd (bucket_is_full b now)) (b_buckets bs)))"
    by (auto simp: fmpred_iff bucket_is_full_def Let_def bucket_of_closed split: option.splits if_splits)
  have all: "fmpred (\<lambda>_. ?of) (b_buckets bs')"
    using assms(2) old swept fresh
    by (auto simp: buckets_bucket_def Let_def split: if_splits option.splits)
  then show "buckets_ok bs'" using assms(1) buckets_bucket_fields [OF assms(2)] by (simp add: buckets_ok_def)
  show "?of b" using all buckets_bucket_fields(3) [OF assms(2)] by (auto simp: fmpred_iff)
qed

lemma buckets_ok_upd:
  assumes "buckets_ok bs" "bucket_of (b_capacity bs) (b_per_second bs) b"
  shows "buckets_ok (bs\<lparr> b_buckets := fmupd key b (b_buckets bs) \<rparr>)"
  using assms by (auto simp: buckets_ok_def)

lemma buckets_bucket_settled:
  assumes "\<not> sweep_due (b_next_sweep bs) now" "fmlookup (b_buckets bs) key = Some b"
  shows "buckets_bucket bs key now = (b, bs)"
  using assms by (simp add: buckets_bucket_def)

interpretation keyed: meter "\<lambda>bs. buckets_holds bs key" "\<lambda>bs. buckets_take bs key" buckets_ok
  for key
proof unfold_locales
  fix bs :: "'a buckets" and c now
  assume ok: "buckets_ok bs"
  obtain b bs' where bb: "buckets_bucket bs key now = (b, bs')"
    by (cases "buckets_bucket bs key now")
  note ok' = buckets_bucket_ok [OF ok bb] and flds = buckets_bucket_fields [OF bb]
  show "fst (buckets_take bs key c now) = fst (buckets_holds bs key c now)"
    by (simp add: buckets_take_def buckets_holds_def bb split_beta bucket_take_simps)
  show "buckets_ok (snd (buckets_holds bs key c now))"
    using ok' flds by (simp add: buckets_holds_def bb split_beta bucket_of_closed buckets_ok_upd)
  show "buckets_ok (snd (buckets_take bs key c now))" if "0 \<le> c"
    using ok' flds that by (simp add: buckets_take_def bb split_beta bucket_of_closed buckets_ok_upd)
  assume c: "is_f64 c" "0 \<le> c" and held: "fst (buckets_holds bs key c now)"
  let ?bs = "snd (buckets_holds bs key c now)"
  have bs: "?bs = bs'\<lparr> b_buckets := fmupd key (refill b now) (b_buckets bs') \<rparr>"
    by (simp add: buckets_holds_def bb split_beta)
  have again: "buckets_bucket ?bs key now = (refill b now, ?bs)"
    using flds(4) by (intro buckets_bucket_settled) (simp_all add: bs)
  have "c \<le> tokens (refill b now)" using held by (simp add: buckets_holds_def bb split_beta)
  then have "c \<le> tokens (refill (refill b now) now)"
    using refill_keeps [of "refill b now" c now] ok'(2) c by (simp add: bucket_of_def bucket_ok_refill)
  then show "fst (buckets_take ?bs key c now)"
    by (simp add: buckets_take_def again split_beta bucket_take_simps)
qed

subsection \<open>Forgetting full buckets changes nothing\<close>

text \<open>
  The reference: the same family that refills its buckets when the sweep is due but never
  forgets one.
\<close>

definition keep_bucket :: "'k buckets \<Rightarrow> 'k \<Rightarrow> instant \<Rightarrow> token_bucket \<times> 'k buckets" where
  "keep_bucket bs key now =
     (let bs' =
        (if sweep_due (b_next_sweep bs) now
         then bs\<lparr> b_buckets := fmmap (\<lambda>b. refill b now) (b_buckets bs),
                 b_next_sweep := Some (now + BUCKET_SWEEP) \<rparr>
         else bs)
      in case fmlookup (b_buckets bs') key of
           Some b \<Rightarrow> (b, bs')
         | None \<Rightarrow>
             (let b = bucket_full (b_capacity bs') (b_per_second bs') now
              in (b, bs'\<lparr> b_buckets := fmupd key b (b_buckets bs') \<rparr>)))"

datatype 'k bucket_op = TakeOp 'k f64 instant | HoldsOp 'k f64 instant

fun apply_op :: "('k buckets \<Rightarrow> 'k \<Rightarrow> instant \<Rightarrow> token_bucket \<times> 'k buckets) \<Rightarrow>
    'k buckets \<Rightarrow> 'k bucket_op \<Rightarrow> bool \<times> 'k buckets" where
  "apply_op bucket bs (TakeOp key cost now) =
     (let (b, bs') = bucket bs key now; (taken, b') = bucket_take b cost now
      in (taken, bs'\<lparr> b_buckets := fmupd key b' (b_buckets bs') \<rparr>))"
| "apply_op bucket bs (HoldsOp key cost now) =
     (let (b, bs') = bucket bs key now; (held, b') = bucket_holds b cost now
      in (held, bs'\<lparr> b_buckets := fmupd key b' (b_buckets bs') \<rparr>))"

fun answers :: "('k buckets \<Rightarrow> 'k \<Rightarrow> instant \<Rightarrow> token_bucket \<times> 'k buckets) \<Rightarrow>
    'k buckets \<Rightarrow> 'k bucket_op list \<Rightarrow> bool list" where
  "answers bucket bs [] = []"
| "answers bucket bs (op # ops) =
     (let (r, bs') = apply_op bucket bs op in r # answers bucket bs' ops)"

definition same_family :: "'k buckets \<Rightarrow> 'k buckets \<Rightarrow> bool" where
  "same_family bs ks \<longleftrightarrow>
     buckets_ok bs \<and> buckets_ok ks \<and> b_capacity bs = b_capacity ks \<and>
     b_per_second bs = b_per_second ks \<and> b_next_sweep bs = b_next_sweep ks \<and>
     (\<forall>k b. fmlookup (b_buckets bs) k = Some b \<longrightarrow> fmlookup (b_buckets ks) k = Some b) \<and>
     (\<forall>k b. fmlookup (b_buckets bs) k = None \<longrightarrow> fmlookup (b_buckets ks) k = Some b \<longrightarrow>
        capacity b \<le> tokens b)"

fun op_cost :: "'k bucket_op \<Rightarrow> f64" where
  "op_cost (TakeOp _ c _) = c"
| "op_cost (HoldsOp _ c _) = c"

lemma refill_full_eq:
  assumes "bucket_of cap rate b" "capacity b \<le> tokens b"
  shows "refill b now = bucket_full cap rate now"
proof -
  have "tokens (refill b now) = cap" using assms refill_full by (auto simp: bucket_of_def)
  moreover have "capacity (refill b now) = cap" "per_second (refill b now) = rate"
    using assms by (auto simp: bucket_of_def)
  ultimately show ?thesis by (intro token_bucket.equality) (simp_all add: bucket_full_def)
qed

lemma refill_fresh:
  "0 \<le> cap \<Longrightarrow> 0 \<le> rate \<Longrightarrow> is_f64 cap \<Longrightarrow>
     refill (bucket_full cap rate now) now = bucket_full cap rate now"
  by (rule refill_full_eq) (auto simp: bucket_of_def bucket_ok_full, auto simp: bucket_full_def)

lemma keep_bucket_ok:
  assumes "buckets_ok bs" "keep_bucket bs key now = (b, bs')"
  shows "buckets_ok bs'" "bucket_of (b_capacity bs) (b_per_second bs) b"
    "b_capacity bs' = b_capacity bs" "b_per_second bs' = b_per_second bs"
proof -
  let ?of = "bucket_of (b_capacity bs) (b_per_second bs)"
  have fresh: "?of (bucket_full (b_capacity bs) (b_per_second bs) now)"
    using assms(1) by (auto simp: buckets_ok_def bucket_of_def bucket_ok_full) (simp_all add: bucket_full_def)
  have old: "fmpred (\<lambda>_. ?of) (b_buckets bs)" using assms(1) by (simp add: buckets_ok_def)
  have all: "fmpred (\<lambda>_. ?of) (b_buckets bs')" "?of b"
    using assms(2) old fresh
    by (auto simp: keep_bucket_def Let_def fmpred_iff bucket_of_closed split: if_splits option.splits)
  show flds: "b_capacity bs' = b_capacity bs" "b_per_second bs' = b_per_second bs"
    using assms(2) by (auto simp: keep_bucket_def Let_def split: if_splits option.splits)
  show "buckets_ok bs'" using all(1) assms(1) flds by (simp add: buckets_ok_def)
  show "?of b" by (rule all)
qed

lemma same_family_swept:
  assumes sf: "same_family bs ks"
  shows "same_family
      (bs\<lparr> b_buckets := fmretain (\<lambda>_ b. \<not> capacity b \<le> tokens b)
                (fmmap (\<lambda>b. snd (bucket_is_full b now)) (b_buckets bs)), b_next_sweep := n \<rparr>)
      (ks\<lparr> b_buckets := fmmap (\<lambda>b. refill b now) (b_buckets ks), b_next_sweep := n \<rparr>)"
    (is "same_family ?bs ?ks")
proof -
  let ?of = "bucket_of (b_capacity bs) (b_per_second bs)"
  have kept: "fmlookup (b_buckets ks) k = Some b \<Longrightarrow> ?of b" for k b
    using sf by (auto simp: same_family_def buckets_ok_def fmpred_iff)
  have mine: "fmlookup (b_buckets bs) k = Some b \<Longrightarrow> ?of b" for k b
    using sf by (auto simp: same_family_def buckets_ok_def fmpred_iff)
  have snd_full: "snd (bucket_is_full b now) = refill b now" for b
    by (simp add: bucket_is_full_def Let_def)
  have full: "capacity b \<le> tokens (refill b now)"
    if "fmlookup (b_buckets ks) k = Some b" "capacity b \<le> tokens b" for k b
    using refill_full [of b now] kept [OF that(1)] that(2) by (simp add: bucket_of_def)
  have "fmlookup (b_buckets ?bs) k = Some b \<Longrightarrow> fmlookup (b_buckets ?ks) k = Some b" for k b
    using sf by (auto simp: same_family_def snd_full split: option.splits if_splits)
  moreover have "capacity b \<le> tokens b"
    if "fmlookup (b_buckets ?bs) k = None" "fmlookup (b_buckets ?ks) k = Some b" for k b
    using sf full that by (cases "fmlookup (b_buckets bs) k")
      (auto simp: same_family_def snd_full split: option.splits if_splits)
  moreover have "buckets_ok ?bs" "buckets_ok ?ks"
    using sf mine kept
    by (auto simp: same_family_def buckets_ok_def fmpred_iff snd_full bucket_of_closed
        split: option.splits if_splits)
  ultimately show ?thesis using sf by (simp add: same_family_def)
qed

lemma same_family_bucket:
  assumes sf: "same_family bs ks"
    and bb: "buckets_bucket bs key now = (b, bs')" and kb: "keep_bucket ks key now = (c, ks')"
  shows "refill b now = refill c now"
    and "\<And>x. bucket_of (b_capacity bs) (b_per_second bs) x \<Longrightarrow>
          same_family (bs'\<lparr> b_buckets := fmupd key x (b_buckets bs') \<rparr>)
                      (ks'\<lparr> b_buckets := fmupd key x (b_buckets ks') \<rparr>)"
proof -
  define bs1 where "bs1 = (if sweep_due (b_next_sweep bs) now
    then bs\<lparr> b_buckets := fmretain (\<lambda>_ b. \<not> capacity b \<le> tokens b)
              (fmmap (\<lambda>b. snd (bucket_is_full b now)) (b_buckets bs)),
            b_next_sweep := Some (now + BUCKET_SWEEP) \<rparr> else bs)"
  define ks1 where "ks1 = (if sweep_due (b_next_sweep ks) now
    then ks\<lparr> b_buckets := fmmap (\<lambda>b. refill b now) (b_buckets ks),
            b_next_sweep := Some (now + BUCKET_SWEEP) \<rparr> else ks)"
  have "b_next_sweep bs = b_next_sweep ks" using sf by (simp add: same_family_def)
  then have sf1: "same_family bs1 ks1"
    using sf same_family_swept [OF sf] by (simp add: bs1_def ks1_def)
  have caps: "b_capacity bs1 = b_capacity bs" "b_per_second bs1 = b_per_second bs"
    "b_capacity ks1 = b_capacity bs" "b_per_second ks1 = b_per_second bs"
    using sf by (auto simp: bs1_def ks1_def same_family_def)
  have cs: "0 \<le> b_capacity bs" "0 \<le> b_per_second bs" "is_f64 (b_capacity bs)"
    using sf by (auto simp: same_family_def buckets_ok_def)
  let ?fresh = "bucket_full (b_capacity bs) (b_per_second bs) now"
  have b: "b = (case fmlookup (b_buckets bs1) key of Some b \<Rightarrow> b | None \<Rightarrow> ?fresh)"
    and bs': "bs' = (case fmlookup (b_buckets bs1) key of Some _ \<Rightarrow> bs1
        | None \<Rightarrow> bs1\<lparr> b_buckets := fmupd key ?fresh (b_buckets bs1) \<rparr>)"
    using bb caps by (auto simp: buckets_bucket_def bs1_def [symmetric] Let_def split: option.splits)
  have c: "c = (case fmlookup (b_buckets ks1) key of Some b \<Rightarrow> b | None \<Rightarrow> ?fresh)"
    and ks': "ks' = (case fmlookup (b_buckets ks1) key of Some _ \<Rightarrow> ks1
        | None \<Rightarrow> ks1\<lparr> b_buckets := fmupd key ?fresh (b_buckets ks1) \<rparr>)"
    using kb caps by (auto simp: keep_bucket_def ks1_def [symmetric] Let_def split: option.splits)
  have rel: "\<And>k b. fmlookup (b_buckets bs1) k = Some b \<Longrightarrow> fmlookup (b_buckets ks1) k = Some b"
    "\<And>k b. fmlookup (b_buckets bs1) k = None \<Longrightarrow> fmlookup (b_buckets ks1) k = Some b \<Longrightarrow>
       capacity b \<le> tokens b"
    using sf1 by (auto simp: same_family_def)
  have of_ks: "fmlookup (b_buckets ks1) key = Some d \<Longrightarrow> bucket_of (b_capacity bs) (b_per_second bs) d" for d
    using sf1 caps by (auto simp: same_family_def buckets_ok_def fmpred_iff)
  show "refill b now = refill c now"
    using rel [of key] of_ks refill_full_eq refill_fresh [OF cs]
    unfolding b c by (cases "fmlookup (b_buckets bs1) key") (auto split: option.splits)
  show "same_family (bs'\<lparr> b_buckets := fmupd key x (b_buckets bs') \<rparr>)
      (ks'\<lparr> b_buckets := fmupd key x (b_buckets ks') \<rparr>)"
    if "bucket_of (b_capacity bs) (b_per_second bs) x" for x
  proof -
    have bs: "bs'\<lparr> b_buckets := fmupd key x (b_buckets bs') \<rparr> = bs1\<lparr> b_buckets := fmupd key x (b_buckets bs1) \<rparr>"
      unfolding bs' by (simp split: option.splits)
    have ks: "ks'\<lparr> b_buckets := fmupd key x (b_buckets ks') \<rparr> = ks1\<lparr> b_buckets := fmupd key x (b_buckets ks1) \<rparr>"
      unfolding ks' by (simp split: option.splits)
    show ?thesis
      using sf1 that caps rel unfolding bs ks same_family_def buckets_ok_def by auto
  qed
qed

lemma same_family_op:
  assumes "same_family bs ks" "0 \<le> op_cost op"
  shows "fst (apply_op buckets_bucket bs op) = fst (apply_op keep_bucket ks op)"
    "same_family (snd (apply_op buckets_bucket bs op)) (snd (apply_op keep_bucket ks op))"
proof -
  obtain key cost now where op: "op = TakeOp key cost now \<or> op = HoldsOp key cost now"
    by (cases op) auto
  obtain b bs' where bb: "buckets_bucket bs key now = (b, bs')" by (cases "buckets_bucket bs key now")
  obtain c ks' where kb: "keep_bucket ks key now = (c, ks')" by (cases "keep_bucket ks key now")
  note sim = same_family_bucket [OF assms(1) bb kb]
  have take: "bucket_take b cost now = bucket_take c cost now"
    and holds: "bucket_holds b cost now = bucket_holds c cost now"
    using sim(1) by (simp_all add: bucket_take_def bucket_holds_def)
  have "buckets_ok bs" using assms(1) by (simp add: same_family_def)
  then have "bucket_of (b_capacity bs) (b_per_second bs) b" using bb by (rule buckets_bucket_ok)
  then have closed: "bucket_of (b_capacity bs) (b_per_second bs) (refill c now)"
    "op = TakeOp key cost now \<Longrightarrow> bucket_of (b_capacity bs) (b_per_second bs) (snd (bucket_take c cost now))"
    using bucket_of_closed assms(2) sim(1) take by (metis, metis op_cost.simps(1))
  show "fst (apply_op buckets_bucket bs op) = fst (apply_op keep_bucket ks op)"
    using op take sim(1) by (auto simp: bb kb split_beta)
  show "same_family (snd (apply_op buckets_bucket bs op)) (snd (apply_op keep_bucket ks op))"
    using op sim closed take by (auto simp: bb kb split_beta)
qed

lemma same_family_answers:
  assumes "same_family bs ks" "\<forall>op \<in> set ops. 0 \<le> op_cost op"
  shows "answers buckets_bucket bs ops = answers keep_bucket ks ops"
  using assms
proof (induction ops arbitrary: bs ks)
  case (Cons op ops)
  from Cons.prems have cost: "0 \<le> op_cost op" by simp
  from same_family_op [OF Cons.prems(1) cost] Cons show ?case by (simp add: split_beta)
qed simp

text \<open>
  C32. Forgetting full buckets is invisible: for every sequence of \<open>take\<close> and \<open>holds\<close> over any keys,
  costs and instants, the family that forgets the buckets it finds full at a sweep gives the
  same answers as one that keeps every bucket forever, bit for bit in \<open>f64\<close>.
\<close>

theorem forgetting_is_invisible:
  assumes "0 \<le> cap" "0 \<le> rate" "is_f64 cap" and "\<forall>op \<in> set ops. 0 \<le> op_cost op"
  shows "answers buckets_bucket (buckets_new cap rate) ops
       = answers keep_bucket (buckets_new cap rate) ops"
  using assms(4) buckets_ok_new [OF assms(1-3)]
  by (intro same_family_answers) (auto simp: same_family_def buckets_new_def)

theorem forgetting_is_invisible_witness:
  "answers buckets_bucket (buckets_new 1 1)
     [TakeOp (1::nat) 1 0, TakeOp 1 1 0, TakeOp 2 1 5000000000, TakeOp 1 1 5000000000]
   = answers keep_bucket (buckets_new 1 1)
     [TakeOp (1::nat) 1 0, TakeOp 1 1 0, TakeOp 2 1 5000000000, TakeOp 1 1 5000000000]"
  by (rule forgetting_is_invisible) (simp_all add: is_f64_def)

end
