(* ===== verification/Admission.thy ===== *)
theory Admission
  imports Rate_Limits "HOL-Library.Multiset"
begin

text \<open>
  The rest of \<open>limits.rs\<close>: the grouping of addresses into sources, networks and regions, the
  gate that caps concurrent holders, the arrival limiter and the sliding window of enrollment
  runs; and \<open>refusals.rs\<close>'s counts. The gate's passes are dropped in any order by other tasks:
  its states are those reachable by an inductive step relation over the passes in existence.
\<close>

subsection \<open>Sources, networks and regions\<close>

datatype ip_addr = IpV4 u32 | IpV6 "128 word"

datatype source_key = V4 u32 | V6 u64

definition to_ipv4_mapped :: "128 word \<Rightarrow> u32 option" where
  "to_ipv4_mapped v6 = (if drop_bit 32 v6 = 0xffff then Some (ucast v6) else None)"

fun source_of :: "ip_addr \<Rightarrow> source_key" where
  "source_of (IpV4 v4) = V4 v4"
| "source_of (IpV6 v6) =
     (case to_ipv4_mapped v6 of Some v4 \<Rightarrow> V4 v4 | None \<Rightarrow> V6 (ucast (drop_bit 64 v6)))"

fun network :: "source_key \<Rightarrow> source_key" where
  "network (V4 v4) = V4 (v4 AND NOT 0xff)"
| "network (V6 prefix) = V6 (prefix AND NOT 0xffff)"

fun region :: "source_key \<Rightarrow> source_key" where
  "region (V4 v4) = V4 (v4 AND NOT 0xffff)"
| "region (V6 prefix) = V6 (prefix AND NOT 0xffffffff)"

lemma region_network [simp]: "region (network k) = region k"
  by (cases k) (simp_all add: and.assoc)

lemma network_idem [simp]: "network (network k) = network k"
  by (cases k) (simp_all add: and.assoc)

subsection \<open>The gate\<close>

record caps =
  per_source :: nat
  per_network :: nat
  total :: nat

record counts =
  c_total :: nat
  c_sources :: "(source_key, nat) fmap"
  c_networks :: "(source_key, nat) fmap"

definition counts_default :: counts where
  "counts_default = \<lparr> c_total = 0, c_sources = fmempty, c_networks = fmempty \<rparr>"

definition increment :: "(source_key, nat) fmap \<Rightarrow> source_key \<Rightarrow> (source_key, nat) fmap" where
  "increment m key = fmupd key (fmget m key 0 + 1) m"

definition try_enter :: "caps \<Rightarrow> counts \<Rightarrow> source_key \<Rightarrow> counts option" where
  "try_enter c counts source =
     (let net = network source;
          full = c_total counts \<ge> total c
            \<or> fmget (c_sources counts) source 0 \<ge> per_source c
            \<or> fmget (c_networks counts) net 0 \<ge> per_network c
      in if full then None
         else Some (counts\<lparr> c_total := c_total counts + 1,
                            c_sources := increment (c_sources counts) source,
                            c_networks := increment (c_networks counts) net \<rparr>))"

text \<open>Subtracting from a count of zero overflows: \<open>None\<close>.\<close>

definition decrement :: "(source_key, nat) fmap \<Rightarrow> source_key \<Rightarrow> (source_key, nat) fmap option" where
  "decrement m key =
     (case fmlookup m key of
        None \<Rightarrow> Some m
      | Some 0 \<Rightarrow> None
      | Some (Suc n) \<Rightarrow> Some (if n = 0 then fmdrop key m else fmupd key n m))"

definition leave :: "counts \<Rightarrow> source_key \<Rightarrow> counts option" where
  "leave counts source =
     (case c_total counts of
        0 \<Rightarrow> None
      | Suc t \<Rightarrow>
          (case decrement (c_sources counts) source of
             None \<Rightarrow> None
           | Some ss \<Rightarrow>
               (case decrement (c_networks counts) (network source) of
                  None \<Rightarrow> None
                | Some ns \<Rightarrow>
                    Some (counts\<lparr> c_total := t, c_sources := ss, c_networks := ns \<rparr>))))"

text \<open>
  A gate as its tasks use it: a pass exists from a successful \<open>try_enter\<close> until it is dropped,
  and any existing pass may be dropped next. The state is the counts and the sources of the
  passes in existence; a drop whose bookkeeping overflows has no step.
\<close>

inductive gate_reach :: "caps \<Rightarrow> counts \<Rightarrow> source_key multiset \<Rightarrow> bool" for c where
  gate_start: "gate_reach c counts_default {#}"
| gate_enter: "gate_reach c s held \<Longrightarrow> try_enter c s source = Some s' \<Longrightarrow>
    gate_reach c s' (add_mset source held)"
| gate_leave: "gate_reach c s (add_mset source held) \<Longrightarrow> leave s source = Some s' \<Longrightarrow>
    gate_reach c s' held"

definition tallies :: "(source_key, nat) fmap \<Rightarrow> source_key multiset \<Rightarrow> bool" where
  "tallies m held \<longleftrightarrow>
     (\<forall>k. fmlookup m k = (if k \<in># held then Some (count held k) else None))"

definition gate_inv :: "caps \<Rightarrow> counts \<Rightarrow> source_key multiset \<Rightarrow> bool" where
  "gate_inv c s held \<longleftrightarrow>
     c_total s = size held \<and> tallies (c_sources s) held \<and>
     tallies (c_networks s) (image_mset network held) \<and> size held \<le> total c \<and>
     (\<forall>k. count held k \<le> per_source c) \<and>
     (\<forall>k. count (image_mset network held) k \<le> per_network c)"

lemma tallies_get: "tallies m held \<Longrightarrow> fmget m k 0 = count held k"
  by (auto simp: tallies_def fmget_def not_in_iff)

lemma tallies_increment: "tallies m held \<Longrightarrow> tallies (increment m k) (add_mset k held)"
  using tallies_get [of m held k] by (auto simp: tallies_def increment_def not_in_iff)

lemma tallies_decrement:
  assumes "tallies m (add_mset k held)"
  obtains m' where "decrement m k = Some m'" "tallies m' held"
proof -
  from assms have k: "fmlookup m k = Some (Suc (count held k))"
    by (simp add: tallies_def)
  have other: "fmlookup m j = (if j \<in># held then Some (count held j) else None)" if "j \<noteq> k" for j
    using assms that by (simp add: tallies_def)
  have "tallies (if count held k = 0 then fmdrop k m else fmupd k (count held k) m) held"
    unfolding tallies_def
  proof
    fix j
    show "fmlookup (if count held k = 0 then fmdrop k m else fmupd k (count held k) m) j
        = (if j \<in># held then Some (count held j) else None)"
      by (cases "j = k") (simp_all add: other not_in_iff)
  qed
  with k that show thesis by (simp add: decrement_def)
qed

lemma gate_inv_enter:
  assumes "gate_inv c s held" "try_enter c s k = Some s'"
  shows "gate_inv c s' (add_mset k held)"
  using assms tallies_get [of "c_sources s" held] tallies_get [of "c_networks s" "image_mset network held"]
  by (auto simp: gate_inv_def try_enter_def Let_def tallies_increment Suc_le_eq split: if_splits)

lemma gate_inv_leave:
  assumes "gate_inv c s (add_mset k held)"
  obtains s' where "leave s k = Some s'" "gate_inv c s' held"
proof -
  from assms obtain ss where ss: "decrement (c_sources s) k = Some ss" "tallies ss held"
    by (auto simp: gate_inv_def elim: tallies_decrement)
  from assms obtain ns where ns: "decrement (c_networks s) (network k) = Some ns"
      "tallies ns (image_mset network held)"
    by (auto simp: gate_inv_def elim: tallies_decrement)
  have mono: "count held j \<le> count (add_mset k held) j"
    "count (image_mset network held) j \<le> count (image_mset network (add_mset k held)) j" for j
    by simp_all
  have "count held j \<le> per_source c" "count (image_mset network held) j \<le> per_network c" for j
    using assms mono [of j] unfolding gate_inv_def by (meson le_trans)+
  then have "gate_inv c (s\<lparr> c_total := size held, c_sources := ss, c_networks := ns \<rparr>) held"
    using assms ss ns by (simp add: gate_inv_def)
  moreover have "c_total s = Suc (size held)" using assms by (simp add: gate_inv_def)
  ultimately show thesis using ss ns that by (simp add: leave_def)
qed

lemma gate_reach_inv: "gate_reach c s held \<Longrightarrow> gate_inv c s held"
proof (induction rule: gate_reach.induct)
  case gate_start
  show ?case by (simp add: gate_inv_def counts_default_def tallies_def)
next
  case (gate_enter s held k s')
  then show ?case by (blast intro: gate_inv_enter)
next
  case (gate_leave s k held s')
  then show ?case by (metis gate_inv_leave option.inject)
qed

lemma count_network:
  "count (image_mset network held) n = size (filter_mset (\<lambda>h. network h = n) held)"
  by (induction held) auto

text \<open>
  C33. The gate's bookkeeping is exact and safe in every reachable state, whatever order passes
  are taken and dropped in: the total, per-source and per-network counts are the numbers of
  passes in existence and within their caps, a source enters exactly when it and its network
  and the total are below their caps, and dropping any existing pass never underflows a count.
\<close>

theorem gate_counts_exact:
  assumes "gate_reach c s held"
  shows "c_total s = size held \<and> size held \<le> total c \<and>
    fmget (c_sources s) k 0 = count held k \<and> count held k \<le> per_source c \<and>
    fmget (c_networks s) n 0 = size (filter_mset (\<lambda>h. network h = n) held) \<and>
    size (filter_mset (\<lambda>h. network h = n) held) \<le> per_network c \<and>
    (try_enter c s k \<noteq> None \<longleftrightarrow>
       size held < total c \<and> count held k < per_source c \<and>
       size (filter_mset (\<lambda>h. network h = network k) held) < per_network c) \<and>
    (\<forall>k \<in># held. leave s k \<noteq> None)"
proof -
  have inv: "gate_inv c s held" using assms by (rule gate_reach_inv)
  note inv' = inv [unfolded gate_inv_def count_network]
  have get: "fmget (c_sources s) k 0 = count held k"
    "fmget (c_networks s) n 0 = size (filter_mset (\<lambda>h. network h = n) held)" for k n
    using inv tallies_get by (auto simp: gate_inv_def count_network)
  have "leave s k \<noteq> None" if "k \<in># held" for k
    using that inv by (metis gate_inv_leave mset_add option.distinct(1))
  then show ?thesis
    using inv' get by (auto simp: try_enter_def Let_def not_le)
qed

text \<open>One source enters twice, then leaves once.\<close>

definition gate_demo_caps :: caps where
  "gate_demo_caps = \<lparr> per_source = 2, per_network = 3, total = 4 \<rparr>"

theorem gate_counts_exact_witness:
  "\<exists>s. gate_reach gate_demo_caps s {# V4 1 #} \<and> c_total s = 1 \<and>
     fmget (c_sources s) (V4 1) 0 = 1 \<and> leave s (V4 1) \<noteq> None"
proof -
  let ?s1 = "the (try_enter gate_demo_caps counts_default (V4 1))"
  have r1: "gate_reach gate_demo_caps ?s1 {# V4 1 #}"
    by (rule gate_enter [OF gate_start])
      (simp add: try_enter_def gate_demo_caps_def counts_default_def fmget_def Let_def)
  from gate_counts_exact [OF r1, of "V4 1" "V4 0"] r1 show ?thesis by auto
qed

subsection \<open>New connections\<close>

definition SOURCE_ARRIVALS :: f64 where "SOURCE_ARRIVALS = 32"
definition SOURCE_ARRIVALS_PER_SECOND :: f64 where "SOURCE_ARRIVALS_PER_SECOND = 1"
definition NETWORK_ARRIVALS :: f64 where "NETWORK_ARRIVALS = 64"
definition NETWORK_ARRIVALS_PER_SECOND :: f64 where "NETWORK_ARRIVALS_PER_SECOND = 2"

record arrival_limiter =
  a_sources :: "source_key buckets"
  a_networks :: "source_key buckets"

definition arrival_default :: arrival_limiter where
  "arrival_default =
     \<lparr> a_sources = buckets_new SOURCE_ARRIVALS SOURCE_ARRIVALS_PER_SECOND,
       a_networks = buckets_new NETWORK_ARRIVALS NETWORK_ARRIVALS_PER_SECOND \<rparr>"

definition admit :: "arrival_limiter \<Rightarrow> source_key \<Rightarrow> instant \<Rightarrow> bool \<times> arrival_limiter" where
  "admit self source now =
     (let net = network source;
          (s_held, ss) = buckets_holds (a_sources self) source 1 now
      in if \<not> s_held then (False, self\<lparr> a_sources := ss \<rparr>)
         else let (n_held, ns) = buckets_holds (a_networks self) net 1 now
         in if \<not> n_held then (False, self\<lparr> a_sources := ss, a_networks := ns \<rparr>)
         else let (s_taken, ss') = buckets_take ss source 1 now
         in if \<not> s_taken then (False, self\<lparr> a_sources := ss', a_networks := ns \<rparr>)
         else let (n_taken, ns') = buckets_take ns net 1 now
         in (n_taken, self\<lparr> a_sources := ss', a_networks := ns' \<rparr>))"

definition arrival_ok :: "arrival_limiter \<Rightarrow> bool" where
  "arrival_ok self \<longleftrightarrow> buckets_ok (a_sources self) \<and> buckets_ok (a_networks self)"

lemma arrival_ok_default: "arrival_ok arrival_default"
  by (simp add: arrival_ok_def arrival_default_def buckets_ok_new SOURCE_ARRIVALS_def
      SOURCE_ARRIVALS_PER_SECOND_def NETWORK_ARRIVALS_def NETWORK_ARRIVALS_PER_SECOND_def
      is_f64_def f64_round_numeral)

lemma is_f64_1: "is_f64 1"
  by (simp add: is_f64_def)

text \<open>
  A new connection charges its source and its network together or not at all: it is
  admitted exactly when both hold a token, and then both have paid; a refused one has only had
  their buckets refilled.
\<close>

theorem arrival_charges_both_or_neither:
  assumes ok: "arrival_ok self"
  shows "let hs = buckets_holds (a_sources self) source 1 now;
             hn = buckets_holds (a_networks self) (network source) 1 now;
             (admitted, self') = admit self source now
         in (admitted \<longleftrightarrow> fst hs \<and> fst hn) \<and> arrival_ok self' \<and>
            (if admitted
             then a_sources self' = snd (buckets_take (snd hs) source 1 now) \<and>
                  a_networks self' = snd (buckets_take (snd hn) (network source) 1 now)
             else a_sources self' = snd hs \<and>
                  a_networks self' = (if fst hs then snd hn else a_networks self))"
proof -
  have oks: "buckets_ok (a_sources self)" "buckets_ok (a_networks self)"
    using ok by (simp_all add: arrival_ok_def)
  show ?thesis
    using oks keyed.spend_after_holds [OF oks(1) is_f64_1, of source now]
      keyed.spend_after_holds [OF oks(2) is_f64_1, of "network source" now]
    by (auto simp: admit_def Let_def split_beta arrival_ok_def keyed.ok_holds keyed.ok_charge)
qed

theorem arrival_charges_both_or_neither_witness:
  "fst (admit arrival_default (V4 5) 0)
     = (fst (buckets_holds (a_sources arrival_default) (V4 5) 1 0) \<and>
        fst (buckets_holds (a_networks arrival_default) (network (V4 5)) 1 0))"
  using arrival_charges_both_or_neither [OF arrival_ok_default, of "V4 5" 0]
  by (simp add: Let_def split_beta)

subsection \<open>Enrollment runs in a sliding window\<close>

definition SOURCE_RUNS :: nat where "SOURCE_RUNS = 10"
definition NETWORK_RUNS :: nat where "NETWORK_RUNS = 30"
definition REGION_RUNS :: nat where "REGION_RUNS = 100"
definition SOURCE_WINDOW :: duration where "SOURCE_WINDOW = from_secs (10 * 60)"
definition RUN_SWEEP :: duration where "RUN_SWEEP = from_secs 60"

type_synonym run_window = "(source_key, instant list) fmap"

record source_limiter =
  l_sources :: run_window
  l_networks :: run_window
  l_regions :: run_window
  l_next_sweep :: "instant option"

definition limiter_default :: source_limiter where
  "limiter_default =
     \<lparr> l_sources = fmempty, l_networks = fmempty, l_regions = fmempty, l_next_sweep = None \<rparr>"

definition expire :: "instant list \<Rightarrow> instant \<Rightarrow> instant list" where
  "expire ts now = dropWhile (\<lambda>t. duration_since now t > SOURCE_WINDOW) ts"

definition expire_all :: "run_window \<Rightarrow> instant \<Rightarrow> run_window" where
  "expire_all w now = fmretain (\<lambda>_ ts. ts \<noteq> []) (fmmap (\<lambda>ts. expire ts now) w)"

definition run_count :: "run_window \<Rightarrow> source_key \<Rightarrow> instant \<Rightarrow> nat \<times> run_window" where
  "run_count w key now =
     (case fmlookup w key of
        None \<Rightarrow> (0, w)
      | Some ts \<Rightarrow> (let ts' = expire ts now in (length ts', fmupd key ts' w)))"

definition run_record :: "run_window \<Rightarrow> source_key \<Rightarrow> instant \<Rightarrow> run_window" where
  "run_record w key now = fmupd key (fmget w key [] @ [now]) w"

definition run_forgive :: "run_window \<Rightarrow> source_key \<Rightarrow> run_window" where
  "run_forgive w key =
     (case fmlookup w key of None \<Rightarrow> w | Some ts \<Rightarrow> fmupd key (butlast ts) w)"

definition begin_run :: "source_limiter \<Rightarrow> source_key \<Rightarrow> instant \<Rightarrow> bool \<times> source_limiter" where
  "begin_run self source now =
     (let self =
        (if sweep_due (l_next_sweep self) now
         then self\<lparr> l_sources := expire_all (l_sources self) now,
                  l_networks := expire_all (l_networks self) now,
                  l_regions := expire_all (l_regions self) now,
                  l_next_sweep := Some (now + RUN_SWEEP) \<rparr>
         else self);
          net = network source; reg = region source;
          (s, ss) = run_count (l_sources self) source now; self = self\<lparr> l_sources := ss \<rparr>
      in if s \<ge> SOURCE_RUNS then (False, self)
         else let (n, ns) = run_count (l_networks self) net now; self = self\<lparr> l_networks := ns \<rparr>
         in if n \<ge> NETWORK_RUNS then (False, self)
         else let (r, rs) = run_count (l_regions self) reg now; self = self\<lparr> l_regions := rs \<rparr>
         in if r \<ge> REGION_RUNS then (False, self)
         else (True, self\<lparr> l_sources := run_record (l_sources self) source now,
                          l_networks := run_record (l_networks self) net now,
                          l_regions := run_record (l_regions self) reg now \<rparr>))"

definition forgive :: "source_limiter \<Rightarrow> source_key \<Rightarrow> source_limiter" where
  "forgive self source =
     self\<lparr> l_sources := run_forgive (l_sources self) source,
         l_networks := run_forgive (l_networks self) (network source),
         l_regions := run_forgive (l_regions self) (region source) \<rparr>"

text \<open>
  The specification: three logs of every accepted run, never expired, of which a run counts the
  entries no older than the window.
\<close>

type_synonym run_log = "source_key \<Rightarrow> instant list"

definition in_window :: "instant \<Rightarrow> instant list \<Rightarrow> nat" where
  "in_window now ts = length (filter (\<lambda>t. now \<le> t + SOURCE_WINDOW) ts)"

definition spec_begin ::
  "run_log \<times> run_log \<times> run_log \<Rightarrow> source_key \<Rightarrow> instant \<Rightarrow> bool \<times> run_log \<times> run_log \<times> run_log" where
  "spec_begin logs source now =
     (case logs of (sl, nl, rl) \<Rightarrow>
        if in_window now (sl source) < 10 \<and> in_window now (nl (network source)) < 30 \<and>
           in_window now (rl (region source)) < 100
        then (True, sl(source := sl source @ [now]),
              nl(network source := nl (network source) @ [now]),
              rl(region source := rl (region source) @ [now]))
        else (False, logs))"

definition spec_forgive ::
  "run_log \<times> run_log \<times> run_log \<Rightarrow> source_key \<Rightarrow> run_log \<times> run_log \<times> run_log" where
  "spec_forgive logs source =
     (case logs of (sl, nl, rl) \<Rightarrow>
        (sl(source := butlast (sl source)),
         nl(network source := butlast (nl (network source))),
         rl(region source := butlast (rl (region source)))))"

text \<open>A window is what is left of a lg once some entries that had expired were dropped.\<close>

definition window_of :: "instant \<Rightarrow> run_window \<Rightarrow> run_log \<Rightarrow> bool" where
  "window_of T w lg \<longleftrightarrow>
     (\<forall>k. sorted (lg k) \<and> (\<forall>t \<in> set (lg k). t \<le> T) \<and>
        (\<exists>pre. lg k = pre @ fmget w k [] \<and> (\<forall>t \<in> set pre. t + SOURCE_WINDOW < T)))"

lemma expired_iff: "duration_since now t > SOURCE_WINDOW \<longleftrightarrow> t + SOURCE_WINDOW < now"
  by (auto simp: duration_since_def)

lemma expire_suffix:
  obtains pre where "ts = pre @ expire ts now" "\<forall>t \<in> set pre. t + SOURCE_WINDOW < now"
proof
  show "ts = takeWhile (\<lambda>t. duration_since now t > SOURCE_WINDOW) ts @ expire ts now"
    by (simp add: expire_def)
  show "\<forall>t \<in> set (takeWhile (\<lambda>t. duration_since now t > SOURCE_WINDOW) ts). t + SOURCE_WINDOW < now"
    by (auto simp: expired_iff dest: set_takeWhileD)
qed

lemma expire_all_live:
  assumes "sorted ts" "t \<in> set (expire ts now)"
  shows "now \<le> t + SOURCE_WINDOW"
proof (rule ccontr)
  assume old: "\<not> now \<le> t + SOURCE_WINDOW"
  obtain pre where pre: "ts = pre @ expire ts now" by (rule expire_suffix)
  have "sorted (expire ts now)" using assms(1) pre by (metis sorted_append)
  moreover have "expire ts now \<noteq> []" using assms(2) by auto
  ultimately have le: "hd (expire ts now) \<le> t"
    using assms(2) by (cases "expire ts now") auto
  have "\<not> duration_since now (hd (expire ts now)) > SOURCE_WINDOW"
    using \<open>expire ts now \<noteq> []\<close> unfolding expire_def by (rule hd_dropWhile)
  with le old show False by (simp add: expired_iff)
qed

lemma window_expire:
  assumes w: "window_of T w lg" and now: "T \<le> now"
  shows "length (expire (fmget w k []) now) = in_window now (lg k)"
    and "\<exists>pre. lg k = pre @ expire (fmget w k []) now \<and> (\<forall>t \<in> set pre. t + SOURCE_WINDOW < now)"
proof -
  from w obtain pre where pre: "lg k = pre @ fmget w k []" "\<forall>t \<in> set pre. t + SOURCE_WINDOW < T"
    and srt: "sorted (lg k)" unfolding window_of_def by blast
  obtain pre2 where pre2: "fmget w k [] = pre2 @ expire (fmget w k []) now"
    "\<forall>t \<in> set pre2. t + SOURCE_WINDOW < now" by (rule expire_suffix)
  have old: "\<forall>t \<in> set (pre @ pre2). t + SOURCE_WINDOW < now"
    using pre(2) pre2(2) now by fastforce
  have lg: "lg k = (pre @ pre2) @ expire (fmget w k []) now" using pre(1) pre2(1) by simp
  then show "\<exists>pre. lg k = pre @ expire (fmget w k []) now \<and> (\<forall>t \<in> set pre. t + SOURCE_WINDOW < now)"
    using old by blast
  have "sorted (fmget w k [])" using srt pre(1) by (simp add: sorted_append)
  then have live: "\<forall>t \<in> set (expire (fmget w k []) now). now \<le> t + SOURCE_WINDOW"
    using expire_all_live by blast
  have "filter (\<lambda>t. now \<le> t + SOURCE_WINDOW) (lg k) = expire (fmget w k []) now"
    unfolding lg filter_append using old live by (simp add: filter_empty_conv not_le)
  then show "length (expire (fmget w k []) now) = in_window now (lg k)"
    by (simp add: in_window_def)
qed

lemma window_of_later: "window_of T w lg \<Longrightarrow> T \<le> now \<Longrightarrow> window_of now w lg"
  unfolding window_of_def by (meson le_trans less_le_trans)

lemma window_of_shrink:
  assumes "window_of T w lg" "T \<le> now" and "\<And>k. fmget w' k [] \<in> {fmget w k [], expire (fmget w k []) now}"
  shows "window_of now w' lg"
  unfolding window_of_def
proof (intro allI conjI)
  fix k
  show "sorted (lg k)" "\<forall>t \<in> set (lg k). t \<le> now"
    using assms(1,2) unfolding window_of_def by (auto intro: le_trans)
  show "\<exists>pre. lg k = pre @ fmget w' k [] \<and> (\<forall>t \<in> set pre. t + SOURCE_WINDOW < now)"
  proof (cases "fmget w' k [] = fmget w k []")
    case True
    then show ?thesis using window_of_later [OF assms(1,2)] by (simp add: window_of_def)
  next
    case False
    then have "fmget w' k [] = expire (fmget w k []) now" using assms(3) [of k] by simp
    then show ?thesis using window_expire(2) [OF assms(1,2), of k] by simp
  qed
qed

lemma fmget_expire_all: "fmget (expire_all w now) k [] = expire (fmget w k []) now"
  by (auto simp: fmget_def expire_all_def split: option.splits) (simp add: expire_def)

lemma run_count_spec:
  assumes "window_of T w lg" "T \<le> now"
  shows "fst (run_count w k now) = in_window now (lg k)" "window_of now (snd (run_count w k now)) lg"
proof -
  have "fst (run_count w k now) = length (expire (fmget w k []) now)"
    by (auto simp: run_count_def fmget_def expire_def Let_def split: option.splits)
  then show "fst (run_count w k now) = in_window now (lg k)" using window_expire(1) [OF assms] by simp
  show "window_of now (snd (run_count w k now)) lg"
    by (rule window_of_shrink [OF assms])
      (auto simp: run_count_def fmget_def Let_def split: option.splits)
qed

lemma window_of_record:
  assumes "window_of now w lg"
  shows "window_of now (run_record w k now) (lg(k := lg k @ [now]))"
  using assms unfolding window_of_def run_record_def fmget_def
  by (auto simp: sorted_append)

lemma window_of_forgive:
  assumes "window_of T w lg"
  shows "window_of T (run_forgive w k) (lg(k := butlast (lg k)))"
proof -
  have "sorted (butlast (lg k))" "\<forall>t \<in> set (butlast (lg k)). t \<le> T"
    using assms by (auto simp: window_of_def sorted_butlast dest: in_set_butlastD)
  moreover have "\<exists>pre. butlast (lg k) = pre @ fmget (run_forgive w k) k [] \<and>
      (\<forall>t \<in> set pre. t + SOURCE_WINDOW < T)"
  proof -
    from assms obtain pre where pre: "lg k = pre @ fmget w k []" "\<forall>t \<in> set pre. t + SOURCE_WINDOW < T"
      unfolding window_of_def by blast
    have get: "fmget (run_forgive w k) k [] = butlast (fmget w k [])"
      by (auto simp: run_forgive_def fmget_def split: option.splits)
    show ?thesis
    proof (cases "fmget w k [] = []")
      case True
      then show ?thesis using pre get by (auto dest: in_set_butlastD)
    next
      case False
      then show ?thesis using pre get by (auto simp: butlast_append)
    qed
  qed
  moreover have "fmget (run_forgive w k) j [] = fmget w j []" if "j \<noteq> k" for j
    using that by (auto simp: run_forgive_def fmget_def split: option.splits)
  ultimately show ?thesis using assms by (auto simp: window_of_def)
qed

definition limiter_rel :: "instant \<Rightarrow> source_limiter \<Rightarrow> run_log \<times> run_log \<times> run_log \<Rightarrow> bool" where
  "limiter_rel T self logs \<longleftrightarrow>
     (case logs of (sl, nl, rl) \<Rightarrow>
        window_of T (l_sources self) sl \<and> window_of T (l_networks self) nl \<and>
        window_of T (l_regions self) rl)"

lemma window_of_expire_all:
  assumes "window_of T w lg" "T \<le> now"
  shows "window_of now (expire_all w now) lg"
  by (rule window_of_shrink [OF assms]) (simp add: fmget_expire_all)

lemma begin_run_refines:
  assumes rel: "limiter_rel T self logs" and now: "T \<le> now"
  shows "fst (begin_run self k now) = fst (spec_begin logs k now)"
    "limiter_rel now (snd (begin_run self k now)) (snd (spec_begin logs k now))"
proof -
  obtain sl nl rl where logs: "logs = (sl, nl, rl)" by (cases logs)
  define self1 where "self1 = (if sweep_due (l_next_sweep self) now
     then self\<lparr> l_sources := expire_all (l_sources self) now,
              l_networks := expire_all (l_networks self) now,
              l_regions := expire_all (l_regions self) now,
              l_next_sweep := Some (now + RUN_SWEEP) \<rparr> else self)"
  have w: "window_of now (l_sources self1) sl" "window_of now (l_networks self1) nl"
    "window_of now (l_regions self1) rl"
    using rel now
    by (auto simp: self1_def logs limiter_rel_def dest: window_of_later window_of_expire_all)
  note cs = run_count_spec [OF w(1) order_refl, of k]
    run_count_spec [OF w(2) order_refl, of "network k"]
    run_count_spec [OF w(3) order_refl, of "region k"]
  show "fst (begin_run self k now) = fst (spec_begin logs k now)"
    using cs by (simp add: begin_run_def self1_def [symmetric] Let_def split_beta spec_begin_def logs
        SOURCE_RUNS_def NETWORK_RUNS_def REGION_RUNS_def)
  show "limiter_rel now (snd (begin_run self k now)) (snd (spec_begin logs k now))"
    using cs w by (simp add: begin_run_def self1_def [symmetric] Let_def split_beta spec_begin_def logs
        SOURCE_RUNS_def NETWORK_RUNS_def REGION_RUNS_def limiter_rel_def window_of_record)
qed

lemma forgive_refines:
  "limiter_rel T self logs \<Longrightarrow> limiter_rel T (forgive self k) (spec_forgive logs k)"
  by (auto simp: limiter_rel_def forgive_def spec_forgive_def window_of_forgive split: prod.splits)

datatype run_op = Begin source_key instant | Forgive source_key

fun limiter_answers :: "source_limiter \<Rightarrow> run_op list \<Rightarrow> bool list" where
  "limiter_answers self [] = []"
| "limiter_answers self (Begin k now # ops) =
     (let (r, self') = begin_run self k now in r # limiter_answers self' ops)"
| "limiter_answers self (Forgive k # ops) = limiter_answers (forgive self k) ops"

fun spec_answers :: "run_log \<times> run_log \<times> run_log \<Rightarrow> run_op list \<Rightarrow> bool list" where
  "spec_answers logs [] = []"
| "spec_answers logs (Begin k now # ops) =
     (let (r, logs') = spec_begin logs k now in r # spec_answers logs' ops)"
| "spec_answers logs (Forgive k # ops) = spec_answers (spec_forgive logs k) ops"

fun times_from :: "instant \<Rightarrow> run_op list \<Rightarrow> bool" where
  "times_from T [] = True"
| "times_from T (Begin _ now # ops) = (T \<le> now \<and> times_from now ops)"
| "times_from T (Forgive _ # ops) = times_from T ops"

lemma limiter_refines:
  "limiter_rel T self logs \<Longrightarrow> times_from T ops \<Longrightarrow> limiter_answers self ops = spec_answers logs ops"
proof (induction ops arbitrary: T self logs)
  case (Cons op ops)
  show ?case
  proof (cases op)
    case (Begin k now)
    with Cons.prems have now: "T \<le> now" "times_from now ops" by auto
    note step = begin_run_refines [OF Cons.prems(1) now(1), of k]
    from Cons.IH [OF step(2) now(2)] step(1) show ?thesis by (simp add: Begin split_beta)
  next
    case (Forgive k)
    with Cons.prems have "times_from T ops" by simp
    from Cons.IH [OF forgive_refines [OF Cons.prems(1)] this] show ?thesis by (simp add: Forgive)
  qed
qed simp

text \<open>
  C34. The enrollment limiter is an exact sliding window: for every sequence of starts and
  forgivenesses at non-decreasing times, it gives the answers of the specification that logs
  every accepted run and admits one only while fewer than 10 of its source, 30 of its network
  and 100 of its region (not forgiven) are at most ten minutes old. Expiry and the sweep that
  forgets idle sources never show.
\<close>

theorem enrollment_window_refines:
  assumes "times_from 0 ops"
  shows "limiter_answers limiter_default ops = spec_answers (\<lambda>_. [], \<lambda>_. [], \<lambda>_. []) ops"
  by (rule limiter_refines [OF _ assms])
    (simp add: limiter_rel_def limiter_default_def window_of_def fmget_def)

theorem enrollment_window_refines_witness:
  "limiter_answers limiter_default
     (replicate 10 (Begin (V4 1) 5) @ [Begin (V4 1) 6, Forgive (V4 1), Begin (V4 1) 7])
   = replicate 10 True @ [False, True]"
proof (subst enrollment_window_refines)
  show "times_from 0 (replicate 10 (Begin (V4 1) 5) @ [Begin (V4 1) 6, Forgive (V4 1), Begin (V4 1) 7])"
    by code_simp
  show "spec_answers (\<lambda>_. [], \<lambda>_. [], \<lambda>_. [])
      (replicate 10 (Begin (V4 1) 5) @ [Begin (V4 1) 6, Forgive (V4 1), Begin (V4 1) 7])
     = replicate 10 True @ [False, True]"
    by code_simp
qed

subsection \<open>Refusal counts\<close>

type_synonym refusal_log = "(string, u64) fmap"

definition refusal_count :: "refusal_log \<Rightarrow> string \<Rightarrow> refusal_log" where
  "refusal_count self reason = fmupd reason (fmget self reason 0 + 1) self"

text \<open>The lines logged, one per reason, and the log emptied.\<close>

definition refusal_report :: "refusal_log \<Rightarrow> (string \<times> u64) fset \<times> refusal_log" where
  "refusal_report self = (fset_of_fmap self, fmempty)"

end
