(* ===== verification/Messages.thy ===== *)
theory Messages
  imports Roles
begin

text \<open>
  The messages of the control protocol, \<open>messages.rs\<close> of \<open>throcc-proto\<close>, and the checks on names
  and passwords. A Rust string is the list of its Unicode scalar values; texts the server writes
  itself (error messages) are plain strings. Lemmas: what a valid name looks like.
\<close>

type_synonym uchar = nat
type_synonym ustring = "uchar list"

subsection \<open>Names and passwords\<close>

definition PROTOCOL :: u16 where "PROTOCOL = 1"
definition MAX_AVATAR_BYTES :: nat where "MAX_AVATAR_BYTES = 64 * 1024"
definition MAX_NAME_CHARS :: nat where "MAX_NAME_CHARS = 32"
definition MAX_PASSWORD_CHARS :: nat where "MAX_PASSWORD_CHARS = 128"

text \<open>\<open>char::is_whitespace\<close> (Unicode White\_Space) and \<open>char::is_control\<close> (category Cc).\<close>

definition is_whitespace :: "uchar \<Rightarrow> bool" where
  "is_whitespace c \<longleftrightarrow>
     (9 \<le> c \<and> c \<le> 13) \<or> c = 0x20 \<or> c = 0x85 \<or> c = 0xA0 \<or> c = 0x1680 \<or>
     (0x2000 \<le> c \<and> c \<le> 0x200A) \<or> c = 0x2028 \<or> c = 0x2029 \<or> c = 0x202F \<or> c = 0x205F \<or> c = 0x3000"

definition is_control :: "uchar \<Rightarrow> bool" where
  "is_control c \<longleftrightarrow> c \<le> 0x1F \<or> (0x7F \<le> c \<and> c \<le> 0x9F)"

definition trim :: "ustring \<Rightarrow> ustring" where
  "trim s = rev (dropWhile is_whitespace (rev (dropWhile is_whitespace s)))"

definition hides_text :: "uchar \<Rightarrow> bool" where
  "hides_text c \<longleftrightarrow>
     is_control c \<or>
     c \<in> {0x00AD, 0x034F, 0x061C, 0x115F, 0x1160, 0x17B4, 0x17B5, 0x180E, 0x200B} \<or>
     (0x200E \<le> c \<and> c \<le> 0x200F) \<or> (0x2028 \<le> c \<and> c \<le> 0x202E) \<or> (0x2060 \<le> c \<and> c \<le> 0x206F) \<or>
     c \<in> {0x3164, 0xFEFF, 0xFFA0} \<or> (0xFFF9 \<le> c \<and> c \<le> 0xFFFB)"

definition blank :: "uchar \<Rightarrow> bool" where
  "blank c \<longleftrightarrow>
     c \<in> {0x200C, 0x200D, 0x2800} \<or> (0xFE00 \<le> c \<and> c \<le> 0xFE0F) \<or>
     (0xE0000 \<le> c \<and> c \<le> 0xE007F) \<or> (0xE0100 \<le> c \<and> c \<le> 0xE01EF)"

definition shows_something :: "ustring \<Rightarrow> bool" where
  "shows_something name \<longleftrightarrow> (\<exists>c \<in> set name. \<not> blank c \<and> \<not> is_whitespace c)"

definition valid_name :: "ustring \<Rightarrow> ustring option" where
  "valid_name name =
     (let name = trim name; chars = length name
      in if 1 \<le> chars \<and> chars \<le> MAX_NAME_CHARS \<and> shows_something name \<and>
            \<not> list_ex hides_text name
         then Some name else None)"

definition valid_password :: "ustring \<Rightarrow> bool" where
  "valid_password password \<longleftrightarrow> 1 \<le> length password \<and> length password \<le> MAX_PASSWORD_CHARS"

lemma trim_hd: "trim s \<noteq> [] \<Longrightarrow> \<not> is_whitespace (hd (trim s))"
proof -
  assume ne: "trim s \<noteq> []"
  let ?d = "dropWhile is_whitespace s"
  obtain ws where ws: "rev ?d = ws @ dropWhile is_whitespace (rev ?d)"
    by (metis takeWhile_dropWhile_id)
  then have "?d = trim s @ rev ws" unfolding trim_def by (metis rev_append rev_rev_ident)
  then have "hd ?d = hd (trim s)" "?d \<noteq> []" using ne by auto
  then show ?thesis using hd_dropWhile by metis
qed

lemma trim_last: "trim s \<noteq> [] \<Longrightarrow> \<not> is_whitespace (last (trim s))"
  unfolding trim_def last_rev by (simp add: hd_dropWhile)

lemma trim_idem [simp]: "trim (trim s) = trim s"
proof (cases "trim s = []")
  case True
  then show ?thesis by (simp only: True) (simp add: trim_def)
next
  case False
  then have "dropWhile is_whitespace (trim s) = trim s"
    using trim_hd [OF False] by (cases "trim s") auto
  moreover have "dropWhile is_whitespace (rev (trim s)) = rev (trim s)"
    using trim_last [OF False] False by (cases "rev (trim s)") (auto simp: last_rev hd_rev)
  ultimately show ?thesis by (simp add: trim_def)
qed

lemma set_trim: "set (trim s) \<subseteq> set s"
  by (auto simp: trim_def dest!: set_dropWhileD)

text \<open>
  A name the server accepts is what it stores, again and again: accepting trims, and the
  accepted name is accepted as it is; it has 1 to 32 characters, neither starts nor ends with
  white space, contains nothing that hides or reorders text, and draws something.
\<close>

theorem valid_name_stable:
  assumes "valid_name name = Some n"
  shows "valid_name n = Some n \<and> 1 \<le> length n \<and> length n \<le> 32 \<and>
    \<not> is_whitespace (hd n) \<and> \<not> is_whitespace (last n) \<and>
    (\<forall>c \<in> set n. \<not> hides_text c) \<and> (\<exists>c \<in> set n. \<not> blank c \<and> \<not> is_whitespace c)"
proof -
  have n: "n = trim name" and ok: "1 \<le> length n" "length n \<le> 32" "shows_something n" "\<not> list_ex hides_text n"
    using assms by (auto simp: valid_name_def Let_def MAX_NAME_CHARS_def split: if_splits)
  from ok(1) have "trim name \<noteq> []" using n by auto
  then show ?thesis
    using ok n trim_hd trim_last
    by (auto simp: valid_name_def Let_def MAX_NAME_CHARS_def shows_something_def list_ex_iff)
qed

theorem valid_name_stable_witness:
  "valid_name [0x20, 0x4C, 0x6F, 0x62, 0x62, 0x79, 0x20] = Some [0x4C, 0x6F, 0x62, 0x62, 0x79] \<and>
   valid_name [0x4C, 0x6F, 0x62, 0x62, 0x79] = Some [0x4C, 0x6F, 0x62, 0x62, 0x79]"
proof -
  have v: "valid_name [0x20, 0x4C, 0x6F, 0x62, 0x62, 0x79, 0x20] = Some [0x4C, 0x6F, 0x62, 0x62, 0x79]"
    by code_simp
  with valid_name_stable [OF v] show ?thesis by simp
qed

subsection \<open>The data of the protocol\<close>

type_synonym public_key = bytes
type_synonym signature = bytes

record signed_encryption_key =
  ek_key :: public_key
  ek_not_after :: u64
  ek_sig :: signature

datatype codec = Av1 | Hevc | H264 | Vp9

datatype recovery = Refresh | Idr

record share_config =
  sc_audio :: bool
  sc_kbps :: u32
  sc_codec :: codec
  sc_width :: u16
  sc_height :: u16
  sc_fps :: u8

record media_state =
  mic :: bool
  deafened :: bool
  share :: "share_config option"

definition media_default :: media_state where
  "media_default = \<lparr> mic = False, deafened = False, share = None \<rparr>"

record share_tracks =
  st_video :: media_id
  st_audio :: media_id

record tracks =
  t_mic :: media_id
  t_shares :: "share_tracks list"

definition track_ids :: "tracks \<Rightarrow> media_id list" where
  "track_ids t = t_mic t # concat (map (\<lambda>sh. [st_video sh, st_audio sh]) (t_shares t))"

record presence =
  pr_user :: user_id
  pr_name :: ustring
  pr_avatar :: "hash option"
  pr_room :: "room_id option"
  pr_mic :: bool
  pr_deafened :: bool
  pr_sharing :: bool
  pr_role :: role

record peer =
  pe_user :: user_id
  pe_tracks :: tracks
  pe_share :: "share_config option"
  pe_identity_key :: public_key
  pe_encryption_key :: signed_encryption_key

record room_info =
  ri_id :: room_id
  ri_name :: ustring
  ri_locked :: bool

record user_info =
  ui_id :: user_id
  ui_name :: ustring
  ui_role :: role
  ui_invited_by :: "user_id option"
  ui_identity_key :: public_key
  ui_created_at :: u64

record audience =
  au_video :: media_id
  au_receivers :: "user_id list"

record audiences =
  as_seq :: u64
  as_shares :: "audience list"

record placement =
  pl_room :: "room_id option"
  pl_epoch :: epoch
  pl_tracks :: "tracks option"
  pl_peers :: "peer list"
  pl_audiences :: audiences

record server_profile =
  sp_name :: "ustring option"
  sp_avatar :: "hash option"

record user_profile =
  up_name :: ustring
  up_avatar :: "hash option"

record welcome_msg =
  w_me :: user_id
  w_role :: role
  w_rooms :: "room_info list"
  w_presence :: "presence list"
  w_placement :: placement
  w_server :: server_profile
  w_profile :: user_profile

record track_stats =
  ts_media_id :: media_id
  ts_forwarded :: u32
  ts_dropped_units :: u32

datatype auth_error =
    UnknownKey | BadSignature | BadInvite | ProtocolMismatch | Banned | RateLimitedAuth
  | ServerFull | BadName

record server_hello =
  sh_nonce :: bytes
  sh_protocol :: u16

record pake_reply =
  pk_pake_b :: bytes
  pk_confirm_b :: bytes

type_synonym pake_step = "auth_error + pake_reply"

record pake_finish =
  pf_confirm_a :: bytes
  pf_signature :: signature

datatype auth_result = AuthOk welcome_msg | AuthErr auth_error

datatype client_hello =
    Auth public_key bytes "room_id option" signature
  | Enroll ustring public_key bytes bytes ustring

datatype request =
    JoinRoom room_id "ustring option"
  | LeaveRoom
  | SetProfile ustring "hash option"
  | UploadAvatar bytes
  | FetchAvatar hash
  | SetEncryptionKey signed_encryption_key
  | SetMedia media_state
  | SetWatched "media_id list"
  | RequestKeyframe media_id recovery
  | PublishSenderKey epoch "(user_id \<times> bytes) list"
  | CreateRoom ustring "ustring option"
  | RenameRoom room_id ustring
  | DeleteRoom room_id
  | SetRoomPassword room_id "ustring option"
  | CreateInvite
  | ListUsers
  | SetRole user_id role
  | RemoveUser user_id bool
  | SetServerName "ustring option"
  | SetServerAvatar "hash option"
  | KickFromRoom user_id room_id

datatype error_code =
    Forbidden | NotFound | RateLimited | Invalid | TooLarge | StaleEpoch | Internal
  | WrongPassword | Full

datatype response =
    Ok
  | Err error_code string
  | PlacementR placement
  | InviteR ustring u64
  | UsersR "user_info list"
  | AvatarHash hash
  | AvatarR bytes

datatype event =
    PresenceChanged presence
  | PresenceEnded user_id
  | RoomCreated room_info
  | RoomRenamed room_id ustring
  | RoomDeleted room_id
  | RoomLockChanged room_id bool
  | PeersChanged room_id epoch "peer list"
  | SenderKeyPublished user_id epoch bytes
  | KeyframeRequested media_id recovery
  | ReceiveStats "track_stats list"
  | UserAdded user_info
  | RoleChanged user_id role
  | UserRemoved user_id
  | InviteSpent ustring
  | RemovedFromServer string
  | ServerProfileChanged server_profile
  | KickedFromRoom user_id room_id
  | AudiencesChanged audiences

datatype server_message = Response u32 response | Event event

datatype client_message = Request u32 request

end
