(* ===== verification/Database.thy ===== *)
theory Database
  imports Messages
begin

text \<open>
  The server's database, \<open>database.rs\<close>: its tables as finite maps and every SQL statement or
  transaction the server runs as one operation on them. Statements and transactions are atomic
  and any of them may fail (disk full, locked): the field \<open>db_faults\<close> says which of the coming
  calls do, an empty list that none does, and every theorem holds for every such list. A
  transaction that fails anywhere before its commit leaves nothing behind, so it fails as one
  call. SQL's \<open>INTEGER\<close> columns hold \<open>i64\<close>, to which the code casts its \<open>u64\<close> values bit for
  bit; comparisons in SQL are therefore signed. The properties: identifiers are never handed out
  twice, enrolling consumes its invite and does exactly what the invite allows, the invitation
  tree is the transitive closure, and removal leaves no reference behind.
\<close>

subsection \<open>Tables\<close>

record user_rec =
  u_pubkey :: bytes
  u_encryption_key :: "bytes option"
  u_encryption_key_sig :: "bytes option"
  u_encryption_key_not_after :: "u64 option"
  u_name :: ustring
  u_avatar_hash :: "bytes option"
  u_role :: u8
  u_invited_by :: "u64 option"
  u_created_at :: u64
  u_last_seen :: u64

record room_rec =
  r_name :: ustring
  r_epoch :: u64
  r_password_hash :: "ustring option"

record invite_rec =
  i_secret :: ustring
  i_minted_by :: "u64 option"
  i_expires_at :: u64
  i_failures :: nat

record blob_rec =
  bl_bytes :: bytes
  bl_uploaded_at :: u64

record database =
  tbl_users :: "(u64, user_rec) fmap"
  seq_users :: nat
  tbl_rooms :: "(u64, room_rec) fmap"
  seq_rooms :: nat
  tbl_invites :: "(ustring, invite_rec) fmap"
  tbl_blobs :: "(bytes, blob_rec) fmap"
  tbl_next_media_id :: "nat option"
  tbl_server_profile :: "(ustring option \<times> bytes option) option"
  db_faults :: "bool list"

definition empty_database :: database where
  "empty_database = \<lparr> tbl_users = fmempty, seq_users = 0, tbl_rooms = fmempty, seq_rooms = 0,
     tbl_invites = fmempty, tbl_blobs = fmempty, tbl_next_media_id = None, tbl_server_profile = None,
     db_faults = [] \<rparr>"

datatype db_error = DbError

type_synonym 'a db = "(database, db_error, 'a) se"

definition stmt :: "'a db \<Rightarrow> 'a db" where
  "stmt f d =
     (case db_faults d of
        [] \<Rightarrow> f d
      | fault # later \<Rightarrow>
          (if fault then failE DbError (d\<lparr> db_faults := later \<rparr>) else f (d\<lparr> db_faults := later \<rparr>)))"

definition query :: "(database \<Rightarrow> 'a) \<Rightarrow> 'a db" where
  "query f = stmt (getE f)"

definition execute :: "(database \<Rightarrow> database) \<Rightarrow> unit db" where
  "execute f = stmt (modifyE f)"

text \<open>\<open>x < y\<close> in SQL, on \<open>u64\<close> values cast to \<open>i64\<close>.\<close>

definition i64_less :: "u64 \<Rightarrow> u64 \<Rightarrow> bool" where
  "i64_less x y \<longleftrightarrow> sint x < sint y"

text \<open>
  \<open>INTEGER PRIMARY KEY AUTOINCREMENT\<close>: one more than any key the table ever had; SQLite refuses
  the insert once the largest \<open>i64\<close> is used.
\<close>

definition next_rowid :: "nat \<Rightarrow> nat option" where
  "next_rowid seq = (if seq < 2 ^ 63 - 1 then Some (Suc seq) else None)"

subsection \<open>Rows as the server reads them\<close>

record user_row =
  row_id :: user_id
  row_pubkey :: public_key
  row_encryption_key :: "signed_encryption_key option"
  row_name :: ustring
  row_avatar :: "hash option"
  row_role :: role
  row_invited_by :: "user_id option"
  row_created_at :: u64

record room_row =
  rr_id :: room_id
  rr_name :: ustring
  rr_epoch :: epoch
  rr_password_hash :: "ustring option"

record invite_row =
  ir_code_id :: ustring
  ir_secret :: ustring
  ir_minted_by :: "user_id option"
  ir_expires_at :: u64
  ir_failures :: u32

datatype enrolled = Added user_row | Promoted user_row | Returning user_row

fun into_row :: "enrolled \<Rightarrow> user_row" where
  "into_row (Added row) = row"
| "into_row (Promoted row) = row"
| "into_row (Returning row) = row"

definition to_user :: "user_row \<Rightarrow> user_info" where
  "to_user row =
     \<lparr> ui_id = row_id row, ui_name = row_name row, ui_role = row_role row,
       ui_invited_by = row_invited_by row, ui_identity_key = row_pubkey row,
       ui_created_at = row_created_at row \<rparr>"

definition hash_column :: "bytes option \<Rightarrow> hash option" where
  "hash_column column =
     (case column of Some b \<Rightarrow> if length b = 32 then Some b else None | None \<Rightarrow> None)"

definition key_columns :: "user_rec \<Rightarrow> signed_encryption_key option" where
  "key_columns r =
     (case (u_encryption_key r, u_encryption_key_sig r, u_encryption_key_not_after r) of
        (Some key, Some sig, Some not_after) \<Rightarrow>
          (if length key = 32 \<and> length sig = 64
           then Some \<lparr> ek_key = key, ek_not_after = not_after, ek_sig = sig \<rparr> else None)
      | _ \<Rightarrow> None)"

text \<open>\<open>fixed\<close> refuses a key column that is not 32 bytes long.\<close>

definition user_row_of :: "u64 \<Rightarrow> user_rec \<Rightarrow> db_error + user_row" where
  "user_row_of uid r =
     (if length (u_pubkey r) \<noteq> 32 then Inl DbError
      else Inr \<lparr> row_id = uid, row_pubkey = u_pubkey r, row_encryption_key = key_columns r,
        row_name = u_name r, row_avatar = hash_column (u_avatar_hash r),
        row_role = (case from_rank (u_role r) of Some role \<Rightarrow> role | None \<Rightarrow> User),
        row_invited_by = u_invited_by r, row_created_at = u_created_at r \<rparr>)"

text \<open>\<open>query_row(..).optional()\<close> and \<open>query_map(..).collect()\<close>.\<close>

definition optional_row :: "(u64 \<times> user_rec) option \<Rightarrow> (db_error + user_row option)" where
  "optional_row found =
     (case found of
        None \<Rightarrow> Inr None
      | Some (uid, r) \<Rightarrow> (case user_row_of uid r of Inl e \<Rightarrow> Inl e | Inr row \<Rightarrow> Inr (Some row)))"

fun collect_result :: "('e + 'a) list \<Rightarrow> 'e + 'a list" where
  "collect_result [] = Inr []"
| "collect_result (Inl e # xs) = Inl e"
| "collect_result (Inr x # xs) =
     (case collect_result xs of Inl e \<Rightarrow> Inl e | Inr ys \<Rightarrow> Inr (x # ys))"

subsection \<open>Operations\<close>

definition media_id_after :: "nat option \<Rightarrow> nat" where
  "media_id_after counter = (case counter of None \<Rightarrow> 1 | Some n \<Rightarrow> n)"

definition allocate_tx :: "nat \<Rightarrow> media_id option db" where
  "allocate_tx count = (\<lambda>d.
     let first = media_id_after (tbl_next_media_id d); next = first + count
     in if next - 1 > 2 ^ 32 - 1 then retE None d
        else retE (Some (of_nat first)) (d\<lparr> tbl_next_media_id := Some next \<rparr>))"

definition db_allocate_media_ids :: "nat \<Rightarrow> media_id option db" where
  "db_allocate_media_ids count = stmt (allocate_tx count)"

definition db_admin_count :: "nat db" where
  "db_admin_count = query (\<lambda>d. fmsize (fmretain (\<lambda>_ r. u_role r = rank Admin) (tbl_users d)))"

definition user_id_by_pubkey :: "database \<Rightarrow> public_key \<Rightarrow> u64 option" where
  "user_id_by_pubkey d pubkey =
     find (\<lambda>k. map_option u_pubkey (fmlookup (tbl_users d) k) = Some pubkey) (fmkeys (tbl_users d))"

definition user_entry :: "database \<Rightarrow> u64 \<Rightarrow> (u64 \<times> user_rec) option" where
  "user_entry d uid = map_option (Pair uid) (fmlookup (tbl_users d) uid)"

definition db_user_by_pubkey :: "public_key \<Rightarrow> user_row option db" where
  "db_user_by_pubkey pubkey = stmt (liftE (\<lambda>d.
     optional_row (Option.bind (user_id_by_pubkey d pubkey) (user_entry d))))"

definition db_user :: "user_id \<Rightarrow> user_row option db" where
  "db_user uid = stmt (liftE (\<lambda>d. optional_row (user_entry d uid)))"

definition db_users :: "user_row list db" where
  "db_users = stmt (liftE (\<lambda>d.
     collect_result (map (\<lambda>k. user_row_of k (the (fmlookup (tbl_users d) k))) (fmkeys (tbl_users d)))))"

definition new_user :: "public_key \<Rightarrow> ustring \<Rightarrow> role \<Rightarrow> u64 option \<Rightarrow> u64 \<Rightarrow> user_rec" where
  "new_user pubkey name role minted_by now =
     \<lparr> u_pubkey = pubkey, u_encryption_key = None, u_encryption_key_sig = None,
       u_encryption_key_not_after = None, u_name = name, u_avatar_hash = None, u_role = rank role,
       u_invited_by = minted_by, u_created_at = now, u_last_seen = now \<rparr>"

text \<open>
  The transaction of \<open>enroll\<close>: the uid of the enrolled user and what was done to them, or
  \<open>None\<close> when there is no such live invite.
\<close>

definition enroll_tx ::
  "public_key \<Rightarrow> ustring \<Rightarrow> ustring \<Rightarrow> u64 \<Rightarrow> (u64 \<times> (user_row \<Rightarrow> enrolled)) option db" where
  "enroll_tx pubkey code_id name now = (\<lambda>d.
     case fmlookup (tbl_invites d) code_id of
       None \<Rightarrow> retE None d
     | Some invite \<Rightarrow>
         if \<not> i64_less now (i_expires_at invite) then retE None d
         else
           (let d1 = d\<lparr> tbl_invites := fmdrop code_id (tbl_invites d) \<rparr>;
                role = (if i_minted_by invite = None then Admin else User)
            in case user_id_by_pubkey d1 pubkey of
                 Some uid \<Rightarrow>
                   (let r = the (fmlookup (tbl_users d1) uid)
                    in if u_role r < rank role
                       then retE (Some (uid, Promoted))
                              (d1\<lparr> tbl_users := fmupd uid (r\<lparr> u_role := rank role \<rparr>) (tbl_users d1) \<rparr>)
                       else retE (Some (uid, Returning)) d1)
               | None \<Rightarrow>
                   (case next_rowid (seq_users d1) of
                      None \<Rightarrow> failE DbError d
                    | Some seq \<Rightarrow>
                        retE (Some (of_nat seq, Added))
                          (d1\<lparr> seq_users := seq,
                              tbl_users := fmupd (of_nat seq)
                                (new_user pubkey name role (i_minted_by invite) now) (tbl_users d1) \<rparr>))))"

definition db_enroll :: "public_key \<Rightarrow> ustring \<Rightarrow> ustring \<Rightarrow> u64 \<Rightarrow> enrolled option db" where
  "db_enroll pubkey code_id name now =
     bindE (stmt (enroll_tx pubkey code_id name now)) (\<lambda>done.
       case done of
         None \<Rightarrow> retE None
       | Some (uid, how) \<Rightarrow> bindE (db_user uid) (\<lambda>row. retE (map_option how row)))"

text \<open>\<open>UPDATE users SET .. WHERE id = ..\<close>, which does nothing when there is no such row.\<close>

definition update_user :: "u64 \<Rightarrow> (user_rec \<Rightarrow> user_rec) \<Rightarrow> database \<Rightarrow> database" where
  "update_user uid f d =
     (case fmlookup (tbl_users d) uid of
        None \<Rightarrow> d
      | Some r \<Rightarrow> d\<lparr> tbl_users := fmupd uid (f r) (tbl_users d) \<rparr>)"

definition update_room :: "u64 \<Rightarrow> (room_rec \<Rightarrow> room_rec) \<Rightarrow> database \<Rightarrow> database" where
  "update_room rid f d =
     (case fmlookup (tbl_rooms d) rid of
        None \<Rightarrow> d
      | Some r \<Rightarrow> d\<lparr> tbl_rooms := fmupd rid (f r) (tbl_rooms d) \<rparr>)"

definition db_set_encryption_key :: "user_id \<Rightarrow> signed_encryption_key \<Rightarrow> unit db" where
  "db_set_encryption_key uid k = execute (update_user uid (\<lambda>r.
     r\<lparr> u_encryption_key := Some (ek_key k), u_encryption_key_sig := Some (ek_sig k),
        u_encryption_key_not_after := Some (ek_not_after k) \<rparr>))"

definition db_set_profile :: "user_id \<Rightarrow> ustring \<Rightarrow> hash option \<Rightarrow> unit db" where
  "db_set_profile uid name avatar =
     execute (update_user uid (\<lambda>r. r\<lparr> u_name := name, u_avatar_hash := avatar \<rparr>))"

definition db_set_role :: "user_id \<Rightarrow> role \<Rightarrow> unit db" where
  "db_set_role uid role = execute (update_user uid (\<lambda>r. r\<lparr> u_role := rank role \<rparr>))"

definition db_mark_seen :: "user_id \<Rightarrow> u64 \<Rightarrow> unit db" where
  "db_mark_seen uid now = execute (update_user uid (\<lambda>r. r\<lparr> u_last_seen := now \<rparr>))"

definition db_unseen_since :: "u64 \<Rightarrow> user_id list db" where
  "db_unseen_since before =
     query (\<lambda>d. fmkeys (fmretain (\<lambda>_ r. i64_less (u_last_seen r) before) (tbl_users d)))"

definition invited_ids :: "(u64, user_rec) fmap \<Rightarrow> u64 \<Rightarrow> u64 list" where
  "invited_ids us uid = fmkeys (fmretain (\<lambda>_ r. u_invited_by r = Some uid) us)"

text \<open>
  The recursive query: rows leave its queue in the order they entered, and \<open>UNION\<close> drops every
  row that was found before.
\<close>

function (sequential) grow_tree :: "(u64, user_rec) fmap \<Rightarrow> u64 list \<Rightarrow> u64 list \<Rightarrow> u64 list" where
  "grow_tree us [] seen = seen"
| "grow_tree us (uid # queue) seen =
     (let new = filter (\<lambda>k. k \<notin> set seen) (invited_ids us uid)
      in grow_tree us (queue @ new) (seen @ new))"
  by pat_completeness auto

definition db_invite_tree :: "user_id \<Rightarrow> user_id list db" where
  "db_invite_tree uid = query (\<lambda>d. grow_tree (tbl_users d) [uid] [uid])"

definition remove_one :: "u64 \<Rightarrow> database \<Rightarrow> database" where
  "remove_one uid d =
     d\<lparr> tbl_users := fmdrop uid (fmmap (\<lambda>r. if u_invited_by r = Some uid then r\<lparr> u_invited_by := None \<rparr> else r)
                                     (tbl_users d)),
        tbl_invites := fmretain (\<lambda>_ i. i_minted_by i \<noteq> Some uid) (tbl_invites d) \<rparr>"

definition db_remove_users :: "user_id list \<Rightarrow> unit db" where
  "db_remove_users ids = execute (fold remove_one ids)"

definition db_rooms :: "room_row list db" where
  "db_rooms = query (\<lambda>d. map (\<lambda>k.
     let r = the (fmlookup (tbl_rooms d) k)
     in \<lparr> rr_id = k, rr_name = r_name r, rr_epoch = ucast (r_epoch r),
          rr_password_hash = r_password_hash r \<rparr>) (fmkeys (tbl_rooms d)))"

definition db_create_room :: "ustring \<Rightarrow> ustring option \<Rightarrow> room_id db" where
  "db_create_room name password_hash = stmt (\<lambda>d.
     case next_rowid (seq_rooms d) of
       None \<Rightarrow> failE DbError d
     | Some seq \<Rightarrow> retE (of_nat seq)
         (d\<lparr> seq_rooms := seq, tbl_rooms := fmupd (of_nat seq)
              \<lparr> r_name = name, r_epoch = 0, r_password_hash = password_hash \<rparr> (tbl_rooms d) \<rparr>))"

definition db_rename_room :: "room_id \<Rightarrow> ustring \<Rightarrow> unit db" where
  "db_rename_room rid name = execute (update_room rid (\<lambda>r. r\<lparr> r_name := name \<rparr>))"

definition db_set_room_password_hash :: "room_id \<Rightarrow> ustring option \<Rightarrow> unit db" where
  "db_set_room_password_hash rid hash = execute (update_room rid (\<lambda>r. r\<lparr> r_password_hash := hash \<rparr>))"

definition db_delete_room :: "room_id \<Rightarrow> unit db" where
  "db_delete_room rid = execute (\<lambda>d. d\<lparr> tbl_rooms := fmdrop rid (tbl_rooms d) \<rparr>)"

definition db_set_epochs :: "(room_id \<times> epoch) list \<Rightarrow> unit db" where
  "db_set_epochs epochs =
     execute (fold (\<lambda>(room, epoch). update_room room (\<lambda>r. r\<lparr> r_epoch := ucast epoch \<rparr>)) epochs)"

definition db_insert_invite :: "invite_row \<Rightarrow> bool db" where
  "db_insert_invite invite = stmt (\<lambda>d.
     if fmlookup (tbl_invites d) (ir_code_id invite) \<noteq> None then retE False d
     else retE True (d\<lparr> tbl_invites := fmupd (ir_code_id invite)
            \<lparr> i_secret = ir_secret invite, i_minted_by = ir_minted_by invite,
              i_expires_at = ir_expires_at invite, i_failures = unat (ir_failures invite) \<rparr>
            (tbl_invites d) \<rparr>))"

definition db_invite :: "ustring \<Rightarrow> invite_row option db" where
  "db_invite code_id = stmt (liftE (\<lambda>d.
     case fmlookup (tbl_invites d) code_id of
       None \<Rightarrow> Inr None
     | Some i \<Rightarrow>
         if 2 ^ 32 \<le> i_failures i then Inl DbError
         else Inr (Some \<lparr> ir_code_id = code_id, ir_secret = i_secret i, ir_minted_by = i_minted_by i,
                ir_expires_at = i_expires_at i, ir_failures = of_nat (i_failures i) \<rparr>)))"

definition db_consume_invite_try :: "ustring \<Rightarrow> unit db" where
  "db_consume_invite_try code_id = execute (\<lambda>d.
     case fmlookup (tbl_invites d) code_id of
       None \<Rightarrow> d
     | Some i \<Rightarrow> d\<lparr> tbl_invites := fmupd code_id (i\<lparr> i_failures := i_failures i + 1 \<rparr>) (tbl_invites d) \<rparr>)"

definition db_delete_invite :: "ustring \<Rightarrow> unit db" where
  "db_delete_invite code_id = execute (\<lambda>d. d\<lparr> tbl_invites := fmdrop code_id (tbl_invites d) \<rparr>)"

definition db_delete_spent_invites :: "nat \<Rightarrow> unit db" where
  "db_delete_spent_invites tries = execute (\<lambda>d.
     d\<lparr> tbl_invites := fmretain (\<lambda>_ i. \<not> tries \<le> i_failures i) (tbl_invites d) \<rparr>)"

definition db_purge_expired_invites :: "u64 \<Rightarrow> unit db" where
  "db_purge_expired_invites now = execute (\<lambda>d.
     d\<lparr> tbl_invites := fmretain (\<lambda>_ i. i64_less now (i_expires_at i)) (tbl_invites d) \<rparr>)"

definition db_invites_used :: "user_id \<Rightarrow> u64 \<Rightarrow> u64 \<Rightarrow> nat db" where
  "db_invites_used uid now since =
     bindE (query (\<lambda>d. fmsize (fmretain (\<lambda>_ i. i_minted_by i = Some uid \<and> i64_less now (i_expires_at i))
                                  (tbl_invites d)))) (\<lambda>live.
     bindE (query (\<lambda>d. fmsize (fmretain (\<lambda>_ r. u_invited_by r = Some uid \<and> i64_less since (u_created_at r))
                                  (tbl_users d)))) (\<lambda>enrolled.
     retE (live + enrolled)))"

definition db_put_blob :: "hash \<Rightarrow> bytes \<Rightarrow> u64 \<Rightarrow> unit db" where
  "db_put_blob h bs now = execute (\<lambda>d.
     d\<lparr> tbl_blobs := fmupd h
          (case fmlookup (tbl_blobs d) h of
             None \<Rightarrow> \<lparr> bl_bytes = bs, bl_uploaded_at = now \<rparr>
           | Some b \<Rightarrow> b\<lparr> bl_uploaded_at := now \<rparr>) (tbl_blobs d) \<rparr>)"

definition avatar_in_use :: "database \<Rightarrow> hash \<Rightarrow> bool" where
  "avatar_in_use d h \<longleftrightarrow>
     fmsize (fmretain (\<lambda>_ r. u_avatar_hash r = Some h) (tbl_users d)) \<noteq> 0 \<or>
     (case tbl_server_profile d of Some (_, avatar) \<Rightarrow> avatar = Some h | None \<Rightarrow> False)"

definition db_delete_unused_blobs :: "u64 \<Rightarrow> nat db" where
  "db_delete_unused_blobs uploaded_before = stmt (\<lambda>d.
     let kept = fmretain (\<lambda>h b. \<not> (i64_less (bl_uploaded_at b) uploaded_before \<and> \<not> avatar_in_use d h))
                  (tbl_blobs d)
     in retE (fmsize (tbl_blobs d) - fmsize kept) (d\<lparr> tbl_blobs := kept \<rparr>))"

definition db_server_profile :: "server_profile db" where
  "db_server_profile = query (\<lambda>d.
     case tbl_server_profile d of
       None \<Rightarrow> \<lparr> sp_name = None, sp_avatar = None \<rparr>
     | Some (name, avatar) \<Rightarrow> \<lparr> sp_name = name, sp_avatar = hash_column avatar \<rparr>)"

definition db_set_server_name :: "ustring option \<Rightarrow> unit db" where
  "db_set_server_name name = execute (\<lambda>d. d\<lparr> tbl_server_profile :=
     Some (case tbl_server_profile d of None \<Rightarrow> (name, None) | Some (_, avatar) \<Rightarrow> (name, avatar)) \<rparr>)"

definition db_set_server_avatar :: "hash option \<Rightarrow> unit db" where
  "db_set_server_avatar avatar = execute (\<lambda>d. d\<lparr> tbl_server_profile :=
     Some (case tbl_server_profile d of None \<Rightarrow> (None, avatar) | Some (name, _) \<Rightarrow> (name, avatar)) \<rparr>)"

definition db_has_blob :: "hash \<Rightarrow> bool db" where
  "db_has_blob h = query (\<lambda>d. fmlookup (tbl_blobs d) h \<noteq> None)"

definition db_blob :: "hash \<Rightarrow> bytes option db" where
  "db_blob h = query (\<lambda>d. map_option bl_bytes (fmlookup (tbl_blobs d) h))"

subsection \<open>The invitation tree\<close>

definition invited :: "(u64, user_rec) fmap \<Rightarrow> (u64 \<times> u64) set" where
  "invited us = {(inviter, k). \<exists>r. fmlookup us k = Some r \<and> u_invited_by r = Some inviter}"

lemma set_invited_ids: "set (invited_ids us uid) = invited us `` {uid}"
  by (auto simp: invited_ids_def invited_def fmlookup_dom'_iff split: option.splits if_splits)

termination grow_tree
proof (relation "measures [\<lambda>(us, queue, seen). card (fmdom' us - set seen), \<lambda>(us, queue, seen). length queue]")
  fix us :: "(u64, user_rec) fmap" and uid queue seen new
  assume new: "new = filter (\<lambda>k. k \<notin> set seen) (invited_ids us uid)"
  have sub: "set new \<subseteq> fmdom' us - set seen"
    using new by (auto simp: set_invited_ids invited_def fmlookup_dom'_iff)
  show "((us, queue @ new, seen @ new), us, uid # queue, seen)
      \<in> measures [\<lambda>(us, queue, seen). card (fmdom' us - set seen), \<lambda>(us, queue, seen). length queue]"
  proof (cases "new = []")
    case True
    then show ?thesis by simp
  next
    case False
    then have "fmdom' us - set (seen @ new) \<subset> fmdom' us - set seen"
      using sub by (cases new) auto
    then have "card (fmdom' us - set (seen @ new)) < card (fmdom' us - set seen)"
      by (intro psubset_card_mono) simp_all
    then show ?thesis by simp
  qed
qed simp

lemma grow_tree_closed:
  assumes "set queue \<subseteq> set seen" "\<forall>k \<in> set seen - set queue. invited us `` {k} \<subseteq> set seen"
  shows "set seen \<subseteq> set (grow_tree us queue seen) \<and>
    invited us `` set (grow_tree us queue seen) \<subseteq> set (grow_tree us queue seen) \<and>
    set (grow_tree us queue seen) \<subseteq> (invited us)\<^sup>* `` set seen"
  using assms
proof (induction us queue seen rule: grow_tree.induct)
  case (1 us seen)
  then show ?case by auto
next
  case (2 us uid queue seen)
  let ?new = "filter (\<lambda>k. k \<notin> set seen) (invited_ids us uid)"
  have inv: "set (queue @ ?new) \<subseteq> set (seen @ ?new)"
      "\<forall>k \<in> set (seen @ ?new) - set (queue @ ?new). invited us `` {k} \<subseteq> set (seen @ ?new)"
    using 2(2,3) by (auto simp: set_invited_ids)
  have "(invited us)\<^sup>* `` set (seen @ ?new) \<subseteq> (invited us)\<^sup>* `` set seen"
    using 2(2) by (auto simp: set_invited_ids intro: converse_rtrancl_into_rtrancl)
  with 2(1) [OF refl inv] show ?case by (simp add: Let_def) blast
qed

lemma set_grow_tree: "set (grow_tree us [uid] [uid]) = (invited us)\<^sup>* `` {uid}"
proof
  note closed = grow_tree_closed [of "[uid]" "[uid]" us]
  show "set (grow_tree us [uid] [uid]) \<subseteq> (invited us)\<^sup>* `` {uid}" using closed by simp
  have "k \<in> set (grow_tree us [uid] [uid])" if "(uid, k) \<in> (invited us)\<^sup>*" for k
    using that by (induction rule: rtrancl_induct) (use closed in auto)
  then show "(invited us)\<^sup>* `` {uid} \<subseteq> set (grow_tree us [uid] [uid])" by auto
qed

lemma distinct_grow_tree: "distinct seen \<Longrightarrow> distinct (grow_tree us queue seen)"
proof (induction us queue seen rule: grow_tree.induct)
  case (2 us uid queue seen)
  let ?new = "filter (\<lambda>k. k \<notin> set seen) (invited_ids us uid)"
  have "distinct (seen @ ?new)" using 2(2) by (auto simp: invited_ids_def)
  with 2(1) [OF refl] show ?case by (simp add: Let_def)
qed simp

declare grow_tree.simps [simp del]

text \<open>
  Removing a user with everyone they invited: the recursive query always ends, and when the
  database answers, its result lists, each once, exactly the user and everyone reachable from them
  through invitations.
\<close>

theorem invite_tree_reachable:
  "db_faults d = [] \<Longrightarrow>
   \<exists>tree. fst (db_invite_tree uid d) = Inr tree \<and> distinct tree \<and>
     set tree = (invited (tbl_users d))\<^sup>* `` {uid}"
  by (auto simp: db_invite_tree_def query_def stmt_def set_grow_tree intro!: distinct_grow_tree)

definition demo_user :: "u64 option \<Rightarrow> user_rec" where
  "demo_user inviter = new_user (replicate 32 0) [] User inviter 0"

definition demo_tree :: "(u64, user_rec) fmap" where
  "demo_tree = fmap_of_list [(1, demo_user None), (2, demo_user (Some 1)), (3, demo_user (Some 2)),
     (4, demo_user None), (5, demo_user (Some 1))]"

theorem invite_tree_reachable_witness:
  "\<exists>tree. fst (db_invite_tree 1 (empty_database\<lparr> tbl_users := demo_tree \<rparr>)) = Inr tree \<and>
     distinct tree \<and> tree = [1, 2, 5, 3]"
proof -
  have "grow_tree demo_tree [1] [1] = [1, 2, 5, 3]" by code_simp
  then have "fst (db_invite_tree 1 (empty_database\<lparr> tbl_users := demo_tree \<rparr>)) = Inr [1, 2, 5, 3]"
    by (simp add: db_invite_tree_def query_def stmt_def empty_database_def)
  with invite_tree_reachable [of "empty_database\<lparr> tbl_users := demo_tree \<rparr>" 1] show ?thesis
    by (simp add: empty_database_def)
qed

subsection \<open>Identifiers are never handed out twice\<close>

datatype db_call =
    AllocateMediaIds nat
  | Enroll_call public_key ustring ustring u64
  | CreateRoom_call ustring "ustring option"
  | DeleteRoom_call room_id
  | RemoveUsers_call "user_id list"
  | SetEpochs_call "(room_id \<times> epoch) list"
  | UserWrite_call user_id "user_rec \<Rightarrow> user_rec"
  | RoomWrite_call room_id "room_rec \<Rightarrow> room_rec"
  | OtherWrite_call "(ustring, invite_rec) fmap" "(bytes, blob_rec) fmap" "(ustring option \<times> bytes option) option"

datatype issued = MediaIssued nat | UserIssued u64 | RoomIssued u64

text \<open>
  Every way the server writes to the database: the calls that hand out identifiers, the ones that
  delete rows (after which a plain \<open>INTEGER PRIMARY KEY\<close> would reuse theirs), updates of single
  rows, and arbitrary changes to the tables without identifiers.
\<close>

fun db_do :: "db_call \<Rightarrow> database \<Rightarrow> issued list \<times> database" where
  "db_do (AllocateMediaIds n) d =
     (case db_allocate_media_ids n d of
        (Inr (Some first), d') \<Rightarrow> (map MediaIssued [unat first ..< unat first + n], d')
      | (_, d') \<Rightarrow> ([], d'))"
| "db_do (Enroll_call pubkey code name now) d =
     (case db_enroll pubkey code name now d of
        (Inr (Some (Added row)), d') \<Rightarrow> ([UserIssued (row_id row)], d')
      | (_, d') \<Rightarrow> ([], d'))"
| "db_do (CreateRoom_call name pw) d =
     (case db_create_room name pw d of (Inr rid, d') \<Rightarrow> ([RoomIssued rid], d') | (_, d') \<Rightarrow> ([], d'))"
| "db_do (DeleteRoom_call rid) d = ([], snd (db_delete_room rid d))"
| "db_do (RemoveUsers_call ids) d = ([], snd (db_remove_users ids d))"
| "db_do (SetEpochs_call es) d = ([], snd (db_set_epochs es d))"
| "db_do (UserWrite_call uid f) d = ([], snd (execute (update_user uid f) d))"
| "db_do (RoomWrite_call rid f) d = ([], snd (execute (update_room rid f) d))"
| "db_do (OtherWrite_call invites blobs profile) d =
     ([], snd (execute (\<lambda>d. d\<lparr> tbl_invites := invites, tbl_blobs := blobs, tbl_server_profile := profile \<rparr>) d))"

fun db_do_all :: "db_call list \<Rightarrow> database \<Rightarrow> issued list" where
  "db_do_all [] d = []"
| "db_do_all (c # cs) d = (let (out, d') = db_do c d in out @ db_do_all cs d')"

definition media_issued :: "issued list \<Rightarrow> nat list" where
  "media_issued out = List.map_filter (\<lambda>i. case i of MediaIssued n \<Rightarrow> Some n | _ \<Rightarrow> None) out"

definition users_issued :: "issued list \<Rightarrow> nat list" where
  "users_issued out = List.map_filter (\<lambda>i. case i of UserIssued n \<Rightarrow> Some (unat n) | _ \<Rightarrow> None) out"

definition rooms_issued :: "issued list \<Rightarrow> nat list" where
  "rooms_issued out = List.map_filter (\<lambda>i. case i of RoomIssued n \<Rightarrow> Some (unat n) | _ \<Rightarrow> None) out"

text \<open>Sequences within their \<open>i64\<close>, the media-id counter at most one past the largest \<open>u32\<close>.\<close>

definition db_seq_ok :: "database \<Rightarrow> bool" where
  "db_seq_ok d \<longleftrightarrow> seq_users d < 2 ^ 63 \<and> seq_rooms d < 2 ^ 63 \<and>
     media_id_after (tbl_next_media_id d) \<le> 2 ^ 32"

text \<open>What a call issues of each kind lies, in ascending order, between the sequence before and after.\<close>

definition issues_between :: "nat list \<Rightarrow> nat \<Rightarrow> nat \<Rightarrow> bool" where
  "issues_between ids a b \<longleftrightarrow> a \<le> b \<and> sorted_wrt (<) ids \<and> (\<forall>i \<in> set ids. a \<le> i \<and> i < b)"

definition issue_ok :: "database \<Rightarrow> issued list \<Rightarrow> database \<Rightarrow> bool" where
  "issue_ok d out d' \<longleftrightarrow>
     issues_between (media_issued out) (media_id_after (tbl_next_media_id d)) (media_id_after (tbl_next_media_id d')) \<and>
     issues_between (users_issued out) (Suc (seq_users d)) (Suc (seq_users d')) \<and>
     issues_between (rooms_issued out) (Suc (seq_rooms d)) (Suc (seq_rooms d'))"

lemmas issued_defs = media_issued_def users_issued_def rooms_issued_def List.map_filter_simps

lemma issues_between_none: "issues_between [] a b \<longleftrightarrow> a \<le> b"
  by (simp add: issues_between_def)

lemma same_sequences:
  assumes "tbl_next_media_id d' = tbl_next_media_id d" "seq_users d' = seq_users d" "seq_rooms d' = seq_rooms d"
  shows "issue_ok d [] d' \<and> (db_seq_ok d \<longrightarrow> db_seq_ok d')"
  using assms by (simp add: issue_ok_def issued_defs issues_between_none db_seq_ok_def)

lemma stmt_cases:
  obtains (fault) fs where "stmt f d = (Inl DbError, d\<lparr> db_faults := fs \<rparr>)"
  | (run) fs where "stmt f d = f (d\<lparr> db_faults := fs \<rparr>)"
proof (cases "db_faults d")
  case Nil
  then have "d = d\<lparr> db_faults := [] \<rparr>" by (cases d) simp
  moreover have "stmt f d = f d" using Nil by (simp add: stmt_def)
  ultimately show ?thesis using run [of "[]"] by metis
next
  case (Cons b fs)
  then show ?thesis
    by (cases b) (auto simp: stmt_def intro: fault [of fs] run [of fs])
qed

lemma execute_cases:
  obtains fs where "execute f d = (Inl DbError, d\<lparr> db_faults := fs \<rparr>)"
  | fs where "execute f d = (Inr (), f (d\<lparr> db_faults := fs \<rparr>))"
  unfolding execute_def by (rule stmt_cases [of "modifyE f" d]) (simp_all add: that)

lemma query_cases:
  obtains fs where "query f d = (Inl DbError, d\<lparr> db_faults := fs \<rparr>)"
  | fs where "query f d = (Inr (f (d\<lparr> db_faults := fs \<rparr>)), d\<lparr> db_faults := fs \<rparr>)"
  unfolding query_def by (rule stmt_cases [of "getE f" d]) (simp_all add: that)

lemma update_user_seq [simp]:
  "tbl_next_media_id (update_user uid f d) = tbl_next_media_id d"
  "seq_users (update_user uid f d) = seq_users d" "seq_rooms (update_user uid f d) = seq_rooms d"
  "tbl_rooms (update_user uid f d) = tbl_rooms d" "db_faults (update_user uid f d) = db_faults d"
  by (simp_all add: update_user_def split: option.splits)

lemma update_room_seq [simp]:
  "tbl_next_media_id (update_room rid f d) = tbl_next_media_id d"
  "seq_users (update_room rid f d) = seq_users d" "seq_rooms (update_room rid f d) = seq_rooms d"
  "tbl_users (update_room rid f d) = tbl_users d" "db_faults (update_room rid f d) = db_faults d"
  by (simp_all add: update_room_def split: option.splits)

lemma fold_fixes: "(\<And>x d. g (f x d) = g d) \<Longrightarrow> g (fold f xs d) = g d"
  by (induction xs arbitrary: d) simp_all

lemma update_rooms_seq [simp]:
  "tbl_next_media_id (fold (\<lambda>(r, e). update_room r (f e)) es d) = tbl_next_media_id d"
  "seq_users (fold (\<lambda>(r, e). update_room r (f e)) es d) = seq_users d"
  "seq_rooms (fold (\<lambda>(r, e). update_room r (f e)) es d) = seq_rooms d"
  by (auto intro!: fold_fixes)

lemma remove_one_seq [simp]:
  "tbl_next_media_id (fold remove_one ids d) = tbl_next_media_id d"
  "seq_users (fold remove_one ids d) = seq_users d" "seq_rooms (fold remove_one ids d) = seq_rooms d"
  by (auto intro!: fold_fixes simp: remove_one_def)

lemma execute_keeps_sequences:
  assumes "\<And>d. tbl_next_media_id (f d) = tbl_next_media_id d \<and> seq_users (f d) = seq_users d \<and> seq_rooms (f d) = seq_rooms d"
  shows "issue_ok d [] (snd (execute f d)) \<and> (db_seq_ok d \<longrightarrow> db_seq_ok (snd (execute f d)))"
  by (rule execute_cases [of f d]; rule same_sequences) (simp_all add: assms)

lemma allocate_issues:
  assumes "db_seq_ok d" "db_do (AllocateMediaIds n) d = (out, d')"
  shows "issue_ok d out d' \<and> db_seq_ok d'"
proof (cases rule: stmt_cases [of "allocate_tx n" d])
  case (fault fs)
  then show ?thesis using assms same_sequences [of d' d] by (auto simp: db_allocate_media_ids_def)
next
  case (run fs)
  let ?first = "media_id_after (tbl_next_media_id d)"
  show ?thesis
  proof (cases "?first + n - 1 > 2 ^ 32 - 1")
    case True
    then show ?thesis using assms run same_sequences [of d' d] by (auto simp: db_allocate_media_ids_def allocate_tx_def Let_def)
  next
    case False
    have "n = 0 \<or> ?first < 2 ^ 32" using False by (cases n) auto
    then consider "n = 0" | "?first < 2 ^ 32" by blast
    then show ?thesis
    proof cases
      case 1
      then show ?thesis using assms run False
        by (auto simp: db_allocate_media_ids_def allocate_tx_def Let_def issue_ok_def issued_defs issues_between_none
            db_seq_ok_def media_id_after_def)
    next
      case 2
      then have "unat (of_nat ?first :: u32) = ?first" by (intro unat_of_nat_small) simp
      then have "out = map MediaIssued [?first ..< ?first + n]" "d' = d\<lparr> db_faults := fs, tbl_next_media_id := Some (?first + n) \<rparr>"
        using assms run False by (auto simp: db_allocate_media_ids_def allocate_tx_def Let_def)
      moreover have "media_issued (map MediaIssued ns) = ns" "users_issued (map MediaIssued ns) = []"
          "rooms_issued (map MediaIssued ns) = []" for ns
        by (induction ns) (auto simp: issued_defs)
      ultimately show ?thesis using False assms(1)
        by (auto simp: issue_ok_def issues_between_def issues_between_none db_seq_ok_def media_id_after_def
            sorted_wrt_upt)
    qed
  qed
qed

lemma find_key_some:
  "user_id_by_pubkey d pubkey = Some uid \<Longrightarrow> \<exists>r. fmlookup (tbl_users d) uid = Some r \<and> u_pubkey r = pubkey"
  by (auto simp: user_id_by_pubkey_def find_Some_iff)

lemma db_user_result:
  assumes "db_user uid d = (Inr (Some row), d')"
  shows "row_id row = uid" "\<exists>fs. d' = d\<lparr> db_faults := fs \<rparr>"
proof -
  show "row_id row = uid" "\<exists>fs. d' = d\<lparr> db_faults := fs \<rparr>"
    using assms
    by (cases rule: stmt_cases [of "liftE (\<lambda>d. optional_row (user_entry d uid))" d];
        auto simp: db_user_def optional_row_def user_row_of_def user_entry_def
          split: option.splits sum.splits if_splits)+
qed

lemma db_user_state: "\<exists>fs. snd (db_user uid d) = d\<lparr> db_faults := fs \<rparr>"
  by (cases rule: stmt_cases [of "liftE (\<lambda>d. optional_row (user_entry d uid))" d]) (auto simp: db_user_def)

lemma enroll_tx_sequences:
  assumes "db_seq_ok d" "enroll_tx pubkey code name now d = (r, d')"
  shows "tbl_next_media_id d' = tbl_next_media_id d" "seq_rooms d' = seq_rooms d"
    and "(\<exists>uid. r = Inr (Some (uid, Added)) \<and> unat uid = Suc (seq_users d) \<and> seq_users d' = Suc (seq_users d) \<and>
            Suc (seq_users d) < 2 ^ 63) \<or>
         seq_users d' = seq_users d \<and> (\<forall>uid how row row'. r = Inr (Some (uid, how)) \<longrightarrow> how row \<noteq> Added row')"
proof -
  have small: "unat (of_nat (Suc (seq_users d)) :: u64) = Suc (seq_users d)" if "seq_users d < 2 ^ 63 - 1"
    using that by (intro unat_of_nat_small) simp
  show "tbl_next_media_id d' = tbl_next_media_id d" "seq_rooms d' = seq_rooms d"
    using assms(2) by (auto simp: enroll_tx_def Let_def split: option.splits if_splits)
  show "(\<exists>uid. r = Inr (Some (uid, Added)) \<and> unat uid = Suc (seq_users d) \<and> seq_users d' = Suc (seq_users d) \<and>
            Suc (seq_users d) < 2 ^ 63) \<or>
         seq_users d' = seq_users d \<and> (\<forall>uid how row row'. r = Inr (Some (uid, how)) \<longrightarrow> how row \<noteq> Added row')"
    using assms(2) small
    by (auto simp: enroll_tx_def Let_def next_rowid_def split: option.splits if_splits)
qed

lemma enroll_stmt_sequences:
  assumes "db_seq_ok d" "stmt (enroll_tx pubkey code name now) d = (r, d')"
  shows "tbl_next_media_id d' = tbl_next_media_id d \<and> seq_rooms d' = seq_rooms d \<and>
    ((\<exists>uid. r = Inr (Some (uid, Added)) \<and> unat uid = Suc (seq_users d) \<and> seq_users d' = Suc (seq_users d) \<and>
            Suc (seq_users d) < 2 ^ 63) \<or>
     seq_users d' = seq_users d \<and>
       (\<forall>uid how row row'. r = Inr (Some (uid, how)) \<longrightarrow> how row \<noteq> Added row'))"
proof (cases rule: stmt_cases [of "enroll_tx pubkey code name now" d])
  case (fault fs)
  with assms(2) show ?thesis by auto
next
  case (run fs)
  have ok: "db_seq_ok (d\<lparr> db_faults := fs \<rparr>)" using assms(1) by (simp add: db_seq_ok_def)
  from run assms(2) have "enroll_tx pubkey code name now (d\<lparr> db_faults := fs \<rparr>) = (r, d')" by simp
  from enroll_tx_sequences [OF ok this] show ?thesis by simp
qed

lemma issue_ok_user:
  "issue_ok d [UserIssued uid] d' \<longleftrightarrow>
     media_id_after (tbl_next_media_id d) \<le> media_id_after (tbl_next_media_id d') \<and> seq_rooms d \<le> seq_rooms d' \<and>
     seq_users d < unat uid \<and> unat uid \<le> seq_users d'"
  by (auto simp: issue_ok_def issued_defs issues_between_def)

lemma issue_ok_room:
  "issue_ok d [RoomIssued rid] d' \<longleftrightarrow>
     media_id_after (tbl_next_media_id d) \<le> media_id_after (tbl_next_media_id d') \<and> seq_users d \<le> seq_users d' \<and>
     seq_rooms d < unat rid \<and> unat rid \<le> seq_rooms d'"
  by (auto simp: issue_ok_def issued_defs issues_between_def)

lemma issue_ok_none:
  "issue_ok d [] d' \<longleftrightarrow>
     media_id_after (tbl_next_media_id d) \<le> media_id_after (tbl_next_media_id d') \<and>
     seq_users d \<le> seq_users d' \<and> seq_rooms d \<le> seq_rooms d'"
  by (auto simp: issue_ok_def issued_defs issues_between_def)

text \<open>The enrolled row that comes back is the one whose id the transaction chose.\<close>

lemma enroll_after_tx:
  assumes "stmt (enroll_tx pubkey code name now) d = (r, d1)"
    and "db_enroll pubkey code name now d = (res, d')"
  shows "\<exists>fs. d' = d1\<lparr> db_faults := fs \<rparr>"
    and "res = Inr (Some e) \<Longrightarrow> \<exists>uid how row. r = Inr (Some (uid, how)) \<and> e = how row \<and> row_id row = uid"
proof -
  have same: "\<exists>fs. d1 = d1\<lparr> db_faults := fs \<rparr>" by (rule exI [of _ "db_faults d1"]) simp
  have "(\<exists>fs. d' = d1\<lparr> db_faults := fs \<rparr>) \<and>
    (res = Inr (Some e) \<longrightarrow> (\<exists>uid how row. r = Inr (Some (uid, how)) \<and> e = how row \<and> row_id row = uid))"
    using assms(2) unfolding db_enroll_def
  proof (rule bindE_elim)
    fix x
    assume "stmt (enroll_tx pubkey code name now) d = (Inl x, d')" "res = Inl x"
    with assms(1) same show ?thesis by auto
  next
    fix x u
    assume tx: "stmt (enroll_tx pubkey code name now) d = (Inr x, u)"
      and rest: "(case x of None \<Rightarrow> retE None | Some (uid, how) \<Rightarrow>
          bindE (db_user uid) (\<lambda>row. retE (map_option how row))) u = (res, d')"
    show ?thesis
    proof (cases x)
      case None
      with tx rest assms(1) same show ?thesis by auto
    next
      case (Some p)
      obtain uid how where p: "p = (uid, how)" by (cases p)
      obtain rr d2 where us: "db_user uid u = (rr, d2)" by fastforce
      have d': "d' = d2" "res = (case rr of Inl e \<Rightarrow> Inl e | Inr row \<Rightarrow> Inr (map_option how row))"
        using rest Some p us by (auto simp: bindE_def split: sum.splits)
      have "\<exists>fs. d2 = u\<lparr> db_faults := fs \<rparr>" using db_user_state [of uid u] us by simp
      moreover have "row_id row = uid" if "rr = Inr (Some row)" for row
        using db_user_result(1) us that by blast
      ultimately show ?thesis using d' tx assms(1) Some p by (auto split: sum.splits)
    qed
  qed
  then show "\<exists>fs. d' = d1\<lparr> db_faults := fs \<rparr>"
    and "res = Inr (Some e) \<Longrightarrow> \<exists>uid how row. r = Inr (Some (uid, how)) \<and> e = how row \<and> row_id row = uid"
    by blast+
qed

lemma enroll_issues:
  assumes "db_seq_ok d" "db_do (Enroll_call pubkey code name now) d = (out, d')"
  shows "issue_ok d out d' \<and> db_seq_ok d'"
proof -
  obtain r d1 where tx: "stmt (enroll_tx pubkey code name now) d = (r, d1)" by fastforce
  obtain res where en: "db_enroll pubkey code name now d = (res, d')"
      and out: "out = (case res of Inr (Some (Added row)) \<Rightarrow> [UserIssued (row_id row)] | _ \<Rightarrow> [])"
    using assms(2) by (auto split: prod.splits sum.splits option.splits enrolled.splits)
  note seq = enroll_stmt_sequences [OF assms(1) tx] and after = enroll_after_tx [OF tx en]
  from after(1) seq have state: "tbl_next_media_id d' = tbl_next_media_id d" "seq_rooms d' = seq_rooms d"
      "seq_users d' = seq_users d \<or> seq_users d' = Suc (seq_users d) \<and> Suc (seq_users d) < 2 ^ 63"
    by auto
  then have ok: "db_seq_ok d'" using assms(1) by (auto simp: db_seq_ok_def)
  show ?thesis
  proof (cases "\<exists>row. res = Inr (Some (Added row))")
    case True
    then obtain row where row: "res = Inr (Some (Added row))" by blast
    from after(2) [OF row] obtain uid how old where r: "r = Inr (Some (uid, how))" "how old = Added row" "row_id old = uid"
      by metis
    with seq have "how = Added" "unat uid = Suc (seq_users d)" "seq_users d1 = Suc (seq_users d)" by auto
    with r after(1) have "unat (row_id row) = Suc (seq_users d)" "seq_users d' = Suc (seq_users d)" by auto
    then show ?thesis using out row state ok by (simp add: issue_ok_user)
  next
    case False
    then have "out = []" using out by (auto split: sum.splits option.splits enrolled.splits)
    then show ?thesis using state ok by (auto simp: issue_ok_none)
  qed
qed

lemma create_room_issues:
  assumes "db_seq_ok d" "db_do (CreateRoom_call name pw) d = (out, d')"
  shows "issue_ok d out d' \<and> db_seq_ok d'"
proof (cases "db_create_room name pw d")
  case (Pair r d1)
  have small: "unat (of_nat (Suc n) :: u64) = Suc n" if "n < 2 ^ 63 - 1" for n
    using that by (intro unat_of_nat_small) simp
  show ?thesis
    using assms Pair small
    by (auto simp: db_create_room_def stmt_def next_rowid_def issue_ok_none issue_ok_room db_seq_ok_def
        split: list.splits if_splits sum.splits option.splits simp del: of_nat_Suc)
qed

lemma db_do_issues:
  assumes "db_seq_ok d" "db_do c d = (out, d')"
  shows "issue_ok d out d' \<and> db_seq_ok d'"
proof (cases c)
  case (AllocateMediaIds n)
  then show ?thesis using allocate_issues assms by blast
next
  case (Enroll_call a b c' e)
  then show ?thesis using enroll_issues assms by blast
next
  case (CreateRoom_call a b)
  then show ?thesis using create_room_issues assms by blast
next
  case (DeleteRoom_call rid)
  then show ?thesis
    using assms execute_keeps_sequences [of "\<lambda>d. d\<lparr> tbl_rooms := fmdrop rid (tbl_rooms d) \<rparr>" d]
    by (auto simp: db_delete_room_def)
next
  case (RemoveUsers_call ids)
  then show ?thesis
    using assms execute_keeps_sequences [of "fold remove_one ids" d] by (auto simp: db_remove_users_def)
next
  case (SetEpochs_call es)
  then show ?thesis
    using assms execute_keeps_sequences
      [of "fold (\<lambda>(room, epoch). update_room room (\<lambda>r. r\<lparr> r_epoch := ucast epoch \<rparr>)) es" d]
    by (auto simp: db_set_epochs_def)
next
  case (UserWrite_call uid f)
  then show ?thesis using assms execute_keeps_sequences [of "update_user uid f" d] by auto
next
  case (RoomWrite_call rid f)
  then show ?thesis using assms execute_keeps_sequences [of "update_room rid f" d] by auto
next
  case (OtherWrite_call i b s)
  then show ?thesis
    using assms execute_keeps_sequences
      [of "\<lambda>d. d\<lparr> tbl_invites := i, tbl_blobs := b, tbl_server_profile := s \<rparr>" d] by auto
qed

lemma issues_between_append:
  "issues_between xs a b \<Longrightarrow> sorted_wrt (<) ys \<Longrightarrow> \<forall>i \<in> set ys. b \<le> i \<Longrightarrow>
   sorted_wrt (<) (xs @ ys) \<and> (\<forall>i \<in> set (xs @ ys). a \<le> i)"
  by (force simp: issues_between_def sorted_wrt_append)

lemma map_filter_append: "List.map_filter f (xs @ ys) = List.map_filter f xs @ List.map_filter f ys"
  by (simp add: List.map_filter_def)

lemma db_do_all_ascending:
  assumes "db_seq_ok d"
  shows "(sorted_wrt (<) (media_issued (db_do_all cs d)) \<and>
      (\<forall>i \<in> set (media_issued (db_do_all cs d)). media_id_after (tbl_next_media_id d) \<le> i)) \<and>
    (sorted_wrt (<) (users_issued (db_do_all cs d)) \<and>
      (\<forall>i \<in> set (users_issued (db_do_all cs d)). Suc (seq_users d) \<le> i)) \<and>
    (sorted_wrt (<) (rooms_issued (db_do_all cs d)) \<and>
      (\<forall>i \<in> set (rooms_issued (db_do_all cs d)). Suc (seq_rooms d) \<le> i))"
  using assms
proof (induction cs arbitrary: d)
  case Nil
  then show ?case by (simp add: issued_defs)
next
  case (Cons c cs)
  obtain out d' where do: "db_do c d = (out, d')" by fastforce
  note step = db_do_issues [OF Cons.prems do]
  then have later: "db_seq_ok d'" by blast
  have step: "issues_between (media_issued out) (media_id_after (tbl_next_media_id d)) (media_id_after (tbl_next_media_id d'))"
      "issues_between (users_issued out) (Suc (seq_users d)) (Suc (seq_users d'))"
      "issues_between (rooms_issued out) (Suc (seq_rooms d)) (Suc (seq_rooms d'))"
    using step by (simp_all add: issue_ok_def)
  have split: "media_issued (db_do_all (c # cs) d) = media_issued out @ media_issued (db_do_all cs d')"
      "users_issued (db_do_all (c # cs) d) = users_issued out @ users_issued (db_do_all cs d')"
      "rooms_issued (db_do_all (c # cs) d) = rooms_issued out @ rooms_issued (db_do_all cs d')"
    by (simp_all add: do media_issued_def users_issued_def rooms_issued_def map_filter_append)
  show ?case
    unfolding split
    using issues_between_append [OF step(1)] issues_between_append [OF step(2)] issues_between_append [OF step(3)]
      Cons.IH [OF later] by presburger
qed

lemma media_issued_fit:
  "db_seq_ok d \<Longrightarrow> \<forall>i \<in> set (media_issued (db_do_all cs d)). i < 2 ^ 32"
proof (induction cs arbitrary: d)
  case Nil
  then show ?case by (simp add: issued_defs)
next
  case (Cons c cs)
  obtain out d' where do: "db_do c d = (out, d')" by fastforce
  note step = db_do_issues [OF Cons.prems do]
  then have "\<forall>i \<in> set (media_issued out). i < 2 ^ 32"
    by (auto simp: issue_ok_def issues_between_def db_seq_ok_def)
  with Cons.IH step show ?case
    by (auto simp: do media_issued_def map_filter_append)
qed

text \<open>
  C21. Identifiers are never handed out twice: over any sequence of writes to the database, with
  any of them failing, across deletions of the rows that had them, the media ids, user ids and
  room ids handed out are strictly ascending; media ids fit their 32 bits.
\<close>

theorem ids_never_reused:
  assumes "db_seq_ok d"
  shows "sorted_wrt (<) (media_issued (db_do_all cs d)) \<and> sorted_wrt (<) (users_issued (db_do_all cs d)) \<and>
    sorted_wrt (<) (rooms_issued (db_do_all cs d)) \<and>
    (\<forall>i \<in> set (media_issued (db_do_all cs d)). media_id_after (tbl_next_media_id d) \<le> i \<and> i < 2 ^ 32)"
  using db_do_all_ascending [OF assms] media_issued_fit [OF assms] by blast

definition demo_calls :: "db_call list" where
  "demo_calls = [AllocateMediaIds 3, CreateRoom_call [] None, DeleteRoom_call 1, AllocateMediaIds 3,
     CreateRoom_call [] None]"

definition demo_faults :: database where
  "demo_faults = empty_database\<lparr> db_faults := [False, False, False, True] \<rparr>"

theorem ids_never_reused_witness:
  "db_do_all demo_calls demo_faults
     = [MediaIssued 1, MediaIssued 2, MediaIssued 3, RoomIssued 1, RoomIssued 2] \<and>
   sorted_wrt (<) (rooms_issued (db_do_all demo_calls demo_faults))"
proof (rule conjI)
  show "db_do_all demo_calls demo_faults
     = [MediaIssued 1, MediaIssued 2, MediaIssued 3, RoomIssued 1, RoomIssued 2]"
    by (simp add: demo_calls_def demo_faults_def db_allocate_media_ids_def allocate_tx_def db_create_room_def
        db_delete_room_def execute_def stmt_def empty_database_def next_rowid_def media_id_after_def Let_def upt_rec)
  have "db_seq_ok demo_faults"
    by (simp add: db_seq_ok_def demo_faults_def empty_database_def media_id_after_def)
  from ids_never_reused [OF this] show "sorted_wrt (<) (rooms_issued (db_do_all demo_calls demo_faults))"
    by blast
qed

subsection \<open>Enrolling\<close>

text \<open>What every write keeps: keys of 32 bytes, one user each, ids the sequence has passed, known ranks.\<close>

definition db_users_ok :: "database \<Rightarrow> bool" where
  "db_users_ok d \<longleftrightarrow>
     (\<forall>k r. fmlookup (tbl_users d) k = Some r \<longrightarrow>
        length (u_pubkey r) = 32 \<and> u_role r \<le> 2 \<and> unat k \<le> seq_users d) \<and>
     (\<forall>k k' r r'. fmlookup (tbl_users d) k = Some r \<longrightarrow> fmlookup (tbl_users d) k' = Some r' \<longrightarrow>
        u_pubkey r = u_pubkey r' \<longrightarrow> k = k')"

definition live_invite :: "database \<Rightarrow> ustring \<Rightarrow> u64 \<Rightarrow> invite_rec option" where
  "live_invite d code now =
     (case fmlookup (tbl_invites d) code of
        Some i \<Rightarrow> if i64_less now (i_expires_at i) then Some i else None
      | None \<Rightarrow> None)"

lemma role_column: "from_rank (rank r) = Some r"
  by (cases r) (simp_all add: from_rank_def)

lemma low_role: "u \<le> 2 \<Longrightarrow> u < rank Admin \<longleftrightarrow> u \<noteq> 2" for u :: u8
  by auto

lemma stmt_faultless: "db_faults d = [] \<Longrightarrow> stmt f d = f d"
  by (simp add: stmt_def)

lemma live_inviteD: "live_invite d code now = Some i \<Longrightarrow> fmlookup (tbl_invites d) code = Some i \<and> i64_less now (i_expires_at i)"
  by (auto simp: live_invite_def split: option.splits if_splits)

lemma key_after_invite [simp]: "user_id_by_pubkey (d\<lparr> tbl_invites := x \<rparr>) pubkey = user_id_by_pubkey d pubkey"
  by (simp add: user_id_by_pubkey_def)

lemma enroll_nobody:
  assumes "db_faults d = []" "live_invite d code now = None"
  shows "db_enroll pubkey code name now d = (Inr None, d)"
  using assms by (auto simp: db_enroll_def bindE_def stmt_faultless enroll_tx_def live_invite_def split: option.splits if_splits)

lemma enroll_new:
  assumes "db_faults d = []" "live_invite d code now = Some i" "user_id_by_pubkey d pubkey = None"
    "seq_users d < 2 ^ 63 - 1" "length pubkey = 32" and uid: "uid = of_nat (Suc (seq_users d))"
    and role: "role = (if i_minted_by i = None then Admin else User)"
  shows "db_enroll pubkey code name now d =
    (Inr (Some (Added \<lparr> row_id = uid, row_pubkey = pubkey, row_encryption_key = None, row_name = name, row_avatar = None,
         row_role = role, row_invited_by = i_minted_by i, row_created_at = now \<rparr>)),
     d\<lparr> tbl_invites := fmdrop code (tbl_invites d), seq_users := Suc (seq_users d),
         tbl_users := fmupd uid (new_user pubkey name role (i_minted_by i) now) (tbl_users d) \<rparr>)"
  using assms live_inviteD [OF assms(2)]
  by (auto simp: db_enroll_def bindE_def stmt_faultless enroll_tx_def Let_def next_rowid_def db_user_def optional_row_def
      user_entry_def user_row_of_def new_user_def key_columns_def hash_column_def role_column simp del: of_nat_Suc)

lemma enroll_known:
  assumes "db_faults d = []" "live_invite d code now = Some i" "user_id_by_pubkey d pubkey = Some k"
    and r: "fmlookup (tbl_users d) k = Some r" "length (u_pubkey r) = 32" "u_role r \<le> 2"
    and r': "r' = (if i_minted_by i = None \<and> u_role r \<noteq> rank Admin then r\<lparr> u_role := rank Admin \<rparr> else r)"
    and how: "how = (if i_minted_by i = None \<and> u_role r \<noteq> rank Admin then Promoted else Returning)"
  shows "\<exists>row. user_row_of k r' = Inr row \<and> db_enroll pubkey code name now d =
    (Inr (Some (how row)), d\<lparr> tbl_invites := fmdrop code (tbl_invites d), tbl_users := fmupd k r' (tbl_users d) \<rparr>)"
proof -
  have same: "fmupd k r (tbl_users d) = tbl_users d" using r(1) by (intro fmap_ext) auto
  have low: "u_role r < 2 \<longleftrightarrow> u_role r \<noteq> 2" using r(3) by (simp add: order_less_le)
  show ?thesis
    using assms(1,2,3) live_inviteD [OF assms(2)] r same low
    by (auto simp: r' how db_enroll_def bindE_def stmt_faultless enroll_tx_def Let_def db_user_def optional_row_def
        user_entry_def user_row_of_def)
qed

lemma enroll_promotes:
  assumes "db_faults d = []" "live_invite d code now = Some i" "user_id_by_pubkey d pubkey = Some k"
    "fmlookup (tbl_users d) k = Some r" "length (u_pubkey r) = 32" "u_role r \<le> 2" "i_minted_by i = None \<and> u_role r \<noteq> rank Admin"
  obtains row where "user_row_of k (r\<lparr> u_role := rank Admin \<rparr>) = Inr row" "row_id row = k" "row_pubkey row = u_pubkey r"
    "row_role row = Admin" "db_enroll pubkey code name now d = (Inr (Some (Promoted row)),
       d\<lparr> tbl_invites := fmdrop code (tbl_invites d), tbl_users := fmupd k (r\<lparr> u_role := rank Admin \<rparr>) (tbl_users d) \<rparr>)"
  using enroll_known [OF assms(1-6) refl refl, of name] assms(5,7) by (auto simp: user_row_of_def from_rank_def)

lemma enroll_returns:
  assumes "db_faults d = []" "live_invite d code now = Some i" "user_id_by_pubkey d pubkey = Some k"
    and r: "fmlookup (tbl_users d) k = Some r" "length (u_pubkey r) = 32" "u_role r \<le> 2" and "\<not> (i_minted_by i = None \<and> u_role r \<noteq> rank Admin)"
  obtains row where "user_row_of k r = Inr row" "row_id row = k" "row_pubkey row = u_pubkey r"
    "db_enroll pubkey code name now d = (Inr (Some (Returning row)), d\<lparr> tbl_invites := fmdrop code (tbl_invites d) \<rparr>)"
proof -
  have "fmupd k r (tbl_users d) = tbl_users d" using r(1) by (intro fmap_ext) auto
  then show ?thesis
    using that enroll_known [OF assms(1-6) refl refl, of name] r(2) assms(7) by (auto simp: user_row_of_def)
qed

lemma enroll_twice:
  assumes "db_faults d = []" "fmlookup (tbl_invites d) code = None"
  shows "fst (db_enroll pubkey code name now d) = Inr None"
  using enroll_nobody [of d code now] assms by (simp add: live_invite_def)

text \<open>
  C22. An invite is used once, and does what its kind allows. With no live invite under the code,
  enrolling changes nothing and returns nothing. Otherwise the invite is gone (so the same code
  enrolls nobody again), and beyond that only the table of users can change: with an unknown key one
  row is added, under a fresh id, named as asked, invited by the minter, an admin exactly if the
  invite had none, with nothing else set; with the key of a user, that user's role becomes admin if the
  invite had no minter and they were none, and otherwise nothing changes. The row returned is the one
  stored.
\<close>

theorem enroll_exact:
  assumes ok: "db_users_ok d" "db_faults d = []" "seq_users d < 2 ^ 63 - 1" "length pubkey = 32"
  shows "case live_invite d code now of
     None \<Rightarrow> db_enroll pubkey code name now d = (Inr None, d)
   | Some i \<Rightarrow>
       \<exists>row how d'. db_enroll pubkey code name now d = (Inr (Some (how row)), d') \<and>
         row_pubkey row = pubkey \<and> fst (db_user (row_id row) d') = Inr (Some row) \<and>
         fst (db_enroll other_key code other_name later d') = Inr None \<and>
         (case user_id_by_pubkey d pubkey of
            None \<Rightarrow> how = Added \<and> unat (row_id row) = Suc (seq_users d) \<and> fmlookup (tbl_users d) (row_id row) = None \<and>
              row_role row = (if i_minted_by i = None then Admin else User) \<and>
              d' = d\<lparr> tbl_invites := fmdrop code (tbl_invites d), seq_users := Suc (seq_users d),
                tbl_users := fmupd (row_id row)
                  \<lparr> u_pubkey = pubkey, u_encryption_key = None, u_encryption_key_sig = None, u_encryption_key_not_after = None,
                    u_name = name, u_avatar_hash = None, u_role = rank (row_role row), u_invited_by = i_minted_by i,
                    u_created_at = now, u_last_seen = now \<rparr> (tbl_users d) \<rparr>
          | Some k \<Rightarrow> row_id row = k \<and> (\<exists>r. fmlookup (tbl_users d) k = Some r \<and>
              (if i_minted_by i = None \<and> u_role r \<noteq> rank Admin
               then how = Promoted \<and> row_role row = Admin \<and>
                 d' = d\<lparr> tbl_invites := fmdrop code (tbl_invites d),
                         tbl_users := fmupd k (r\<lparr> u_role := rank Admin \<rparr>) (tbl_users d) \<rparr>
               else how = Returning \<and> d' = d\<lparr> tbl_invites := fmdrop code (tbl_invites d) \<rparr>)))"
proof (cases "live_invite d code now")
  case None
  then show ?thesis using enroll_nobody ok(2) by simp
next
  case (Some i)
  note live = this
  show ?thesis
  proof (cases "user_id_by_pubkey d pubkey")
    case None
    let ?uid = "of_nat (Suc (seq_users d)) :: u64"
    have uid: "unat ?uid = Suc (seq_users d)" using ok(3) by (intro unat_of_nat_small) simp
    then have fresh: "fmlookup (tbl_users d) ?uid = None"
      using ok(1) unfolding db_users_ok_def by (metis Suc_n_not_le_n option.exhaust)
    show ?thesis
      using None live ok uid fresh
      by (simp add: enroll_new [OF ok(2) live None ok(3,4) refl refl] enroll_twice db_user_def stmt_faultless optional_row_def
          user_entry_def user_row_of_def new_user_def key_columns_def hash_column_def role_column del: of_nat_Suc)
  next
    case (Some k)
    then obtain r where r: "fmlookup (tbl_users d) k = Some r" "u_pubkey r = pubkey" "u_role r \<le> 2"
      using find_key_some ok(1) unfolding db_users_ok_def by blast
    have len: "length (u_pubkey r) = 32" using r(2) ok(4) by simp
    show ?thesis
    proof (cases "i_minted_by i = None \<and> u_role r \<noteq> rank Admin")
      case True
      obtain row where "user_row_of k (r\<lparr> u_role := rank Admin \<rparr>) = Inr row" "row_id row = k" "row_pubkey row = u_pubkey r"
        "row_role row = Admin" "db_enroll pubkey code name now d = (Inr (Some (Promoted row)),
           d\<lparr> tbl_invites := fmdrop code (tbl_invites d), tbl_users := fmupd k (r\<lparr> u_role := rank Admin \<rparr>) (tbl_users d) \<rparr>)"
        by (rule enroll_promotes [OF ok(2) live Some r(1) len r(3) True, of name])
      then show ?thesis
        using True Some live r ok by (simp add: enroll_twice db_user_def stmt_faultless optional_row_def user_entry_def)
    next
      case False
      obtain row where "user_row_of k r = Inr row" "row_id row = k" "row_pubkey row = u_pubkey r"
        "db_enroll pubkey code name now d = (Inr (Some (Returning row)), d\<lparr> tbl_invites := fmdrop code (tbl_invites d) \<rparr>)"
        by (rule enroll_returns [OF ok(2) live Some r(1) len r(3) False, of name])
      then show ?thesis
        using False Some live r ok by (auto simp add: enroll_twice db_user_def stmt_faultless optional_row_def user_entry_def)
    qed
  qed
qed

definition demo_invite :: database where
  "demo_invite = empty_database\<lparr> tbl_invites := fmap_of_list
     [([1], \<lparr> i_secret = [], i_minted_by = None, i_expires_at = 100, i_failures = 0 \<rparr>)] \<rparr>"

theorem enroll_exact_witness:
  "\<exists>row d'. db_enroll (replicate 32 7) [1] [65] 5 demo_invite = (Inr (Some (Added row)), d') \<and>
     row_role row = Admin \<and> unat (row_id row) = 1 \<and> fst (db_enroll (replicate 32 8) [1] [66] 6 d') = Inr None"
proof -
  have ok: "db_users_ok demo_invite" "db_faults demo_invite = []" "seq_users demo_invite < 2 ^ 63 - 1"
      "length (replicate 32 7 :: bytes) = 32"
    by (simp_all add: db_users_ok_def demo_invite_def empty_database_def)
  have "live_invite demo_invite [1] 5 = Some \<lparr> i_secret = [], i_minted_by = None, i_expires_at = 100, i_failures = 0 \<rparr>"
    by (simp add: live_invite_def demo_invite_def empty_database_def i64_less_def)
  moreover have "user_id_by_pubkey demo_invite (replicate 32 7) = None"
    by (simp add: user_id_by_pubkey_def demo_invite_def empty_database_def)
  moreover have "seq_users demo_invite = 0" by (simp add: demo_invite_def empty_database_def)
  ultimately show ?thesis
    using enroll_exact [OF ok, where code = "[1]" and now = 5 and name = "[65]" and other_key = "replicate 32 8"
        and other_name = "[66]" and later = 6] by auto
qed

subsection \<open>Removing users\<close>

definition clear_inviter :: "u64 set \<Rightarrow> user_rec \<Rightarrow> user_rec" where
  "clear_inviter gone r =
     (if \<exists>k \<in> gone. u_invited_by r = Some k then r\<lparr> u_invited_by := None \<rparr> else r)"

lemma clear_inviter_gone: "g \<in> gone \<Longrightarrow> u_invited_by (clear_inviter gone r) \<noteq> Some g"
  by (auto simp: clear_inviter_def)

lemma clear_inviter_twice: "clear_inviter A (clear_inviter B r) = clear_inviter (A \<union> B) r"
  by (auto simp: clear_inviter_def)

lemma remove_one_lookup:
  "fmlookup (tbl_users (remove_one x d)) k =
     (if k = x then None else map_option (clear_inviter {x}) (fmlookup (tbl_users d) k))"
  "fmlookup (tbl_invites (remove_one x d)) c =
     (case fmlookup (tbl_invites d) c of
        Some i \<Rightarrow> if i_minted_by i = Some x then None else Some i | None \<Rightarrow> None)"
  by (auto simp: remove_one_def clear_inviter_def fun_eq_iff intro!: arg_cong2 [where f = map_option]
      split: option.splits)

lemma removed_users:
  "fmlookup (tbl_users (fold remove_one ids d)) k =
     (if k \<in> set ids then None else map_option (clear_inviter (set ids)) (fmlookup (tbl_users d) k))"
proof (induction ids arbitrary: d)
  case Nil
  have "clear_inviter {} = (\<lambda>r. r)" by (simp add: clear_inviter_def fun_eq_iff)
  then show ?case by (simp add: option.map_ident)
next
  case (Cons x ids)
  show ?case
    by (cases "fmlookup (tbl_users d) k") (simp_all add: Cons remove_one_lookup clear_inviter_twice)
qed

lemma removed_invites:
  "fmlookup (tbl_invites (fold remove_one ids d)) c =
     (case fmlookup (tbl_invites d) c of
        Some i \<Rightarrow> if \<exists>k \<in> set ids. i_minted_by i = Some k then None else Some i
      | None \<Rightarrow> None)"
proof (induction ids arbitrary: d)
  case (Cons x ids)
  then show ?case by (cases "fmlookup (tbl_invites d) c") (auto simp: remove_one_lookup)
qed (simp split: option.splits)

text \<open>
  Removing users is all or nothing and leaves no trace of them: if the database fails,
  nothing changed; otherwise exactly those users are gone, nobody left is recorded as invited by
  one of them and none of the invites they minted is left, and everyone and every invite else is
  as it was.
\<close>

theorem remove_users_clean:
  assumes "db_remove_users ids d = (r, d')"
  shows "(r = Inl DbError \<and> tbl_users d' = tbl_users d \<and> tbl_invites d' = tbl_invites d) \<or>
    (r = Inr () \<and>
     (\<forall>k. fmlookup (tbl_users d') k =
        (if k \<in> set ids then None else map_option (clear_inviter (set ids)) (fmlookup (tbl_users d) k))) \<and>
     (\<forall>k u. fmlookup (tbl_users d') k = Some u \<longrightarrow> (\<forall>g \<in> set ids. u_invited_by u \<noteq> Some g)) \<and>
     (\<forall>c i. fmlookup (tbl_invites d') c = Some i \<longleftrightarrow>
        fmlookup (tbl_invites d) c = Some i \<and> (\<forall>g \<in> set ids. i_minted_by i \<noteq> Some g)))"
proof (rule execute_cases [of "fold remove_one ids" d])
  fix fs
  assume "execute (fold remove_one ids) d = (Inl DbError, d\<lparr> db_faults := fs \<rparr>)"
  with assms show ?thesis by (auto simp: db_remove_users_def)
next
  fix fs
  assume "execute (fold remove_one ids) d = (Inr (), fold remove_one ids (d\<lparr> db_faults := fs \<rparr>))"
  with assms show ?thesis
    by (auto simp: db_remove_users_def removed_users removed_invites clear_inviter_gone
        split: option.splits if_splits)
qed

theorem remove_users_clean_witness:
  "\<exists>d'. db_remove_users [2] (empty_database\<lparr> tbl_users := demo_tree \<rparr>) = (Inr (), d') \<and>
     fmlookup (tbl_users d') 2 = None \<and> fmlookup (tbl_users d') 3 = Some (demo_user None)"
proof -
  obtain r d' where run: "db_remove_users [2] (empty_database\<lparr> tbl_users := demo_tree \<rparr>) = (r, d')"
    by fastforce
  then have "r = Inr ()" by (auto simp: db_remove_users_def execute_def stmt_def empty_database_def)
  with remove_users_clean [OF run] run show ?thesis
    by (simp add: demo_tree_def demo_user_def new_user_def clear_inviter_def)
qed

end
