(* ===== verification/Sfu.thy ===== *)
theory Sfu
  imports Rate_Limits Wire Messages
begin

text \<open>
  The forwarding unit, \<open>sfu.rs\<close> of the server: the forwarding table, what one connection's
  ingress loop does with each datagram, the policing of audio tracks, and the aggregation of
  keyframe requests. A receiver's \<open>EgressHandle\<close> is the number of its connection's handle; what
  happens to a packet offered to it is the egress component. Lemmas: which packets are forwarded
  to whom, that an audio track's two allowances are charged together, and when keyframe requests
  are forwarded.
\<close>

datatype track_kind = Audio | Video

record packet =
  p_kind :: track_kind
  p_header :: header
  p_bytes :: bytes

type_synonym handle_id = nat

record route =
  route_owner :: u64
  route_kind :: track_kind
  route_subscribers :: "handle_id list"

type_synonym forwarding_table = "(media_id, route) fmap"

subsection \<open>Policing\<close>

definition KEYFRAME_INTERVAL :: duration where "KEYFRAME_INTERVAL = from_secs 1"
definition MAX_INGRESS_BYTES_PER_SECOND :: f64 where "MAX_INGRESS_BYTES_PER_SECOND = 3125000"
definition INGRESS_BURST_BYTES :: f64 where "INGRESS_BURST_BYTES = MAX_INGRESS_BYTES_PER_SECOND"
definition MAX_INGRESS_PACKETS_PER_SECOND :: f64 where "MAX_INGRESS_PACKETS_PER_SECOND = 6000"
definition INGRESS_BURST_PACKETS :: f64 where "INGRESS_BURST_PACKETS = 12000"
definition AUDIO_PACKETS_PER_SECOND :: f64 where "AUDIO_PACKETS_PER_SECOND = 150"
definition AUDIO_BURST_PACKETS :: f64 where "AUDIO_BURST_PACKETS = 2500"
definition AUDIO_BYTES_PER_SECOND :: f64 where "AUDIO_BYTES_PER_SECOND = 81920"
definition AUDIO_BURST_BYTES :: f64 where "AUDIO_BURST_BYTES = 262144"
definition DROP_REPORT_INTERVAL :: duration where "DROP_REPORT_INTERVAL = from_secs 60"
definition ALLOWANCE_SWEEP :: duration where "ALLOWANCE_SWEEP = from_secs 10"

record audio_allowance =
  aa_packets :: token_bucket
  aa_bytes :: token_bucket

definition allowance_full :: "instant \<Rightarrow> audio_allowance" where
  "allowance_full now =
     \<lparr> aa_packets = bucket_full AUDIO_BURST_PACKETS AUDIO_PACKETS_PER_SECOND now,
       aa_bytes = bucket_full AUDIO_BURST_BYTES AUDIO_BYTES_PER_SECOND now \<rparr>"

definition allowance_admit :: "audio_allowance \<Rightarrow> nat \<Rightarrow> instant \<Rightarrow> bool \<times> audio_allowance" where
  "allowance_admit self len now =
     (let cost = f64_of_nat len;
          (p_held, ps) = bucket_holds (aa_packets self) 1 now
      in if \<not> p_held then (False, self\<lparr> aa_packets := ps \<rparr>)
         else let (b_held, bs) = bucket_holds (aa_bytes self) cost now
         in if \<not> b_held then (False, self\<lparr> aa_packets := ps, aa_bytes := bs \<rparr>)
         else let (p_taken, ps') = bucket_take ps 1 now
         in if \<not> p_taken then (False, self\<lparr> aa_packets := ps', aa_bytes := bs \<rparr>)
         else let (b_taken, bs') = bucket_take bs cost now
         in (b_taken, self\<lparr> aa_packets := ps', aa_bytes := bs' \<rparr>))"

definition allowance_is_full :: "audio_allowance \<Rightarrow> instant \<Rightarrow> bool \<times> audio_allowance" where
  "allowance_is_full self now =
     (let (p_full, ps) = bucket_is_full (aa_packets self) now
      in if \<not> p_full then (False, self\<lparr> aa_packets := ps \<rparr>)
         else let (b_full, bs) = bucket_is_full (aa_bytes self) now
         in (b_full, self\<lparr> aa_packets := ps, aa_bytes := bs \<rparr>))"

record audio_policer =
  ap_tracks :: "(media_id, audio_allowance) fmap"
  ap_next_sweep :: "instant option"

definition policer_default :: audio_policer where
  "policer_default = \<lparr> ap_tracks = fmempty, ap_next_sweep = None \<rparr>"

text \<open>The sweep asks every allowance whether it is full, which refills it, and keeps the others.\<close>

definition policer_admit :: "audio_policer \<Rightarrow> media_id \<Rightarrow> nat \<Rightarrow> instant \<Rightarrow> bool \<times> audio_policer" where
  "policer_admit self m len now =
     (let self =
        (if sweep_due (ap_next_sweep self) now
         then \<lparr> ap_tracks =
                  fmmap (\<lambda>a. snd (allowance_is_full a now))
                    (fmretain (\<lambda>_ a. \<not> fst (allowance_is_full a now)) (ap_tracks self)),
                ap_next_sweep = Some (now + ALLOWANCE_SWEEP) \<rparr>
         else self);
        (admitted, allowance) = allowance_admit (fmget (ap_tracks self) m (allowance_full now)) len now
      in (admitted, self\<lparr> ap_tracks := fmupd m allowance (ap_tracks self) \<rparr>))"

record drop_report =
  dr_unreported :: u64
  dr_next_report :: instant

definition report_new :: "instant \<Rightarrow> drop_report" where
  "report_new now = \<lparr> dr_unreported = 0, dr_next_report = now \<rparr>"

text \<open>The count that is logged, if any, and the report afterwards.\<close>

definition report_finish :: "drop_report \<Rightarrow> u64 option \<times> drop_report" where
  "report_finish self =
     (if dr_unreported self > 0 then (Some (dr_unreported self), self\<lparr> dr_unreported := 0 \<rparr>)
      else (None, self))"

definition report_count :: "drop_report \<Rightarrow> instant \<Rightarrow> u64 option \<times> drop_report" where
  "report_count self now =
     (let self = self\<lparr> dr_unreported := dr_unreported self + 1 \<rparr>
      in if dr_next_report self \<le> now
         then let (logged, self) = report_finish self
              in (logged, self\<lparr> dr_next_report := now + DROP_REPORT_INTERVAL \<rparr>)
         else (None, self))"

subsection \<open>Ingress\<close>

record ingress =
  in_bytes :: token_bucket
  in_packets :: token_bucket
  in_audio :: audio_policer
  in_policed :: drop_report

definition ingress_start :: "instant \<Rightarrow> ingress" where
  "ingress_start now =
     \<lparr> in_bytes = bucket_full INGRESS_BURST_BYTES MAX_INGRESS_BYTES_PER_SECOND now,
       in_packets = bucket_full INGRESS_BURST_PACKETS MAX_INGRESS_PACKETS_PER_SECOND now,
       in_audio = policer_default, in_policed = report_new now \<rparr>"

text \<open>What the loop does with one datagram: closes the connection, drops it, or offers it.\<close>

datatype verdict = TooFast | Dropped | Offered "(handle_id \<times> packet) list"

definition ingress_step ::
  "forwarding_table \<Rightarrow> u64 \<Rightarrow> ingress \<Rightarrow> bytes \<Rightarrow> instant \<Rightarrow> verdict \<times> ingress" where
  "ingress_step table conn_id st datagram now =
     (let (b_taken, bs) = bucket_take (in_bytes st) (f64_of_nat (length datagram)) now;
          st = st\<lparr> in_bytes := bs \<rparr>
      in if \<not> b_taken then (TooFast, st)
         else let (p_taken, ps) = bucket_take (in_packets st) 1 now;
                  st = st\<lparr> in_packets := ps \<rparr>
         in if \<not> p_taken
            then (Dropped, st\<lparr> in_policed := snd (report_count (in_policed st) now) \<rparr>)
         else case parse datagram of
           Inl _ \<Rightarrow> (Dropped, st)
         | Inr h \<Rightarrow>
             (case fmlookup table (h_media_id h) of
                None \<Rightarrow> (Dropped, st)
              | Some route \<Rightarrow>
                  if route_owner route \<noteq> conn_id then (Dropped, st)
                  else let (admitted, st) =
                         (if route_kind route = Audio
                          then let (ok, audio) = policer_admit (in_audio st) (h_media_id h) (length datagram) now
                               in (ok, st\<lparr> in_audio := audio \<rparr>)
                          else (True, st))
                  in if \<not> admitted
                     then (Dropped, st\<lparr> in_policed := snd (report_count (in_policed st) now) \<rparr>)
                     else (Offered (map (\<lambda>s. (s, \<lparr> p_kind = route_kind route, p_header = h, p_bytes = datagram \<rparr>))
                             (route_subscribers route)), st)))"

text \<open>
  The loop over the datagrams as they arrive, each with the time it was read and the table loaded
  for it; it ends when the connection does or when it closes the connection.
\<close>

fun ingress_run ::
  "u64 \<Rightarrow> ingress \<Rightarrow> (bytes \<times> instant \<times> forwarding_table) list \<Rightarrow> verdict list" where
  "ingress_run conn_id st [] = []"
| "ingress_run conn_id st ((datagram, now, table) # rest) =
     (let (v, st') = ingress_step table conn_id st datagram now
      in if v = TooFast then [v] else v # ingress_run conn_id st' rest)"

text \<open>
  C9. Media goes where the table says and nowhere else: whatever a connection sends, a datagram
  that is offered to a receiver is offered unchanged, to exactly the subscribers of the route of
  the track named in its header, in that table, and only if this connection owns that track.
\<close>

theorem forwards_only_own_tracks:
  assumes "ingress_step table conn_id st datagram now = (Offered offers, st')"
  shows "\<exists>h r. parse datagram = Inr h \<and> fmlookup table (h_media_id h) = Some r \<and>
     route_owner r = conn_id \<and> map fst offers = route_subscribers r \<and>
     (\<forall>(s, p) \<in> set offers. p_bytes p = datagram \<and> p_header p = h \<and> p_kind p = route_kind r)"
  using assms
  by (auto simp: ingress_step_def Let_def split_beta comp_def split: if_splits sum.splits option.splits)

definition demo_route :: route where
  "demo_route = \<lparr> route_owner = 4, route_kind = Video, route_subscribers = [7, 9] \<rparr>"

definition demo_table :: forwarding_table where
  "demo_table = fmupd 3 demo_route fmempty"

definition demo_datagram :: bytes where
  "demo_datagram = encode_header \<lparr> h_media_id = 3, h_epoch = 1, h_seq = 0, h_flags = KEYFRAME \<rparr>"

theorem forwards_only_own_tracks_witness:
  "\<exists>offers st'. ingress_step demo_table 4 (ingress_start 0) demo_datagram 0 = (Offered offers, st') \<and>
     map fst offers = [7, 9] \<and> (\<forall>(s, p) \<in> set offers. p_bytes p = demo_datagram)"
proof -
  have fresh: "fst (bucket_take (bucket_full c r 0) n 0) \<longleftrightarrow> n \<le> min c c" if "f64_round c = c" "0 \<le> c" for c r n
    using that by (simp add: bucket_take_def bucket_full_def bucket_holds_def refill_def Let_def
        duration_since_def as_secs_f64_def f64_eval)
  have parsed: "parse demo_datagram = Inr \<lparr> h_media_id = 3, h_epoch = 1, h_seq = 0, h_flags = KEYFRAME \<rparr>"
    using parse_encode [where rest = "[]"] by (simp add: demo_datagram_def)
  have len: "length demo_datagram = 13" by (simp add: demo_datagram_def length_encode_header HEADER_BYTES_def)
  have "fst (ingress_step demo_table 4 (ingress_start 0) demo_datagram 0) =
      Offered (map (\<lambda>s. (s, \<lparr> p_kind = Video, p_header = \<lparr> h_media_id = 3, h_epoch = 1, h_seq = 0, h_flags = KEYFRAME \<rparr>,
        p_bytes = demo_datagram \<rparr>)) [7, 9])"
    using fresh [of 3125000 3125000 13] fresh [of 12000 6000 1]
    by (simp add: ingress_step_def ingress_start_def parsed len demo_table_def demo_route_def Let_def split_beta
        INGRESS_BURST_BYTES_def MAX_INGRESS_BYTES_PER_SECOND_def INGRESS_BURST_PACKETS_def
        MAX_INGRESS_PACKETS_PER_SECOND_def f64_of_nat_def f64_eval)
  then obtain offers st' where run: "ingress_step demo_table 4 (ingress_start 0) demo_datagram 0 = (Offered offers, st')"
    by (metis prod.collapse)
  from forwards_only_own_tracks [OF run] run parsed show ?thesis
    by (auto simp: demo_table_def demo_route_def)
qed

text \<open>The allowances of an audio track.\<close>

definition allowance_ok :: "audio_allowance \<Rightarrow> bool" where
  "allowance_ok a \<longleftrightarrow> bucket_ok (aa_packets a) \<and> bucket_ok (aa_bytes a)"

text \<open>
  A datagram of an audio track is charged to the track's packet allowance and to its byte
  allowance, or to neither: it passes exactly when both hold enough, and then both have paid.
\<close>

theorem audio_charged_to_both_or_neither:
  assumes ok: "allowance_ok self" and small: "len < 2 ^ 53"
  shows "let hp = bucket_holds (aa_packets self) 1 now;
             hb = bucket_holds (aa_bytes self) (f64_of_nat len) now;
             (admitted, self') = allowance_admit self len now
         in (admitted \<longleftrightarrow> fst hp \<and> fst hb) \<and> allowance_ok self' \<and>
            (if admitted
             then aa_packets self' = snd (bucket_take (snd hp) 1 now) \<and>
                  aa_bytes self' = snd (bucket_take (snd hb) (f64_of_nat len) now)
             else aa_packets self' = snd hp \<and>
                  aa_bytes self' = (if fst hp then snd hb else aa_bytes self))"
proof -
  have oks: "bucket_ok (aa_packets self)" "bucket_ok (aa_bytes self)"
    using ok by (simp_all add: allowance_ok_def)
  have nonneg: "0 \<le> f64_of_nat len" by (simp add: f64_of_nat_def f64_round_nonneg)
  have one: "is_f64 1" by (simp add: is_f64_def)
  have len: "is_f64 (f64_of_nat len)" using f64_nat_exact [OF small] by (simp add: f64_of_nat_def is_f64_def)
  show ?thesis
    using oks nonneg bucket.spend_after_holds [OF oks(1) one, of now]
      bucket.spend_after_holds [OF oks(2) len nonneg, of now]
    by (auto simp: allowance_admit_def Let_def split_beta allowance_ok_def bucket_ok_refill bucket_ok_take)
qed

lemma allowance_full_ok: "allowance_ok (allowance_full now)"
  by (simp add: allowance_ok_def allowance_full_def AUDIO_BURST_PACKETS_def AUDIO_PACKETS_PER_SECOND_def
      AUDIO_BURST_BYTES_def AUDIO_BYTES_PER_SECOND_def bucket_ok_full is_f64_def f64_round_numeral)

theorem audio_charged_to_both_or_neither_witness:
  "fst (allowance_admit (allowance_full 0) 100 0) =
     (fst (bucket_holds (aa_packets (allowance_full 0)) 1 0) \<and>
      fst (bucket_holds (aa_bytes (allowance_full 0)) (f64_of_nat 100) 0))"
  using audio_charged_to_both_or_neither [OF allowance_full_ok, of 100 0 0]
  by (simp add: Let_def split_beta)

subsection \<open>Keyframe requests\<close>

text \<open>\<open>Refresh < Idr\<close>, and \<open>None\<close> below both, as the derived orders say.\<close>

fun recovery_max :: "recovery option \<Rightarrow> recovery option \<Rightarrow> recovery option" where
  "recovery_max None b = b"
| "recovery_max a None = a"
| "recovery_max (Some Idr) b = Some Idr"
| "recovery_max (Some Refresh) b = b"

record pending =
  last_sent :: "instant option"
  wanted :: "recovery option"

type_synonym keyframe_aggregator = "(media_id, pending) fmap"

definition pending_default :: pending where
  "pending_default = \<lparr> last_sent = None, wanted = None \<rparr>"

definition take_if_due :: "pending \<Rightarrow> instant \<Rightarrow> recovery option \<times> pending" where
  "take_if_due p now =
     (let due = (case last_sent p of None \<Rightarrow> True | Some t \<Rightarrow> duration_since now t \<ge> KEYFRAME_INTERVAL)
      in if \<not> due then (None, p)
         else case wanted p of
           None \<Rightarrow> (None, p)
         | Some kind \<Rightarrow> (Some kind, p\<lparr> wanted := None, last_sent := Some now \<rparr>))"

definition kf_request ::
  "keyframe_aggregator \<Rightarrow> media_id \<Rightarrow> recovery \<Rightarrow> instant \<Rightarrow> recovery option \<times> keyframe_aggregator" where
  "kf_request self m kind now =
     (let p = fmget self m pending_default;
          (sent, p') = take_if_due (p\<lparr> wanted := recovery_max (wanted p) (Some kind) \<rparr>) now
      in (sent, fmupd m p' self))"

text \<open>
  \<open>due\<close> goes through a hash map; the order of its answer is the order in which the hub sends the
  requests to their owners, here ascending.
\<close>

definition kf_due ::
  "keyframe_aggregator \<Rightarrow> instant \<Rightarrow> (media_id \<times> recovery) list \<times> keyframe_aggregator" where
  "kf_due self now =
     (List.map_filter (\<lambda>m. map_option (Pair m) (fst (take_if_due (the (fmlookup self m)) now))) (fmkeys self),
      fmmap (\<lambda>p. snd (take_if_due p now)) self)"

definition kf_forget :: "keyframe_aggregator \<Rightarrow> media_id \<Rightarrow> keyframe_aggregator" where
  "kf_forget self m = fmdrop m self"

text \<open>What a track's sender is asked for over a run of requests and flushes: times and kinds.\<close>

datatype kf_op = KfRequest media_id recovery instant | KfDue instant

fun kf_time :: "kf_op \<Rightarrow> instant" where
  "kf_time (KfRequest _ _ t) = t"
| "kf_time (KfDue t) = t"

fun kf_do :: "media_id \<Rightarrow> keyframe_aggregator \<Rightarrow> kf_op \<Rightarrow> recovery option \<times> keyframe_aggregator" where
  "kf_do m self (KfRequest m' kind t) =
     (let (sent, self') = kf_request self m' kind t in (if m' = m then sent else None, self'))"
| "kf_do m self (KfDue t) = (let (sent, self') = kf_due self t in (map_of sent m, self'))"

fun kf_run :: "media_id \<Rightarrow> keyframe_aggregator \<Rightarrow> kf_op list \<Rightarrow> (instant \<times> recovery) list" where
  "kf_run m self [] = []"
| "kf_run m self (op # ops) =
     (let (sent, self') = kf_do m self op
      in (case sent of Some kind \<Rightarrow> [(kf_time op, kind)] | None \<Rightarrow> []) @ kf_run m self' ops)"

text \<open>
  The rule the aggregator is meant to follow, for one track on its own: remember when the last
  request went out and what has been asked for since; send the strongest once an interval has
  passed.
\<close>

fun kf_spec :: "media_id \<Rightarrow> instant option \<Rightarrow> recovery list \<Rightarrow> kf_op list \<Rightarrow> (instant \<times> recovery) list" where
  "kf_spec m prev asked [] = []"
| "kf_spec m prev asked (op # ops) =
     (let asked = (case op of KfRequest m' kind _ \<Rightarrow> if m' = m then kind # asked else asked | KfDue _ \<Rightarrow> asked);
          acts = (case op of KfRequest m' _ _ \<Rightarrow> m' = m | KfDue _ \<Rightarrow> True);
          now = kf_time op
      in if acts \<and> asked \<noteq> [] \<and> (case prev of None \<Rightarrow> True | Some t \<Rightarrow> KEYFRAME_INTERVAL \<le> now - t)
         then (now, if Idr \<in> set asked then Idr else Refresh) # kf_spec m (Some now) [] ops
         else kf_spec m prev asked ops)"

definition strongest :: "recovery list \<Rightarrow> recovery option" where
  "strongest asked = (if asked = [] then None else Some (if Idr \<in> set asked then Idr else Refresh))"

lemma strongest_Cons: "recovery_max (strongest asked) (Some kind) = strongest (kind # asked)"
  by (cases kind) (auto simp: strongest_def)

lemma map_of_due:
  "map_of (fst (kf_due self now)) m = Option.bind (fmlookup self m) (\<lambda>p. fst (take_if_due p now))"
proof -
  have "map_of (List.map_filter (\<lambda>k. map_option (Pair k) (f k)) ks) m = (if m \<in> set ks then f m else None)"
    for f :: "media_id \<Rightarrow> recovery option" and ks
    by (induction ks) (auto simp: List.map_filter_simps split: option.splits)
  then show ?thesis
    by (auto simp: kf_due_def fmlookup_dom'_iff split: option.splits)
qed

definition tracks_spec :: "keyframe_aggregator \<Rightarrow> media_id \<Rightarrow> instant option \<Rightarrow> recovery list \<Rightarrow> bool" where
  "tracks_spec self m prev asked \<longleftrightarrow>
     fmget self m pending_default = \<lparr> last_sent = prev, wanted = strongest asked \<rparr>"

lemma take_if_due_spec:
  "take_if_due \<lparr> last_sent = prev, wanted = strongest asked \<rparr> now =
     (if asked \<noteq> [] \<and> (case prev of None \<Rightarrow> True | Some t \<Rightarrow> KEYFRAME_INTERVAL \<le> now - t)
      then (strongest asked, \<lparr> last_sent = Some now, wanted = strongest [] \<rparr>)
      else (None, \<lparr> last_sent = prev, wanted = strongest asked \<rparr>))"
  by (cases asked) (simp_all add: take_if_due_def duration_since_def strongest_def split: option.splits)

lemma kf_do_spec:
  assumes "tracks_spec self m prev asked" "kf_do m self op = (sent, self')"
  shows "let asked' = (case op of KfRequest m' kind _ \<Rightarrow> if m' = m then kind # asked else asked | KfDue _ \<Rightarrow> asked);
             acts = (case op of KfRequest m' _ _ \<Rightarrow> m' = m | KfDue _ \<Rightarrow> True)
         in if acts \<and> asked' \<noteq> [] \<and> (case prev of None \<Rightarrow> True | Some t \<Rightarrow> KEYFRAME_INTERVAL \<le> kf_time op - t)
            then sent = strongest asked' \<and> tracks_spec self' m (Some (kf_time op)) []
            else sent = None \<and> tracks_spec self' m prev asked'"
proof (cases op)
  case (KfRequest m' kind t)
  show ?thesis
  proof (cases "m' = m")
    case True
    then have "(sent, self') = (let (sent, p') = take_if_due \<lparr> last_sent = prev, wanted = strongest (kind # asked) \<rparr> t
        in (sent, fmupd m p' self))"
      using assms KfRequest
      by (simp add: kf_request_def tracks_spec_def strongest_Cons Let_def split: prod.splits)
    then show ?thesis
      using KfRequest True
      by (cases prev) (auto simp: take_if_due_spec tracks_spec_def fmget_def split: if_splits)
  next
    case False
    then show ?thesis
      using assms KfRequest
      by (auto simp: kf_request_def tracks_spec_def Let_def fmget_def split: prod.splits)
  qed
next
  case (KfDue t)
  then have "sent = Option.bind (fmlookup self m) (\<lambda>p. fst (take_if_due p t))" "self' = snd (kf_due self t)"
    using assms(2) map_of_due [of self t m] by (auto split: prod.splits)
  moreover have "asked = []" if "fmlookup self m = None"
    using assms(1) that by (auto simp: tracks_spec_def fmget_def pending_default_def strongest_def split: if_splits)
  ultimately show ?thesis
    using assms(1) KfDue
    by (cases prev; cases "fmlookup self m") (auto simp: kf_due_def tracks_spec_def fmget_def take_if_due_spec)
qed

lemma kf_run_spec: "tracks_spec self m prev asked \<Longrightarrow> kf_run m self ops = kf_spec m prev asked ops"
proof (induction ops arbitrary: self prev asked)
  case (Cons op ops)
  obtain sent self' where do: "kf_do m self op = (sent, self')" by fastforce
  from kf_do_spec [OF Cons.prems do] Cons.IH show ?case
    by (auto simp: do Let_def strongest_def split: if_splits)
qed simp

lemma kf_spec_spaced:
  "successively (\<lambda>(t, _) (t', _). t + KEYFRAME_INTERVAL \<le> t')
     ((case prev of Some t \<Rightarrow> [(t, k)] | None \<Rightarrow> []) @ kf_spec m prev asked ops)"
proof (induction ops arbitrary: prev asked k)
  case Nil
  then show ?case by (simp split: option.splits)
next
  case (Cons op ops)
  have gap: "t + KEYFRAME_INTERVAL \<le> n" if "KEYFRAME_INTERVAL \<le> n - t" for n t
    using that by (auto simp: KEYFRAME_INTERVAL_def from_secs_def)
  show ?case
    using Cons.IH [where prev = prev and k = k] Cons.IH [where prev = "Some (kf_time op)"] gap
    by (auto simp: Let_def split: option.splits if_splits kf_op.splits)
qed

text \<open>
  C23. Keyframe requests of a track's watchers reach its sender merged: over any run of requests
  and flushes for any tracks, what a track's sender is asked for is what the plain rule for that
  track alone says (the strongest recovery asked for since the last request that went out, sent as
  soon as a second has passed), so two requests to one sender are at least a second apart.
\<close>

theorem keyframes_merged:
  "kf_run m fmempty ops = kf_spec m None [] ops \<and>
   successively (\<lambda>(t, _) (t', _). t + KEYFRAME_INTERVAL \<le> t') (kf_run m fmempty ops)"
proof -
  have "tracks_spec fmempty m None []" by (simp add: tracks_spec_def fmget_def pending_default_def strongest_def)
  with kf_run_spec have "kf_run m fmempty ops = kf_spec m None [] ops" by blast
  with kf_spec_spaced [where prev = None] show ?thesis by simp
qed

end
