(* ===== verification/Room_Password.thy ===== *)
theory Room_Password
  imports Rate_Limits Messages
begin

text \<open>
  Wrong guesses at room passwords, \<open>room_password.rs\<close> of the server: an exponential backoff per
  user and room and an allowance per room. Hashing and checking a password are Argon2 and are
  parameters of the hub. The property shows that the table of failures, swept once a minute,
  answers from the whole history of wrong guesses.
\<close>

definition FREE_FAILURES :: nat where "FREE_FAILURES = 5"
definition FIRST_WAIT :: duration where "FIRST_WAIT = from_secs 10"
definition LONGEST_WAIT :: duration where "LONGEST_WAIT = from_secs (60 * 60)"
definition FAILURE_MEMORY :: duration where "FAILURE_MEMORY = from_secs (24 * 60 * 60)"
definition FAILURE_SWEEP :: duration where "FAILURE_SWEEP = from_secs 60"
definition ROOM_FAILURES :: f64 where "ROOM_FAILURES = 100"
definition ROOM_FAILURES_PER_SECOND :: f64 where
  "ROOM_FAILURES_PER_SECOND = f64_div ROOM_FAILURES 3600"

datatype wait = WaitUser duration | WaitRoom

record failures =
  f_count :: u32
  f_last :: instant

text \<open>
  \<open>Duration::saturating_mul\<close> takes a \<open>u32\<close> factor; the largest product here, 10 s times
  \<open>2 ^ 16\<close>, is far from saturating.
\<close>

definition next_try :: "failures \<Rightarrow> instant" where
  "next_try f =
     (if unat (f_count f) < FREE_FAILURES then f_last f
      else let extra = unat (f_count f) - FREE_FAILURES;
               wait = FIRST_WAIT * 2 ^ min extra 16
           in f_last f + min wait LONGEST_WAIT)"

record guesses =
  g_users :: "(user_id \<times> room_id, failures) fmap"
  g_rooms :: "room_id buckets"
  g_next_sweep :: "instant option"

definition guesses_default :: guesses where
  "guesses_default =
     \<lparr> g_users = fmempty, g_rooms = buckets_new ROOM_FAILURES ROOM_FAILURES_PER_SECOND,
       g_next_sweep = None \<rparr>"

definition guess_check :: "guesses \<Rightarrow> user_id \<Rightarrow> room_id \<Rightarrow> instant \<Rightarrow> (wait + unit) \<times> guesses" where
  "guess_check g user room now =
     (case fmlookup (g_users g) (user, room) of
        None \<Rightarrow> (Inr (), g)
      | Some failures \<Rightarrow>
          (let next = next_try failures
           in if now < next then (Inl (WaitUser (next - now)), g)
              else let (held, rooms) = buckets_holds (g_rooms g) room 1 now;
                       g' = g\<lparr> g_rooms := rooms \<rparr>
                   in if \<not> held then (Inl WaitRoom, g') else (Inr (), g')))"

definition guess_failed :: "guesses \<Rightarrow> user_id \<Rightarrow> room_id \<Rightarrow> instant \<Rightarrow> (u32 \<times> bool) \<times> guesses" where
  "guess_failed g user room now =
     (let g1 = (if sweep_due (g_next_sweep g) now
                then g\<lparr> g_users := fmretain (\<lambda>_ f. duration_since now (f_last f) < FAILURE_MEMORY)
                                      (g_users g),
                        g_next_sweep := Some (now + FAILURE_SWEEP) \<rparr>
                else g);
          (taken, rooms) = buckets_take (g_rooms g1) room 1 now;
          old = fmget (g_users g1) (user, room) \<lparr> f_count = 0, f_last = now \<rparr>;
          failures = old\<lparr> f_count := f_count old + 1, f_last := now \<rparr>
      in ((f_count failures, \<not> taken),
          g1\<lparr> g_rooms := rooms, g_users := fmupd (user, room) failures (g_users g1) \<rparr>))"

definition guess_succeeded :: "guesses \<Rightarrow> user_id \<Rightarrow> room_id \<Rightarrow> guesses" where
  "guess_succeeded g user room = g\<lparr> g_users := fmdrop (user, room) (g_users g) \<rparr>"

subsection \<open>What the whole history says\<close>

text \<open>
  The wait after \<open>n\<close> wrong guesses in a row: nothing for the first four, then 10 s doubling up
  to an hour. The code caps the exponent at 16 before multiplying, which never shows.
\<close>

definition backoff :: "nat \<Rightarrow> duration" where
  "backoff n = (if n < 5 then 0 else min (from_secs (10 * 2 ^ (n - 5))) (from_secs 3600))"

lemma capped_exponent:
  "min (from_secs 10 * 2 ^ min e 16) (from_secs (60 * 60)) = min (from_secs (10 * 2 ^ e)) (from_secs 3600)"
proof (cases "e \<le> 16")
  case True
  then show ?thesis by (simp add: from_secs_def min_absorb1 ac_simps)
next
  case False
  then have "(2 :: nat) ^ 16 \<le> 2 ^ e" by (intro power_increasing) auto
  moreover have "(2 :: nat) ^ 16 = 65536" by simp
  ultimately show ?thesis using False by (auto simp: from_secs_def)
qed

lemma next_try_backoff: "next_try f = f_last f + backoff (unat (f_count f))"
  using capped_exponent
  by (simp add: next_try_def backoff_def FREE_FAILURES_def FIRST_WAIT_def LONGEST_WAIT_def Let_def)

datatype guess_op = Check user_id room_id instant | Failed user_id room_id instant
  | Succeeded user_id room_id

fun guess_step :: "guesses \<Rightarrow> guess_op \<Rightarrow> guesses" where
  "guess_step g (Check u r t) = snd (guess_check g u r t)"
| "guess_step g (Failed u r t) = snd (guess_failed g u r t)"
| "guess_step g (Succeeded u r) = guess_succeeded g u r"

text \<open>The wrong guesses of a user at a room since their last right one, newest first.\<close>

fun history :: "user_id \<Rightarrow> room_id \<Rightarrow> guess_op list \<Rightarrow> instant list" where
  "history u r [] = []"
| "history u r (Check u' r' t # older) = history u r older"
| "history u r (Failed u' r' t # older) =
     (if u' = u \<and> r' = r then t # history u r older else history u r older)"
| "history u r (Succeeded u' r' # older) = (if u' = u \<and> r' = r then [] else history u r older)"

fun op_time :: "guess_op \<Rightarrow> instant option" where
  "op_time (Check u r t) = Some t"
| "op_time (Failed u r t) = Some t"
| "op_time (Succeeded u r) = None"

text \<open>Operations newest first, none later than \<open>now\<close>, in the order of the monotonic clock.\<close>

fun clocked :: "instant \<Rightarrow> guess_op list \<Rightarrow> bool" where
  "clocked now [] = True"
| "clocked now (op # older) =
     (case op_time op of None \<Rightarrow> clocked now older | Some t \<Rightarrow> t \<le> now \<and> clocked t older)"

definition guesses_after :: "guess_op list \<Rightarrow> guesses" where
  "guesses_after ops = foldr (\<lambda>op g. guess_step g op) ops guesses_default"

text \<open>No day passed between two wrong guesses, or since the last.\<close>

fun no_idle_day :: "instant \<Rightarrow> instant list \<Rightarrow> bool" where
  "no_idle_day now [] = True"
| "no_idle_day now (t # ts) \<longleftrightarrow> now - t < FAILURE_MEMORY \<and> no_idle_day t ts"

text \<open>
  When the next sweep is due, from the history alone: a wrong guess of anyone at or after that time
  sweeps and sets it a minute on.
\<close>

fun next_sweep_of :: "guess_op list \<Rightarrow> instant option" where
  "next_sweep_of [] = None"
| "next_sweep_of (Failed u r t # older) =
     (if sweep_due (next_sweep_of older) t then Some (t + FAILURE_SWEEP) else next_sweep_of older)"
| "next_sweep_of (Check u r t # older) = next_sweep_of older"
| "next_sweep_of (Succeeded u r # older) = next_sweep_of older"

text \<open>
  The wrong guesses of a user at a room that count, newest first: those since their last right one,
  forgotten all together by a sweep that finds the newest of them a day old.
\<close>

definition unforgotten :: "guess_op list \<Rightarrow> instant \<Rightarrow> instant list \<Rightarrow> instant list" where
  "unforgotten older t ts =
     (case ts of [] \<Rightarrow> [] | newest # _ \<Rightarrow>
        if sweep_due (next_sweep_of older) t \<and> \<not> t - newest < FAILURE_MEMORY then [] else ts)"

fun counted :: "user_id \<Rightarrow> room_id \<Rightarrow> guess_op list \<Rightarrow> instant list" where
  "counted u r [] = []"
| "counted u r (Check u' r' t # older) = counted u r older"
| "counted u r (Failed u' r' t # older) =
     (if u' = u \<and> r' = r then t # unforgotten older t (counted u r older) else unforgotten older t (counted u r older))"
| "counted u r (Succeeded u' r' # older) = (if u' = u \<and> r' = r then [] else counted u r older)"

definition remembers :: "guesses \<Rightarrow> user_id \<Rightarrow> room_id \<Rightarrow> instant list \<Rightarrow> bool" where
  "remembers g u r ts \<longleftrightarrow>
     fmlookup (g_users g) (u, r) =
       (case ts of [] \<Rightarrow> None | t # _ \<Rightarrow> Some \<lparr> f_count = of_nat (length ts), f_last = t \<rparr>)"

lemma guess_check_users [simp]: "g_users (snd (guess_check g u r t)) = g_users g"
  by (simp add: guess_check_def Let_def split: option.splits prod.splits)

lemma clocked_mono: "clocked t ops \<Longrightarrow> t \<le> now \<Longrightarrow> clocked now ops"
  by (induction ops arbitrary: t) (auto split: option.splits)

lemma no_idle_day_mono: "no_idle_day now ts \<Longrightarrow> t \<le> now \<Longrightarrow> no_idle_day t ts"
  by (cases ts) auto

lemma failed_users:
  "fmlookup (g_users (snd (guess_failed g u' r' now))) (u, r) =
     (let kept = (if sweep_due (g_next_sweep g) now
                  then case fmlookup (g_users g) (u, r) of
                         Some f \<Rightarrow> if now - f_last f < FAILURE_MEMORY then Some f else None
                       | None \<Rightarrow> None
                  else fmlookup (g_users g) (u, r))
      in if (u, r) = (u', r')
         then Some \<lparr> f_count = (case kept of None \<Rightarrow> 0 | Some f \<Rightarrow> f_count f) + 1, f_last = now \<rparr>
         else kept)"
proof (cases "buckets_take (g_rooms g) r' 1 now")
  case (Pair taken rooms)
  then show ?thesis
    by (cases "fmlookup (g_users g) (u, r)"; cases "(u, r) = (u', r')")
      (auto simp: guess_failed_def Let_def duration_since_def fmget_def)
qed

lemma guess_sweeps [simp]:
  "g_next_sweep (snd (guess_check g u r t)) = g_next_sweep g"
  "g_next_sweep (guess_succeeded g u r) = g_next_sweep g"
  "g_next_sweep (snd (guess_failed g u r t)) =
     (if sweep_due (g_next_sweep g) t then Some (t + FAILURE_SWEEP) else g_next_sweep g)"
  by (auto simp: guess_check_def guess_succeeded_def guess_failed_def Let_def split: option.splits prod.splits)

lemma sweeps_followed: "g_next_sweep (guesses_after ops) = next_sweep_of ops"
proof (induction ops)
  case (Cons op ops)
  then show ?case by (cases op) (simp_all add: guesses_after_def)
qed (simp add: guesses_after_def guesses_default_def)

lemma failure_remembered:
  assumes "remembers (guesses_after ops) u r ts"
  shows "remembers (guesses_after (Failed u' r' t # ops)) u r
    (if u' = u \<and> r' = r then t # unforgotten ops t ts else unforgotten ops t ts)"
  using assms sweeps_followed [of ops]
  by (cases ts) (auto simp: remembers_def guesses_after_def failed_users unforgotten_def)

lemma counted_remembered: "remembers (guesses_after ops) u r (counted u r ops)"
proof (induction ops)
  case Nil
  then show ?case by (simp add: remembers_def guesses_after_def guesses_default_def)
next
  case (Cons op ops)
  show ?case
  proof (cases op)
    case (Failed u' r' t)
    then show ?thesis using failure_remembered [OF Cons] by simp
  qed (use Cons in \<open>auto simp: remembers_def guesses_after_def guess_succeeded_def\<close>)
qed

lemma all_counted:
  assumes "clocked now ops" "no_idle_day now (history u r ops)"
  shows "counted u r ops = history u r ops"
  using assms
proof (induction ops arbitrary: now)
  case (Cons op ops)
  show ?case
  proof (cases op)
    case (Check u' r' t)
    with Cons.prems no_idle_day_mono have "clocked t ops" "no_idle_day t (history u r ops)" by auto
    with Cons.IH Check show ?thesis by simp
  next
    case (Failed u' r' t)
    then have t: "t \<le> now" "clocked t ops" using Cons.prems by auto
    have alive: "no_idle_day t (history u r ops)"
      using Cons.prems(2) Failed no_idle_day_mono [OF _ t(1)] by (auto split: if_splits)
    with Cons.IH [OF t(2)] have "unforgotten ops t (counted u r ops) = history u r ops"
      by (auto simp: unforgotten_def split: list.splits)
    with Failed show ?thesis by simp
  next
    case (Succeeded u' r')
    then show ?thesis using Cons by auto
  qed
qed simp

text \<open>
  C28. Guessing at a room's password is slowed down from the history: after any sequence of checks,
  failures and successes of any users at any times, a user of whom \<open>n\<close> wrong guesses at a room count
  is let through only once the backoff for \<open>n\<close> (nothing up to the fourth, then 10 s doubling to an
  hour) has passed since the last one and the room's allowance holds; the reply names exactly the time
  left. A user of whom none count is always let through, however many wrong guesses others made. Those
  count that were made since the user's last right guess, until a sweep finds the newest of them a day
  old; a sweep comes with the first wrong guess of anyone a minute or more after the sweep before. So all
  of them count where the clock ran forward and no day passed between two of them or since the last. The
  count is below the limit of its 32 bits.
\<close>

theorem guesses_back_off:
  assumes "length (counted u r ops) < 2 ^ 32"
  shows "fst (guess_check (guesses_after ops) u r now) =
    (case counted u r ops of
       [] \<Rightarrow> Inr ()
     | newest # _ \<Rightarrow>
         (let next = newest + backoff (length (counted u r ops))
          in if now < next then Inl (WaitUser (next - now))
             else if fst (buckets_holds (g_rooms (guesses_after ops)) r 1 now) then Inr ()
             else Inl WaitRoom)) \<and>
    (clocked now ops \<and> no_idle_day now (history u r ops) \<longrightarrow> counted u r ops = history u r ops)"
proof -
  have count: "unat (of_nat (length (counted u r ops)) :: u32) = length (counted u r ops)"
    using assms by (intro unat_of_nat_small) simp
  have "fst (guess_check (guesses_after ops) u r now) =
    (case counted u r ops of
       [] \<Rightarrow> Inr ()
     | newest # _ \<Rightarrow>
         (let next = newest + backoff (length (counted u r ops))
          in if now < next then Inl (WaitUser (next - now))
             else if fst (buckets_holds (g_rooms (guesses_after ops)) r 1 now) then Inr ()
             else Inl WaitRoom))"
    using count counted_remembered [of ops u r]
    by (cases "counted u r ops") (simp_all add: guess_check_def remembers_def next_try_backoff Let_def split: prod.splits)
  then show ?thesis using all_counted by blast
qed

definition six_wrong :: "guess_op list" where
  "six_wrong = [Failed 1 7 50, Failed 2 7 45, Failed 1 7 40, Failed 1 7 30, Check 1 7 30,
     Failed 1 7 20, Failed 1 7 10, Failed 1 7 5]"

theorem guesses_back_off_witness:
  "counted 1 7 six_wrong = [50, 40, 30, 20, 10, 5] \<and>
   fst (guess_check (guesses_after six_wrong) 1 7 100) = Inl (WaitUser (from_secs 20 - 50)) \<and>
   fst (guess_check (guesses_after six_wrong) 3 7 100) = Inr () \<and>
   (let later = Failed 2 7 (from_secs 90000) # six_wrong
    in counted 1 7 later = [] \<and> fst (guess_check (guesses_after later) 1 7 (from_secs 90000)) = Inr ())"
proof -
  have h: "counted 1 7 six_wrong = [50, 40, 30, 20, 10, 5]" "counted 3 7 six_wrong = []"
    "counted 1 7 (Failed 2 7 (from_secs 90000) # six_wrong) = []"
    by (simp_all add: six_wrong_def unforgotten_def sweep_due_def from_secs_def FAILURE_MEMORY_def FAILURE_SWEEP_def)
  have "fst (guess_check (guesses_after six_wrong) 1 7 100) = Inl (WaitUser (from_secs 20 - 50))"
    using guesses_back_off [of 1 7 six_wrong 100] by (simp add: h backoff_def from_secs_def)
  moreover have "fst (guess_check (guesses_after six_wrong) 3 7 100) = Inr ()"
    using guesses_back_off [of 3 7 six_wrong 100] by (simp add: h)
  moreover have "fst (guess_check (guesses_after (Failed 2 7 (from_secs 90000) # six_wrong)) 1 7 (from_secs 90000)) = Inr ()"
    using guesses_back_off [of 1 7 "Failed 2 7 (from_secs 90000) # six_wrong" "from_secs 90000"] unfolding h by simp
  ultimately show ?thesis unfolding Let_def using h by blast
qed

end
