(* ===== verification/Codes.thy ===== *)
theory Codes
  imports Messages
begin

text \<open>
  The two codes people read to each other: invite codes in Crockford base32, \<open>invite.rs\<close>, and
  certificate fingerprints in hex, \<open>fingerprint.rs\<close>, both of \<open>throcc-proto\<close>. SHA-256 is not
  modelled: a fingerprint is any 32 bytes. The properties are the round trips of both and that
  the field formatter agrees with the parser.
\<close>

definition ascii :: "string \<Rightarrow> ustring" where
  "ascii s = map of_char s"

definition is_ascii_whitespace :: "uchar \<Rightarrow> bool" where
  "is_ascii_whitespace c \<longleftrightarrow> c = 0x20 \<or> c = 0x09 \<or> c = 0x0A \<or> c = 0x0C \<or> c = 0x0D"

definition to_ascii_uppercase :: "uchar \<Rightarrow> uchar" where
  "to_ascii_uppercase c = (if 97 \<le> c \<and> c \<le> 122 then c - 32 else c)"

text \<open>\<open>collect::<Option<_>>\<close>: all of them, or nothing.\<close>

fun collect_option :: "'a option list \<Rightarrow> 'a list option" where
  "collect_option [] = Some []"
| "collect_option (None # xs) = None"
| "collect_option (Some x # xs) = map_option ((#) x) (collect_option xs)"

lemma collect_option_Some:
  "collect_option xs = Some ys \<longleftrightarrow> xs = map Some ys"
  by (induction xs arbitrary: ys rule: collect_option.induct) (auto simp: map_eq_Cons_conv)

lemma collect_option_map:
  "(\<And>x. x \<in> set xs \<Longrightarrow> f x = Some (g x)) \<Longrightarrow> collect_option (map f xs) = Some (map g xs)"
  by (simp add: collect_option_Some)

subsection \<open>Invite codes\<close>

definition ALPHABET :: ustring where
  "ALPHABET = [48, 49, 50, 51, 52, 53, 54, 55, 56, 57,
     65, 66, 67, 68, 69, 70, 71, 72, 74, 75, 77, 78, 80, 81, 82, 83, 84, 86, 87, 88, 89, 90]"

definition ID_CHARS :: nat where "ID_CHARS = 3"
definition SECRET_CHARS :: nat where "SECRET_CHARS = 5"

record invite_code =
  ic_id :: ustring
  ic_secret :: ustring

definition encode_base32 :: "bytes \<Rightarrow> ustring" where
  "encode_base32 bs = map (\<lambda>b. ALPHABET ! unat (b AND 31)) bs"

definition from_random :: "bytes \<Rightarrow> invite_code" where
  "from_random bs =
     \<lparr> ic_id = encode_base32 (take ID_CHARS bs), ic_secret = encode_base32 (drop ID_CHARS bs) \<rparr>"

definition normalize_char :: "uchar \<Rightarrow> uchar option" where
  "normalize_char c =
     (let c = to_ascii_uppercase c
      in if c = 79 then Some 48
         else if c = 73 \<or> c = 76 then Some 49
         else if c < 128 \<and> c \<in> set ALPHABET then Some c
         else None)"

definition invite_from_str :: "ustring \<Rightarrow> invite_code option" where
  "invite_from_str input =
     (case collect_option (map normalize_char (filter (\<lambda>c. c \<noteq> 45 \<and> \<not> is_ascii_whitespace c) input)) of
        None \<Rightarrow> None
      | Some chars \<Rightarrow>
          if length chars \<noteq> ID_CHARS + SECRET_CHARS then None
          else Some \<lparr> ic_id = take ID_CHARS chars, ic_secret = drop ID_CHARS chars \<rparr>)"

definition invite_display :: "invite_code \<Rightarrow> ustring" where
  "invite_display code = ic_id code @ [45] @ ic_secret code"

definition normalize :: "ustring \<Rightarrow> ustring" where
  "normalize input = List.map_filter normalize_char input"

definition format_partial :: "ustring \<Rightarrow> ustring" where
  "format_partial input =
     (let chars = take (ID_CHARS + SECRET_CHARS) (normalize input)
      in if length chars > ID_CHARS then take ID_CHARS chars @ [45] @ drop ID_CHARS chars else chars)"

definition well_formed_code :: "invite_code \<Rightarrow> bool" where
  "well_formed_code code \<longleftrightarrow>
     length (ic_id code) = ID_CHARS \<and> length (ic_secret code) = SECRET_CHARS \<and>
     set (ic_id code) \<subseteq> set ALPHABET \<and> set (ic_secret code) \<subseteq> set ALPHABET"

lemma length_ALPHABET: "length ALPHABET = 32"
  by (simp add: ALPHABET_def)

lemma alphabet_normal_all:
  "\<forall>c \<in> set ALPHABET. normalize_char c = Some c \<and> c \<noteq> 45 \<and> \<not> is_ascii_whitespace c"
  by code_simp

lemmas alphabet_normal = bspec [OF alphabet_normal_all]

lemma normalize_char_alphabet: "normalize_char c = Some d \<Longrightarrow> d \<in> set ALPHABET"
proof -
  have "48 \<in> set ALPHABET" "49 \<in> set ALPHABET" by code_simp+
  then show "normalize_char c = Some d \<Longrightarrow> d \<in> set ALPHABET"
    by (auto simp: normalize_char_def Let_def split: if_splits)
qed

lemma separators_all: "\<forall>c \<in> {45, 0x20, 0x09, 0x0A, 0x0C, 0x0D}. normalize_char c = None"
  by code_simp

lemma separator_dropped: "c = 45 \<or> is_ascii_whitespace c \<Longrightarrow> normalize_char c = None"
  using separators_all by (auto simp: is_ascii_whitespace_def)

lemma encode_base32_alphabet: "set (encode_base32 bs) \<subseteq> set ALPHABET"
proof -
  have "unat (b AND 31) < length ALPHABET" for b :: u8
  proof -
    have "b AND 31 \<le> 31" by (rule word_and_le1)
    then have "unat (b AND 31) \<le> unat (31 :: u8)" by (simp only: word_le_nat_alt)
    then show ?thesis by (simp add: length_ALPHABET)
  qed
  then show ?thesis by (auto simp: encode_base32_def)
qed

lemma from_random_well_formed:
  "length bs = 8 \<Longrightarrow> well_formed_code (from_random bs)"
  using encode_base32_alphabet
  by (simp add: well_formed_code_def from_random_def ID_CHARS_def SECRET_CHARS_def encode_base32_def)

lemma normalize_split:
  "normalize input =
     List.map_filter normalize_char (filter (\<lambda>c. c \<noteq> 45 \<and> \<not> is_ascii_whitespace c) input)"
  by (induction input) (auto simp: normalize_def List.map_filter_simps separator_dropped split: option.splits)

lemma map_filter_total: "map f xs = map Some ys \<Longrightarrow> List.map_filter f xs = ys"
  by (induction xs arbitrary: ys) (auto simp: List.map_filter_simps map_eq_Cons_conv)

lemma parsed_is_normalized:
  assumes "collect_option (map normalize_char (filter (\<lambda>c. c \<noteq> 45 \<and> \<not> is_ascii_whitespace c) input))
    = Some chars"
  shows "normalize input = chars"
proof -
  have "map normalize_char (filter (\<lambda>c. c \<noteq> 45 \<and> \<not> is_ascii_whitespace c) input) = map Some chars"
    using assms by (simp add: collect_option_Some)
  then show ?thesis by (simp add: normalize_split map_filter_total)
qed

lemma parse_display:
  assumes "well_formed_code code"
  shows "invite_from_str (invite_display code) = Some code"
proof -
  let ?keep = "\<lambda>c. c \<noteq> 45 \<and> \<not> is_ascii_whitespace c"
  have chars: "c \<in> set ALPHABET" if "c \<in> set (ic_id code @ ic_secret code)" for c
    using that assms by (auto simp: well_formed_code_def)
  have kept: "filter ?keep (ic_id code @ ic_secret code) = ic_id code @ ic_secret code"
    using chars alphabet_normal by (intro filter_True) blast
  then have "filter ?keep (invite_display code) = ic_id code @ ic_secret code"
    by (simp add: invite_display_def)
  moreover have "collect_option (map normalize_char (ic_id code @ ic_secret code))
      = Some (map (\<lambda>c. c) (ic_id code @ ic_secret code))"
    using chars alphabet_normal by (intro collect_option_map) blast
  ultimately show ?thesis
    using assms by (simp add: invite_from_str_def well_formed_code_def)
qed

lemma parsed_well_formed:
  assumes "invite_from_str s = Some code"
  shows "well_formed_code code" "format_partial s = invite_display code"
proof -
  obtain chars where c: "collect_option (map normalize_char
        (filter (\<lambda>c. c \<noteq> 45 \<and> \<not> is_ascii_whitespace c) s)) = Some chars"
      and len: "length chars = ID_CHARS + SECRET_CHARS"
      and code: "code = \<lparr> ic_id = take ID_CHARS chars, ic_secret = drop ID_CHARS chars \<rparr>"
    using assms by (auto simp: invite_from_str_def split: option.splits if_splits)
  have "set chars \<subseteq> set ALPHABET"
  proof
    fix d
    assume "d \<in> set chars"
    then have "Some d \<in> set (map Some chars)" by simp
    then have "Some d \<in> normalize_char ` set s"
      using c by (force simp: collect_option_Some dest!: arg_cong [where f = set])
    then show "d \<in> set ALPHABET" using normalize_char_alphabet by (metis imageE)
  qed
  then show "well_formed_code code"
    using code len by (auto simp: well_formed_code_def dest: in_set_takeD in_set_dropD)
  show "format_partial s = invite_display code"
    using parsed_is_normalized [OF c] len code
    by (simp add: format_partial_def invite_display_def SECRET_CHARS_def)
qed

text \<open>
  Every invite code the server mints from 8 random bytes prints as a text that parses back
  to it. Whatever text a user types (lower case, with or without dash and spaces, O for 0, I or
  L for 1), if it parses then the code is well formed, prints as a text that parses to the same
  code, and the input field shows exactly that text.
\<close>

theorem invite_code_roundtrip:
  "(length bs = 8 \<longrightarrow>
      invite_from_str (invite_display (from_random bs)) = Some (from_random bs)) \<and>
   (invite_from_str s = Some code \<longrightarrow>
      invite_from_str (invite_display code) = Some code \<and> well_formed_code code \<and>
      format_partial s = invite_display code)"
  using parse_display from_random_well_formed parsed_well_formed by blast

theorem invite_code_roundtrip_witness:
  "invite_from_str (ascii '' k7q m2xpo'') =
     Some \<lparr> ic_id = ascii ''K7Q'', ic_secret = ascii ''M2XP0'' \<rparr> \<and>
   format_partial (ascii '' k7q m2xpo'') = ascii ''K7Q-M2XP0'' \<and>
   invite_from_str (invite_display (from_random [1, 2, 3, 4, 5, 6, 7, 8])) =
     Some (from_random [1, 2, 3, 4, 5, 6, 7, 8])"
proof -
  have p: "invite_from_str (ascii '' k7q m2xpo'') =
      Some \<lparr> ic_id = ascii ''K7Q'', ic_secret = ascii ''M2XP0'' \<rparr>" by code_simp
  have d: "invite_display \<lparr> ic_id = ascii ''K7Q'', ic_secret = ascii ''M2XP0'' \<rparr> = ascii ''K7Q-M2XP0''"
    by code_simp
  show ?thesis
    using p d invite_code_roundtrip [of "[1, 2, 3, 4, 5, 6, 7, 8]" "ascii '' k7q m2xpo''"
        "\<lparr> ic_id = ascii ''K7Q'', ic_secret = ascii ''M2XP0'' \<rparr>"]
    by simp
qed

subsection \<open>Fingerprints\<close>

type_synonym fingerprint = bytes

definition hex_digit :: "u8 \<Rightarrow> uchar" where
  "hex_digit d = (if d < 10 then 48 + unat d else 87 + unat d)"

definition hex_byte :: "u8 \<Rightarrow> ustring" where
  "hex_byte b = [hex_digit (drop_bit 4 b), hex_digit (b AND 15)]"

text \<open>\<open>short\<close> destructures an array of 32 bytes; a shorter list has no value in the code.\<close>

fun short :: "fingerprint \<Rightarrow> ustring" where
  "short (a # b # c # d # _) = hex_byte a @ hex_byte b @ [0x20] @ hex_byte c @ hex_byte d"
| "short _ = []"

text \<open>\<open>as_chunks::<2>().0\<close>: the whole pairs, without a remainder.\<close>

fun chunks2 :: "'a list \<Rightarrow> ('a \<times> 'a) list" where
  "chunks2 (a # b # xs) = (a, b) # chunks2 xs"
| "chunks2 _ = []"

fun display_pairs :: "nat \<Rightarrow> (u8 \<times> u8) list \<Rightarrow> ustring" where
  "display_pairs i [] = []"
| "display_pairs i ((high, low) # ps) =
     (if i > 0 then [0x20] else []) @ hex_byte high @ hex_byte low @ display_pairs (Suc i) ps"

definition fingerprint_display :: "fingerprint \<Rightarrow> ustring" where
  "fingerprint_display fp = display_pairs 0 (chunks2 fp)"

definition to_digit16 :: "uchar \<Rightarrow> u8 option" where
  "to_digit16 c =
     (if 48 \<le> c \<and> c \<le> 57 then Some (of_nat (c - 48))
      else if 97 \<le> c \<and> c \<le> 102 then Some (of_nat (c - 87))
      else if 65 \<le> c \<and> c \<le> 70 then Some (of_nat (c - 55))
      else None)"

definition fingerprint_from_str :: "ustring \<Rightarrow> fingerprint option" where
  "fingerprint_from_str s =
     (case collect_option (map to_digit16 (filter (\<lambda>c. \<not> is_ascii_whitespace c) s)) of
        None \<Rightarrow> None
      | Some digits \<Rightarrow>
          if length digits \<noteq> 64 then None
          else Some (map (\<lambda>(high, low). push_bit 4 high OR low) (chunks2 digits)))"

lemma nibble: "d < 16 \<Longrightarrow> to_digit16 (hex_digit d) = Some d \<and> \<not> is_ascii_whitespace (hex_digit d)"
proof -
  assume "d < 16"
  then have u: "unat d < 16" by (simp add: word_less_nat_alt)
  have d: "d = of_nat (unat d)" by simp
  show ?thesis
  proof (cases "d < 10")
    case True
    then have "unat d < 10" by (simp add: word_less_nat_alt)
    then show ?thesis using True d
      by (auto simp: hex_digit_def to_digit16_def is_ascii_whitespace_def)
  next
    case False
    then have "10 \<le> unat d" by (simp add: word_less_nat_alt)
    then show ?thesis using False d u
      by (auto simp: hex_digit_def to_digit16_def is_ascii_whitespace_def)
  qed
qed

lemma nibbles_of_byte:
  fixes b :: u8
  shows "drop_bit 4 b < 16" "b AND 15 < 16" "push_bit 4 (drop_bit 4 b) OR (b AND 15) = b"
proof -
  have "unat (drop_bit 4 b) = unat b div 16" by (simp add: drop_bit_eq_div unat_div_distrib)
  moreover have "unat b < 256" using unsigned_less [of b] by simp
  ultimately show "drop_bit 4 b < 16" by (simp add: word_less_nat_alt)
  show "b AND 15 < 16" using word_and_le1 [of b 15] by (simp add: word_le_nat_alt word_less_nat_alt)
  have m: "(15 :: u8) = mask 4" by (simp add: mask_eq_exp_minus_1)
  show "push_bit 4 (drop_bit 4 b) OR (b AND 15) = b"
    unfolding m by (rule bit_word_eqI) (auto simp: bit_simps)
qed

lemma hex_byte_digits:
  "filter (\<lambda>c. \<not> is_ascii_whitespace c) (hex_byte b) = hex_byte b"
  "map to_digit16 (hex_byte b) = [Some (drop_bit 4 b), Some (b AND 15)]"
  using nibble nibbles_of_byte by (auto simp: hex_byte_def)

lemma display_pairs_digits:
  "map to_digit16 (filter (\<lambda>c. \<not> is_ascii_whitespace c) (display_pairs i ps)) =
     map Some (concat (map (\<lambda>(a, b). [drop_bit 4 a, a AND 15, drop_bit 4 b, b AND 15]) ps))"
proof -
  have space: "is_ascii_whitespace 32" by (simp add: is_ascii_whitespace_def)
  show ?thesis
    by (induction ps arbitrary: i) (auto simp: hex_byte_digits space)
qed

lemma chunks2_nibbles:
  "map (\<lambda>(high, low). push_bit 4 high OR low)
     (chunks2 (concat (map (\<lambda>(a, b :: u8). [drop_bit 4 a, a AND 15, drop_bit 4 b, b AND 15]) (chunks2 fp))))
   = (if even (length fp) then fp else butlast fp)"
  by (induction fp rule: chunks2.induct) (auto simp: nibbles_of_byte)

lemma length_nibbles:
  "length (concat (map (\<lambda>(a, b :: u8). [drop_bit 4 a, a AND 15, drop_bit 4 b, b AND 15]) (chunks2 fp)))
     = 4 * (length fp div 2)"
  by (induction fp rule: chunks2.induct) auto

text \<open>
  A certificate fingerprint prints as a text that parses back to the same 32 bytes, and a
  text with more or less white space parses the same.
\<close>

theorem fingerprint_roundtrip:
  "length fp = 32 \<Longrightarrow>
   filter (\<lambda>c. \<not> is_ascii_whitespace c) s =
     filter (\<lambda>c. \<not> is_ascii_whitespace c) (fingerprint_display fp) \<Longrightarrow>
   fingerprint_from_str s = Some fp"
  using chunks2_nibbles [of fp]
  by (simp add: fingerprint_from_str_def fingerprint_display_def display_pairs_digits length_nibbles
      collect_option_Some [THEN iffD2, OF refl])

theorem fingerprint_roundtrip_witness:
  "fingerprint_from_str (fingerprint_display (replicate 32 0xA7)) = Some (replicate 32 0xA7)"
  by (rule fingerprint_roundtrip) simp_all

end
