(* ===== verification/Hub.thy ===== *)
theory Hub
  imports Database Sfu Room_Password Codes
begin

text \<open>
  The hub, \<open>rooms.rs\<close> of the server: its state, the messages it queues for connections, moving
  users between rooms, epochs, and the routes it publishes. One lock guards the hub, so every
  operation here runs alone on the whole state. A connection handle is a number into
  \<open>hb_conns\<close>, where each connection has the queue its writer drains and whether it was closed.
  Every clock reading of one operation is the same; the clocks and everything else from outside
  (random bytes, signature checks, SHA-256) come in a record \<open>env\<close>. Where the code iterates over
  a hash map of sessions, the model goes by ascending user id: each session has a queue of its
  own, so the order between sessions shows nowhere but in the order of the list in a welcome.
\<close>

subsection \<open>Data\<close>

definition INVITE_LIFETIME :: u64 where "INVITE_LIFETIME = 24 * 60 * 60"
definition INACTIVE_ACCOUNT_LIFETIME :: u64 where "INACTIVE_ACCOUNT_LIFETIME = 365 * 24 * 60 * 60"
definition PROFILE_INTERVAL :: duration where "PROFILE_INTERVAL = from_secs 10"
definition TRACKS_PER_MEMBERSHIP :: nat where "TRACKS_PER_MEMBERSHIP = 3"
definition MINT_ATTEMPTS :: nat where "MINT_ATTEMPTS = 64"
definition MAX_ENCRYPTION_KEY_LIFETIME :: u64 where "MAX_ENCRYPTION_KEY_LIFETIME = 31 * 24 * 60 * 60"
definition MAX_WRAPPED_BYTES :: nat where "MAX_WRAPPED_BYTES = 256"
definition REQUEST_BURST :: f64 where "REQUEST_BURST = 100"
definition REQUESTS_PER_SECOND :: f64 where "REQUESTS_PER_SECOND = 20"
definition CHEAP_REQUEST_BURST :: f64 where "CHEAP_REQUEST_BURST = 1000"
definition CHEAP_REQUESTS_PER_SECOND :: f64 where "CHEAP_REQUESTS_PER_SECOND = 500"
definition UPLOAD_BURST_BYTES :: f64 where "UPLOAD_BURST_BYTES = 1048576"
definition UPLOAD_BYTES_PER_SECOND :: f64 where
  "UPLOAD_BYTES_PER_SECOND = f64_div (f64_of_nat MAX_AVATAR_BYTES) 10"
definition MIN_UPLOAD_COST :: nat where "MIN_UPLOAD_COST = 4096"
definition UNUSED_BLOB_GRACE :: u64 where "UNUSED_BLOB_GRACE = 10 * 60"
definition PASSWORD_BURST :: f64 where "PASSWORD_BURST = 5"
definition PASSWORDS_PER_SECOND :: f64 where "PASSWORDS_PER_SECOND = f64_div 1 5"
definition ROOM_CHANGE_BURST :: f64 where "ROOM_CHANGE_BURST = 5"
definition ROOM_CHANGES_PER_SECOND :: f64 where "ROOM_CHANGES_PER_SECOND = f64_div 1 2"
definition REJOIN_BURST :: f64 where "REJOIN_BURST = 10"
definition REJOINS_PER_SECOND :: f64 where "REJOINS_PER_SECOND = f64_div 1 10"
definition ENCRYPTION_KEY_CHANGE_BURST :: f64 where "ENCRYPTION_KEY_CHANGE_BURST = 3"
definition ENCRYPTION_KEY_CHANGES_PER_SECOND :: f64 where
  "ENCRYPTION_KEY_CHANGES_PER_SECOND = f64_div 1 60"
definition SHARE_CHANGE_BURST :: f64 where "SHARE_CHANGE_BURST = 5"
definition SHARE_CHANGES_PER_SECOND :: f64 where "SHARE_CHANGES_PER_SECOND = 1"
definition FREE_KEY_PUBLISHES :: u32 where "FREE_KEY_PUBLISHES = 2"
definition EVENT_QUEUE :: nat where "EVENT_QUEUE = 1024"
definition PROTOCOL_ERROR :: u32 where "PROTOCOL_ERROR = 2"
definition REMOVED :: u32 where "REMOVED = 4"

datatype refusal = Refusal error_code string

definition internal :: refusal where
  "internal = Refusal Internal ''internal server error''"

fun refusal_response :: "refusal \<Rightarrow> response" where
  "refusal_response (Refusal code message) = Err code message"

datatype outbound = Message server_message | Budgeted server_message nat | Kick string u32

record conn =
  c_queue :: "outbound list"
  c_reading :: bool
  c_closed :: "(u32 \<times> string) option"
  c_close_later :: "(u32 \<times> string) option"

record session =
  s_conn_id :: u64
  s_handle :: handle_id
  s_row :: user_row
  s_room :: "room_id option"
  s_tracks :: "tracks option"
  s_media :: media_state
  s_watching :: "media_id list"
  s_last_profile :: "instant option"
  s_key_publishes :: "(room_id \<times> epoch \<times> u32) option"
  s_audience_seq :: u64

record room_entry =
  e_name :: ustring
  e_epoch :: epoch
  e_password_hash :: "ustring option"
  e_members :: "user_id fset"

record hub =
  hb_db :: database
  hb_fingerprint :: fingerprint
  hb_table :: forwarding_table
  hb_keyframes :: keyframe_aggregator
  hb_sessions :: "(user_id, session) fmap"
  hb_rooms :: "(room_id, room_entry) fmap"
  hb_next_conn :: u64
  hb_requests :: "user_id buckets"
  hb_cheap_requests :: "user_id buckets"
  hb_uploads :: "user_id buckets"
  hb_password_tries :: "user_id buckets"
  hb_guesses :: guesses
  hb_room_changes :: "user_id buckets"
  hb_rejoins :: "user_id buckets"
  hb_encryption_key_changes :: "user_id buckets"
  hb_share_changes :: "user_id buckets"
  hb_last_joined :: "(user_id, room_id) fmap"
  hb_audiences :: "(room_id, audience list) fmap"
  hb_conns :: "(handle_id, conn) fmap"

record env =
  ev_now :: instant
  ev_unix :: u64
  ev_random :: "nat \<Rightarrow> bytes"
  ev_verify :: "public_key \<Rightarrow> bytes \<Rightarrow> signature \<Rightarrow> bool"
  ev_sha256 :: "bytes \<Rightarrow> hash"

type_synonym 'a hm = "(hub, refusal, 'a) se"

definition saturating_sub :: "u64 \<Rightarrow> u64 \<Rightarrow> u64" where
  "saturating_sub a b = (if a < b then 0 else a - b)"

fun show_nat :: "nat \<Rightarrow> string" where
  "show_nat n = (if n < 10 then [char_of (48 + n)] else show_nat (n div 10) @ [char_of (48 + n mod 10)])"

declare show_nat.simps [simp del]

subsection \<open>Reaching connections\<close>

text \<open>
  \<open>try_send\<close> on a bounded channel fails when the queue is full or its reader is gone; closing a
  connection that is closed already changes nothing.
\<close>

definition try_send :: "conn \<Rightarrow> outbound \<Rightarrow> conn option" where
  "try_send c msg =
     (if c_reading c \<and> length (c_queue c) < EVENT_QUEUE
      then Some (c\<lparr> c_queue := c_queue c @ [msg] \<rparr>) else None)"

definition close_conn :: "conn \<Rightarrow> u32 \<Rightarrow> string \<Rightarrow> conn" where
  "close_conn c code reason = (if c_closed c = None then c\<lparr> c_closed := Some (code, reason) \<rparr> else c)"

definition kick :: "handle_id \<Rightarrow> string \<Rightarrow> u32 \<Rightarrow> hub \<Rightarrow> hub" where
  "kick handle reason code h =
     (case fmlookup (hb_conns h) handle of
        None \<Rightarrow> h
      | Some c \<Rightarrow>
          h\<lparr> hb_conns := fmupd handle
            (case try_send c (Kick reason code) of
               None \<Rightarrow> close_conn c code reason
             | Some c' \<Rightarrow> c'\<lparr> c_close_later := Some (code, reason) \<rparr>) (hb_conns h) \<rparr>)"

definition send :: "session \<Rightarrow> event \<Rightarrow> hub \<Rightarrow> hub" where
  "send s ev h =
     (case fmlookup (hb_conns h) (s_handle s) of
        None \<Rightarrow> h
      | Some c \<Rightarrow>
          h\<lparr> hb_conns := fmupd (s_handle s)
            (case try_send c (Message (Event ev)) of
               None \<Rightarrow> close_conn c PROTOCOL_ERROR ''control queue full''
             | Some c' \<Rightarrow> c') (hb_conns h) \<rparr>)"

definition emit_to :: "user_id \<Rightarrow> event \<Rightarrow> hub \<Rightarrow> hub" where
  "emit_to user ev h = (case fmlookup (hb_sessions h) user of None \<Rightarrow> h | Some s \<Rightarrow> send s ev h)"

definition emit_each :: "user_id list \<Rightarrow> event \<Rightarrow> hub \<Rightarrow> hub" where
  "emit_each users ev = fold (\<lambda>u. emit_to u ev) users"

definition emit_user_list_change :: "event \<Rightarrow> hub \<Rightarrow> hub" where
  "emit_user_list_change ev h =
     emit_each (filter (\<lambda>u. can_list_users (row_role (s_row (the (fmlookup (hb_sessions h) u)))))
       (fmkeys (hb_sessions h))) ev h"

definition emit_all :: "event \<Rightarrow> hub \<Rightarrow> hub" where
  "emit_all ev h = emit_each (fmkeys (hb_sessions h)) ev h"

definition members_list :: "room_entry \<Rightarrow> user_id list" where
  "members_list entry = sorted_list_of_fset (e_members entry)"

definition emit_room :: "room_id \<Rightarrow> event \<Rightarrow> user_id option \<Rightarrow> hub \<Rightarrow> hub" where
  "emit_room room ev except h =
     (case fmlookup (hb_rooms h) room of
        None \<Rightarrow> h
      | Some entry \<Rightarrow> emit_each (filter (\<lambda>m. Some m \<noteq> except) (members_list entry)) ev h)"

subsection \<open>Looking things up\<close>

definition is_current :: "hub \<Rightarrow> user_id \<Rightarrow> u64 \<Rightarrow> bool" where
  "is_current h user conn_id =
     (case fmlookup (hb_sessions h) user of None \<Rightarrow> False | Some s \<Rightarrow> s_conn_id s = conn_id)"

definition conn_id :: "hub \<Rightarrow> user_id \<Rightarrow> u64 option" where
  "conn_id h user = map_option s_conn_id (fmlookup (hb_sessions h) user)"

definition require_current :: "user_id \<Rightarrow> u64 \<Rightarrow> unit hm" where
  "require_current user cid = liftE (\<lambda>h.
     if is_current h user cid then Inr () else Inl (Refusal Forbidden ''this connection was replaced''))"

definition get_session :: "user_id \<Rightarrow> session hm" where
  "get_session user = liftE (\<lambda>h.
     case fmlookup (hb_sessions h) user of
       None \<Rightarrow> Inl (Refusal Internal ''no session'') | Some s \<Rightarrow> Inr s)"

text \<open>Writing through \<open>session_mut\<close>.\<close>

definition update_session :: "user_id \<Rightarrow> (session \<Rightarrow> session) \<Rightarrow> hub \<Rightarrow> hub" where
  "update_session user f h =
     (case fmlookup (hb_sessions h) user of
        None \<Rightarrow> h
      | Some s \<Rightarrow> h\<lparr> hb_sessions := fmupd user (f s) (hb_sessions h) \<rparr>)"

definition update_entry :: "room_id \<Rightarrow> (room_entry \<Rightarrow> room_entry) \<Rightarrow> hub \<Rightarrow> hub" where
  "update_entry room f h =
     (case fmlookup (hb_rooms h) room of
        None \<Rightarrow> h
      | Some e \<Rightarrow> h\<lparr> hb_rooms := fmupd room (f e) (hb_rooms h) \<rparr>)"

definition get_role :: "user_id \<Rightarrow> role hm" where
  "get_role user = bindE (get_session user) (\<lambda>s. retE (row_role (s_row s)))"

definition current_room :: "user_id \<Rightarrow> room_id hm" where
  "current_room user = bindE (get_session user) (\<lambda>s.
     case s_room s of None \<Rightarrow> failE (Refusal Invalid ''join a room first'') | Some r \<Rightarrow> retE r)"

definition no_such_room :: refusal where
  "no_such_room = Refusal NotFound ''no such room''"

definition get_entry :: "room_id \<Rightarrow> room_entry hm" where
  "get_entry room = liftE (\<lambda>h.
     case fmlookup (hb_rooms h) room of None \<Rightarrow> Inl no_such_room | Some e \<Rightarrow> Inr e)"

text \<open>A database call; its error is turned into \<open>err\<close>.\<close>

definition with_db :: "'e \<Rightarrow> 'a db \<Rightarrow> (hub, 'e, 'a) se" where
  "with_db err m h =
     (case m (hb_db h) of
        (Inl _, d) \<Rightarrow> (Inl err, h\<lparr> hb_db := d \<rparr>)
      | (Inr x, d) \<Rightarrow> (Inr x, h\<lparr> hb_db := d \<rparr>))"

text \<open>A question to or a charge on one of the families of buckets.\<close>

definition ask_buckets ::
  "(hub \<Rightarrow> user_id buckets) \<Rightarrow> ((user_id buckets \<Rightarrow> user_id buckets) \<Rightarrow> hub \<Rightarrow> hub) \<Rightarrow>
   (user_id buckets \<Rightarrow> bool \<times> user_id buckets) \<Rightarrow> (hub, 'e, bool) se" where
  "ask_buckets sel upd op h = (let (answer, bs) = op (sel h) in (Inr answer, upd (\<lambda>_. bs) h))"

definition stored_user :: "user_id \<Rightarrow> user_row hm" where
  "stored_user user = bindE (with_db internal (db_user user)) (\<lambda>row.
     case row of None \<Rightarrow> failE (Refusal NotFound ''no such user'') | Some row \<Rightarrow> retE row)"

definition require_picture :: "hash option \<Rightarrow> unit hm" where
  "require_picture avatar =
     (case avatar of
        None \<Rightarrow> retE ()
      | Some hash \<Rightarrow> bindE (with_db internal (db_has_blob hash)) (\<lambda>has.
          if \<not> has then failE (Refusal NotFound ''no such picture'') else retE ()))"

definition require :: "bool \<Rightarrow> unit hm" where
  "require allowed = (if allowed then retE () else failE (Refusal Forbidden ''you can't do that''))"

definition changing_rooms_too_fast :: refusal where
  "changing_rooms_too_fast = Refusal RateLimited ''you are changing rooms too fast; wait a moment''"

definition room_full :: refusal where
  "room_full = Refusal Full (''this room is full; it holds '' @ show_nat MAX_ROOM_MEMBERS @ '' people'')"

definition checked_name :: "ustring \<Rightarrow> ustring hm" where
  "checked_name name =
     (case valid_name name of
        None \<Rightarrow> failE (Refusal Invalid
          (''names are 1 to '' @ show_nat MAX_NAME_CHARS @ '' characters, with nothing hidden or reversed''))
      | Some n \<Rightarrow> retE n)"

definition check_password_length :: "ustring \<Rightarrow> unit hm" where
  "check_password_length password =
     (if valid_password password then retE ()
      else failE (Refusal Invalid (''passwords are 1 to '' @ show_nat MAX_PASSWORD_CHARS @ '' characters'')))"

subsection \<open>What others see\<close>

definition presence_of :: "session \<Rightarrow> presence option" where
  "presence_of s =
     (case s_room s of
        None \<Rightarrow> None
      | Some room \<Rightarrow> Some
          \<lparr> pr_user = row_id (s_row s), pr_name = row_name (s_row s), pr_avatar = row_avatar (s_row s),
            pr_room = Some room, pr_mic = mic (s_media s), pr_deafened = deafened (s_media s),
            pr_sharing = (share (s_media s) \<noteq> None), pr_role = row_role (s_row s) \<rparr>)"

definition peer_of :: "session \<Rightarrow> peer option" where
  "peer_of s =
     (case (s_tracks s, row_encryption_key (s_row s)) of
        (Some t, Some k) \<Rightarrow> Some
          \<lparr> pe_user = row_id (s_row s), pe_tracks = t, pe_share = share (s_media s),
            pe_identity_key = row_pubkey (s_row s), pe_encryption_key = k \<rparr>
      | _ \<Rightarrow> None)"

definition lobby :: placement where
  "lobby = \<lparr> pl_room = None, pl_epoch = 0, pl_tracks = None, pl_peers = [],
     pl_audiences = \<lparr> as_seq = 0, as_shares = [] \<rparr> \<rparr>"

text \<open>The sessions of a room's members, in the order of their ids.\<close>

definition member_sessions :: "(user_id, session) fmap \<Rightarrow> room_entry \<Rightarrow> session list" where
  "member_sessions ss entry = List.map_filter (fmlookup ss) (members_list entry)"

definition peers :: "hub \<Rightarrow> room_id \<Rightarrow> peer list" where
  "peers h room =
     (case fmlookup (hb_rooms h) room of
        None \<Rightarrow> []
      | Some entry \<Rightarrow> List.map_filter peer_of (member_sessions (hb_sessions h) entry))"

definition room_list :: "hub \<Rightarrow> room_info list" where
  "room_list h = map (\<lambda>r. let e = the (fmlookup (hb_rooms h) r)
     in \<lparr> ri_id = r, ri_name = e_name e, ri_locked = (e_password_hash e \<noteq> None) \<rparr>) (fmkeys (hb_rooms h))"

definition announce_presence :: "user_id \<Rightarrow> hub \<Rightarrow> hub" where
  "announce_presence user h =
     (case Option.bind (fmlookup (hb_sessions h) user) presence_of of
        None \<Rightarrow> h | Some p \<Rightarrow> emit_all (PresenceChanged p) h)"

definition broadcast_peers :: "room_id \<Rightarrow> user_id option \<Rightarrow> hub \<Rightarrow> hub" where
  "broadcast_peers room except h =
     (case fmlookup (hb_rooms h) room of
        None \<Rightarrow> h
      | Some entry \<Rightarrow> emit_room room (PeersChanged room (e_epoch entry) (peers h room)) except h)"

definition audiences_in :: "room_id \<Rightarrow> user_id \<Rightarrow> hub \<Rightarrow> audiences \<times> hub" where
  "audiences_in room user h =
     (let seq = (case fmlookup (hb_sessions h) user of None \<Rightarrow> 0 | Some s \<Rightarrow> s_audience_seq s) + 1
      in (\<lparr> as_seq = seq, as_shares = fmget (hb_audiences h) room [] \<rparr>,
          update_session user (\<lambda>s. s\<lparr> s_audience_seq := seq \<rparr>) h))"

definition placement_of :: "user_id \<Rightarrow> hub \<Rightarrow> placement \<times> hub" where
  "placement_of user h =
     (case fmlookup (hb_sessions h) user of
        None \<Rightarrow> (lobby, h)
      | Some s \<Rightarrow>
          (case s_room s of
             None \<Rightarrow> (lobby, h)
           | Some room \<Rightarrow>
               (let (aud, h') = audiences_in room user h
                in (\<lparr> pl_room = Some room,
                      pl_epoch = (case fmlookup (hb_rooms h) room of None \<Rightarrow> 0 | Some e \<Rightarrow> e_epoch e),
                      pl_tracks = s_tracks s, pl_peers = peers h room, pl_audiences = aud \<rparr>, h'))))"

subsection \<open>Routes and audiences\<close>

definition route_to :: "u64 \<Rightarrow> track_kind \<Rightarrow> session list \<Rightarrow> route" where
  "route_to owner kind subscribers =
     \<lparr> route_owner = owner, route_kind = kind, route_subscribers = map s_handle subscribers \<rparr>"

definition sees :: "share_tracks \<Rightarrow> session \<Rightarrow> bool" where
  "sees sh m \<longleftrightarrow> st_video sh \<in> set (s_watching m)"

definition hears :: "share_tracks \<Rightarrow> session \<Rightarrow> bool" where
  "hears sh m \<longleftrightarrow> st_audio sh \<in> set (s_watching m) \<and> \<not> deafened (s_media m)"

definition sender_routes :: "session list \<Rightarrow> session \<Rightarrow> (media_id \<times> route) list" where
  "sender_routes members sender =
     (case s_tracks sender of
        None \<Rightarrow> []
      | Some t \<Rightarrow>
          (let owner = s_conn_id sender;
               others = filter (\<lambda>m. row_id (s_row m) \<noteq> row_id (s_row sender)) members
           in (t_mic t, route_to owner Audio (filter (\<lambda>m. \<not> deafened (s_media m)) others)) #
              concat (map (\<lambda>sh.
                [(st_video sh, route_to owner Video (filter (sees sh) others)),
                 (st_audio sh, route_to owner Audio (filter (hears sh) others))]) (t_shares t))))"

definition sender_audiences :: "session list \<Rightarrow> session \<Rightarrow> audience list" where
  "sender_audiences members sender =
     (case s_tracks sender of
        None \<Rightarrow> []
      | Some t \<Rightarrow>
          (let others = filter (\<lambda>m. row_id (s_row m) \<noteq> row_id (s_row sender)) members
           in List.map_filter (\<lambda>sh.
                let receivers = map (\<lambda>m. row_id (s_row m)) (filter (\<lambda>m. sees sh m \<or> hears sh m) others)
                in if share (s_media sender) \<noteq> None \<and> receivers \<noteq> []
                   then Some \<lparr> au_video = st_video sh, au_receivers = receivers \<rparr> else None) (t_shares t)))"

definition room_routes :: "(user_id, session) fmap \<Rightarrow> room_entry \<Rightarrow> (media_id \<times> route) list" where
  "room_routes ss entry =
     (let members = member_sessions ss entry in concat (map (sender_routes members) members))"

definition room_audiences :: "(user_id, session) fmap \<Rightarrow> room_entry \<Rightarrow> audience list" where
  "room_audiences ss entry =
     (let members = member_sessions ss entry in concat (map (sender_audiences members) members))"

definition all_routes :: "(user_id, session) fmap \<Rightarrow> (room_id, room_entry) fmap \<Rightarrow> (media_id \<times> route) list" where
  "all_routes ss rs = concat (map (\<lambda>r. room_routes ss (the (fmlookup rs r))) (fmkeys rs))"

definition table_of :: "(media_id \<times> route) list \<Rightarrow> forwarding_table" where
  "table_of routes = fold (\<lambda>(m, r). fmupd m r) routes fmempty"

definition all_audiences ::
  "(user_id, session) fmap \<Rightarrow> (room_id, room_entry) fmap \<Rightarrow> (room_id, audience list) fmap" where
  "all_audiences ss rs = fmretain (\<lambda>_ a. a \<noteq> []) (fmmap (room_audiences ss) rs)"

definition tell_audiences :: "room_id \<Rightarrow> user_id \<Rightarrow> hub \<Rightarrow> hub" where
  "tell_audiences room user h =
     (case fmlookup (hb_sessions h) user of
        None \<Rightarrow> h
      | Some s \<Rightarrow> (let (aud, h') = audiences_in room user h in send s (AudiencesChanged aud) h'))"

definition tell_room :: "room_id \<Rightarrow> hub \<Rightarrow> hub" where
  "tell_room room h =
     fold (tell_audiences room)
       (case fmlookup (hb_rooms h) room of None \<Rightarrow> [] | Some e \<Rightarrow> members_list e) h"

definition rebuild_routes :: "hub \<Rightarrow> hub" where
  "rebuild_routes h =
     (let changed = filter (\<lambda>r. room_audiences (hb_sessions h) (the (fmlookup (hb_rooms h) r)) \<noteq>
                                fmget (hb_audiences h) r []) (fmkeys (hb_rooms h));
          h1 = h\<lparr> hb_table := table_of (all_routes (hb_sessions h) (hb_rooms h)),
                  hb_audiences := all_audiences (hb_sessions h) (hb_rooms h) \<rparr>
      in fold tell_room changed h1)"

subsection \<open>Moving between rooms\<close>

fun next_epochs :: "hub \<Rightarrow> room_id list \<Rightarrow> refusal + (room_id \<times> epoch) list" where
  "next_epochs h [] = Inr []"
| "next_epochs h (room # rest) =
     (case fmlookup (hb_rooms h) room of
        None \<Rightarrow> Inl no_such_room
      | Some e \<Rightarrow>
          if e_epoch e = - 1 then Inl (Refusal Internal ''room epoch exhausted'')
          else (case next_epochs h rest of
                  Inl r \<Rightarrow> Inl r | Inr es \<Rightarrow> Inr ((room, e_epoch e + 1) # es)))"

definition apply_epochs :: "(room_id \<times> epoch) list \<Rightarrow> hub \<Rightarrow> hub" where
  "apply_epochs = fold (\<lambda>(room, epoch). update_entry room (\<lambda>e. e\<lparr> e_epoch := epoch \<rparr>))"

definition bump_epochs :: "room_id list \<Rightarrow> unit hm" where
  "bump_epochs rooms =
     bindE (liftE (\<lambda>h. next_epochs h rooms)) (\<lambda>epochs.
     bindE (with_db internal (db_set_epochs epochs)) (\<lambda>_.
     modifyE (apply_epochs epochs)))"

definition allocate_tracks :: "tracks hm" where
  "allocate_tracks =
     bindE (with_db internal (db_allocate_media_ids TRACKS_PER_MEMBERSHIP)) (\<lambda>first.
       case first of
         None \<Rightarrow> failE (Refusal Internal ''this server has run out of media ids'')
       | Some first \<Rightarrow> retE \<lparr> t_mic = first, t_shares = [\<lparr> st_video = first + 1, st_audio = first + 2 \<rparr>] \<rparr>)"

definition set_membership :: "user_id \<Rightarrow> room_id option \<Rightarrow> tracks option \<Rightarrow> hub \<Rightarrow> hub" where
  "set_membership user room tracks h =
     (case fmlookup (hb_sessions h) user of
        None \<Rightarrow> h
      | Some s \<Rightarrow>
          (let old = (case s_tracks s of None \<Rightarrow> [] | Some t \<Rightarrow> t_shares t)
           in h\<lparr> hb_sessions := fmupd user
                   (s\<lparr> s_room := room, s_media := (s_media s)\<lparr> share := None \<rparr>, s_watching := [],
                       s_tracks := tracks \<rparr>) (hb_sessions h),
                 hb_keyframes := fold (\<lambda>sh k. kf_forget k (st_video sh)) old (hb_keyframes h) \<rparr>))"

definition remove_member :: "user_id \<Rightarrow> room_id option \<Rightarrow> hub \<Rightarrow> hub" where
  "remove_member user room h =
     (case room of None \<Rightarrow> h
      | Some r \<Rightarrow> update_entry r (\<lambda>e. e\<lparr> e_members := e_members e |-| {|user|} \<rparr>) h)"

definition insert_member :: "user_id \<Rightarrow> room_id option \<Rightarrow> hub \<Rightarrow> hub" where
  "insert_member user room h =
     (case room of None \<Rightarrow> h
      | Some r \<Rightarrow> update_entry r (\<lambda>e. e\<lparr> e_members := finsert user (e_members e) \<rparr>) h)"

text \<open>The checks of \<open>place\<close> before it changes anything.\<close>

definition may_place :: "env \<Rightarrow> session \<Rightarrow> room_id option \<Rightarrow> unit hm" where
  "may_place E s target =
     (case target of
        None \<Rightarrow> retE ()
      | Some room \<Rightarrow> bindE (get_entry room) (\<lambda>entry.
          if fcard (e_members entry) \<ge> MAX_ROOM_MEMBERS then failE room_full
          else if (case row_encryption_key (s_row s) of None \<Rightarrow> True | Some key \<Rightarrow> ek_not_after key \<le> ev_unix E)
          then failE (Refusal Invalid ''set an encryption key before joining a room'')
          else retE ()))"

definition announce_move :: "user_id \<Rightarrow> room_id option \<Rightarrow> room_id option \<Rightarrow> hub \<Rightarrow> hub" where
  "announce_move user old new h =
     (let h = (case old of None \<Rightarrow> h | Some r \<Rightarrow> broadcast_peers r None h);
          h = (case new of None \<Rightarrow> h | Some r \<Rightarrow> broadcast_peers r (Some user) h)
      in case Option.bind (fmlookup (hb_sessions h) user) presence_of of
           Some p \<Rightarrow> emit_all (PresenceChanged p) h
         | None \<Rightarrow> emit_all (PresenceEnded user) h)"

definition option_list :: "'a option \<Rightarrow> 'a list" where
  "option_list x = (case x of None \<Rightarrow> [] | Some y \<Rightarrow> [y])"

definition place :: "env \<Rightarrow> user_id \<Rightarrow> room_id option \<Rightarrow> placement hm" where
  "place E user target =
     bindE (get_session user) (\<lambda>s.
       let current = s_room s
       in if current = target then (\<lambda>h. let (p, h') = placement_of user h in (Inr p, h'))
       else
         bindE (may_place E s target) (\<lambda>_.
         bindE (case target of None \<Rightarrow> retE None | Some _ \<Rightarrow> bindE allocate_tracks (\<lambda>t. retE (Some t))) (\<lambda>tracks.
         bindE (bump_epochs (option_list current @ option_list target)) (\<lambda>_.
         bindE (modifyE (\<lambda>h. rebuild_routes (announce_move user current target
                  (set_membership user target tracks (insert_member user target (remove_member user current h)))))) (\<lambda>_.
         (\<lambda>h. let (p, h') = placement_of user h in (Inr p, h')))))))"

definition leave_room :: "env \<Rightarrow> user_id \<Rightarrow> hub \<Rightarrow> hub" where
  "leave_room E user h =
     (if fmlookup (hb_sessions h) user = None then h
      else case place E user None h of
        (Inr _, h1) \<Rightarrow> h1
      | (Inl _, h1) \<Rightarrow>
          (case Option.bind (fmlookup (hb_sessions h1) user) s_room of
             None \<Rightarrow> h1
           | Some room \<Rightarrow>
               rebuild_routes (emit_all (PresenceEnded user) (broadcast_peers room None
                 (set_membership user None None (remove_member user (Some room) h1))))))"

definition evict :: "env \<Rightarrow> user_id \<Rightarrow> string \<Rightarrow> hub \<Rightarrow> hub" where
  "evict E user reason h =
     (let h1 = leave_room E user h
      in case fmlookup (hb_sessions h1) user of
           None \<Rightarrow> h1
         | Some s \<Rightarrow> kick (s_handle s) reason REMOVED (h1\<lparr> hb_sessions := fmdrop user (hb_sessions h1) \<rparr>))"

end
