(* ===== verification/Signed.thy ===== *)
theory Signed
  imports Wire Codes
begin

text \<open>
  The messages that identity keys sign, from \<open>throcc-crypto/src/identity.rs\<close>: the login message and
  the one that vouches for an encryption key. The server and the clients build the same bytes.
\<close>

definition ascii_bytes :: "string \<Rightarrow> bytes" where
  "ascii_bytes s = map of_char s"

definition to_be_bytes64 :: "u64 \<Rightarrow> bytes" where
  "to_be_bytes64 w = to_be_bytes (ucast (drop_bit 32 w)) @ to_be_bytes (ucast w)"

definition auth_message :: "bytes \<Rightarrow> bytes \<Rightarrow> bytes \<Rightarrow> bytes" where
  "auth_message server_nonce client_nonce exporter =
     ascii_bytes ''throcc/auth/1'' @ server_nonce @ client_nonce @ exporter"

definition encryption_key_message :: "bytes \<Rightarrow> user_id \<Rightarrow> u64 \<Rightarrow> public_key \<Rightarrow> bytes" where
  "encryption_key_message server user not_after key =
     ascii_bytes ''throcc/enc-key/1'' @ server @ to_be_bytes64 user @ to_be_bytes64 not_after @ key"

lemma to_be_bytes64_inj [simp]: "to_be_bytes64 a = to_be_bytes64 b \<longleftrightarrow> a = b"
proof
  assume "to_be_bytes64 a = to_be_bytes64 b"
  then have words: "ucast (drop_bit 32 a) = (ucast (drop_bit 32 b) :: u32)" "ucast a = (ucast b :: u32)"
    by (simp_all add: to_be_bytes64_def to_be_bytes_inj)
  have low: "bit a n = bit b n" if "n < 32" for n
  proof -
    have "bit (ucast a :: u32) n = bit (ucast b :: u32) n" by (simp only: words)
    then show ?thesis using that by (simp add: bit_ucast_iff)
  qed
  have high: "bit a (n + 32) = bit b (n + 32)" if "n < 32" for n
  proof -
    have "bit (ucast (drop_bit 32 a) :: u32) n = bit (ucast (drop_bit 32 b) :: u32) n" by (simp only: words)
    then show ?thesis using that by (simp add: bit_ucast_iff bit_drop_bit_eq add.commute)
  qed
  show "a = b"
  proof (rule bit_word_eqI)
    fix n assume "n < LENGTH(64)"
    then show "bit a n = bit b n" using low [of n] high [of "n - 32"] by (cases "n < 32") simp_all
  qed
qed simp

lemma length_to_be_bytes64 [simp]: "length (to_be_bytes64 w) = 8"
  by (simp add: to_be_bytes64_def)

end
