(* ===== verification/Hub_Requests.thy ===== *)
theory Hub_Requests
  imports Hub Signed
begin

text \<open>
  Everything clients and timers make the hub do, \<open>rooms.rs\<close> of the server: signing in and out,
  every request of the protocol with its checks, its charges and its effects in the order of the
  code, the work a request hands out to run outside the lock and how it resumes, and the periodic
  jobs. Argon2 is a parameter of \<open>password_run\<close>.
\<close>

subsection \<open>Entering rooms\<close>

definition enters_another_room :: "user_id \<Rightarrow> room_id option \<Rightarrow> bool hm" where
  "enters_another_room user target =
     (if target = None then retE False
      else bindE (get_session user) (\<lambda>s. retE (s_room s \<noteq> target)))"

definition password_to_enter :: "user_id \<Rightarrow> room_id \<Rightarrow> ustring option hm" where
  "password_to_enter user room =
     bindE (get_entry room) (\<lambda>entry.
       case e_password_hash entry of
         None \<Rightarrow> retE None
       | Some hash \<Rightarrow>
           bindE (get_session user) (\<lambda>s.
             if s_room s = Some room then retE None
             else bindE (get_role user) (\<lambda>role.
               if can_manage_rooms role then retE None else retE (Some hash))))"

definition enter :: "env \<Rightarrow> user_id \<Rightarrow> room_id option \<Rightarrow> response hm" where
  "enter E user target =
     bindE (enters_another_room user target) (\<lambda>moving.
     bindE (if moving
            then ask_buckets hb_room_changes hb_room_changes_update (\<lambda>bs. buckets_take bs user 1 (ev_now E))
            else retE True) (\<lambda>ok.
     if \<not> ok then failE changing_rooms_too_fast
     else bindE (place E user target) (\<lambda>placement.
     bindE (modifyE (\<lambda>h. h\<lparr> hb_last_joined :=
              (case target of Some room \<Rightarrow> fmupd user room (hb_last_joined h)
                            | None \<Rightarrow> fmdrop user (hb_last_joined h)) \<rparr>)) (\<lambda>_.
     retE (PlacementR placement)))))"

datatype password_work =
    WorkJoin room_id ustring ustring
  | WorkCreateRoom ustring ustring
  | WorkSetRoomPassword room_id ustring

datatype password_done =
    DoneJoin room_id ustring bool
  | DoneCreateRoom ustring "ustring option"
  | DoneSetRoomPassword room_id "ustring option"

datatype handled = Done response | Pending password_work

text \<open>\<open>PasswordWork::run\<close>, with Argon2's \<open>matches\<close> and \<open>hash\<close> (which may fail) as parameters.\<close>

fun password_run ::
  "(ustring \<Rightarrow> ustring \<Rightarrow> bool) \<Rightarrow> (ustring \<Rightarrow> ustring option) \<Rightarrow> password_work \<Rightarrow> password_done" where
  "password_run matches hash (WorkJoin room password h) = DoneJoin room h (matches password h)"
| "password_run matches hash (WorkCreateRoom name password) = DoneCreateRoom name (hash password)"
| "password_run matches hash (WorkSetRoomPassword room password) = DoneSetRoomPassword room (hash password)"

text \<open>The room's fullness is asked before any password work.\<close>

definition refuse_full :: "user_id \<Rightarrow> room_id option \<Rightarrow> unit hm" where
  "refuse_full user target =
     (case target of
        None \<Rightarrow> retE ()
      | Some room \<Rightarrow> bindE (get_session user) (\<lambda>s.
          if s_room s = target then retE ()
          else bindE (get_entry room) (\<lambda>entry.
            if fcard (e_members entry) \<ge> MAX_ROOM_MEMBERS then failE room_full else retE ())))"

definition needed_password :: "user_id \<Rightarrow> room_id option \<Rightarrow> (room_id \<times> ustring) option hm" where
  "needed_password user target =
     (case target of
        None \<Rightarrow> retE None
      | Some room \<Rightarrow> bindE (password_to_enter user room) (\<lambda>hash. retE (map_option (Pair room) hash)))"

definition check_guess :: "env \<Rightarrow> user_id \<Rightarrow> room_id \<Rightarrow> unit hm" where
  "check_guess E user room h =
     (let (r, g) = guess_check (hb_guesses h) user room (ev_now E); h' = h\<lparr> hb_guesses := g \<rparr>
      in case r of
           Inr () \<Rightarrow> (Inr (), h')
         | Inl (WaitUser w) \<Rightarrow> (Inl (Refusal RateLimited (''too many wrong passwords; try again in '' @
               show_nat (max (w div 1000000000) 1) @ '' seconds'')), h')
         | Inl WaitRoom \<Rightarrow>
             (Inl (Refusal RateLimited ''this room has had too many wrong passwords; try again later''), h'))"

definition join :: "env \<Rightarrow> user_id \<Rightarrow> room_id option \<Rightarrow> ustring option \<Rightarrow> handled hm" where
  "join E user target password =
     bindE (enters_another_room user target) (\<lambda>moving.
     bindE (if moving
            then ask_buckets hb_room_changes hb_room_changes_update (\<lambda>bs. buckets_holds bs user 1 (ev_now E))
            else retE True) (\<lambda>ok.
     if \<not> ok then failE changing_rooms_too_fast
     else bindE (refuse_full user target) (\<lambda>_.
     bindE (needed_password user target) (\<lambda>needed.
     case needed of
       None \<Rightarrow> bindE (enter E user target) (\<lambda>r. retE (Done r))
     | Some (room, hash) \<Rightarrow>
         (case password of
            None \<Rightarrow> failE (Refusal WrongPassword ''this room needs a password'')
          | Some password \<Rightarrow>
              bindE (check_guess E user room) (\<lambda>_.
              bindE (ask_buckets hb_password_tries hb_password_tries_update
                       (\<lambda>bs. buckets_take bs user 1 (ev_now E))) (\<lambda>taken.
              if \<not> taken
              then failE (Refusal RateLimited ''too many password attempts; wait a few seconds'')
              else retE (Pending (WorkJoin room password hash)))))))))"

definition finish_join :: "env \<Rightarrow> user_id \<Rightarrow> room_id \<Rightarrow> ustring \<Rightarrow> bool \<Rightarrow> response hm" where
  "finish_join E user room hash matched =
     (if \<not> matched
      then bindE (modifyE (\<lambda>h. h\<lparr> hb_guesses := snd (guess_failed (hb_guesses h) user room (ev_now E)) \<rparr>)) (\<lambda>_.
           failE (Refusal WrongPassword ''wrong password''))
      else bindE (modifyE (\<lambda>h. h\<lparr> hb_guesses := guess_succeeded (hb_guesses h) user room \<rparr>)) (\<lambda>_.
           bindE (password_to_enter user room) (\<lambda>current.
           if (case current of None \<Rightarrow> False | Some c \<Rightarrow> c \<noteq> hash)
           then failE (Refusal WrongPassword ''the room's password has just changed'')
           else enter E user (Some room))))"

definition may_rejoin :: "hub \<Rightarrow> user_id \<Rightarrow> room_id \<Rightarrow> bool" where
  "may_rejoin h user room \<longleftrightarrow>
     (case fmlookup (hb_rooms h) room of None \<Rightarrow> False | Some e \<Rightarrow> e_password_hash e = None) \<or>
     (case fmlookup (hb_sessions h) user of None \<Rightarrow> False | Some s \<Rightarrow> can_manage_rooms (row_role (s_row s))) \<or>
     fmlookup (hb_last_joined h) user = Some room"

text \<open>The allowance a rejoin draws on: \<open>rejoins\<close> when returning, \<open>room_changes\<close> otherwise.\<close>

definition ask_rejoin ::
  "bool \<Rightarrow> (user_id buckets \<Rightarrow> bool \<times> user_id buckets) \<Rightarrow> (hub, refusal, bool) se" where
  "ask_rejoin returning op =
     (if returning then ask_buckets hb_rejoins hb_rejoins_update op
      else ask_buckets hb_room_changes hb_room_changes_update op)"

definition rejoin :: "env \<Rightarrow> user_id \<Rightarrow> room_id \<Rightarrow> hub \<Rightarrow> placement option \<times> hub" where
  "rejoin E user room h =
     (let returning = (fmlookup (hb_last_joined h) user = Some room);
          (r, h') = bindE (ask_rejoin returning (\<lambda>bs. buckets_holds bs user 1 (ev_now E))) (\<lambda>held.
            if \<not> held then retE None
            else bindE (place E user (Some room)) (\<lambda>p.
                 bindE (ask_rejoin returning (\<lambda>bs. buckets_take bs user 1 (ev_now E))) (\<lambda>_.
                 retE (Some p)))) h
      in (case r of Inl _ \<Rightarrow> None | Inr p \<Rightarrow> p, h'))"

subsection \<open>Signing in and out\<close>

datatype connect_error = ConnectFailed | ConnectRefused auth_error

definition is_full :: "hub \<Rightarrow> bool" where
  "is_full h \<longleftrightarrow> fmsize (hb_sessions h) \<ge> MAX_ONLINE"

definition new_session :: "u64 \<Rightarrow> handle_id \<Rightarrow> user_row \<Rightarrow> session" where
  "new_session cid handle row =
     \<lparr> s_conn_id = cid, s_handle = handle, s_row = row, s_room = None, s_tracks = None,
       s_media = media_default, s_watching = [], s_last_profile = None, s_key_publishes = None,
       s_audience_seq = 0 \<rparr>"

definition rejoin_or_lobby :: "env \<Rightarrow> user_id \<Rightarrow> room_id option \<Rightarrow> hub \<Rightarrow> placement \<times> hub" where
  "rejoin_or_lobby E user want_room h =
     (case want_room of
        None \<Rightarrow> (lobby, h)
      | Some room \<Rightarrow>
          if \<not> may_rejoin h user room then (lobby, h)
          else (case rejoin E user room h of (Some p, h') \<Rightarrow> (p, h') | (None, h') \<Rightarrow> (lobby, h')))"

definition server_profile_or_default :: "(hub, connect_error, server_profile) se" where
  "server_profile_or_default h =
     (case with_db () db_server_profile h of
        (Inl _, h') \<Rightarrow> (Inr \<lparr> sp_name = None, sp_avatar = None \<rparr>, h')
      | (Inr p, h') \<Rightarrow> (Inr p, h'))"

definition connect ::
  "env \<Rightarrow> user_row \<Rightarrow> handle_id \<Rightarrow> room_id option \<Rightarrow> (hub, connect_error, u64 \<times> welcome_msg) se" where
  "connect E authed handle want_room =
     (let user = row_id authed in
      bindE (with_db ConnectFailed (db_user user)) (\<lambda>stored.
      case stored of
        None \<Rightarrow> failE (ConnectRefused UnknownKey)
      | Some row \<Rightarrow>
          if row_pubkey row \<noteq> row_pubkey authed then failE (ConnectRefused UnknownKey)
          else
            bindE (with_db ConnectFailed (db_mark_seen user (ev_unix E))) (\<lambda>_.
            bindE (getE (\<lambda>h. (fmsize (hb_sessions h) \<ge> MAX_SIGNED_IN \<or> (row_role row \<noteq> Admin \<and> is_full h)) \<and>
                     fmlookup (hb_sessions h) user = None)) (\<lambda>refused.
            if refused then failE (ConnectRefused ServerFull)
            else
              bindE (modifyE (\<lambda>h.
                let h1 = evict E user ''you signed in from somewhere else'' h;
                    cid = hb_next_conn h1 + 1
                in h1\<lparr> hb_next_conn := cid,
                       hb_sessions := fmupd user (new_session cid handle row) (hb_sessions h1) \<rparr>)) (\<lambda>_.
              bindE (getE hb_next_conn) (\<lambda>cid.
              bindE (\<lambda>h. let (p, h') = rejoin_or_lobby E user want_room h in (Inr p, h')) (\<lambda>placement.
              bindE server_profile_or_default (\<lambda>server.
              bindE (getE (\<lambda>h. (room_list h, List.map_filter presence_of (fmvals (hb_sessions h))))) (\<lambda>(rs, ps).
              retE (cid, \<lparr> w_me = user, w_role = row_role row, w_rooms = rs, w_presence = ps,
                     w_placement = placement, w_server = server,
                     w_profile = \<lparr> up_name = row_name row, up_avatar = row_avatar row \<rparr> \<rparr>)))))))))) "

definition disconnect :: "env \<Rightarrow> user_id \<Rightarrow> u64 \<Rightarrow> hub \<Rightarrow> hub" where
  "disconnect E user cid h =
     (if is_current h user cid
      then let h1 = leave_room E user h in h1\<lparr> hb_sessions := fmdrop user (hb_sessions h1) \<rparr>
      else h)"

subsection \<open>Profiles and pictures\<close>

definition set_profile :: "env \<Rightarrow> user_id \<Rightarrow> ustring \<Rightarrow> hash option \<Rightarrow> response hm" where
  "set_profile E user name avatar =
     bindE (checked_name name) (\<lambda>name.
     bindE (require_picture avatar) (\<lambda>_.
     bindE (get_session user) (\<lambda>s.
     if (case s_last_profile s of None \<Rightarrow> False | Some t \<Rightarrow> duration_since (ev_now E) t < PROFILE_INTERVAL)
     then failE (Refusal RateLimited
            (''one profile change per '' @ show_nat (PROFILE_INTERVAL div 1000000000) @ '' seconds''))
     else bindE (with_db internal (db_set_profile user name avatar)) (\<lambda>_.
     bindE (get_session user) (\<lambda>_.
     bindE (modifyE (\<lambda>h. announce_presence user (update_session user (\<lambda>s.
       s\<lparr> s_row := (s_row s)\<lparr> row_name := name, row_avatar := avatar \<rparr>,
          s_last_profile := Some (ev_now E) \<rparr>) h))) (\<lambda>_.
     retE Ok))))))"

definition announce_server_profile :: "response hm" where
  "announce_server_profile =
     bindE (with_db internal db_server_profile) (\<lambda>profile.
     bindE (modifyE (emit_all (ServerProfileChanged profile))) (\<lambda>_. retE Ok))"

definition set_server_name :: "user_id \<Rightarrow> ustring option \<Rightarrow> response hm" where
  "set_server_name user name =
     bindE (get_role user) (\<lambda>role.
     bindE (require (can_edit_server role)) (\<lambda>_.
     bindE (case map_option trim name of
              None \<Rightarrow> retE None
            | Some n \<Rightarrow> if n = [] then retE None else bindE (checked_name n) (\<lambda>n. retE (Some n))) (\<lambda>name.
     bindE (with_db internal (db_set_server_name name)) (\<lambda>_. announce_server_profile))))"

definition set_server_avatar :: "user_id \<Rightarrow> hash option \<Rightarrow> response hm" where
  "set_server_avatar user avatar =
     bindE (get_role user) (\<lambda>role.
     bindE (require (can_edit_server role)) (\<lambda>_.
     bindE (require_picture avatar) (\<lambda>_.
     bindE (with_db internal (db_set_server_avatar avatar)) (\<lambda>_. announce_server_profile))))"

definition delete_unused_blobs :: "u64 \<Rightarrow> nat db" where
  "delete_unused_blobs now = db_delete_unused_blobs (saturating_sub now UNUSED_BLOB_GRACE)"

definition set_avatar :: "env \<Rightarrow> user_id \<Rightarrow> bytes \<Rightarrow> response hm" where
  "set_avatar E user bs =
     (if length bs > MAX_AVATAR_BYTES
      then failE (Refusal error_code.TooLarge (''avatars are at most '' @ show_nat (MAX_AVATAR_BYTES div 1024) @ '' KiB''))
      else
        bindE (ask_buckets hb_uploads hb_uploads_update
                 (\<lambda>b. buckets_take b user (f64_of_nat (max (length bs) MIN_UPLOAD_COST)) (ev_now E))) (\<lambda>taken.
        if \<not> taken then failE (Refusal RateLimited ''too many pictures; try again in a minute'')
        else
          bindE (with_db internal (delete_unused_blobs (ev_unix E))) (\<lambda>_.
          bindE (with_db internal (db_put_blob (ev_sha256 E bs) bs (ev_unix E))) (\<lambda>_.
          retE (AvatarHash (ev_sha256 E bs))))))"

definition get_avatar :: "hash \<Rightarrow> response hm" where
  "get_avatar hash =
     bindE (with_db internal (db_blob hash)) (\<lambda>b.
       case b of Some bs \<Rightarrow> retE (AvatarR bs) | None \<Rightarrow> failE (Refusal NotFound ''no such avatar''))"

subsection \<open>Keys\<close>

definition set_encryption_key :: "env \<Rightarrow> user_id \<Rightarrow> signed_encryption_key \<Rightarrow> response hm" where
  "set_encryption_key E user key =
     bindE (get_session user) (\<lambda>s.
     let now = ev_unix E in
     if ek_not_after key \<le> now \<or> ek_not_after key > now + MAX_ENCRYPTION_KEY_LIFETIME
     then failE (Refusal Invalid ''the encryption key's expiry is out of range'')
     else
       let stored = row_encryption_key (s_row s) in
       if stored = Some key then retE Ok
       else
         bindE (getE hb_fingerprint) (\<lambda>fp.
         if \<not> ev_verify E (row_pubkey (s_row s)) (encryption_key_message fp user (ek_not_after key) (ek_key key))
              (ek_sig key)
         then failE (Refusal Invalid ''the encryption key's signature is wrong'')
         else
           bindE (if stored \<noteq> None
                  then ask_buckets hb_encryption_key_changes hb_encryption_key_changes_update
                         (\<lambda>b. buckets_take b user 1 (ev_now E))
                  else retE True) (\<lambda>ok.
           if \<not> ok then failE (Refusal RateLimited ''the encryption key changes too often'')
           else
             bindE (with_db internal (db_set_encryption_key user key)) (\<lambda>_.
             bindE (get_session user) (\<lambda>_.
             bindE (modifyE (update_session user (\<lambda>s.
                      s\<lparr> s_row := (s_row s)\<lparr> row_encryption_key := Some key \<rparr> \<rparr>))) (\<lambda>_.
             bindE (case s_room s of
                      None \<Rightarrow> retE ()
                    | Some room \<Rightarrow>
                        bindE (if (case stored of None \<Rightarrow> True | Some k \<Rightarrow> ek_key k \<noteq> ek_key key)
                               then bump_epochs [room] else retE ()) (\<lambda>_.
                        modifyE (broadcast_peers room None))) (\<lambda>_.
             retE Ok)))))))"

definition free_key_publish :: "user_id \<Rightarrow> epoch \<Rightarrow> hub \<Rightarrow> bool \<times> hub" where
  "free_key_publish user epoch h =
     (case fmlookup (hb_sessions h) user of
        None \<Rightarrow> (False, h)
      | Some s \<Rightarrow>
          (case s_room s of
             None \<Rightarrow> (False, h)
           | Some room \<Rightarrow>
               if (case fmlookup (hb_rooms h) room of None \<Rightarrow> True | Some e \<Rightarrow> e_epoch e \<noteq> epoch)
               then (False, h)
               else
                 let count = (case s_key_publishes s of
                       Some (r, e, count) \<Rightarrow> if r = room \<and> e = epoch then count else 0 | None \<Rightarrow> 0);
                     published = count + 1
                 in (published \<le> FREE_KEY_PUBLISHES,
                     update_session user (\<lambda>s. s\<lparr> s_key_publishes := Some (room, epoch, published) \<rparr>) h)))"

fun check_wrapped ::
  "user_id \<Rightarrow> room_entry \<Rightarrow> user_id fset \<Rightarrow> (user_id \<times> bytes) list \<Rightarrow> refusal + unit" where
  "check_wrapped user entry recipients [] = Inr ()"
| "check_wrapped user entry recipients ((to, blob) # rest) =
     (if to = user \<or> to |\<notin>| e_members entry \<or> to |\<in>| recipients
      then Inl (Refusal Invalid ''every recipient must be another member of the room, once'')
      else if length blob > MAX_WRAPPED_BYTES then Inl (Refusal error_code.TooLarge ''wrapped key too large'')
      else check_wrapped user entry (finsert to recipients) rest)"

definition publish_key :: "user_id \<Rightarrow> epoch \<Rightarrow> (user_id \<times> bytes) list \<Rightarrow> response hm" where
  "publish_key user epoch wrapped =
     bindE (current_room user) (\<lambda>room.
     bindE (get_entry room) (\<lambda>entry.
     if epoch \<noteq> e_epoch entry
     then failE (Refusal StaleEpoch ''the room has moved to a newer epoch'')
     else
       bindE (liftE (\<lambda>_. check_wrapped user entry {||} wrapped)) (\<lambda>_.
       bindE (modifyE (fold (\<lambda>(to, blob). emit_to to (SenderKeyPublished user epoch blob)) wrapped)) (\<lambda>_.
       retE Ok))))"

subsection \<open>Media\<close>

definition shares_in :: "hub \<Rightarrow> room_id \<Rightarrow> nat" where
  "shares_in h room =
     (case fmlookup (hb_rooms h) room of
        None \<Rightarrow> 0
      | Some entry \<Rightarrow>
          length (filter (\<lambda>s. share (s_media s) \<noteq> None) (member_sessions (hb_sessions h) entry)))"

definition set_media :: "env \<Rightarrow> user_id \<Rightarrow> media_state \<Rightarrow> response hm" where
  "set_media E user media =
     bindE (current_room user) (\<lambda>room.
     bindE (get_session user) (\<lambda>s.
     let stored = s_media s; starting = (share media \<noteq> None \<and> share stored = None) in
     bindE (getE (\<lambda>h. starting \<and> shares_in h room \<ge> MAX_ROOM_SHARES)) (\<lambda>full.
     bindE (if share media \<noteq> None \<and> share media \<noteq> share stored \<and> \<not> full
            then bindE (ask_buckets hb_share_changes hb_share_changes_update
                          (\<lambda>b. buckets_take b user 1 (ev_now E))) (\<lambda>taken. retE (\<not> taken))
            else retE False) (\<lambda>limited.
     let applied = media\<lparr> share := (if full \<or> limited then share stored else share media) \<rparr> in
     bindE (modifyE (update_session user (\<lambda>s. s\<lparr> s_media := applied \<rparr>))) (\<lambda>_.
     bindE (modifyE (\<lambda>h.
       let h = (if share applied \<noteq> share stored then broadcast_peers room None h else h);
           h = (if deafened applied \<noteq> deafened stored \<or> (share applied \<noteq> None) \<noteq> (share stored \<noteq> None)
                then rebuild_routes h else h)
       in announce_presence user h)) (\<lambda>_.
     if full
     then failE (Refusal Full (''this room already has '' @ show_nat MAX_ROOM_SHARES @ '' screen shares running''))
     else if limited
     then failE (Refusal RateLimited
            ''too many share starts; the share stays as it was, try again in a moment'')
     else retE Ok))))))"

definition track_of :: "media_id \<Rightarrow> session \<Rightarrow> (user_id \<times> track_kind) option" where
  "track_of m s =
     (case s_tracks s of
        None \<Rightarrow> None
      | Some t \<Rightarrow>
          map_option (\<lambda>sh. (row_id (s_row s), if st_video sh = m then Video else Audio))
            (find (\<lambda>sh. st_video sh = m \<or> st_audio sh = m) (t_shares t)))"

fun find_map :: "('a \<Rightarrow> 'b option) \<Rightarrow> 'a list \<Rightarrow> 'b option" where
  "find_map f [] = None"
| "find_map f (x # xs) = (case f x of None \<Rightarrow> find_map f xs | Some y \<Rightarrow> Some y)"

definition share_track :: "hub \<Rightarrow> media_id \<Rightarrow> (user_id \<times> track_kind) option" where
  "share_track h m = find_map (track_of m) (fmvals (hb_sessions h))"

definition watchable :: "hub \<Rightarrow> user_id \<Rightarrow> room_id \<Rightarrow> media_id \<Rightarrow> bool" where
  "watchable h user room m =
     (case share_track h m of
        None \<Rightarrow> False
      | Some (owner, _) \<Rightarrow>
          owner \<noteq> user \<and> Option.bind (fmlookup (hb_sessions h) owner) s_room = Some room)"

text \<open>Asks the owner of a video track for a keyframe, if the aggregator says it is time.\<close>

definition ask_keyframe :: "env \<Rightarrow> user_id \<Rightarrow> media_id \<Rightarrow> recovery \<Rightarrow> hub \<Rightarrow> hub" where
  "ask_keyframe E owner m kind h =
     (let (sent, k) = kf_request (hb_keyframes h) m kind (ev_now E); h' = h\<lparr> hb_keyframes := k \<rparr>
      in case sent of None \<Rightarrow> h' | Some kind \<Rightarrow> emit_to owner (KeyframeRequested m kind) h')"

definition set_watched :: "env \<Rightarrow> user_id \<Rightarrow> media_id list \<Rightarrow> response hm" where
  "set_watched E user ids =
     (if length ids > MAX_WATCHED then failE (Refusal error_code.TooLarge ''watching too many tracks'')
      else
        bindE (current_room user) (\<lambda>room.
        bindE (getE (\<lambda>h. list_all (watchable h user room) ids)) (\<lambda>ok.
        if \<not> ok then failE (Refusal Invalid ''not a share in your room'')
        else
          bindE (get_session user) (\<lambda>s.
          let started = filter (\<lambda>m. m \<notin> set (s_watching s)) ids in
          bindE (modifyE (\<lambda>h. rebuild_routes (update_session user (\<lambda>s. s\<lparr> s_watching := ids \<rparr>) h))) (\<lambda>_.
          bindE (modifyE (fold (\<lambda>m h. case share_track h m of
                   Some (owner, Video) \<Rightarrow> ask_keyframe E owner m Idr h | _ \<Rightarrow> h) started)) (\<lambda>_.
          retE Ok))))))"

definition request_keyframe :: "env \<Rightarrow> user_id \<Rightarrow> media_id \<Rightarrow> recovery \<Rightarrow> response hm" where
  "request_keyframe E user m kind =
     bindE (get_session user) (\<lambda>s.
     if m \<notin> set (s_watching s) then failE (Refusal Invalid ''you aren't watching that track'')
     else
       bindE (getE (\<lambda>h. share_track h m)) (\<lambda>found.
       case found of
         Some (owner, Video) \<Rightarrow> bindE (modifyE (ask_keyframe E owner m kind)) (\<lambda>_. retE Ok)
       | _ \<Rightarrow> failE (Refusal Invalid ''not a video track'')))"

definition flush_keyframes :: "env \<Rightarrow> hub \<Rightarrow> hub" where
  "flush_keyframes E h =
     (let (due, k) = kf_due (hb_keyframes h) (ev_now E)
      in fold (\<lambda>(m, kind) h. case share_track h m of
                Some (owner, _) \<Rightarrow> emit_to owner (KeyframeRequested m kind) h
              | None \<Rightarrow> h\<lparr> hb_keyframes := kf_forget (hb_keyframes h) m \<rparr>) due (h\<lparr> hb_keyframes := k \<rparr>))"

subsection \<open>Managing rooms\<close>

definition room_to_create :: "user_id \<Rightarrow> ustring \<Rightarrow> ustring hm" where
  "room_to_create user name =
     bindE (get_role user) (\<lambda>role.
     bindE (require (can_manage_rooms role)) (\<lambda>_.
     bindE (checked_name name) (\<lambda>name.
     bindE (getE (\<lambda>h. fmsize (hb_rooms h) \<ge> MAX_ROOMS)) (\<lambda>full.
     if full
     then failE (Refusal error_code.TooLarge (''a server holds at most '' @ show_nat MAX_ROOMS @ '' rooms''))
     else retE name))))"

definition add_room :: "ustring \<Rightarrow> ustring option \<Rightarrow> response hm" where
  "add_room name password_hash =
     bindE (with_db internal (db_create_room name password_hash)) (\<lambda>room.
     bindE (modifyE (\<lambda>h.
       emit_all (RoomCreated \<lparr> ri_id = room, ri_name = name, ri_locked = (password_hash \<noteq> None) \<rparr>)
         (h\<lparr> hb_rooms := fmupd room
              \<lparr> e_name = name, e_epoch = 0, e_password_hash = password_hash, e_members = {||} \<rparr>
              (hb_rooms h) \<rparr>))) (\<lambda>_.
     retE Ok))"

definition create_room :: "user_id \<Rightarrow> ustring \<Rightarrow> ustring option \<Rightarrow> handled hm" where
  "create_room user name password =
     bindE (room_to_create user name) (\<lambda>name.
     case password of
       Some password \<Rightarrow> bindE (check_password_length password) (\<lambda>_. retE (Pending (WorkCreateRoom name password)))
     | None \<Rightarrow> bindE (add_room name None) (\<lambda>r. retE (Done r)))"

definition rename_room :: "user_id \<Rightarrow> room_id \<Rightarrow> ustring \<Rightarrow> response hm" where
  "rename_room user room name =
     bindE (get_role user) (\<lambda>role.
     bindE (require (can_manage_rooms role)) (\<lambda>_.
     bindE (checked_name name) (\<lambda>name.
     bindE (get_entry room) (\<lambda>_.
     bindE (with_db internal (db_rename_room room name)) (\<lambda>_.
     bindE (modifyE (\<lambda>h. emit_all (RoomRenamed room name) (update_entry room (\<lambda>e. e\<lparr> e_name := name \<rparr>) h))) (\<lambda>_.
     retE Ok))))))"

definition may_manage_room :: "user_id \<Rightarrow> room_id \<Rightarrow> unit hm" where
  "may_manage_room user room =
     bindE (get_role user) (\<lambda>role.
     bindE (require (can_manage_rooms role)) (\<lambda>_.
     bindE (get_entry room) (\<lambda>_. retE ())))"

definition store_room_password :: "room_id \<Rightarrow> ustring option \<Rightarrow> response hm" where
  "store_room_password room hash =
     bindE (get_entry room) (\<lambda>entry.
     bindE (with_db internal (db_set_room_password_hash room hash)) (\<lambda>_.
     bindE (modifyE (\<lambda>h. emit_all (RoomLockChanged room (hash \<noteq> None))
       ((update_entry room (\<lambda>e. e\<lparr> e_password_hash := hash \<rparr>) h)
          \<lparr> hb_last_joined := fmretain (\<lambda>user joined. joined \<noteq> room \<or> user |\<in>| e_members entry)
              (hb_last_joined h) \<rparr>))) (\<lambda>_.
     retE Ok)))"

definition set_room_password :: "user_id \<Rightarrow> room_id \<Rightarrow> ustring option \<Rightarrow> handled hm" where
  "set_room_password user room password =
     bindE (may_manage_room user room) (\<lambda>_.
     case password of
       Some password \<Rightarrow> bindE (check_password_length password) (\<lambda>_. retE (Pending (WorkSetRoomPassword room password)))
     | None \<Rightarrow> bindE (store_room_password room None) (\<lambda>r. retE (Done r)))"

definition outranked :: "role \<Rightarrow> user_id \<Rightarrow> room_entry \<Rightarrow> hub \<Rightarrow> bool" where
  "outranked actor user entry h =
     list_ex (\<lambda>s. \<not> can_kick_from_room actor (row_role (s_row s)))
       (List.map_filter (fmlookup (hb_sessions h)) (filter (\<lambda>m. m \<noteq> user) (members_list entry)))"

definition delete_room :: "env \<Rightarrow> user_id \<Rightarrow> room_id \<Rightarrow> response hm" where
  "delete_room E user room =
     bindE (get_role user) (\<lambda>actor.
     bindE (require (can_manage_rooms actor)) (\<lambda>_.
     bindE (get_entry room) (\<lambda>entry.
     bindE (getE (outranked actor user entry)) (\<lambda>out.
     if actor \<noteq> Admin \<and> out
     then failE (Refusal Forbidden ''someone in this room outranks you; it can be deleted once they leave'')
     else
       bindE (forE (\<lambda>member. bindE (place E member None) (\<lambda>_. retE ())) (members_list entry)) (\<lambda>_.
       bindE (with_db internal (db_delete_room room)) (\<lambda>_.
       bindE (modifyE (\<lambda>h. emit_all (RoomDeleted room)
         (h\<lparr> hb_rooms := fmdrop room (hb_rooms h),
              hb_last_joined := fmretain (\<lambda>_ joined. joined \<noteq> room) (hb_last_joined h) \<rparr>))) (\<lambda>_.
       retE Ok)))))))"

subsection \<open>Managing users\<close>

fun mint_attempts ::
  "(nat \<Rightarrow> bytes) \<Rightarrow> user_id option \<Rightarrow> u64 \<Rightarrow> nat \<Rightarrow> nat \<Rightarrow> (invite_code \<times> u64) db" where
  "mint_attempts random minted_by expires_at i 0 = failE DbError"
| "mint_attempts random minted_by expires_at i (Suc n) =
     (let code = from_random (random i) in
      bindE (db_insert_invite \<lparr> ir_code_id = ic_id code, ir_secret = ic_secret code, ir_minted_by = minted_by,
               ir_expires_at = expires_at, ir_failures = 0 \<rparr>) (\<lambda>ok.
      if ok then retE (code, expires_at) else mint_attempts random minted_by expires_at (Suc i) n))"

definition mint_invite :: "(nat \<Rightarrow> bytes) \<Rightarrow> user_id option \<Rightarrow> u64 \<Rightarrow> (invite_code \<times> u64) db" where
  "mint_invite random minted_by now =
     bindE (db_purge_expired_invites now) (\<lambda>_.
     mint_attempts random minted_by (now + INVITE_LIFETIME) 0 MINT_ATTEMPTS)"

definition create_invite :: "env \<Rightarrow> user_id \<Rightarrow> response hm" where
  "create_invite E user =
     (let now = ev_unix E in
      bindE (get_role user) (\<lambda>role.
      bindE (case invite_cap role of
               None \<Rightarrow> retE ()
             | Some cap \<Rightarrow>
                 bindE (with_db internal (db_invites_used user now (saturating_sub now INVITE_LIFETIME))) (\<lambda>used.
                 if used \<ge> cap then failE (Refusal RateLimited (show_nat cap @ '' invites per day''))
                 else retE ())) (\<lambda>_.
      bindE (with_db internal (mint_invite (ev_random E) (Some user) now)) (\<lambda>(code, expires).
      retE (InviteR (invite_display code) expires)))))"

definition list_users :: "user_id \<Rightarrow> response hm" where
  "list_users user =
     bindE (get_role user) (\<lambda>role.
     bindE (require (can_list_users role)) (\<lambda>_.
     bindE (with_db internal db_users) (\<lambda>us. retE (UsersR (map to_user us)))))"

definition is_locked :: "hub \<Rightarrow> room_id \<Rightarrow> bool" where
  "is_locked h room =
     (case fmlookup (hb_rooms h) room of None \<Rightarrow> False | Some e \<Rightarrow> e_password_hash e \<noteq> None)"

definition role_changed :: "user_id \<Rightarrow> role \<Rightarrow> hub \<Rightarrow> hub" where
  "role_changed target role h =
     (let h = update_session target (\<lambda>s. s\<lparr> s_row := (s_row s)\<lparr> row_role := role \<rparr> \<rparr>) h;
          h = (if \<not> can_manage_rooms role \<and>
                  (case fmlookup (hb_last_joined h) target of None \<Rightarrow> False | Some room \<Rightarrow> is_locked h room)
               then h\<lparr> hb_last_joined := fmdrop target (hb_last_joined h) \<rparr> else h);
          h = announce_presence target h;
          h = emit_user_list_change (RoleChanged target role) h
      in if \<not> can_list_users role then emit_to target (RoleChanged target role) h else h)"

definition set_role :: "user_id \<Rightarrow> user_id \<Rightarrow> role \<Rightarrow> response hm" where
  "set_role user target role =
     bindE (get_role user) (\<lambda>actor.
     bindE (require (can_set_role actor User role)) (\<lambda>_.
     bindE (stored_user target) (\<lambda>row.
     bindE (require (can_set_role actor (row_role row) role)) (\<lambda>_.
     bindE (with_db internal (db_set_role target role)) (\<lambda>_.
     bindE (modifyE (role_changed target role)) (\<lambda>_.
     retE Ok))))))"

definition kick_from_room :: "env \<Rightarrow> user_id \<Rightarrow> user_id \<Rightarrow> room_id \<Rightarrow> response hm" where
  "kick_from_room E user target room =
     bindE (get_role user) (\<lambda>actor.
     bindE (liftE (\<lambda>h. case fmlookup (hb_sessions h) target of
              None \<Rightarrow> Inl (Refusal NotFound ''they aren't in that room'')
            | Some s \<Rightarrow> if s_room s = Some room then Inr s
                else Inl (Refusal NotFound ''they aren't in that room''))) (\<lambda>s.
     bindE (require (can_kick_from_room actor (row_role (s_row s)))) (\<lambda>_.
     bindE (modifyE (\<lambda>h. emit_to target (KickedFromRoom user room)
       (leave_room E target (h\<lparr> hb_last_joined := fmdrop target (hb_last_joined h) \<rparr>)))) (\<lambda>_.
     retE Ok))))"

definition removed_one :: "env \<Rightarrow> user_id \<Rightarrow> hub \<Rightarrow> hub" where
  "removed_one E user h =
     emit_user_list_change (UserRemoved user)
       (evict E user ''you were removed from this server''
         (h\<lparr> hb_last_joined := fmdrop user (hb_last_joined h) \<rparr>))"

definition remove_user :: "env \<Rightarrow> user_id \<Rightarrow> user_id \<Rightarrow> bool \<Rightarrow> response hm" where
  "remove_user E user target cascade =
     bindE (get_role user) (\<lambda>actor.
     let leaving = (target = user \<and> \<not> cascade) in
     bindE (if leaving \<and> actor = Admin
            then bindE (with_db internal db_admin_count) (\<lambda>n. retE (n = 1)) else retE False) (\<lambda>only.
     if only then failE (Refusal Forbidden ''you are the server's only admin, so you can't leave it'')
     else
       bindE (require (leaving \<or> can_remove actor User)) (\<lambda>_.
       bindE (if cascade then with_db internal (db_invite_tree target) else retE [target]) (\<lambda>removed.
       bindE (forE (\<lambda>u. bindE (stored_user u) (\<lambda>row. require (leaving \<or> can_remove actor (row_role row)))) removed) (\<lambda>_.
       bindE (with_db internal (db_remove_users removed)) (\<lambda>_.
       bindE (modifyE (fold (removed_one E) removed)) (\<lambda>_.
       retE Ok)))))))"

definition remove_inactive :: "env \<Rightarrow> u64 \<Rightarrow> (hub, db_error, unit) se" where
  "remove_inactive E now =
     bindE (with_db DbError (db_unseen_since (saturating_sub now INACTIVE_ACCOUNT_LIFETIME))) (\<lambda>inactive.
     if inactive = [] then retE ()
     else
       bindE (with_db DbError (db_remove_users inactive)) (\<lambda>_.
       modifyE (fold (removed_one E) inactive)))"

subsection \<open>Requests\<close>

text \<open>A request that hands out no work is done with its response.\<close>

definition done_with :: "response hm \<Rightarrow> handled hm" where
  "done_with m = bindE m (\<lambda>r. retE (Done r))"

fun dispatch_request :: "env \<Rightarrow> user_id \<Rightarrow> request \<Rightarrow> handled hm" where
  "dispatch_request E user (JoinRoom room password) = join E user (Some room) password"
| "dispatch_request E user LeaveRoom = join E user None None"
| "dispatch_request E user (CreateRoom name password) = create_room user name password"
| "dispatch_request E user (SetRoomPassword room password) = set_room_password user room password"
| "dispatch_request E user (SetProfile name avatar) = done_with (set_profile E user name avatar)"
| "dispatch_request E user (UploadAvatar bs) = done_with (set_avatar E user bs)"
| "dispatch_request E user (FetchAvatar hash) = done_with (get_avatar hash)"
| "dispatch_request E user (SetEncryptionKey key) = done_with (set_encryption_key E user key)"
| "dispatch_request E user (SetMedia media) = done_with (set_media E user media)"
| "dispatch_request E user (RenameRoom room name) = done_with (rename_room user room name)"
| "dispatch_request E user (DeleteRoom room) = done_with (delete_room E user room)"
| "dispatch_request E user CreateInvite = done_with (create_invite E user)"
| "dispatch_request E user ListUsers = done_with (list_users user)"
| "dispatch_request E user (SetRole target role) = done_with (set_role user target role)"
| "dispatch_request E user (RemoveUser target cascade) = done_with (remove_user E user target cascade)"
| "dispatch_request E user (SetWatched ids) = done_with (set_watched E user ids)"
| "dispatch_request E user (RequestKeyframe m kind) = done_with (request_keyframe E user m kind)"
| "dispatch_request E user (PublishSenderKey epoch wrapped) = done_with (publish_key user epoch wrapped)"
| "dispatch_request E user (SetServerName name) = done_with (set_server_name user name)"
| "dispatch_request E user (SetServerAvatar avatar) = done_with (set_server_avatar user avatar)"
| "dispatch_request E user (KickFromRoom target room) = done_with (kick_from_room E user target room)"

fun free_request :: "user_id \<Rightarrow> request \<Rightarrow> hub \<Rightarrow> bool \<times> hub" where
  "free_request user (PublishSenderKey epoch wrapped) h = free_key_publish user epoch h"
| "free_request user _ h = (False, h)"

fun cheap :: "request \<Rightarrow> bool" where
  "cheap (RequestKeyframe m kind) = True"
| "cheap (FetchAvatar hash) = True"
| "cheap _ = False"

definition charge_request :: "env \<Rightarrow> user_id \<Rightarrow> request \<Rightarrow> unit hm" where
  "charge_request E user request =
     bindE (\<lambda>h. let (free, h') = free_request user request h in (Inr free, h')) (\<lambda>free.
     bindE (if free then retE True
            else if cheap request
            then ask_buckets hb_cheap_requests hb_cheap_requests_update (\<lambda>b. buckets_take b user 1 (ev_now E))
            else ask_buckets hb_requests hb_requests_update (\<lambda>b. buckets_take b user 1 (ev_now E))) (\<lambda>ok.
     if \<not> ok then failE (Refusal RateLimited ''too many requests; slow down'') else retE ()))"

definition dispatch :: "env \<Rightarrow> user_id \<Rightarrow> u64 \<Rightarrow> request \<Rightarrow> handled hm" where
  "dispatch E user cid request =
     bindE (require_current user cid) (\<lambda>_.
     bindE (charge_request E user request) (\<lambda>_.
     dispatch_request E user request))"

definition handle :: "env \<Rightarrow> user_id \<Rightarrow> u64 \<Rightarrow> request \<Rightarrow> hub \<Rightarrow> handled \<times> hub" where
  "handle E user cid request h =
     (case dispatch E user cid request h of
        (Inl refusal, h') \<Rightarrow> (Done (refusal_response refusal), h')
      | (Inr handled, h') \<Rightarrow> (handled, h'))"

fun finish_done :: "env \<Rightarrow> user_id \<Rightarrow> password_done \<Rightarrow> response hm" where
  "finish_done E user (DoneJoin room hash matched) = finish_join E user room hash matched"
| "finish_done E user (DoneCreateRoom name hash) =
     (case hash of
        None \<Rightarrow> failE internal
      | Some hash \<Rightarrow> bindE (room_to_create user name) (\<lambda>name. add_room name (Some hash)))"
| "finish_done E user (DoneSetRoomPassword room hash) =
     (case hash of
        None \<Rightarrow> failE internal
      | Some hash \<Rightarrow> bindE (may_manage_room user room) (\<lambda>_. store_room_password room (Some hash)))"

definition finish :: "env \<Rightarrow> user_id \<Rightarrow> u64 \<Rightarrow> password_done \<Rightarrow> response hm" where
  "finish E user cid done_work =
     bindE (require_current user cid) (\<lambda>_. finish_done E user done_work)"

definition resume :: "env \<Rightarrow> user_id \<Rightarrow> u64 \<Rightarrow> password_done \<Rightarrow> hub \<Rightarrow> response \<times> hub" where
  "resume E user cid done_work h =
     (case finish E user cid done_work h of
        (Inl refusal, h') \<Rightarrow> (refusal_response refusal, h')
      | (Inr response, h') \<Rightarrow> (response, h'))"

subsection \<open>Starting up\<close>

definition entry_of_row :: "room_row \<Rightarrow> room_entry" where
  "entry_of_row row = \<lparr> e_name = rr_name row, e_epoch = rr_epoch row,
     e_password_hash = rr_password_hash row, e_members = {||} \<rparr>"

definition fresh_hub :: "database \<Rightarrow> fingerprint \<Rightarrow> (room_id, room_entry) fmap \<Rightarrow> hub" where
  "fresh_hub d fp rs =
     \<lparr> hb_db = d, hb_fingerprint = fp, hb_table = fmempty, hb_keyframes = fmempty, hb_sessions = fmempty,
       hb_rooms = rs, hb_next_conn = 0,
       hb_requests = buckets_new REQUEST_BURST REQUESTS_PER_SECOND,
       hb_cheap_requests = buckets_new CHEAP_REQUEST_BURST CHEAP_REQUESTS_PER_SECOND,
       hb_uploads = buckets_new UPLOAD_BURST_BYTES UPLOAD_BYTES_PER_SECOND,
       hb_password_tries = buckets_new PASSWORD_BURST PASSWORDS_PER_SECOND,
       hb_guesses = guesses_default,
       hb_room_changes = buckets_new ROOM_CHANGE_BURST ROOM_CHANGES_PER_SECOND,
       hb_rejoins = buckets_new REJOIN_BURST REJOINS_PER_SECOND,
       hb_encryption_key_changes = buckets_new ENCRYPTION_KEY_CHANGE_BURST ENCRYPTION_KEY_CHANGES_PER_SECOND,
       hb_share_changes = buckets_new SHARE_CHANGE_BURST SHARE_CHANGES_PER_SECOND,
       hb_last_joined = fmempty, hb_audiences = fmempty, hb_conns = fmempty \<rparr>"

definition hub_new :: "env \<Rightarrow> fingerprint \<Rightarrow> hub db" where
  "hub_new E fp =
     bindE db_rooms (\<lambda>rows.
     bindE (delete_unused_blobs (ev_unix E)) (\<lambda>_.
     (\<lambda>d. (Inr (fresh_hub d fp (fmap_of_list (map (\<lambda>row. (rr_id row, entry_of_row row)) rows))), d))))"

end
