(* ===== verification/Hub_Frame.thy ===== *)
theory Hub_Frame
  imports Hub_Requests
begin

text \<open>
  What the parts of the hub leave alone. Sending messages changes only the queues of
  connections; telling members about audiences changes besides only a counter of theirs. The
  relation \<open>hub_same\<close> says that two states agree in everything rooms, routes and epochs depend on.
\<close>

subsection \<open>Output changes only queues\<close>

definition quiet :: "(hub \<Rightarrow> hub) \<Rightarrow> bool" where
  "quiet f \<longleftrightarrow> (\<forall>h. \<exists>c. f h = h\<lparr> hb_conns := c \<rparr>)"

named_theorems quiet_intros

lemma quietI: "(\<And>h. \<exists>c. f h = h\<lparr> hb_conns := c \<rparr>) \<Longrightarrow> quiet f"
  by (simp add: quiet_def)

lemma quiet_id [quiet_intros]: "quiet (\<lambda>h. h)"
proof (rule quietI)
  fix h :: hub
  have "h = h\<lparr> hb_conns := hb_conns h \<rparr>" by simp
  then show "\<exists>c. h = h\<lparr> hb_conns := c \<rparr>" by blast
qed

lemma quiet_comp: "quiet f \<Longrightarrow> quiet g \<Longrightarrow> quiet (\<lambda>h. f (g h))"
  unfolding quiet_def
proof (intro allI)
  fix h
  assume f: "\<forall>h. \<exists>c. f h = h\<lparr> hb_conns := c \<rparr>" and g: "\<forall>h. \<exists>c. g h = h\<lparr> hb_conns := c \<rparr>"
  obtain c where "g h = h\<lparr> hb_conns := c \<rparr>" using g by blast
  moreover obtain d where "f (h\<lparr> hb_conns := c \<rparr>) = h\<lparr> hb_conns := c, hb_conns := d \<rparr>" using f by metis
  ultimately show "\<exists>c. f (g h) = h\<lparr> hb_conns := c \<rparr>" by auto
qed

lemma quiet_fold [quiet_intros]: "(\<And>x. quiet (f x)) \<Longrightarrow> quiet (fold f xs)"
proof (induction xs)
  case Nil
  then show ?case using quiet_id by (simp add: id_def)
next
  case (Cons x xs)
  then have "quiet (\<lambda>h. fold f xs (f x h))" using quiet_comp [of "fold f xs" "f x"] by blast
  then show ?case by (simp add: comp_def)
qed

lemma quiet_fields:
  assumes "quiet f"
  shows "hb_sessions (f h) = hb_sessions h" "hb_rooms (f h) = hb_rooms h" "hb_table (f h) = hb_table h"
    "hb_audiences (f h) = hb_audiences h" "hb_db (f h) = hb_db h" "hb_next_conn (f h) = hb_next_conn h"
    "hb_last_joined (f h) = hb_last_joined h" "hb_keyframes (f h) = hb_keyframes h"
    "hb_guesses (f h) = hb_guesses h" "hb_fingerprint (f h) = hb_fingerprint h"
proof -
  obtain c where "f h = h\<lparr> hb_conns := c \<rparr>" using assms unfolding quiet_def by blast
  then show "hb_sessions (f h) = hb_sessions h" "hb_rooms (f h) = hb_rooms h" "hb_table (f h) = hb_table h"
    "hb_audiences (f h) = hb_audiences h" "hb_db (f h) = hb_db h" "hb_next_conn (f h) = hb_next_conn h"
    "hb_last_joined (f h) = hb_last_joined h" "hb_keyframes (f h) = hb_keyframes h"
    "hb_guesses (f h) = hb_guesses h" "hb_fingerprint (f h) = hb_fingerprint h"
    by simp_all
qed

lemma quiet_send [quiet_intros]: "quiet (send s ev)"
  using quiet_id unfolding quiet_def send_def by (auto split: option.splits)

lemma quiet_kick [quiet_intros]: "quiet (kick k reason code)"
  using quiet_id unfolding quiet_def kick_def by (auto split: option.splits)

lemma quiet_emit_to [quiet_intros]: "quiet (emit_to user ev)"
  using quiet_id quiet_send unfolding quiet_def emit_to_def by (auto split: option.splits)

lemma quiet_emit_each [quiet_intros]: "quiet (emit_each users ev)"
  unfolding emit_each_def by (intro quiet_intros)

lemma quiet_emit_user_list_change [quiet_intros]: "quiet (emit_user_list_change ev)"
  unfolding quiet_def emit_user_list_change_def using quiet_emit_each by (auto simp: quiet_def)

lemma quiet_emit_all [quiet_intros]: "quiet (emit_all ev)"
  unfolding quiet_def emit_all_def using quiet_emit_each by (auto simp: quiet_def)

lemma quiet_emit_room [quiet_intros]: "quiet (emit_room room ev except)"
  unfolding quiet_def emit_room_def using quiet_emit_each quiet_id
  by (auto simp: quiet_def split: option.splits)

lemma quiet_announce_presence [quiet_intros]: "quiet (announce_presence user)"
  unfolding quiet_def announce_presence_def using quiet_emit_all quiet_id
  by (auto simp: quiet_def split: option.splits)

lemma quiet_broadcast_peers [quiet_intros]: "quiet (broadcast_peers room except)"
  unfolding quiet_def broadcast_peers_def using quiet_emit_room quiet_id
  by (auto simp: quiet_def split: option.splits)

lemma quiet_announce_move [quiet_intros]: "quiet (announce_move user old new)"
proof -
  have one: "quiet (\<lambda>h. case old of None \<Rightarrow> h | Some r \<Rightarrow> broadcast_peers r None h)"
    by (cases old) (auto intro: quiet_intros)
  have two: "quiet (\<lambda>h. case new of None \<Rightarrow> h | Some r \<Rightarrow> broadcast_peers r (Some user) h)"
    by (cases new) (auto intro: quiet_intros)
  have three: "quiet (\<lambda>h. case Option.bind (fmlookup (hb_sessions h) user) presence_of of
      Some p \<Rightarrow> emit_all (PresenceChanged p) h | None \<Rightarrow> emit_all (PresenceEnded user) h)"
    unfolding quiet_def using quiet_emit_all by (auto simp: quiet_def split: option.splits)
  from quiet_comp [OF three quiet_comp [OF two one]] show ?thesis
    by (simp add: announce_move_def [abs_def] Let_def)
qed

lemmas output_fields [simp] =
  quiet_fields [OF quiet_send] quiet_fields [OF quiet_kick] quiet_fields [OF quiet_emit_to]
  quiet_fields [OF quiet_emit_each] quiet_fields [OF quiet_emit_user_list_change]
  quiet_fields [OF quiet_emit_all] quiet_fields [OF quiet_emit_room]
  quiet_fields [OF quiet_announce_presence] quiet_fields [OF quiet_broadcast_peers]
  quiet_fields [OF quiet_announce_move]

subsection \<open>What routes depend on\<close>

definition blank_row :: "user_id \<Rightarrow> user_row" where
  "blank_row u = \<lparr> row_id = u, row_pubkey = [], row_encryption_key = None, row_name = [], row_avatar = None,
     row_role = User, row_invited_by = None, row_created_at = 0 \<rparr>"

definition blank_share :: share_config where
  "blank_share = \<lparr> sc_audio = False, sc_kbps = 0, sc_codec = Av1, sc_width = 0, sc_height = 0, sc_fps = 0 \<rparr>"

text \<open>A session reduced to what memberships, routes and audiences depend on.\<close>

definition forget :: "session \<Rightarrow> session" where
  "forget s = s\<lparr> s_row := blank_row (row_id (s_row s)),
     s_media := \<lparr> mic = False, deafened = deafened (s_media s),
                   share = map_option (\<lambda>_. blank_share) (share (s_media s)) \<rparr>,
     s_last_profile := None, s_key_publishes := None, s_audience_seq := 0 \<rparr>"

lemma forget_fields [simp]:
  "s_conn_id (forget s) = s_conn_id s" "s_handle (forget s) = s_handle s" "s_room (forget s) = s_room s"
  "s_tracks (forget s) = s_tracks s" "s_watching (forget s) = s_watching s"
  "row_id (s_row (forget s)) = row_id (s_row s)"
  "deafened (s_media (forget s)) = deafened (s_media s)"
  "share (s_media (forget s)) = None \<longleftrightarrow> share (s_media s) = None"
  by (simp_all add: forget_def blank_row_def)

lemma forget_idem [simp]: "forget (forget s) = forget s"
  by (simp add: forget_def blank_row_def option.map_comp comp_def)

lemma forget_updates [simp]:
  "forget (s\<lparr> s_audience_seq := n \<rparr>) = forget s"
  "forget (s\<lparr> s_last_profile := t \<rparr>) = forget s"
  "forget (s\<lparr> s_key_publishes := k \<rparr>) = forget s"
  "row_id row = row_id (s_row s) \<Longrightarrow> forget (s\<lparr> s_row := row \<rparr>) = forget s"
  by (simp_all add: forget_def)

lemma sees_hears_forget [simp]: "sees sh (forget s) = sees sh s" "hears sh (forget s) = hears sh s"
  by (simp_all add: sees_def hears_def)

lemma member_sessions_fmmap: "member_sessions (fmmap f ss) entry = map f (member_sessions ss entry)"
proof -
  have "List.map_filter (fmlookup (fmmap f ss)) us = map f (List.map_filter (fmlookup ss) us)" for us
    by (induction us) (auto simp: List.map_filter_simps split: option.splits)
  then show ?thesis by (simp add: member_sessions_def)
qed

lemma sender_routes_forget: "sender_routes (map forget ms) (forget s) = sender_routes ms s"
  by (simp add: sender_routes_def route_to_def filter_map comp_def Let_def split: option.splits)

lemma sender_audiences_forget: "sender_audiences (map forget ms) (forget s) = sender_audiences ms s"
proof -
  have filters: "filter (\<lambda>m. sees sh m \<or> hears sh m) (filter (\<lambda>m. row_id (s_row m) \<noteq> u) (map forget ms)) =
      map forget (filter (\<lambda>m. sees sh m \<or> hears sh m) (filter (\<lambda>m. row_id (s_row m) \<noteq> u) ms))" for sh u
    by (induction ms) auto
  show ?thesis
    unfolding sender_audiences_def Let_def forget_fields filters map_map comp_def ..
qed

lemma room_routes_forget: "room_routes (fmmap forget ss) entry = room_routes ss entry"
  by (simp add: room_routes_def member_sessions_fmmap sender_routes_forget comp_def Let_def)

lemma room_audiences_forget: "room_audiences (fmmap forget ss) entry = room_audiences ss entry"
  by (simp add: room_audiences_def member_sessions_fmmap sender_audiences_forget comp_def Let_def)

lemma all_routes_forget: "all_routes (fmmap forget ss) rs = all_routes ss rs"
  by (simp add: all_routes_def room_routes_forget)

lemma all_audiences_forget: "all_audiences (fmmap forget ss) rs = all_audiences ss rs"
proof -
  have "room_audiences (fmmap forget ss) = room_audiences ss" by (simp add: fun_eq_iff room_audiences_forget)
  then show ?thesis by (simp add: all_audiences_def)
qed

lemma fmmap_forget_upd:
  assumes "fmlookup ss u = Some s" "forget s' = forget s"
  shows "fmmap forget (fmupd u s' ss) = fmmap forget ss"
  using assms by (intro fmap_ext) auto

lemma update_session_forget:
  assumes "\<And>s. forget (f s) = forget s"
  shows "fmmap forget (hb_sessions (update_session user f h)) = fmmap forget (hb_sessions h)"
  by (auto simp: update_session_def assms intro!: fmmap_forget_upd split: option.splits)

lemma update_session_fields [simp]:
  "hb_rooms (update_session user f h) = hb_rooms h" "hb_table (update_session user f h) = hb_table h"
  "hb_audiences (update_session user f h) = hb_audiences h" "hb_db (update_session user f h) = hb_db h"
  "hb_next_conn (update_session user f h) = hb_next_conn h"
  "hb_last_joined (update_session user f h) = hb_last_joined h"
  "hb_keyframes (update_session user f h) = hb_keyframes h"
  "hb_fingerprint (update_session user f h) = hb_fingerprint h"
  by (simp_all add: update_session_def split: option.splits)

lemma update_entry_fields [simp]:
  "hb_sessions (update_entry r f h) = hb_sessions h" "hb_table (update_entry r f h) = hb_table h"
  "hb_audiences (update_entry r f h) = hb_audiences h" "hb_db (update_entry r f h) = hb_db h"
  "hb_next_conn (update_entry r f h) = hb_next_conn h"
  "hb_last_joined (update_entry r f h) = hb_last_joined h"
  "hb_fingerprint (update_entry r f h) = hb_fingerprint h"
  by (simp_all add: update_entry_def split: option.splits)

text \<open>The part of the database the hub mirrors, and the counter of media ids.\<close>

definition db_core :: "database \<Rightarrow> (u64, room_rec) fmap \<times> nat \<times> nat" where
  "db_core d = (tbl_rooms d, seq_rooms d, media_id_after (tbl_next_media_id d))"

definition hub_same :: "hub \<Rightarrow> hub \<Rightarrow> bool" where
  "hub_same h h' \<longleftrightarrow>
     fmmap forget (hb_sessions h) = fmmap forget (hb_sessions h') \<and> hb_rooms h = hb_rooms h' \<and>
     hb_table h = hb_table h' \<and> hb_audiences h = hb_audiences h' \<and> hb_next_conn h = hb_next_conn h' \<and>
     db_core (hb_db h) = db_core (hb_db h')"

lemma hub_same_refl [simp]: "hub_same h h"
  by (simp add: hub_same_def)

lemma hub_same_trans: "hub_same a b \<Longrightarrow> hub_same b c \<Longrightarrow> hub_same a c"
  by (simp add: hub_same_def)

lemma hub_same_quiet: "quiet f \<Longrightarrow> hub_same h (f h)"
  by (simp add: hub_same_def quiet_fields)

lemma hub_same_fold: "(\<And>x h. hub_same h (f x h)) \<Longrightarrow> hub_same h (fold f xs h)"
  by (induction xs arbitrary: h) (auto intro: hub_same_trans)

lemma hub_same_update_session:
  "(\<And>s. forget (f s) = forget s) \<Longrightarrow> hub_same h (update_session user f h)"
  by (simp add: hub_same_def update_session_forget)

lemma hub_same_audiences_in: "hub_same h (snd (audiences_in room user h))"
  by (simp add: audiences_in_def Let_def hub_same_update_session)

lemma hub_same_placement_of: "hub_same h (snd (placement_of user h))"
proof -
  have "hub_same h h'" if "audiences_in room user h = (a, h')" for room a h'
    using hub_same_audiences_in [of h room user] that by simp
  then show ?thesis by (auto simp: placement_of_def Let_def split: option.splits prod.splits)
qed

lemma hub_same_tell_audiences: "hub_same h (tell_audiences room user h)"
  using hub_same_audiences_in [of h room user] hub_same_quiet [OF quiet_send]
  by (auto simp: tell_audiences_def split: option.splits prod.splits intro: hub_same_trans)

lemma hub_same_tell_room: "hub_same h (tell_room room h)"
  by (simp add: tell_room_def hub_same_fold hub_same_tell_audiences)

text \<open>Rebuilding puts the table and the audiences in step with the memberships, and nothing else.\<close>

lemma rebuild_routes_result:
  "hub_same (h\<lparr> hb_table := table_of (all_routes (hb_sessions h) (hb_rooms h)),
              hb_audiences := all_audiences (hb_sessions h) (hb_rooms h) \<rparr>) (rebuild_routes h)"
  by (simp add: rebuild_routes_def Let_def hub_same_fold hub_same_tell_room)

lemma rebuild_routes_fields:
  "fmmap forget (hb_sessions (rebuild_routes h)) = fmmap forget (hb_sessions h)"
  "hb_rooms (rebuild_routes h) = hb_rooms h" "hb_next_conn (rebuild_routes h) = hb_next_conn h"
  "hb_table (rebuild_routes h) = table_of (all_routes (hb_sessions h) (hb_rooms h))"
  "hb_audiences (rebuild_routes h) = all_audiences (hb_sessions h) (hb_rooms h)"
  "db_core (hb_db (rebuild_routes h)) = db_core (hb_db h)"
  using rebuild_routes_result [of h] by (auto simp: hub_same_def)

end
