(* ===== verification/Hub_Inv.thy ===== *)
theory Hub_Inv
  imports Hub_Frame
begin

text \<open>
  The invariant of the hub and that moving users between rooms keeps it: memberships agree on
  both sides, rooms and shares stay within their limits, tracks are nobody else's, rooms mirror
  the database, and the forwarding table is the one the memberships call for.
\<close>

subsection \<open>The invariant\<close>

definition membership_ok :: "(user_id, session) fmap \<Rightarrow> (room_id, room_entry) fmap \<Rightarrow> bool" where
  "membership_ok ss rs \<longleftrightarrow>
     (\<forall>u r. (\<exists>e. fmlookup rs r = Some e \<and> u |\<in>| e_members e) \<longleftrightarrow>
            (\<exists>s. fmlookup ss u = Some s \<and> s_room s = Some r))"

definition session_ok :: "user_id \<Rightarrow> session \<Rightarrow> bool" where
  "session_ok u s \<longleftrightarrow> row_id (s_row s) = u \<and> (s_room s = None \<longleftrightarrow> s_tracks s = None) \<and>
     (s_room s = None \<longrightarrow> share (s_media s) = None)"

definition sessions_ok :: "(user_id, session) fmap \<Rightarrow> bool" where
  "sessions_ok ss \<longleftrightarrow> (\<forall>u s. fmlookup ss u = Some s \<longrightarrow> session_ok u s)"

definition tracks_at :: "(user_id, session) fmap \<Rightarrow> user_id \<Rightarrow> tracks option" where
  "tracks_at ss u = Option.bind (fmlookup ss u) s_tracks"

definition tracks_ok :: "(user_id, session) fmap \<Rightarrow> nat \<Rightarrow> bool" where
  "tracks_ok ss counter \<longleftrightarrow> counter \<le> 2 ^ 32 \<and>
     (\<forall>u t. tracks_at ss u = Some t \<longrightarrow>
        distinct (track_ids t) \<and> (\<forall>m \<in> set (track_ids t). unat m < counter)) \<and>
     (\<forall>u v t t'. u \<noteq> v \<longrightarrow> tracks_at ss u = Some t \<longrightarrow> tracks_at ss v = Some t' \<longrightarrow>
        set (track_ids t) \<inter> set (track_ids t') = {})"

definition sharers :: "(user_id, session) fmap \<Rightarrow> room_entry \<Rightarrow> user_id set" where
  "sharers ss e = {u. u |\<in>| e_members e \<and> (\<exists>s. fmlookup ss u = Some s \<and> share (s_media s) \<noteq> None)}"

definition caps_ok :: "(user_id, session) fmap \<Rightarrow> (room_id, room_entry) fmap \<Rightarrow> bool" where
  "caps_ok ss rs \<longleftrightarrow> fmsize ss \<le> MAX_SIGNED_IN \<and>
     (\<forall>r e. fmlookup rs r = Some e \<longrightarrow>
        fcard (e_members e) \<le> MAX_ROOM_MEMBERS \<and> card (sharers ss e) \<le> MAX_ROOM_SHARES)"

definition entry_view :: "room_entry \<Rightarrow> ustring \<times> epoch \<times> ustring option" where
  "entry_view e = (e_name e, e_epoch e, e_password_hash e)"

definition rec_view :: "room_rec \<Rightarrow> ustring \<times> epoch \<times> ustring option" where
  "rec_view r = (r_name r, ucast (r_epoch r), r_password_hash r)"

definition mirror_ok :: "(room_id, room_entry) fmap \<Rightarrow> (u64, room_rec) fmap \<Rightarrow> nat \<Rightarrow> bool" where
  "mirror_ok rs stored seq \<longleftrightarrow> seq < 2 ^ 63 \<and>
     (\<forall>r. map_option entry_view (fmlookup rs r) = map_option rec_view (fmlookup stored r)) \<and>
     (\<forall>r rec. fmlookup stored r = Some rec \<longrightarrow> unat r \<le> seq)"

definition conn_at :: "(user_id, session) fmap \<Rightarrow> user_id \<Rightarrow> u64 option" where
  "conn_at ss u = map_option s_conn_id (fmlookup ss u)"

definition conns_ok :: "(user_id, session) fmap \<Rightarrow> u64 \<Rightarrow> bool" where
  "conns_ok ss next_conn \<longleftrightarrow>
     (\<forall>u c. conn_at ss u = Some c \<longrightarrow> c \<le> next_conn) \<and>
     (\<forall>u v c. conn_at ss u = Some c \<longrightarrow> conn_at ss v = Some c \<longrightarrow> u = v)"

definition base_ok :: "hub \<Rightarrow> bool" where
  "base_ok h \<longleftrightarrow>
     membership_ok (hb_sessions h) (hb_rooms h) \<and> sessions_ok (hb_sessions h) \<and>
     tracks_ok (hb_sessions h) (media_id_after (tbl_next_media_id (hb_db h))) \<and>
     caps_ok (hb_sessions h) (hb_rooms h) \<and>
     mirror_ok (hb_rooms h) (tbl_rooms (hb_db h)) (seq_rooms (hb_db h)) \<and>
     conns_ok (hb_sessions h) (hb_next_conn h)"

definition routes_ok :: "hub \<Rightarrow> bool" where
  "routes_ok h \<longleftrightarrow>
     hb_table h = table_of (all_routes (hb_sessions h) (hb_rooms h)) \<and>
     hb_audiences h = all_audiences (hb_sessions h) (hb_rooms h)"

definition hub_ok :: "hub \<Rightarrow> bool" where
  "hub_ok h \<longleftrightarrow> base_ok h \<and> routes_ok h"

subsection \<open>The invariant sees only what the hub reads\<close>

lemma ex_forget: "(\<exists>s. map_option forget x = Some s \<and> P s) \<longleftrightarrow> (\<exists>s. x = Some s \<and> P (forget s))"
  by (cases x) auto

lemma all_forget: "(\<forall>s. map_option forget x = Some s \<longrightarrow> P s) \<longleftrightarrow> (\<forall>s. x = Some s \<longrightarrow> P (forget s))"
  by (cases x) auto

lemma base_parts_forget:
  "membership_ok (fmmap forget ss) rs = membership_ok ss rs"
  "sessions_ok (fmmap forget ss) = sessions_ok ss"
  "tracks_ok (fmmap forget ss) n = tracks_ok ss n"
  "sharers (fmmap forget ss) e = sharers ss e"
  "conns_ok (fmmap forget ss) c = conns_ok ss c"
proof -
  show "membership_ok (fmmap forget ss) rs = membership_ok ss rs"
    unfolding membership_ok_def fmlookup_map ex_forget by simp
  show "sessions_ok (fmmap forget ss) = sessions_ok ss"
    unfolding sessions_ok_def fmlookup_map all_forget by (simp add: session_ok_def)
  show "tracks_ok (fmmap forget ss) n = tracks_ok ss n"
  proof -
    have "tracks_at (fmmap forget ss) u = tracks_at ss u" for u
      by (cases "fmlookup ss u") (simp_all add: tracks_at_def)
    then show ?thesis by (simp add: tracks_ok_def)
  qed
  show "sharers (fmmap forget ss) e = sharers ss e"
    unfolding sharers_def fmlookup_map ex_forget by simp
  show "conns_ok (fmmap forget ss) c = conns_ok ss c"
  proof -
    have "conn_at (fmmap forget ss) u = conn_at ss u" for u
      by (cases "fmlookup ss u") (simp_all add: conn_at_def)
    then show ?thesis by (simp add: conns_ok_def)
  qed
qed

lemma fmsize_fmmap [simp]: "fmsize (fmmap f m) = fmsize m"
  by (simp add: fmsize_def)

lemma caps_ok_forget: "caps_ok (fmmap forget ss) rs = caps_ok ss rs"
  by (simp add: caps_ok_def base_parts_forget)

lemma hub_ok_same:
  assumes "hub_same h h'"
  shows "base_ok h = base_ok h'" "routes_ok h = routes_ok h'" "hub_ok h = hub_ok h'"
proof -
  have ss: "fmmap forget (hb_sessions h) = fmmap forget (hb_sessions h')" and rs: "hb_rooms h = hb_rooms h'"
    using assms by (simp_all add: hub_same_def)
  note transfer = base_parts_forget [of "hb_sessions h", symmetric] caps_ok_forget [of "hb_sessions h", symmetric]
  show base: "base_ok h = base_ok h'"
    using assms unfolding base_ok_def hub_same_def db_core_def transfer
    by (simp add: base_parts_forget caps_ok_forget)
  have "all_routes (hb_sessions h) (hb_rooms h) = all_routes (hb_sessions h') (hb_rooms h')"
      "all_audiences (hb_sessions h) (hb_rooms h) = all_audiences (hb_sessions h') (hb_rooms h')"
    using ss rs all_routes_forget all_audiences_forget by metis+
  then show "routes_ok h = routes_ok h'" using assms by (simp add: routes_ok_def hub_same_def)
  with base show "hub_ok h = hub_ok h'" by (simp add: hub_ok_def)
qed

lemma rebuild_makes_ok: "base_ok h \<Longrightarrow> hub_ok (rebuild_routes h)"
proof -
  assume base: "base_ok h"
  let ?h = "h\<lparr> hb_table := table_of (all_routes (hb_sessions h) (hb_rooms h)),
      hb_audiences := all_audiences (hb_sessions h) (hb_rooms h) \<rparr>"
  have "hub_ok ?h" using base by (simp add: hub_ok_def base_ok_def routes_ok_def)
  with hub_ok_same(3) [OF rebuild_routes_result] show ?thesis by simp
qed

subsection \<open>Moving one user\<close>

definition move :: "user_id \<Rightarrow> room_id option \<Rightarrow> room_id option \<Rightarrow> tracks option \<Rightarrow> hub \<Rightarrow> hub" where
  "move user old new t h = set_membership user new t (insert_member user new (remove_member user old h))"

definition moved :: "room_id option \<Rightarrow> tracks option \<Rightarrow> session \<Rightarrow> session" where
  "moved new t s = s\<lparr> s_room := new, s_media := (s_media s)\<lparr> share := None \<rparr>, s_watching := [], s_tracks := t \<rparr>"

definition new_members :: "user_id \<Rightarrow> room_id option \<Rightarrow> room_id option \<Rightarrow> room_id \<Rightarrow> room_entry \<Rightarrow> room_entry" where
  "new_members user old new r e = e\<lparr> e_members :=
     (if new = Some r then finsert user (e_members e)
      else if old = Some r then e_members e |-| {|user|} else e_members e) \<rparr>"

lemma update_entry_lookup:
  "fmlookup (hb_rooms (update_entry r f h)) q =
     (if q = r then map_option f (fmlookup (hb_rooms h) q) else fmlookup (hb_rooms h) q)"
  by (auto simp: update_entry_def split: option.splits)

lemma member_updates_fields [simp]:
  "hb_sessions (remove_member user r h) = hb_sessions h" "hb_sessions (insert_member user r h) = hb_sessions h"
  "hb_db (remove_member user r h) = hb_db h" "hb_db (insert_member user r h) = hb_db h"
  "hb_next_conn (remove_member user r h) = hb_next_conn h" "hb_next_conn (insert_member user r h) = hb_next_conn h"
  "hb_last_joined (remove_member user r h) = hb_last_joined h"
  "hb_last_joined (insert_member user r h) = hb_last_joined h"
  by (simp_all add: remove_member_def insert_member_def split: option.splits)

lemma set_membership_fields [simp]:
  "hb_rooms (set_membership user r t h) = hb_rooms h" "hb_db (set_membership user r t h) = hb_db h"
  "hb_next_conn (set_membership user r t h) = hb_next_conn h"
  "hb_last_joined (set_membership user r t h) = hb_last_joined h"
  by (simp_all add: set_membership_def Let_def split: option.splits)

lemma move_fields:
  "hb_db (move user old new t h) = hb_db h" "hb_next_conn (move user old new t h) = hb_next_conn h"
  "hb_last_joined (move user old new t h) = hb_last_joined h"
  by (simp_all add: move_def)

lemma move_sessions:
  "fmlookup (hb_sessions h) user = Some s \<Longrightarrow>
   hb_sessions (move user old new t h) = fmupd user (moved new t s) (hb_sessions h)"
  by (simp add: move_def set_membership_def Let_def moved_def)

lemma move_rooms:
  "old \<noteq> new \<Longrightarrow> fmlookup (hb_rooms (move user old new t h)) r =
     map_option (new_members user old new r) (fmlookup (hb_rooms h) r)"
  by (cases old; cases new; cases "fmlookup (hb_rooms h) r")
    (auto simp: move_def remove_member_def insert_member_def update_entry_lookup new_members_def)

lemma new_members_simps [simp]:
  "entry_view (new_members user old new r e) = entry_view e"
  "u |\<in>| e_members (new_members user old new r e) \<longleftrightarrow>
     (if u = user then new = Some r \<or> old \<noteq> Some r \<and> u |\<in>| e_members e else u |\<in>| e_members e)"
  by (auto simp: new_members_def entry_view_def)

lemma moved_fields [simp]:
  "s_room (moved new t s) = new" "s_tracks (moved new t s) = t" "share (s_media (moved new t s)) = None"
  "s_conn_id (moved new t s) = s_conn_id s" "s_row (moved new t s) = s_row s"
  by (simp_all add: moved_def)

lemma membership_move:
  assumes "membership_ok ss rs" "fmlookup ss user = Some s" "s_room s = old" "old \<noteq> new"
    and "\<And>r. new = Some r \<Longrightarrow> fmlookup rs r \<noteq> None"
    and "\<And>r. fmlookup rs' r = map_option (new_members user old new r) (fmlookup rs r)"
  shows "membership_ok (fmupd user (moved new t s) ss) rs'"
  unfolding membership_ok_def
proof (intro allI)
  fix u r
  have inv: "(\<exists>e. fmlookup rs r = Some e \<and> u |\<in>| e_members e) \<longleftrightarrow> (\<exists>s. fmlookup ss u = Some s \<and> s_room s = Some r)"
    using assms(1) by (simp add: membership_ok_def)
  show "(\<exists>e. fmlookup rs' r = Some e \<and> u |\<in>| e_members e) \<longleftrightarrow>
      (\<exists>sa. fmlookup (fmupd user (moved new t s) ss) u = Some sa \<and> s_room sa = Some r)"
  proof (cases "u = user")
    case True
    then show ?thesis using inv assms(2-5) by (cases "fmlookup rs r") (auto simp: assms(6))
  next
    case False
    then show ?thesis using inv by (cases "fmlookup rs r") (auto simp: assms(6))
  qed
qed

lemma sharers_move:
  assumes "membership_ok ss rs" "fmlookup ss user = Some s" "s_room s = old" "old \<noteq> new" "fmlookup rs r = Some e"
  shows "sharers (fmupd user (moved new t s) ss) (new_members user old new r e) \<subseteq> sharers ss e"
  by (auto simp: sharers_def split: if_splits)

lemma finite_sharers [simp]: "finite (sharers ss e)"
  by (rule finite_subset [of _ "fset (e_members e)"]) (auto simp: sharers_def)

lemma caps_move:
  assumes "caps_ok ss rs" "membership_ok ss rs" "fmlookup ss user = Some s" "s_room s = old" "old \<noteq> new"
    and "\<And>r. fmlookup rs' r = map_option (new_members user old new r) (fmlookup rs r)"
    and "\<And>r e. new = Some r \<Longrightarrow> fmlookup rs r = Some e \<Longrightarrow> fcard (e_members e) < MAX_ROOM_MEMBERS"
  shows "caps_ok (fmupd user (moved new t s) ss) rs'"
  unfolding caps_ok_def
proof (intro conjI allI impI)
  show "fmsize (fmupd user (moved new t s) ss) \<le> MAX_SIGNED_IN"
    using assms(1,3) by (simp add: caps_ok_def fmsize_upd)
  fix r e'
  assume "fmlookup rs' r = Some e'"
  then obtain e where e: "fmlookup rs r = Some e" "e' = new_members user old new r e"
    using assms(6) by auto
  have cap: "fcard (e_members e) \<le> MAX_ROOM_MEMBERS" "card (sharers ss e) \<le> MAX_ROOM_SHARES"
    using assms(1) e(1) by (auto simp: caps_ok_def)
  have "fcard (e_members e |-| {|user|}) \<le> fcard (e_members e)" by (intro fcard_mono) auto
  moreover have "fcard (finsert user (e_members e)) \<le> Suc (fcard (e_members e))"
    by (simp add: fcard_finsert_if)
  ultimately show "fcard (e_members e') \<le> MAX_ROOM_MEMBERS"
    using cap(1) assms(7) [of r e] e by (auto simp: new_members_def)
  have "card (sharers (fmupd user (moved new t s) ss) e') \<le> card (sharers ss e)"
    using sharers_move [OF assms(2-5) e(1)] e(2) by (intro card_mono) auto
  then show "card (sharers (fmupd user (moved new t s) ss) e') \<le> MAX_ROOM_SHARES" using cap(2) by simp
qed

definition fresh_tracks :: "(user_id, session) fmap \<Rightarrow> user_id \<Rightarrow> nat \<Rightarrow> tracks option \<Rightarrow> bool" where
  "fresh_tracks ss user counter t \<longleftrightarrow>
     (\<forall>t'. t = Some t' \<longrightarrow> distinct (track_ids t') \<and> (\<forall>m \<in> set (track_ids t'). unat m < counter) \<and>
        (\<forall>u t''. tracks_at ss u = Some t'' \<longrightarrow> u \<noteq> user \<longrightarrow> set (track_ids t') \<inter> set (track_ids t'') = {}))"

lemma tracks_move:
  assumes "tracks_ok ss n" "fresh_tracks ss user n t"
  shows "tracks_ok (fmupd user (moved new t s) ss) n"
proof -
  have at: "tracks_at (fmupd user (moved new t s) ss) u = (if u = user then t else tracks_at ss u)" for u
    by (simp add: tracks_at_def)
  show ?thesis
    using assms unfolding tracks_ok_def fresh_tracks_def at
    by (auto split: if_splits) blast+
qed

lemma mirror_views:
  assumes "mirror_ok rs stored n" "\<And>r. map_option entry_view (fmlookup rs' r) = map_option entry_view (fmlookup rs r)"
  shows "mirror_ok rs' stored n"
  using assms by (simp add: mirror_ok_def)

lemma move_base_ok:
  assumes ok: "base_ok h" and s: "fmlookup (hb_sessions h) user = Some s" "s_room s = old" "old \<noteq> new"
    and room: "\<And>r. new = Some r \<Longrightarrow> \<exists>e. fmlookup (hb_rooms h) r = Some e \<and> fcard (e_members e) < MAX_ROOM_MEMBERS"
    and t: "t = None \<longleftrightarrow> new = None" "fresh_tracks (hb_sessions h) user (media_id_after (tbl_next_media_id (hb_db h))) t"
  shows "base_ok (move user old new t h)"
  unfolding base_ok_def move_sessions [OF s(1)] move_fields
proof (intro conjI)
  note parts = ok [unfolded base_ok_def]
  note rs = move_rooms [OF s(3)]
  show "membership_ok (fmupd user (moved new t s) (hb_sessions h)) (hb_rooms (move user old new t h))"
    using parts room by (intro membership_move [OF _ s(1) s(2) s(3) _ rs]) auto
  show "sessions_ok (fmupd user (moved new t s) (hb_sessions h))"
    using parts s(1) t(1) by (auto simp: sessions_ok_def session_ok_def)
  show "tracks_ok (fmupd user (moved new t s) (hb_sessions h)) (media_id_after (tbl_next_media_id (hb_db h)))"
    using parts t(2) by (auto intro: tracks_move)
  show "caps_ok (fmupd user (moved new t s) (hb_sessions h)) (hb_rooms (move user old new t h))"
  proof (rule caps_move [OF _ _ s(1) s(2) s(3) rs])
    show "caps_ok (hb_sessions h) (hb_rooms h)" "membership_ok (hb_sessions h) (hb_rooms h)"
      using parts by simp_all
    show "fcard (e_members e) < MAX_ROOM_MEMBERS" if "new = Some r" "fmlookup (hb_rooms h) r = Some e" for r e
      using room [OF that(1)] that(2) by auto
  qed
  show "mirror_ok (hb_rooms (move user old new t h)) (tbl_rooms (hb_db h)) (seq_rooms (hb_db h))"
  proof (rule mirror_views)
    show "mirror_ok (hb_rooms h) (tbl_rooms (hb_db h)) (seq_rooms (hb_db h))" using parts by simp
    show "map_option entry_view (fmlookup (hb_rooms (move user old new t h)) r) =
        map_option entry_view (fmlookup (hb_rooms h) r)" for r
      by (cases "fmlookup (hb_rooms h) r") (simp_all add: rs)
  qed
  have "conn_at (fmupd user (moved new t s) (hb_sessions h)) u = conn_at (hb_sessions h) u" for u
    using s(1) by (auto simp: conn_at_def)
  then show "conns_ok (fmupd user (moved new t s) (hb_sessions h)) (hb_next_conn h)"
    using parts by (simp add: conns_ok_def)
qed

subsection \<open>Epochs\<close>

lemma next_epochs_result:
  "next_epochs h rooms = Inr es \<Longrightarrow>
   map fst es = rooms \<and>
   (\<forall>r ep. map_of es r = Some ep \<longrightarrow> (\<exists>e. fmlookup (hb_rooms h) r = Some e \<and> e_epoch e \<noteq> - 1 \<and> ep = e_epoch e + 1))"
proof (induction rooms arbitrary: es)
  case (Cons room rooms)
  then show ?case by (auto split: option.splits if_splits sum.splits)
qed simp

lemma apply_epochs_fields [simp]:
  "hb_sessions (apply_epochs es h) = hb_sessions h" "hb_table (apply_epochs es h) = hb_table h"
  "hb_audiences (apply_epochs es h) = hb_audiences h" "hb_db (apply_epochs es h) = hb_db h"
  "hb_next_conn (apply_epochs es h) = hb_next_conn h" "hb_last_joined (apply_epochs es h) = hb_last_joined h"
  by (simp_all add: apply_epochs_def fold_fixes split_beta)

lemma apply_epochs_lookup:
  "distinct (map fst es) \<Longrightarrow> fmlookup (hb_rooms (apply_epochs es h)) q =
     map_option (\<lambda>e. case map_of es q of None \<Rightarrow> e | Some ep \<Rightarrow> e\<lparr> e_epoch := ep \<rparr>) (fmlookup (hb_rooms h) q)"
proof (induction es arbitrary: h)
  case Nil
  then show ?case by (simp add: apply_epochs_def option.map_ident)
next
  case (Cons p es)
  obtain room ep where p: "p = (room, ep)" by (cases p)
  have rest: "apply_epochs (p # es) h = apply_epochs es (update_entry room (\<lambda>e. e\<lparr> e_epoch := ep \<rparr>) h)"
    by (simp add: apply_epochs_def p)
  have "map_of es room = None" using Cons.prems p by (simp add: map_of_eq_None_iff)
  with Cons.prems show ?case
    unfolding rest using Cons.IH [of "update_entry room (\<lambda>e. e\<lparr> e_epoch := ep \<rparr>) h"]
    by (cases "fmlookup (hb_rooms h) q") (auto simp: update_entry_lookup p)
qed

definition store_epochs :: "(room_id \<times> epoch) list \<Rightarrow> database \<Rightarrow> database" where
  "store_epochs = fold (\<lambda>(room, epoch). update_room room (\<lambda>r. r\<lparr> r_epoch := ucast epoch \<rparr>))"

lemma db_set_epochs_eq: "db_set_epochs es = execute (store_epochs es)"
  by (simp add: db_set_epochs_def store_epochs_def)

lemma update_room_lookup:
  "fmlookup (tbl_rooms (update_room r f d)) q =
     (if q = r then map_option f (fmlookup (tbl_rooms d) q) else fmlookup (tbl_rooms d) q)"
  by (auto simp: update_room_def split: option.splits)

lemma store_epochs_fields [simp]:
  "seq_rooms (store_epochs es d) = seq_rooms d" "tbl_next_media_id (store_epochs es d) = tbl_next_media_id d"
  "tbl_users (store_epochs es d) = tbl_users d"
  by (simp_all add: store_epochs_def fold_fixes split_beta)

lemma store_epochs_lookup:
  "distinct (map fst es) \<Longrightarrow> fmlookup (tbl_rooms (store_epochs es d)) q =
     map_option (\<lambda>r. case map_of es q of None \<Rightarrow> r | Some ep \<Rightarrow> r\<lparr> r_epoch := ucast ep \<rparr>) (fmlookup (tbl_rooms d) q)"
proof (induction es arbitrary: d)
  case Nil
  then show ?case by (simp add: store_epochs_def option.map_ident)
next
  case (Cons p es)
  obtain room ep where p: "p = (room, ep)" by (cases p)
  have rest: "store_epochs (p # es) d = store_epochs es (update_room room (\<lambda>r. r\<lparr> r_epoch := ucast ep \<rparr>) d)"
    by (simp add: store_epochs_def p)
  have "map_of es room = None" using Cons.prems p by (simp add: map_of_eq_None_iff)
  with Cons.prems show ?case
    unfolding rest using Cons.IH [of "update_room room (\<lambda>r. r\<lparr> r_epoch := ucast ep \<rparr>) d"]
    by (cases "fmlookup (tbl_rooms d) q") (auto simp: update_room_lookup p)
qed

lemma with_db_state: "with_db err m h = (r, h') \<Longrightarrow> h' = h\<lparr> hb_db := snd (m (hb_db h)) \<rparr>"
  by (auto simp: with_db_def split: prod.splits sum.splits)

lemma with_db_execute:
  assumes "with_db err (execute f) h = (r, h')"
  obtains fs where "r = Inl err" "h' = h\<lparr> hb_db := (hb_db h)\<lparr> db_faults := fs \<rparr> \<rparr>"
  | fs where "r = Inr ()" "h' = h\<lparr> hb_db := f ((hb_db h)\<lparr> db_faults := fs \<rparr>) \<rparr>"
  using assms by (cases rule: execute_cases [of f "hb_db h"]) (auto simp: with_db_def)

lemma db_core_faults [simp]: "db_core (d\<lparr> db_faults := fs \<rparr>) = db_core d"
  by (simp add: db_core_def)

lemma hub_same_db: "db_core d = db_core (hb_db h) \<Longrightarrow> hub_same h (h\<lparr> hb_db := d \<rparr>)"
  by (simp add: hub_same_def)

text \<open>
  Moving rooms to their next epochs: on failure nothing the hub reads changed; on success exactly
  those rooms are one epoch further, in the hub and in the database.
\<close>

lemma bump_epochs_cases:
  assumes "bump_epochs rooms h = (r, h')" "distinct rooms"
  obtains (failed) e fs where "r = Inl e" "h' = h\<lparr> hb_db := (hb_db h)\<lparr> db_faults := fs \<rparr> \<rparr>"
  | (bumped) es fs where "r = Inr ()" "h' = apply_epochs es (h\<lparr> hb_db := store_epochs es ((hb_db h)\<lparr> db_faults := fs \<rparr>) \<rparr>)"
      "map fst es = rooms" "\<And>q ep. map_of es q = Some ep \<Longrightarrow>
         \<exists>e. fmlookup (hb_rooms h) q = Some e \<and> e_epoch e \<noteq> - 1 \<and> ep = e_epoch e + 1"
proof (cases "next_epochs h rooms")
  case (Inl e)
  then have "r = Inl e" "h' = h\<lparr> hb_db := (hb_db h)\<lparr> db_faults := db_faults (hb_db h) \<rparr> \<rparr>"
    using assms(1) by (simp_all add: bump_epochs_def bindE_def)
  then show ?thesis by (rule failed)
next
  case (Inr es)
  obtain r1 h1 where call: "with_db internal (execute (store_epochs es)) h = (r1, h1)" by fastforce
  then have run: "(r, h') = (case r1 of Inl e \<Rightarrow> (Inl e, h1) | Inr _ \<Rightarrow> (Inr (), apply_epochs es h1))"
    using assms(1) Inr by (auto simp: bump_epochs_def bindE_def db_set_epochs_eq split: sum.splits)
  show ?thesis
  proof (rule with_db_execute [OF call])
    fix fs
    assume "r1 = Inl internal" "h1 = h\<lparr> hb_db := (hb_db h)\<lparr> db_faults := fs \<rparr> \<rparr>"
    with run show ?thesis by (intro failed) auto
  next
    fix fs
    assume "r1 = Inr ()" "h1 = h\<lparr> hb_db := store_epochs es ((hb_db h)\<lparr> db_faults := fs \<rparr>) \<rparr>"
    with run next_epochs_result [OF Inr] show ?thesis by (intro bumped) auto
  qed
qed

lemma epochs_keep_routes:
  assumes "\<And>r. \<exists>f. fmlookup rs' r = map_option f (fmlookup rs r) \<and> (\<forall>e. e_members (f e) = e_members e)"
  shows "all_routes ss rs' = all_routes ss rs" "all_audiences ss rs' = all_audiences ss rs"
    and "membership_ok ss rs' = membership_ok ss rs" "caps_ok ss rs' = caps_ok ss rs"
proof -
  have "fmlookup rs' r = None \<longleftrightarrow> fmlookup rs r = None" for r
    using assms [of r] by auto
  then have dom: "fmdom rs' = fmdom rs"
    by (intro fset_eqI) (simp add: fmlookup_dom_iff flip: not_None_eq)
  have mem: "member_sessions ss (f e) = member_sessions ss e" if "e_members (f e) = e_members e" for f e
    using that by (simp add: member_sessions_def members_list_def)
  have routes: "room_routes ss (the (fmlookup rs' r)) = room_routes ss (the (fmlookup rs r))"
      and auds: "map_option (room_audiences ss) (fmlookup rs' r) = map_option (room_audiences ss) (fmlookup rs r)"
    if "r |\<in>| fmdom rs" for r
    using that assms [of r] by (auto simp: fmlookup_dom_iff room_routes_def room_audiences_def mem)
  show "all_routes ss rs' = all_routes ss rs"
    using routes by (auto simp: all_routes_def fmkeys_def dom intro!: arg_cong [where f = concat])
  show "all_audiences ss rs' = all_audiences ss rs"
    unfolding all_audiences_def
  proof (intro fmap_ext)
    fix r
    show "fmlookup (fmretain (\<lambda>_ a. a \<noteq> []) (fmmap (room_audiences ss) rs')) r =
        fmlookup (fmretain (\<lambda>_ a. a \<noteq> []) (fmmap (room_audiences ss) rs)) r"
      using auds [of r] dom by (cases "r |\<in>| fmdom rs") (auto simp: fmdom_notD)
  qed
  have ex: "(\<exists>e. fmlookup rs' r = Some e \<and> u |\<in>| e_members e) \<longleftrightarrow> (\<exists>e. fmlookup rs r = Some e \<and> u |\<in>| e_members e)"
    for u r using assms [of r] by (cases "fmlookup rs r") auto
  then show "membership_ok ss rs' = membership_ok ss rs" by (simp add: membership_ok_def)
  have "(\<forall>e. fmlookup rs' r = Some e \<longrightarrow> fcard (e_members e) \<le> MAX_ROOM_MEMBERS \<and> card (sharers ss e) \<le> MAX_ROOM_SHARES) \<longleftrightarrow>
      (\<forall>e. fmlookup rs r = Some e \<longrightarrow> fcard (e_members e) \<le> MAX_ROOM_MEMBERS \<and> card (sharers ss e) \<le> MAX_ROOM_SHARES)" for r
    using assms [of r] by (cases "fmlookup rs r") (auto simp: sharers_def)
  then show "caps_ok ss rs' = caps_ok ss rs" by (simp add: caps_ok_def)
qed

end
