(* ===== verification/Hub_Place.thy ===== *)
theory Hub_Place
  imports Hub_Inv
begin

text \<open>
  What \<open>Hub::place\<close> does, as one step on the state: it fails and at most media ids are used up,
  or the user already is where they should be, or they are moved, both rooms go to their next
  epochs, and the routes are rebuilt.
\<close>

subsection \<open>Allocating tracks\<close>

lemma tracks_ok_counter: "tracks_ok ss n \<Longrightarrow> n \<le> n' \<Longrightarrow> n' \<le> 2 ^ 32 \<Longrightarrow> tracks_ok ss n'"
  unfolding tracks_ok_def by (meson order_less_le_trans)

text \<open>The state after a call that only used up media ids.\<close>

definition spent_ids :: "hub \<Rightarrow> hub \<Rightarrow> bool" where
  "spent_ids h h' \<longleftrightarrow> (\<exists>d. h' = h\<lparr> hb_db := d \<rparr> \<and> tbl_rooms d = tbl_rooms (hb_db h) \<and>
     seq_rooms d = seq_rooms (hb_db h) \<and> tbl_users d = tbl_users (hb_db h) \<and>
     seq_users d = seq_users (hb_db h) \<and> tbl_server_profile d = tbl_server_profile (hb_db h) \<and>
     media_id_after (tbl_next_media_id (hb_db h)) \<le> media_id_after (tbl_next_media_id d) \<and>
     (media_id_after (tbl_next_media_id (hb_db h)) \<le> 2 ^ 32 \<longrightarrow> media_id_after (tbl_next_media_id d) \<le> 2 ^ 32))"

lemma spent_ids_refl [simp]: "spent_ids h h"
  unfolding spent_ids_def by (rule exI [of _ "hb_db h"]) simp

lemma spent_ids_trans: "spent_ids a b \<Longrightarrow> spent_ids b c \<Longrightarrow> spent_ids a c"
  by (auto simp: spent_ids_def)

lemma spent_ids_faults [simp]: "spent_ids h (h\<lparr> hb_db := (hb_db h)\<lparr> db_faults := fs \<rparr> \<rparr>)"
  by (auto simp: spent_ids_def)

lemma spent_ids_ok: "spent_ids h h' \<Longrightarrow> hub_ok h \<Longrightarrow> hub_ok h'"
proof -
  assume spent: "spent_ids h h'" and ok: "hub_ok h"
  then obtain d where d: "h' = h\<lparr> hb_db := d \<rparr>" "tbl_rooms d = tbl_rooms (hb_db h)" "seq_rooms d = seq_rooms (hb_db h)"
      "media_id_after (tbl_next_media_id (hb_db h)) \<le> media_id_after (tbl_next_media_id d)"
      "media_id_after (tbl_next_media_id d) \<le> 2 ^ 32"
    by (auto simp: spent_ids_def hub_ok_def base_ok_def tracks_ok_def)
  then have "tracks_ok (hb_sessions h) (media_id_after (tbl_next_media_id d))"
    using ok tracks_ok_counter [OF _ d(4) d(5)] by (simp add: hub_ok_def base_ok_def)
  then show ?thesis using d ok by (simp add: hub_ok_def base_ok_def routes_ok_def)
qed

lemma spent_ids_fields:
  assumes "spent_ids h h'"
  shows "hb_sessions h' = hb_sessions h" "hb_rooms h' = hb_rooms h" "hb_table h' = hb_table h"
    "hb_last_joined h' = hb_last_joined h" "hb_audiences h' = hb_audiences h"
    "tbl_rooms (hb_db h') = tbl_rooms (hb_db h)" "tbl_users (hb_db h') = tbl_users (hb_db h)"
  using assms by (auto simp: spent_ids_def)

lemma allocate_tracks_cases:
  assumes "allocate_tracks h = (r, h')"
  shows "spent_ids h h'"
    and "r = Inr t \<Longrightarrow> base_ok h \<Longrightarrow>
      fresh_tracks (hb_sessions h') user (media_id_after (tbl_next_media_id (hb_db h'))) (Some t)"
proof -
  let ?n = "media_id_after (tbl_next_media_id (hb_db h))"
  have "spent_ids h h' \<and> (r = Inr t \<longrightarrow> base_ok h \<longrightarrow>
      fresh_tracks (hb_sessions h') user (media_id_after (tbl_next_media_id (hb_db h'))) (Some t))"
  proof (cases rule: stmt_cases [of "allocate_tx TRACKS_PER_MEMBERSHIP" "hb_db h"])
    case (fault fs)
    then have "r = Inl internal" "h' = h\<lparr> hb_db := (hb_db h)\<lparr> db_faults := fs \<rparr> \<rparr>"
      using assms by (simp_all add: allocate_tracks_def bindE_def with_db_def db_allocate_media_ids_def)
    then show ?thesis by simp
  next
    case (run fs)
    show ?thesis
    proof (cases "?n + 3 - 1 > 2 ^ 32 - 1")
      case True
      then have "allocate_tx TRACKS_PER_MEMBERSHIP ((hb_db h)\<lparr> db_faults := fs \<rparr>) = (Inr None, (hb_db h)\<lparr> db_faults := fs \<rparr>)"
        by (simp add: allocate_tx_def TRACKS_PER_MEMBERSHIP_def Let_def)
      then have "\<exists>e. r = Inl e" "h' = h\<lparr> hb_db := (hb_db h)\<lparr> db_faults := fs \<rparr> \<rparr>"
        using assms run by (auto simp: allocate_tracks_def bindE_def with_db_def db_allocate_media_ids_def)
      then show ?thesis by auto
    next
      case False
      let ?d = "(hb_db h)\<lparr> db_faults := fs, tbl_next_media_id := Some (?n + 3) \<rparr>"
      let ?t = "\<lparr> t_mic = of_nat ?n, t_shares = [\<lparr> st_video = of_nat ?n + 1, st_audio = of_nat ?n + 2 \<rparr>] \<rparr>"
      have "allocate_tx TRACKS_PER_MEMBERSHIP ((hb_db h)\<lparr> db_faults := fs \<rparr>) = (Inr (Some (of_nat ?n)), ?d)"
        using False by (simp add: allocate_tx_def TRACKS_PER_MEMBERSHIP_def Let_def)
      then have res: "r = Inr ?t" "h' = h\<lparr> hb_db := ?d \<rparr>"
        using assms run by (simp_all add: allocate_tracks_def bindE_def with_db_def db_allocate_media_ids_def)
      then have spent: "spent_ids h h'" using False by (auto simp: spent_ids_def media_id_after_def)
      have small: "unat (of_nat (?n + i) :: u32) = ?n + i" if "i < 3" for i
        using False that by (intro unat_of_nat_small) simp
      have ids: "track_ids ?t = [of_nat (?n + 0), of_nat (?n + 1), of_nat (?n + 2)]"
        by (simp add: track_ids_def add.commute)
      have nats: "map unat (track_ids ?t) = [?n, ?n + 1, ?n + 2]"
        unfolding ids using small [of 0] small [of 1] small [of 2] by simp
      then have "distinct (map unat (track_ids ?t))" by simp
      then have dist: "distinct (track_ids ?t)" by (simp only: distinct_map)
      have range: "?n \<le> unat m \<and> unat m < ?n + 3" if "m \<in> set (track_ids ?t)" for m
      proof -
        have "unat m \<in> set (map unat (track_ids ?t))" using that by simp
        then show ?thesis unfolding nats by auto
      qed
      have "fresh_tracks (hb_sessions h) user (?n + 3) (Some ?t)" if "base_ok h"
      proof -
        have old: "unat m < ?n" if "tracks_at (hb_sessions h) u = Some t''" "m \<in> set (track_ids t'')" for u t'' m
          using \<open>base_ok h\<close> that by (auto simp: base_ok_def tracks_ok_def)
        show ?thesis using dist range old by (fastforce simp: fresh_tracks_def)
      qed
      then show ?thesis using res spent by (auto simp: media_id_after_def)
    qed
  qed
  then show "spent_ids h h'"
    and "r = Inr t \<Longrightarrow> base_ok h \<Longrightarrow>
      fresh_tracks (hb_sessions h') user (media_id_after (tbl_next_media_id (hb_db h'))) (Some t)"
    by blast+
qed

subsection \<open>Placing a user\<close>

lemma hub_same_rebuild:
  assumes "hub_same h h'"
  shows "hub_same (rebuild_routes h) (rebuild_routes h')"
proof -
  have ss: "fmmap forget (hb_sessions h) = fmmap forget (hb_sessions h')" and rs: "hb_rooms h = hb_rooms h'"
    using assms by (simp_all add: hub_same_def)
  have "all_routes (hb_sessions h) (hb_rooms h) = all_routes (hb_sessions h') (hb_rooms h')"
      "all_audiences (hb_sessions h) (hb_rooms h) = all_audiences (hb_sessions h') (hb_rooms h')"
    using ss rs all_routes_forget all_audiences_forget by metis+
  then show ?thesis using assms by (simp add: hub_same_def rebuild_routes_fields)
qed

lemma hub_same_sym: "hub_same a b \<Longrightarrow> hub_same b a"
  by (simp add: hub_same_def)

text \<open>The hub with several rooms moved to given epochs, stored too.\<close>

definition at_epochs :: "(room_id \<times> epoch) list \<Rightarrow> database \<Rightarrow> hub \<Rightarrow> hub" where
  "at_epochs es d h = apply_epochs es (h\<lparr> hb_db := store_epochs es d \<rparr>)"

definition next_of :: "hub \<Rightarrow> (room_id \<times> epoch) list \<Rightarrow> bool" where
  "next_of h es \<longleftrightarrow> distinct (map fst es) \<and>
     (\<forall>q ep. map_of es q = Some ep \<longrightarrow>
        (\<exists>e. fmlookup (hb_rooms h) q = Some e \<and> e_epoch e \<noteq> - 1 \<and> ep = e_epoch e + 1))"

lemma at_epochs_fields [simp]:
  "hb_sessions (at_epochs es d h) = hb_sessions h" "hb_table (at_epochs es d h) = hb_table h"
  "hb_audiences (at_epochs es d h) = hb_audiences h" "hb_next_conn (at_epochs es d h) = hb_next_conn h"
  "hb_last_joined (at_epochs es d h) = hb_last_joined h" "hb_db (at_epochs es d h) = store_epochs es d"
  by (simp_all add: at_epochs_def)

lemma at_epochs_rooms:
  "distinct (map fst es) \<Longrightarrow> fmlookup (hb_rooms (at_epochs es d h)) q =
     map_option (\<lambda>e. case map_of es q of None \<Rightarrow> e | Some ep \<Rightarrow> e\<lparr> e_epoch := ep \<rparr>) (fmlookup (hb_rooms h) q)"
  by (simp add: at_epochs_def apply_epochs_lookup)

lemma ucast_epoch [simp]: "(ucast (ucast (ep :: u32) :: u64) :: u32) = ep"
  by (rule bit_word_eqI) (auto simp: bit_simps)

lemma at_epochs_ok:
  assumes ok: "hub_ok (h\<lparr> hb_db := d \<rparr>)" and es: "next_of h es"
  shows "hub_ok (at_epochs es d h)"
proof -
  have dist: "distinct (map fst es)" using es by (simp add: next_of_def)
  have mem: "\<exists>f. fmlookup (hb_rooms (at_epochs es d h)) r = map_option f (fmlookup (hb_rooms h) r) \<and>
      (\<forall>e. e_members (f e) = e_members e)" for r
    unfolding at_epochs_rooms [OF dist] by (rule exI, rule conjI, rule refl) (auto split: option.splits)
  note keep = epochs_keep_routes [OF mem]
  have "mirror_ok (hb_rooms (at_epochs es d h)) (tbl_rooms (store_epochs es d)) (seq_rooms d)"
  proof -
    have mirror: "mirror_ok (hb_rooms h) (tbl_rooms d) (seq_rooms d)"
      using ok by (simp add: hub_ok_def base_ok_def)
    have "map_option entry_view (fmlookup (hb_rooms (at_epochs es d h)) r) =
        map_option rec_view (fmlookup (tbl_rooms (store_epochs es d)) r)" for r
    proof -
      have "map_option entry_view (fmlookup (hb_rooms h) r) = map_option rec_view (fmlookup (tbl_rooms d) r)"
        using mirror by (simp add: mirror_ok_def)
      then show ?thesis
        by (cases "fmlookup (hb_rooms h) r"; cases "fmlookup (tbl_rooms d) r"; cases "map_of es r")
          (auto simp: at_epochs_rooms [OF dist] store_epochs_lookup [OF dist] entry_view_def rec_view_def)
    qed
    moreover have "unat r \<le> seq_rooms d" if "fmlookup (tbl_rooms (store_epochs es d)) r = Some rec" for r rec
      using mirror that by (auto simp: mirror_ok_def store_epochs_lookup [OF dist])
    ultimately show ?thesis using mirror by (simp add: mirror_ok_def)
  qed
  then show ?thesis
    using ok by (simp add: hub_ok_def base_ok_def routes_ok_def keep)
qed

definition key_valid :: "env \<Rightarrow> session \<Rightarrow> bool" where
  "key_valid E s \<longleftrightarrow> (\<exists>key. row_encryption_key (s_row s) = Some key \<and> ev_unix E < ek_not_after key)"

lemma may_place_result:
  assumes "may_place E s target h = (r, h')"
  shows "h' = h" and "r = Inr () \<Longrightarrow> target = Some room \<Longrightarrow>
    key_valid E s \<and> (\<exists>e. fmlookup (hb_rooms h) room = Some e \<and> fcard (e_members e) < MAX_ROOM_MEMBERS)"
  using assms
  by (auto simp: may_place_def get_entry_def bindE_def key_valid_def not_le split: option.splits if_splits)

text \<open>A successful move of \<open>user\<close>, whose session was \<open>s\<close>, as one step on the state.\<close>

definition placed :: "env \<Rightarrow> user_id \<Rightarrow> session \<Rightarrow> room_id option \<Rightarrow> hub \<Rightarrow> hub \<Rightarrow> bool" where
  "placed E user s target h h' \<longleftrightarrow>
     (\<exists>t es d. fmlookup (hb_sessions h) user = Some s \<and> s_room s \<noteq> target \<and> spent_ids h (h\<lparr> hb_db := d \<rparr>) \<and>
        next_of h es \<and> map fst es = option_list (s_room s) @ option_list target \<and>
        (t = None \<longleftrightarrow> target = None) \<and>
        (\<forall>room. target = Some room \<longrightarrow> key_valid E s \<and>
           (\<exists>e. fmlookup (hb_rooms h) room = Some e \<and> fcard (e_members e) < MAX_ROOM_MEMBERS)) \<and>
        (base_ok h \<longrightarrow> fresh_tracks (hb_sessions h) user (media_id_after (tbl_next_media_id d)) t) \<and>
        hub_same (rebuild_routes (move user (s_room s) target t (at_epochs es d h))) h' \<and>
        hb_last_joined h' = hb_last_joined h)"

lemma last_joined_tell [simp]: "hb_last_joined (tell_audiences room user h) = hb_last_joined h"
  by (auto simp: tell_audiences_def audiences_in_def Let_def split: option.splits)

lemma last_joined_rebuild [simp]: "hb_last_joined (rebuild_routes h) = hb_last_joined h"
proof -
  have "hb_last_joined (tell_room room g) = hb_last_joined g" for room g
    by (simp add: tell_room_def fold_fixes)
  then show ?thesis by (simp add: rebuild_routes_def Let_def fold_fixes)
qed

lemma last_joined_placement [simp]: "hb_last_joined (snd (placement_of user h)) = hb_last_joined h"
  by (auto simp: placement_of_def audiences_in_def Let_def split: option.splits)

lemma place_result:
  assumes run: "place E user target h = (r, h')"
  obtains (failed) e where "r = Inl e" "spent_ids h h'"
  | (stayed) p s where "r = Inr p" "fmlookup (hb_sessions h) user = Some s" "s_room s = target" "hub_same h h'"
      "hb_last_joined h' = hb_last_joined h"
  | (moved_on) p s where "r = Inr p" "placed E user s target h h'"
proof (cases "fmlookup (hb_sessions h) user")
  case None
  then have "r = Inl (Refusal Internal ''no session'')" "h' = h"
    using run by (simp_all add: place_def get_session_def bindE_def)
  then show ?thesis by (intro failed) simp_all
next
  case (Some s)
  show ?thesis
  proof (cases "s_room s = target")
    case True
    then have "r = Inr (fst (placement_of user h))" "h' = snd (placement_of user h)"
      using run Some by (auto simp: place_def get_session_def bindE_def Let_def split: prod.splits)
    then show ?thesis using stayed [OF _ Some True] hub_same_placement_of by simp
  next
    case False
    note moving = this
    have step: "bindE (may_place E s target) (\<lambda>_.
         bindE (case target of None \<Rightarrow> retE None | Some _ \<Rightarrow> bindE allocate_tracks (\<lambda>t. retE (Some t))) (\<lambda>tracks.
         bindE (bump_epochs (option_list (s_room s) @ option_list target)) (\<lambda>_.
         bindE (modifyE (\<lambda>h. rebuild_routes (announce_move user (s_room s) target
                  (move user (s_room s) target tracks h)))) (\<lambda>_.
         (\<lambda>h. let (p, h') = placement_of user h in (Inr p, h')))))) h = (r, h')"
      using run Some False by (simp add: place_def get_session_def bindE_Inr [where m = "get_session user"] bindE_def
          Let_def move_def)
    from step show ?thesis
    proof (rule bindE_elim)
      fix e
      assume "may_place E s target h = (Inl e, h')" "r = Inl e"
      then show ?thesis using failed may_place_result(1) by force
    next
      fix x h1
      assume may: "may_place E s target h = (Inr x, h1)"
      then have h1: "h1 = h" using may_place_result(1) by blast
      assume "bindE (case target of None \<Rightarrow> retE None | Some _ \<Rightarrow> bindE allocate_tracks (\<lambda>t. retE (Some t))) (\<lambda>tracks.
         bindE (bump_epochs (option_list (s_room s) @ option_list target)) (\<lambda>_.
         bindE (modifyE (\<lambda>h. rebuild_routes (announce_move user (s_room s) target
                  (move user (s_room s) target tracks h)))) (\<lambda>_.
         (\<lambda>h. let (p, h') = placement_of user h in (Inr p, h'))))) h1 = (r, h')"
      then show ?thesis
      proof (rule bindE_elim)
        fix e
        assume "(case target of None \<Rightarrow> retE None | Some _ \<Rightarrow> bindE allocate_tracks (\<lambda>t. retE (Some t))) h1 = (Inl e, h')"
          and r: "r = Inl e"
        then have "spent_ids h h'"
          using h1 allocate_tracks_cases(1) by (auto simp: bindE_def split: option.splits prod.splits sum.splits)
        with r show ?thesis by (rule failed)
      next
        fix t h2
        assume alloc: "(case target of None \<Rightarrow> retE None | Some _ \<Rightarrow> bindE allocate_tracks (\<lambda>t. retE (Some t))) h1 = (Inr t, h2)"
        have spent: "spent_ids h h2" and t: "t = None \<longleftrightarrow> target = None"
          using alloc h1 allocate_tracks_cases(1) by (auto simp: bindE_def split: option.splits prod.splits sum.splits)
        have fresh: "fresh_tracks (hb_sessions h) user (media_id_after (tbl_next_media_id (hb_db h2))) t" if "base_ok h"
        proof (cases target)
          case None
          then show ?thesis using t by (simp add: fresh_tracks_def)
        next
          case (Some room)
          then obtain t' where "allocate_tracks h = (Inr t', h2)" "t = Some t'"
            using alloc h1 by (auto simp: bindE_def split: prod.splits sum.splits)
          then show ?thesis
            using allocate_tracks_cases(2) [OF _ _ that] spent_ids_fields(1) [OF spent] by metis
        qed
        assume "bindE (bump_epochs (option_list (s_room s) @ option_list target)) (\<lambda>_.
         bindE (modifyE (\<lambda>h. rebuild_routes (announce_move user (s_room s) target
                  (move user (s_room s) target t h)))) (\<lambda>_.
         (\<lambda>h. let (p, h') = placement_of user h in (Inr p, h')))) h2 = (r, h')"
        then obtain rb h3 where bump: "bump_epochs (option_list (s_room s) @ option_list target) h2 = (rb, h3)"
          and rest: "(r, h') = (case rb of Inl e \<Rightarrow> (Inl e, h3) | Inr _ \<Rightarrow>
            (let g = rebuild_routes (announce_move user (s_room s) target (move user (s_room s) target t h3));
                 q = placement_of user g in (Inr (fst q), snd q)))"
          by (auto simp: bindE_def Let_def split: prod.splits sum.splits)
        have dist: "distinct (option_list (s_room s) @ option_list target)"
          using moving by (auto simp: option_list_def split: option.splits)
        obtain d where d: "h2 = h\<lparr> hb_db := d \<rparr>" using spent by (auto simp: spent_ids_def)
        from bump dist show ?thesis
        proof (cases rule: bump_epochs_cases)
          case (failed e fs)
          then show ?thesis
            using rest spent_ids_trans [OF spent spent_ids_faults] by (intro that(1)) auto
        next
          case (bumped es fs)
          let ?d = "d\<lparr> db_faults := fs \<rparr>"
          let ?g = "rebuild_routes (announce_move user (s_room s) target (move user (s_room s) target t h3))"
          have h3: "h3 = at_epochs es ?d h" using bumped(2) d by (simp add: at_epochs_def)
          have "spent_ids h (h\<lparr> hb_db := ?d \<rparr>)"
            using spent_ids_trans [OF spent spent_ids_faults [of h2 fs]] d by simp
          moreover have "next_of h es" using bumped(3,4) dist d by (simp add: next_of_def)
          moreover have "hub_same (rebuild_routes (move user (s_room s) target t h3)) ?g"
            by (intro hub_same_rebuild hub_same_quiet quiet_intros)
          then have "hub_same (rebuild_routes (move user (s_room s) target t h3)) h'"
            using rest bumped(1) hub_same_placement_of [of ?g user]
            by (auto simp: Let_def intro: hub_same_trans)
          moreover have "hb_last_joined h' = hb_last_joined h"
            using rest bumped(1) h3 by (simp add: Let_def move_fields)
          ultimately have "placed E user s target h h'"
            unfolding placed_def
            using Some moving bumped(3) t may_place_result(2) [OF may [folded h1]] fresh d h3 may h1
            by (intro exI [of _ t] exI [of _ es] exI [of _ ?d]) auto
          then show ?thesis using rest bumped(1) by (intro moved_on) (auto simp: Let_def)
        qed
      qed
    qed
  qed
qed

end
