(* ===== verification/Hub_Keep.thy ===== *)
theory Hub_Keep
  imports Hub_Place
begin

text \<open>
  Moving users, taking sessions in and dropping them keeps the invariant of the hub.
\<close>

subsection \<open>Placing and leaving keep the invariant\<close>

lemma placed_ok:
  assumes "hub_ok h" "placed E user s target h h'"
  shows "hub_ok h'"
proof -
  obtain t es d where p: "fmlookup (hb_sessions h) user = Some s" "s_room s \<noteq> target"
      "spent_ids h (h\<lparr> hb_db := d \<rparr>)" "next_of h es" "t = None \<longleftrightarrow> target = None"
      "\<And>room. target = Some room \<Longrightarrow> \<exists>e. fmlookup (hb_rooms h) room = Some e \<and> fcard (e_members e) < MAX_ROOM_MEMBERS"
      "base_ok h \<longrightarrow> fresh_tracks (hb_sessions h) user (media_id_after (tbl_next_media_id d)) t"
      "hub_same (rebuild_routes (move user (s_room s) target t (at_epochs es d h))) h'"
    using assms(2) unfolding placed_def by blast
  have dist: "distinct (map fst es)" using p(4) by (simp add: next_of_def)
  have "hub_ok (h\<lparr> hb_db := d \<rparr>)" using spent_ids_ok [OF p(3) assms(1)] .
  then have at: "hub_ok (at_epochs es d h)" using at_epochs_ok p(4) by blast
  have room: "\<exists>e. fmlookup (hb_rooms (at_epochs es d h)) r = Some e \<and> fcard (e_members e) < MAX_ROOM_MEMBERS"
    if "target = Some r" for r
    using p(6) [OF that] by (cases "map_of es r") (auto simp: at_epochs_rooms [OF dist])
  have "base_ok (move user (s_room s) target t (at_epochs es d h))"
    using at p(1,5,7) assms(1) room
    by (intro move_base_ok [OF _ _ refl p(2)]) (auto simp: hub_ok_def)
  then show ?thesis using rebuild_makes_ok hub_ok_same(3) [OF p(8)] by blast
qed

lemma place_keeps [keeps_intros]: "keeps hub_ok (place E user target)"
proof (rule keepsI)
  fix h
  assume ok: "hub_ok h"
  obtain r h' where run: "place E user target h = (r, h')" by fastforce
  from run have "hub_ok h'"
    by (cases rule: place_result) (use ok spent_ids_ok hub_ok_same(3) placed_ok in blast)+
  then show "hub_ok (snd (place E user target h))" by (simp add: run)
qed

text \<open>What happens to the session of a user who is moved.\<close>

lemma placed_session:
  assumes "placed E user s target h h'"
  shows "\<exists>s'. fmlookup (hb_sessions h') user = Some s' \<and> s_room s' = target"
    and "fmdom (hb_sessions h') = fmdom (hb_sessions h)"
    and "hb_next_conn h' = hb_next_conn h"
proof -
  obtain t es d where p: "fmlookup (hb_sessions h) user = Some s"
      "hub_same (rebuild_routes (move user (s_room s) target t (at_epochs es d h))) h'"
    using assms unfolding placed_def by blast
  then have forgot: "fmmap forget (fmupd user (moved target t s) (hb_sessions h)) = fmmap forget (hb_sessions h')"
      and next_conn: "hb_next_conn h' = hb_next_conn h"
    by (simp_all add: hub_same_def rebuild_routes_fields move_sessions move_fields)
  then have "fmlookup (fmmap forget (hb_sessions h')) user = Some (forget (moved target t s))"
    by (metis fmlookup_map fmupd_lookup option.map(2))
  then obtain s' where s': "fmlookup (hb_sessions h') user = Some s'" "forget s' = forget (moved target t s)"
    by auto
  then have "s_room s' = target" using forget_fields(3) moved_fields(1) by metis
  with s' show "\<exists>s'. fmlookup (hb_sessions h') user = Some s' \<and> s_room s' = target" by blast
  have "fmdom (hb_sessions h') = fmdom (fmupd user (moved target t s) (hb_sessions h))"
    using arg_cong [OF forgot, of fmdom] by simp
  then show "fmdom (hb_sessions h') = fmdom (hb_sessions h)"
    using p(1) by (auto intro: fmdomI)
  show "hb_next_conn h' = hb_next_conn h" by (rule next_conn)
qed

lemma hub_same_session:
  assumes "hub_same h h'" "fmlookup (hb_sessions h) u = Some s"
  obtains s' where "fmlookup (hb_sessions h') u = Some s'" "forget s' = forget s"
proof -
  have eq: "fmmap forget (hb_sessions h) = fmmap forget (hb_sessions h')"
    using assms(1) unfolding hub_same_def by (rule conjunct1)
  have "map_option forget (fmlookup (hb_sessions h) u) = map_option forget (fmlookup (hb_sessions h') u)"
    using arg_cong [OF eq, of "\<lambda>m. fmlookup m u"] unfolding fmlookup_map .
  then show ?thesis using that assms(2) by (cases "fmlookup (hb_sessions h') u") auto
qed

lemma hub_same_dom: "hub_same h h' \<Longrightarrow> fmdom (hb_sessions h') = fmdom (hb_sessions h)"
proof -
  assume "hub_same h h'"
  then have "fmmap forget (hb_sessions h) = fmmap forget (hb_sessions h')"
    unfolding hub_same_def by (rule conjunct1)
  from arg_cong [OF this, of fmdom] show ?thesis by simp
qed

lemma place_frame:
  assumes "place E user target h = (r, h')"
  shows "fmdom (hb_sessions h') = fmdom (hb_sessions h)" "hb_next_conn h' = hb_next_conn h"
proof -
  from assms have "fmdom (hb_sessions h') = fmdom (hb_sessions h) \<and> hb_next_conn h' = hb_next_conn h"
  proof (cases rule: place_result)
    case (failed e)
    then show ?thesis by (auto simp: spent_ids_def)
  next
    case (stayed p s)
    have "hb_next_conn h = hb_next_conn h'" using stayed(4) unfolding hub_same_def by blast
    then show ?thesis using hub_same_dom [OF stayed(4)] by simp
  next
    case (moved_on p s)
    then show ?thesis using placed_session(2,3) by blast
  qed
  then show "fmdom (hb_sessions h') = fmdom (hb_sessions h)" "hb_next_conn h' = hb_next_conn h" by simp_all
qed

lemma leave_room_ok:
  assumes ok: "hub_ok h"
  shows "hub_ok (leave_room E user h) \<and>
    (\<forall>s. fmlookup (hb_sessions (leave_room E user h)) user = Some s \<longrightarrow> s_room s = None) \<and>
    fmdom (hb_sessions (leave_room E user h)) = fmdom (hb_sessions h) \<and>
    hb_next_conn (leave_room E user h) = hb_next_conn h"
proof (cases "fmlookup (hb_sessions h) user")
  case None
  then show ?thesis using ok by (simp add: leave_room_def)
next
  case (Some s)
  obtain r h1 where run: "place E user None h = (r, h1)" by fastforce
  have ok1: "hub_ok h1" using keepsD' [OF place_keeps run ok] .
  note frame = place_frame [OF run]
  show ?thesis
  proof (cases r)
    case (Inr p)
    have "s_room s' = None" if "fmlookup (hb_sessions h1) user = Some s'" for s'
      using run
    proof (cases rule: place_result)
      case (failed e)
      then show ?thesis using Inr by simp
    next
      case (stayed p s)
      obtain s'' where "fmlookup (hb_sessions h1) user = Some s''" "forget s'' = forget s"
        using hub_same_session [OF stayed(4,2)] .
      then have "forget s' = forget s" using that by simp
      then show ?thesis using forget_fields(3) [of s] forget_fields(3) [of s'] stayed(3) by simp
    next
      case (moved_on p s)
      then show ?thesis using that placed_session(1) by fastforce
    qed
    then show ?thesis using Some Inr run ok1 frame by (simp add: leave_room_def)
  next
    case (Inl e)
    with run have spent: "spent_ids h h1" by (cases rule: place_result) auto
    then have s1: "fmlookup (hb_sessions h1) user = Some s" using Some by (simp add: spent_ids_fields)
    show ?thesis
    proof (cases "s_room s")
      case None
      then show ?thesis using Some Inl run ok1 frame s1 by (simp add: leave_room_def)
    next
      case (Some room)
      let ?g = "emit_all (PresenceEnded user) (broadcast_peers room None (move user (Some room) None None h1))"
      have left: "leave_room E user h = rebuild_routes ?g"
        using \<open>fmlookup (hb_sessions h) user = Some s\<close> Inl run s1 Some
        by (simp add: leave_room_def move_def insert_member_def)
      have "base_ok (move user (Some room) None None h1)"
        using ok1 s1 Some by (intro move_base_ok [of h1 user s]) (auto simp: hub_ok_def fresh_tracks_def)
      moreover have same: "hub_same (move user (Some room) None None h1) ?g"
        by (intro hub_same_trans [OF hub_same_quiet hub_same_quiet] quiet_intros)
      ultimately have "hub_ok (rebuild_routes ?g)" using hub_ok_same(1) rebuild_makes_ok by blast
      moreover have ss: "fmmap forget (hb_sessions (rebuild_routes ?g)) =
          fmmap forget (fmupd user (moved None None s) (hb_sessions h1))"
        by (simp add: rebuild_routes_fields move_sessions [OF s1])
      moreover have "s_room s' = None" if "fmlookup (hb_sessions (rebuild_routes ?g)) user = Some s'" for s'
      proof -
        have "fmlookup (fmmap forget (hb_sessions (rebuild_routes ?g))) user = Some (forget (moved None None s))"
          unfolding ss by simp
        then have "forget s' = forget (moved None None s)" using that by simp
        then show ?thesis using forget_fields(3) moved_fields(1) by metis
      qed
      moreover have "fmdom (hb_sessions (rebuild_routes ?g)) = fmdom (hb_sessions h1)"
        using arg_cong [OF ss, of fmdom] s1 by (auto intro: fmdomI)
      ultimately show ?thesis
        unfolding left using frame by (simp add: rebuild_routes_fields move_fields)
    qed
  qed
qed

subsection \<open>Sessions that come and go\<close>

text \<open>Routes depend only on the sessions of members.\<close>

lemma routes_other_sessions:
  assumes "\<And>r e u. fmlookup rs r = Some e \<Longrightarrow> u |\<in>| e_members e \<Longrightarrow> fmlookup ss' u = fmlookup ss u"
  shows "all_routes ss' rs = all_routes ss rs" "all_audiences ss' rs = all_audiences ss rs"
proof -
  have mem: "member_sessions ss' e = member_sessions ss e" if "fmlookup rs r = Some e" for r e
  proof -
    have "\<forall>u \<in> set (members_list e). fmlookup ss' u = fmlookup ss u"
      using assms [OF that] by (simp add: members_list_def)
    then have "List.map_filter (fmlookup ss') us = List.map_filter (fmlookup ss) us"
      if "set us \<subseteq> set (members_list e)" for us
      using that by (induction us) (auto simp: List.map_filter_simps split: option.splits)
    then show ?thesis by (simp add: member_sessions_def)
  qed
  show "all_routes ss' rs = all_routes ss rs"
    using mem by (auto simp: all_routes_def room_routes_def fmlookup_dom'_iff intro!: arg_cong [where f = concat])
  show "all_audiences ss' rs = all_audiences ss rs"
    unfolding all_audiences_def
  proof (intro fmap_ext)
    fix r
    show "fmlookup (fmretain (\<lambda>_ a. a \<noteq> []) (fmmap (room_audiences ss') rs)) r =
        fmlookup (fmretain (\<lambda>_ a. a \<noteq> []) (fmmap (room_audiences ss) rs)) r"
      using mem [of r] by (cases "fmlookup rs r") (simp_all add: room_audiences_def)
  qed
qed

lemma not_a_member:
  assumes "membership_ok ss rs" "\<And>s. fmlookup ss u = Some s \<Longrightarrow> s_room s = None" "fmlookup rs r = Some e"
  shows "u |\<notin>| e_members e"
proof
  assume "u |\<in>| e_members e"
  with assms(1,3) have "\<exists>s. fmlookup ss u = Some s \<and> s_room s = Some r" by (auto simp: membership_ok_def)
  with assms(2) show False by auto
qed

lemma sharers_other: "u |\<notin>| e_members e \<Longrightarrow> (\<And>v. v \<noteq> u \<Longrightarrow> fmlookup ss' v = fmlookup ss v) \<Longrightarrow>
  sharers ss' e = sharers ss e"
  unfolding sharers_def by (rule Collect_cong) metis

text \<open>A session outside every room may be dropped, or put in place, without touching a room.\<close>

lemma outside_session_ok:
  assumes ok: "hub_ok h" and out: "\<And>s. fmlookup (hb_sessions h) user = Some s \<Longrightarrow> s_room s = None"
    and ss: "\<And>v. v \<noteq> user \<Longrightarrow> fmlookup ss v = fmlookup (hb_sessions h) v"
    and new: "\<And>s. fmlookup ss user = Some s \<Longrightarrow> session_ok user s \<and> s_room s = None"
    and size: "fmsize ss \<le> MAX_SIGNED_IN" and conns: "conns_ok ss c"
  shows "hub_ok (h\<lparr> hb_sessions := ss, hb_next_conn := c \<rparr>)"
proof -
  note parts = ok [unfolded hub_ok_def base_ok_def routes_ok_def]
  have no_member: "user |\<notin>| e_members e" if "fmlookup (hb_rooms h) r = Some e" for r e
    using not_a_member [OF _ out that] parts by blast
  have same: "fmlookup ss u = fmlookup (hb_sessions h) u" if "fmlookup (hb_rooms h) r = Some e" "u |\<in>| e_members e" for r e u
    using no_member [OF that(1)] that(2) ss by metis
  have tracks: "tracks_at ss v = (if v = user then None else tracks_at (hb_sessions h) v)" for v
    using ss new by (cases "fmlookup ss user") (auto simp: tracks_at_def session_ok_def)
  have "membership_ok ss (hb_rooms h)"
    unfolding membership_ok_def
  proof (intro allI)
    fix u r
    have "(\<exists>e. fmlookup (hb_rooms h) r = Some e \<and> u |\<in>| e_members e) \<longleftrightarrow>
        (\<exists>s. fmlookup (hb_sessions h) u = Some s \<and> s_room s = Some r)"
      using parts by (simp add: membership_ok_def)
    then show "(\<exists>e. fmlookup (hb_rooms h) r = Some e \<and> u |\<in>| e_members e) \<longleftrightarrow>
        (\<exists>s. fmlookup ss u = Some s \<and> s_room s = Some r)"
      using out new ss by (cases "u = user") auto
  qed
  moreover have "sessions_ok ss"
    unfolding sessions_ok_def
  proof (intro allI impI)
    fix u s
    assume "fmlookup ss u = Some s"
    then show "session_ok u s" using parts new ss by (cases "u = user") (auto simp: sessions_ok_def)
  qed
  moreover have "tracks_ok ss (media_id_after (tbl_next_media_id (hb_db h)))"
    using parts unfolding tracks_ok_def tracks by auto
  moreover have "caps_ok ss (hb_rooms h)"
    using parts size sharers_other [OF no_member ss] by (simp add: caps_ok_def)
  moreover have "all_routes ss (hb_rooms h) = all_routes (hb_sessions h) (hb_rooms h)"
      "all_audiences ss (hb_rooms h) = all_audiences (hb_sessions h) (hb_rooms h)"
    using routes_other_sessions [OF same] by auto
  ultimately show ?thesis using parts conns by (simp add: hub_ok_def base_ok_def routes_ok_def)
qed

lemma drop_session_ok:
  assumes ok: "hub_ok h" and out: "\<And>s. fmlookup (hb_sessions h) user = Some s \<Longrightarrow> s_room s = None"
  shows "hub_ok (h\<lparr> hb_sessions := fmdrop user (hb_sessions h) \<rparr>)"
proof -
  have "hub_ok (h\<lparr> hb_sessions := fmdrop user (hb_sessions h), hb_next_conn := hb_next_conn h \<rparr>)"
  proof (rule outside_session_ok [OF ok out])
    show "fmsize (fmdrop user (hb_sessions h)) \<le> MAX_SIGNED_IN"
      using ok by (auto simp: hub_ok_def base_ok_def caps_ok_def fmsize_drop)
    have at: "conn_at (fmdrop user (hb_sessions h)) u = (if u = user then None else conn_at (hb_sessions h) u)" for u
      by (simp add: conn_at_def)
    have "conns_ok (hb_sessions h) (hb_next_conn h)" using ok by (simp add: hub_ok_def base_ok_def)
    then show "conns_ok (fmdrop user (hb_sessions h)) (hb_next_conn h)"
      unfolding conns_ok_def at by auto
  qed auto
  then show ?thesis by simp
qed

lemma evict_ok:
  assumes ok: "hub_ok h"
  shows "hub_ok (evict E user reason h)" "fmlookup (hb_sessions (evict E user reason h)) user = None"
    and "fmdom (hb_sessions (evict E user reason h)) = fmdom (hb_sessions h) |-| {|user|}"
    and "hb_next_conn (evict E user reason h) = hb_next_conn h"
proof -
  let ?h = "leave_room E user h"
  note left = leave_room_ok [OF ok, of E user]
  have drop: "hub_ok (?h\<lparr> hb_sessions := fmdrop user (hb_sessions ?h) \<rparr>)"
    using drop_session_ok [of ?h user] left by blast
  have dom: "fmdom (hb_sessions ?h) = fmdom (hb_sessions h)" using left by blast
  show "hub_ok (evict E user reason h)"
    using drop left hub_ok_same(3) [OF hub_same_quiet [OF quiet_kick]]
    by (auto simp: evict_def Let_def split: option.splits)
  show "fmlookup (hb_sessions (evict E user reason h)) user = None"
    by (auto simp: evict_def Let_def split: option.splits)
  show "fmdom (hb_sessions (evict E user reason h)) = fmdom (hb_sessions h) |-| {|user|}"
    using dom fmdom_notI [of "hb_sessions ?h" user]
    by (auto simp: evict_def Let_def split: option.splits)
  show "hb_next_conn (evict E user reason h) = hb_next_conn h"
    using left by (auto simp: evict_def Let_def split: option.splits)
qed

lemma disconnect_ok: "hub_ok h \<Longrightarrow> hub_ok (disconnect E user cid h)"
  using leave_room_ok [of h E user] drop_session_ok [of "leave_room E user h" user]
  by (simp add: disconnect_def Let_def)

end
