(* ===== verification/Hub_Calm.thy ===== *)
theory Hub_Calm
  imports Hub_Keep
begin

text \<open>
  The requests that move nobody. Whatever they answer, the state afterwards agrees with the one
  before in everything rooms, routes and epochs depend on. The lemmas are proved once for any
  property of the state that cannot tell such states apart.
\<close>

subsection \<open>Database calls outside the rooms\<close>

definition calm :: "'a db \<Rightarrow> bool" where
  "calm m \<longleftrightarrow> (\<forall>c. keeps (\<lambda>d. db_core d = c) m)"

named_theorems calm_intros

lemma calmD: "calm m \<Longrightarrow> db_core (snd (m d)) = db_core d"
  unfolding calm_def keeps_def by blast

lemma calm_ret [calm_intros]: "calm (retE x)" "calm (failE e)" "calm (getE f)" "calm (liftE g)"
  by (simp_all add: calm_def keeps_intros)

lemma calm_bind [calm_intros]: "calm m \<Longrightarrow> (\<And>x. calm (f x)) \<Longrightarrow> calm (bindE m f)"
  by (simp add: calm_def keeps_bind)

lemma calm_stmt: "calm m \<Longrightarrow> calm (stmt m)"
proof -
  assume m: "calm m"
  have "db_core (snd (stmt m d)) = db_core d" for d
    by (cases rule: stmt_cases [of m d]) (simp_all add: calmD [OF m])
  then show ?thesis by (simp add: calm_def keeps_def)
qed

lemma calm_stmt_lift [calm_intros]: "calm (stmt (liftE f))"
  by (intro calm_stmt calm_intros)

lemma calm_query [calm_intros]: "calm (query f)"
  unfolding query_def by (intro calm_stmt calm_intros)

lemma calm_execute: "(\<And>d. db_core (f d) = db_core d) \<Longrightarrow> calm (execute f)"
  unfolding execute_def by (intro calm_stmt) (simp add: calm_def keeps_modify)

lemma update_user_core [simp]: "db_core (update_user uid f d) = db_core d"
  by (simp add: db_core_def)

lemma remove_users_core [simp]: "db_core (fold remove_one ids d) = db_core d"
  by (intro fold_fixes) (simp add: db_core_def remove_one_def)

lemma calm_users [calm_intros]:
  "calm (db_user uid)" "calm db_users" "calm db_admin_count" "calm (db_set_encryption_key uid k)"
  "calm (db_set_profile uid name avatar)" "calm (db_set_role uid role)" "calm (db_mark_seen uid now)"
  "calm (db_unseen_since now)" "calm (db_invite_tree uid)" "calm (db_remove_users ids)"
  unfolding db_user_def db_users_def db_admin_count_def db_set_encryption_key_def db_set_profile_def
    db_set_role_def db_mark_seen_def db_unseen_since_def db_invite_tree_def db_remove_users_def
  by (intro calm_intros calm_execute; simp)+

lemma calm_insert_invite [calm_intros]: "calm (db_insert_invite i)"
proof -
  have "calm (\<lambda>d. if fmlookup (tbl_invites d) (ir_code_id i) \<noteq> None then retE False d else retE True (d\<lparr> tbl_invites := f d \<rparr>))"
    for f by (simp add: calm_def keeps_def db_core_def)
  then show ?thesis unfolding db_insert_invite_def by (intro calm_stmt)
qed

lemma calm_blobs [calm_intros]:
  "calm (db_has_blob hash)" "calm (db_blob hash)" "calm db_server_profile" "calm (db_set_server_name name)"
  "calm (db_set_server_avatar avatar)" "calm (db_put_blob hash bs now)" "calm (db_purge_expired_invites now)"
  "calm (db_invites_used uid now since)"
  unfolding db_has_blob_def db_blob_def db_server_profile_def db_set_server_name_def
    db_set_server_avatar_def db_put_blob_def db_purge_expired_invites_def db_invites_used_def
  by (intro calm_intros calm_execute; simp add: db_core_def)+

lemma calm_delete_unused_blobs [calm_intros]: "calm (delete_unused_blobs now)"
  unfolding delete_unused_blobs_def db_delete_unused_blobs_def
  by (intro calm_stmt) (simp add: calm_def keeps_def db_core_def Let_def)

lemma calm_mint_attempts [calm_intros]: "calm (mint_attempts random minted_by expires i n)"
proof (induction n arbitrary: i)
  case (Suc n)
  have "calm (if b then retE x else mint_attempts random minted_by expires j n)" for b x j
    using Suc by (simp add: calm_intros)
  then show ?case by (simp add: Let_def calm_intros)
qed (simp add: calm_intros)

lemma calm_mint_invite [calm_intros]: "calm (mint_invite random minted_by now)"
  unfolding mint_invite_def by (intro calm_intros)

subsection \<open>Changes nothing else sees\<close>

lemma hub_same_outside [simp]:
  "hub_same h (h\<lparr> hb_keyframes := k \<rparr>)" "hub_same h (h\<lparr> hb_last_joined := l \<rparr>)"
  "hub_same h (h\<lparr> hb_guesses := g \<rparr>)"
  by (simp_all add: hub_same_def)

lemma hub_same_ask_keyframe: "hub_same h (ask_keyframe E owner m kind h)"
proof (cases "kf_request (hb_keyframes h) m kind (ev_now E)")
  case (Pair sent k)
  then show ?thesis
    using hub_same_trans [OF hub_same_outside(1) hub_same_quiet [OF quiet_emit_to]]
    by (cases sent) (simp_all add: ask_keyframe_def)
qed

lemma hub_same_role_changed: "hub_same h (role_changed target role h)"
proof -
  let ?h1 = "update_session target (\<lambda>s. s\<lparr> s_row := (s_row s)\<lparr> row_role := role \<rparr> \<rparr>) h"
  let ?out = "\<lambda>h. if \<not> can_list_users role then emit_to target (RoleChanged target role) h else h"
  have one: "hub_same h ?h1" by (rule hub_same_update_session) simp
  have two: "hub_same h (if b then ?h1\<lparr> hb_last_joined := l \<rparr> else ?h1)" for b l
    using hub_same_trans [OF one hub_same_outside(2)] one by simp
  have "quiet ?out" by (cases "can_list_users role") (simp_all add: quiet_intros)
  from quiet_comp [OF this quiet_comp [OF quiet_emit_user_list_change quiet_announce_presence]]
  have "quiet (\<lambda>h. ?out (emit_user_list_change (RoleChanged target role) (announce_presence target h)))" .
  from hub_same_trans [OF two hub_same_quiet [OF this]] show ?thesis
    unfolding role_changed_def Let_def .
qed

subsection \<open>What a view of the hub keeps\<close>

locale hub_view =
  fixes P :: "hub \<Rightarrow> bool"
  assumes same: "hub_same h h' \<Longrightarrow> P h = P h'"
begin

lemma keeps_same: "(\<And>h. hub_same h (f h)) \<Longrightarrow> keeps P (modifyE f)"
  using same by (auto intro: keeps_modify)

lemma keeps_quiet: "quiet f \<Longrightarrow> keeps P (modifyE f)"
  by (intro keeps_same hub_same_quiet)

lemma keeps_calm: "calm m \<Longrightarrow> keeps P (with_db err m)"
proof (rule keepsI)
  fix h
  assume "calm m" "P h"
  moreover have "snd (with_db err m h) = h\<lparr> hb_db := snd (m (hb_db h)) \<rparr>"
    using with_db_state [of err m h] by (cases "with_db err m h") simp
  ultimately show "P (snd (with_db err m h))"
    using same [OF hub_same_db [OF calmD [of m]]] by metis
qed

lemma keeps_ask: "(\<And>f h. hub_same h (upd f h)) \<Longrightarrow> keeps P (ask_buckets sel upd op)"
  using same by (auto simp: keeps_def ask_buckets_def split: prod.splits)

lemma keeps_buckets:
  "keeps P (ask_buckets hb_requests hb_requests_update op)"
  "keeps P (ask_buckets hb_cheap_requests hb_cheap_requests_update op)"
  "keeps P (ask_buckets hb_uploads hb_uploads_update op)"
  "keeps P (ask_buckets hb_password_tries hb_password_tries_update op)"
  "keeps P (ask_buckets hb_room_changes hb_room_changes_update op)"
  "keeps P (ask_buckets hb_rejoins hb_rejoins_update op)"
  "keeps P (ask_buckets hb_encryption_key_changes hb_encryption_key_changes_update op)"
  "keeps P (ask_buckets hb_share_changes hb_share_changes_update op)"
  by (intro keeps_ask; simp add: hub_same_def)+

lemma keeps_pair: "(\<And>h. hub_same h (snd (f h))) \<Longrightarrow> keeps P (\<lambda>h. let (x, h') = f h in (Inr x, h'))"
  using same by (simp add: keeps_def split_beta) blast

lemma keeps_lookups:
  "keeps P (require_current user cid)" "keeps P (get_session user)" "keeps P (get_role user)"
  "keeps P (current_room user)" "keeps P (get_entry room)" "keeps P (require b)"
  "keeps P (checked_name name)" "keeps P (check_password_length pw)"
  unfolding require_current_def get_session_def get_role_def current_room_def get_entry_def require_def
    checked_name_def check_password_length_def
  by (intro keeps_intros)+

lemma keeps_stored_user: "keeps P (stored_user user)"
  unfolding stored_user_def by (intro keeps_intros keeps_calm calm_intros)

lemma keeps_require_picture: "keeps P (require_picture avatar)"
  unfolding require_picture_def by (intro keeps_intros keeps_calm calm_intros)

lemmas view_intros = keeps_intros keeps_calm keeps_buckets keeps_lookups keeps_stored_user
  keeps_require_picture calm_intros

lemma keeps_profiles:
  "keeps P (set_profile E user name avatar)" "keeps P (announce_server_profile)"
  "keeps P (set_server_name user sname)" "keeps P (set_server_avatar user avatar)"
  "keeps P (set_avatar E user bs)" "keeps P (get_avatar hash)"
proof -
  have "hub_same h (announce_presence user (update_session user (\<lambda>s. s\<lparr> s_row := (s_row s)\<lparr> row_name := n, row_avatar := avatar \<rparr>,
          s_last_profile := Some t \<rparr>) h))" for h n t
    by (intro hub_same_trans [OF hub_same_update_session hub_same_quiet] quiet_intros) simp
  then show "keeps P (set_profile E user name avatar)"
    unfolding set_profile_def by (intro view_intros keeps_same)
  show announce: "keeps P announce_server_profile"
    unfolding announce_server_profile_def by (intro view_intros keeps_quiet quiet_intros)
  show "keeps P (set_server_name user sname)" "keeps P (set_server_avatar user avatar)"
    unfolding set_server_name_def set_server_avatar_def by (intro view_intros announce)+
  show "keeps P (set_avatar E user bs)" "keeps P (get_avatar hash)"
    unfolding set_avatar_def get_avatar_def by (intro view_intros)+
qed

lemma keeps_keys: "keeps P (publish_key user epoch wrapped)" "keeps P (charge_request E user request)"
proof -
  show "keeps P (publish_key user epoch wrapped)"
    unfolding publish_key_def by (intro view_intros keeps_quiet quiet_intros) (auto intro: quiet_intros)
  have "hub_same h (snd (free_key_publish user epoch h))" for user epoch h
    by (auto simp: free_key_publish_def Let_def hub_same_update_session split: option.splits)
  then have "hub_same h (snd (free_request user request h))" for h
    by (cases request) simp_all
  then show "keeps P (charge_request E user request)"
    unfolding charge_request_def by (intro view_intros keeps_pair)
qed

lemma keeps_keyframes: "keeps P (request_keyframe E user m kind)"
proof -
  have "keeps P (case k of Audio \<Rightarrow> failE e | Video \<Rightarrow> bindE (modifyE (ask_keyframe E owner m kind)) (\<lambda>_. retE Ok))"
    for k owner e
    by (cases k) (simp_all add: keeps_intros keeps_same hub_same_ask_keyframe)
  then show ?thesis
    unfolding request_keyframe_def by (intro view_intros)
qed

lemma keeps_managing:
  "keeps P (room_to_create user name)" "keeps P (may_manage_room user room)"
  "keeps P (create_invite E user)" "keeps P (list_users user)" "keeps P (set_role user target role)"
proof -
  show "keeps P (room_to_create user name)" "keeps P (may_manage_room user room)" "keeps P (list_users user)"
    unfolding room_to_create_def may_manage_room_def list_users_def by (intro view_intros)+
  show "keeps P (create_invite E user)" unfolding create_invite_def by (intro view_intros)
  show "keeps P (set_role user target role)"
    unfolding set_role_def by (intro view_intros keeps_same hub_same_role_changed)
qed

lemma keeps_entering:
  "keeps P (enters_another_room user target)" "keeps P (password_to_enter user room)"
  "keeps P (refuse_full user target)" "keeps P (needed_password user target)" "keeps P (check_guess E user room)"
  "keeps P (ask_rejoin returning op)"
proof -
  show "keeps P (enters_another_room user target)" "keeps P (refuse_full user target)"
      "keeps P (ask_rejoin returning op)"
    unfolding enters_another_room_def refuse_full_def ask_rejoin_def by (intro view_intros)+
  show pw: "keeps P (password_to_enter user room)" for room
    unfolding password_to_enter_def by (intro view_intros)
  show "keeps P (needed_password user target)"
    unfolding needed_password_def by (intro view_intros pw)
  have "hub_same h (snd (check_guess E user room h))" for h
    by (simp add: check_guess_def case_prod_unfold Let_def split: sum.split unit.split wait.split)
  then show "keeps P (check_guess E user room)"
    using same by (intro keepsI) blast
qed

lemmas request_intros = view_intros keeps_profiles keeps_keys keeps_keyframes keeps_managing keeps_entering

end

interpretation ok_view: hub_view hub_ok
  by unfold_locales (rule hub_ok_same(3))

interpretation same_view: hub_view "hub_same g" for g
  by unfold_locales (use hub_same_trans hub_same_sym in blast)

end
