(* ===== verification/Hub_Safe.thy ===== *)
theory Hub_Safe
  imports Hub_Calm
begin

text \<open>
  Every operation of the hub keeps its invariant, so it holds in every state the hub reaches from
  a database that was in order.
\<close>

subsection \<open>Rooms that come, change and go\<close>

text \<open>The routes of one room; \<open>[]\<close> when there is no such room.\<close>

definition routes_at :: "(user_id, session) fmap \<Rightarrow> (room_id, room_entry) fmap \<Rightarrow> room_id \<Rightarrow> (media_id \<times> route) list" where
  "routes_at ss rs r = (case fmlookup rs r of None \<Rightarrow> [] | Some e \<Rightarrow> room_routes ss e)"

definition audiences_at :: "(user_id, session) fmap \<Rightarrow> (room_id, room_entry) fmap \<Rightarrow> room_id \<Rightarrow> audience list" where
  "audiences_at ss rs r = (case fmlookup rs r of None \<Rightarrow> [] | Some e \<Rightarrow> room_audiences ss e)"

lemma filter_sorted_list_of_set:
  "finite A \<Longrightarrow> filter P (sorted_list_of_set A) = sorted_list_of_set {x \<in> A. P x}"
  by (rule sorted_distinct_set_unique) (auto intro: sorted_wrt_filter)

lemma concat_nonempty: "concat (map f (filter (\<lambda>x. f x \<noteq> []) xs)) = concat (map f xs)"
  by (induction xs) auto

lemma all_routes_at:
  "all_routes ss rs = concat (map (routes_at ss rs) (sorted_list_of_set {r. routes_at ss rs r \<noteq> []}))"
proof -
  have dom: "{r. routes_at ss rs r \<noteq> []} = {r \<in> fmdom' rs. routes_at ss rs r \<noteq> []}"
    by (auto simp: routes_at_def fmlookup_dom'_iff split: option.splits)
  have "map (\<lambda>r. room_routes ss (the (fmlookup rs r))) (fmkeys rs) = map (routes_at ss rs) (fmkeys rs)"
    by (auto simp: routes_at_def fmlookup_dom'_iff)
  then have "all_routes ss rs = concat (map (routes_at ss rs) (filter (\<lambda>r. routes_at ss rs r \<noteq> []) (fmkeys rs)))"
    unfolding all_routes_def concat_nonempty by (rule arg_cong)
  moreover have "fmkeys rs = sorted_list_of_set (fmdom' rs)"
    by (rule sorted_distinct_set_unique) simp_all
  ultimately show ?thesis unfolding dom by (simp only: filter_sorted_list_of_set finite_fmdom')
qed

lemma routes_by_room:
  assumes "\<And>r. routes_at ss rs' r = routes_at ss rs r" "\<And>r. audiences_at ss rs' r = audiences_at ss rs r"
  shows "all_routes ss rs' = all_routes ss rs" "all_audiences ss rs' = all_audiences ss rs"
proof -
  have "routes_at ss rs' = routes_at ss rs" using assms(1) by (simp add: fun_eq_iff)
  then show "all_routes ss rs' = all_routes ss rs" by (simp only: all_routes_at)
  show "all_audiences ss rs' = all_audiences ss rs"
  proof (rule fmap_ext)
    fix r
    have "fmlookup (all_audiences ss rs) r = (if audiences_at ss rs r = [] then None else Some (audiences_at ss rs r))" for rs
      by (auto simp: all_audiences_def audiences_at_def split: option.splits)
    then show "fmlookup (all_audiences ss rs') r = fmlookup (all_audiences ss rs) r"
      using assms(2) [of r] by simp
  qed
qed

lemma empty_room: "e_members e = {||} \<Longrightarrow> room_routes ss e = [] \<and> room_audiences ss e = [] \<and> sharers ss e = {}"
  by (simp add: room_routes_def room_audiences_def sharers_def member_sessions_def members_list_def
      List.map_filter_simps sorted_list_of_fset.rep_eq Let_def)

text \<open>An empty room may be put where there was none, or taken away.\<close>

lemma empty_room_change:
  assumes ok: "hub_ok h" and there: "\<And>e. fmlookup (hb_rooms h) room = Some e \<Longrightarrow> e_members e = {||}"
    and new: "\<And>e. x = Some e \<Longrightarrow> e_members e = {||}"
    and rs: "\<And>r. fmlookup rs r = (if r = room then x else fmlookup (hb_rooms h) r)"
    and mirror: "mirror_ok rs (tbl_rooms d) (seq_rooms d)" and media: "tbl_next_media_id d = tbl_next_media_id (hb_db h)"
  shows "hub_ok (h\<lparr> hb_db := d, hb_rooms := rs \<rparr>)"
proof -
  note parts = ok [unfolded hub_ok_def base_ok_def routes_ok_def]
  have routes: "routes_at (hb_sessions h) rs r = routes_at (hb_sessions h) (hb_rooms h) r"
      "audiences_at (hb_sessions h) rs r = audiences_at (hb_sessions h) (hb_rooms h) r" for r
    using empty_room [OF there] empty_room [OF new] rs [of r]
    by (auto simp: routes_at_def audiences_at_def split: option.splits)
  have "(\<exists>e. fmlookup rs r = Some e \<and> u |\<in>| e_members e) \<longleftrightarrow> (\<exists>e. fmlookup (hb_rooms h) r = Some e \<and> u |\<in>| e_members e)" for u r
    using there new rs [of r] by auto
  then have "membership_ok (hb_sessions h) rs" using parts by (simp add: membership_ok_def)
  moreover have "caps_ok (hb_sessions h) rs"
    unfolding caps_ok_def
  proof (intro conjI allI impI)
    fix r e
    assume "fmlookup rs r = Some e"
    then have "e_members e = {||} \<or> fmlookup (hb_rooms h) r = Some e"
      using new rs [of r] by (cases "r = room") auto
    then show "fcard (e_members e) \<le> MAX_ROOM_MEMBERS" "card (sharers (hb_sessions h) e) \<le> MAX_ROOM_SHARES"
      using parts empty_room [of e "hb_sessions h"] by (auto simp: caps_ok_def fcard.rep_eq)
  qed (use parts in \<open>simp add: caps_ok_def\<close>)
  ultimately show ?thesis
    using parts mirror media routes_by_room [OF routes] by (simp add: hub_ok_def base_ok_def routes_ok_def)
qed

lemma faults_ok: "hub_ok h \<Longrightarrow> hub_ok (h\<lparr> hb_db := (hb_db h)\<lparr> db_faults := fs \<rparr> \<rparr>)"
  using spent_ids_ok [OF spent_ids_faults] .

lemma quiet_ok: "quiet f \<Longrightarrow> hub_ok h \<Longrightarrow> hub_ok (f h)"
  using hub_ok_same(3) hub_same_quiet by blast

lemma add_room_keeps [keeps_intros]: "keeps hub_ok (add_room name pw)"
proof -
  have "hub_ok (snd (add_room name pw h))" if ok: "hub_ok h" for h
  proof (cases rule: stmt_cases [of "\<lambda>d. case next_rowid (seq_rooms d) of
       None \<Rightarrow> failE DbError d
     | Some seq \<Rightarrow> retE (of_nat seq :: room_id)
         (d\<lparr> seq_rooms := seq, tbl_rooms := fmupd (of_nat seq)
              \<lparr> r_name = name, r_epoch = 0, r_password_hash = pw \<rparr> (tbl_rooms d) \<rparr>)" "hb_db h"])
    case (fault fs)
    then have "snd (add_room name pw h) = h\<lparr> hb_db := (hb_db h)\<lparr> db_faults := fs \<rparr> \<rparr>"
      by (simp add: add_room_def bindE_def with_db_def db_create_room_def)
    then show ?thesis using ok faults_ok by simp
  next
    case (run fs)
    show ?thesis
    proof (cases "next_rowid (seq_rooms (hb_db h))")
      case None
      then have "snd (add_room name pw h) = h\<lparr> hb_db := (hb_db h)\<lparr> db_faults := fs \<rparr> \<rparr>"
        using run by (simp add: add_room_def bindE_def with_db_def db_create_room_def)
      then show ?thesis using ok faults_ok by simp
    next
      case (Some seq)
      let ?room = "of_nat seq :: room_id" and ?rec = "\<lparr> r_name = name, r_epoch = 0, r_password_hash = pw \<rparr>"
      let ?e = "\<lparr> e_name = name, e_epoch = 0, e_password_hash = pw, e_members = {||} \<rparr>"
      let ?d = "(hb_db h)\<lparr> db_faults := fs, seq_rooms := seq, tbl_rooms := fmupd ?room ?rec (tbl_rooms (hb_db h)) \<rparr>"
      let ?h = "h\<lparr> hb_db := ?d, hb_rooms := fmupd ?room ?e (hb_rooms h) \<rparr>"
      have mirror: "mirror_ok (hb_rooms h) (tbl_rooms (hb_db h)) (seq_rooms (hb_db h))"
        using ok by (simp add: hub_ok_def base_ok_def)
      have seq: "seq = Suc (seq_rooms (hb_db h))" "seq < 2 ^ 63" using Some by (auto simp: next_rowid_def split: if_splits)
      then have id: "unat ?room = seq" by (intro unat_of_nat_small) simp
      have "fmlookup (tbl_rooms (hb_db h)) ?room = None"
        using mirror seq id by (cases "fmlookup (tbl_rooms (hb_db h)) ?room") (auto simp: mirror_ok_def)
      moreover have "map_option entry_view (fmlookup (hb_rooms h) ?room) = map_option rec_view (fmlookup (tbl_rooms (hb_db h)) ?room)"
        using mirror by (simp add: mirror_ok_def)
      ultimately have none: "fmlookup (hb_rooms h) ?room = None" by simp
      have "unat r \<le> seq" if "fmlookup (fmupd ?room ?rec (tbl_rooms (hb_db h))) r = Some rec" for r rec
        using mirror seq id that by (cases "r = ?room") (auto simp: mirror_ok_def le_Suc_eq)
      then have "mirror_ok (fmupd ?room ?e (hb_rooms h)) (tbl_rooms ?d) (seq_rooms ?d)"
        using mirror seq by (simp add: mirror_ok_def entry_view_def rec_view_def)
      then have "hub_ok ?h"
        by (intro empty_room_change [OF ok, where room = ?room and x = "Some ?e"]) (auto simp: none)
      moreover have "snd (add_room name pw h) = emit_all (RoomCreated \<lparr> ri_id = ?room, ri_name = name, ri_locked = (pw \<noteq> None) \<rparr>) ?h"
        using run Some by (simp add: add_room_def bindE_def with_db_def db_create_room_def)
      ultimately show ?thesis using quiet_ok [OF quiet_emit_all] by simp
    qed
  qed
  then show ?thesis by (rule keepsI)
qed

text \<open>Editing what a room's entry and its row have in common.\<close>

lemma edit_room_ok:
  assumes ok: "hub_ok h" and members: "\<And>e. e_members (f e) = e_members e"
    and views: "\<And>e rec. entry_view e = rec_view rec \<Longrightarrow> entry_view (f e) = rec_view (g rec)"
  shows "hub_ok (update_entry room f (h\<lparr> hb_db := update_room room g ((hb_db h)\<lparr> db_faults := fs \<rparr>) \<rparr>))"
proof -
  let ?d = "update_room room g ((hb_db h)\<lparr> db_faults := fs \<rparr>)"
  let ?h = "update_entry room f (h\<lparr> hb_db := ?d \<rparr>)"
  note parts = ok [unfolded hub_ok_def base_ok_def routes_ok_def]
  have "\<exists>k. fmlookup (hb_rooms ?h) r = map_option k (fmlookup (hb_rooms h) r) \<and> (\<forall>e. e_members (k e) = e_members e)" for r
    using members by (cases "r = room") (auto simp: update_entry_lookup option.map_ident intro: exI [of _ "\<lambda>e. e"])
  note keep = epochs_keep_routes [OF this]
  have "mirror_ok (hb_rooms ?h) (tbl_rooms ?d) (seq_rooms ?d)"
  proof -
    have mirror: "map_option entry_view (fmlookup (hb_rooms h) r) = map_option rec_view (fmlookup (tbl_rooms (hb_db h)) r)" for r
      using parts by (simp add: mirror_ok_def)
    have "map_option entry_view (fmlookup (hb_rooms ?h) r) = map_option rec_view (fmlookup (tbl_rooms ?d) r)" for r
      using mirror [of r] views
      by (cases "fmlookup (hb_rooms h) r"; cases "fmlookup (tbl_rooms (hb_db h)) r")
        (auto simp: update_entry_lookup update_room_lookup)
    moreover have "unat r \<le> seq_rooms (hb_db h)" if "fmlookup (tbl_rooms ?d) r = Some rec" for r rec
      using parts that by (auto simp: mirror_ok_def update_room_lookup split: if_splits)
    ultimately show ?thesis using parts by (simp add: mirror_ok_def)
  qed
  then show ?thesis using parts by (simp add: hub_ok_def base_ok_def routes_ok_def keep)
qed

lemma with_db_edit:
  assumes "\<And>e. e_members (f e) = e_members e"
    and "\<And>e rec. entry_view e = rec_view rec \<Longrightarrow> entry_view (f e) = rec_view (g rec)"
    and "\<And>h. hub_same (update_entry room f h) (k h)"
  shows "keeps hub_ok (bindE (with_db internal (execute (update_room room g))) (\<lambda>_. bindE (modifyE k) (\<lambda>_. retE Ok)))"
proof (rule keepsI)
  fix h
  assume ok: "hub_ok h"
  obtain r h1 where call: "with_db internal (execute (update_room room g)) h = (r, h1)" by fastforce
  show "hub_ok (snd (bindE (with_db internal (execute (update_room room g))) (\<lambda>_. bindE (modifyE k) (\<lambda>_. retE Ok)) h))"
  proof (rule with_db_execute [OF call])
    fix fs
    assume "r = Inl internal" "h1 = h\<lparr> hb_db := (hb_db h)\<lparr> db_faults := fs \<rparr> \<rparr>"
    moreover have "hub_ok (h\<lparr> hb_db := (hb_db h)\<lparr> db_faults := fs \<rparr> \<rparr>)"
      using ok faults_ok by simp
    ultimately show ?thesis using call by (simp add: bindE_def)
  next
    fix fs
    assume "r = Inr ()" "h1 = h\<lparr> hb_db := update_room room g ((hb_db h)\<lparr> db_faults := fs \<rparr>) \<rparr>"
    moreover have "hub_ok (update_entry room f h1)"
      unfolding calculation(2) by (rule edit_room_ok [OF ok assms(1,2)])
    then have "hub_ok (k h1)" using hub_ok_same(3) [OF assms(3) [of h1]] by simp
    ultimately show ?thesis using call by (simp add: bindE_def)
  qed
qed

lemma rename_room_keeps [keeps_intros]: "keeps hub_ok (rename_room user room name)"
proof -
  have "keeps hub_ok (bindE (with_db internal (db_rename_room room n)) (\<lambda>_.
     bindE (modifyE (\<lambda>h. emit_all (RoomRenamed room n) (update_entry room (\<lambda>e. e\<lparr> e_name := n \<rparr>) h))) (\<lambda>_. retE Ok)))" (is "keeps _ (?edit n)") for n
    unfolding db_rename_room_def
    by (rule with_db_edit [where f = "\<lambda>e. e\<lparr> e_name := n \<rparr>"])
      (simp_all add: entry_view_def rec_view_def hub_same_quiet quiet_intros)
  then have edit: "keeps hub_ok (?edit n)" for n .
  show ?thesis unfolding rename_room_def
    by (rule edit | rule ok_view.keeps_lookups | rule keeps_bind)+
qed

lemma store_room_password_keeps [keeps_intros]: "keeps hub_ok (store_room_password room hash)"
proof -
  have "hub_same (update_entry room f h) (emit_all ev ((update_entry room f h)\<lparr> hb_last_joined := l \<rparr>))" for f h ev l
    by (intro hub_same_trans [OF hub_same_outside(2) hub_same_quiet] quiet_intros)
  then have edit: "keeps hub_ok (bindE (with_db internal (db_set_room_password_hash room hash)) (\<lambda>_.
     bindE (modifyE (\<lambda>h. emit_all (RoomLockChanged room (hash \<noteq> None))
       ((update_entry room (\<lambda>e. e\<lparr> e_password_hash := hash \<rparr>) h)
          \<lparr> hb_last_joined := fmretain (\<lambda>user joined. joined \<noteq> room \<or> user |\<in>| e_members entry)
              (hb_last_joined h) \<rparr>))) (\<lambda>_. retE Ok)))" for entry
    unfolding db_set_room_password_hash_def
    by (intro with_db_edit [where f = "\<lambda>e. e\<lparr> e_password_hash := hash \<rparr>"])
      (simp_all add: entry_view_def rec_view_def)
  show ?thesis unfolding store_room_password_def
    by (rule edit | rule ok_view.keeps_lookups | rule keeps_bind)+
qed

subsection \<open>Members that change\<close>

lemma place_rooms:
  assumes "place E user target h = (Inr p, h')"
  shows "map_option s_room (fmlookup (hb_sessions h') u) =
    (if u = user then Some target else map_option s_room (fmlookup (hb_sessions h) u))"
  using assms
proof (cases rule: place_result)
  case (stayed p s)
  have "fmmap forget (hb_sessions h) = fmmap forget (hb_sessions h')"
    using stayed(4) unfolding hub_same_def by (rule conjunct1)
  from arg_cong [OF this, of "\<lambda>m. map_option s_room (fmlookup m u)"]
  have "map_option s_room (fmlookup (hb_sessions h') u) = map_option s_room (fmlookup (hb_sessions h) u)"
    by (simp add: option.map_comp comp_def)
  then show ?thesis using stayed(2,3) by simp
next
  case (moved_on p s)
  then obtain t es d where p: "fmlookup (hb_sessions h) user = Some s"
      "hub_same (rebuild_routes (move user (s_room s) target t (at_epochs es d h))) h'"
    unfolding placed_def by blast
  then have "fmmap forget (fmupd user (moved target t s) (hb_sessions h)) = fmmap forget (hb_sessions h')"
    by (simp add: hub_same_def rebuild_routes_fields move_sessions)
  from arg_cong [OF this, of "\<lambda>m. map_option s_room (fmlookup m u)"]
  have "map_option s_room (fmlookup (hb_sessions h') u) =
      map_option s_room (fmlookup (fmupd user (moved target t s) (hb_sessions h)) u)"
    by (simp add: option.map_comp comp_def)
  then show ?thesis by simp
qed simp

definition none_in :: "hub \<Rightarrow> room_id \<Rightarrow> user_id set \<Rightarrow> bool" where
  "none_in h room us \<longleftrightarrow> (\<forall>u. map_option s_room (fmlookup (hb_sessions h) u) = Some (Some room) \<longrightarrow> u \<in> us)"

lemma move_out_all:
  assumes "forE (\<lambda>m. bindE (place E m None) (\<lambda>_. retE ())) ms h = (Inr x, h')" "none_in h room (set ms)" "hub_ok h"
  shows "none_in h' room {} \<and> hub_ok h'"
  using assms
proof (induction ms arbitrary: h)
  case (Cons m ms)
  obtain p h1 where first: "place E m None h = (Inr p, h1)"
      and rest: "forE (\<lambda>m. bindE (place E m None) (\<lambda>_. retE ())) ms h1 = (Inr x, h')"
    using Cons.prems(1) unfolding forE.simps by (elim bindE_success) (simp only: retE_simp prod.inject)
  have "none_in h1 room (set ms)"
    using Cons.prems(2) place_rooms [OF first] by (auto simp: none_in_def)
  moreover have "hub_ok h1" using keepsD' [OF place_keeps first Cons.prems(3)] .
  ultimately show ?case using Cons.IH rest by blast
qed simp

lemma none_in_empty:
  assumes "hub_ok h" "none_in h room {}" "fmlookup (hb_rooms h) room = Some e"
  shows "e_members e = {||}"
proof -
  have "u |\<notin>| e_members e" for u
  proof
    assume "u |\<in>| e_members e"
    with assms(1,3) obtain s where "fmlookup (hb_sessions h) u = Some s" "s_room s = Some room"
      by (auto simp: hub_ok_def base_ok_def membership_ok_def)
    with assms(2) show False by (auto simp: none_in_def)
  qed
  then show ?thesis by auto
qed

lemma drop_room_keeps:
  assumes ok: "hub_ok h" and none: "none_in h room {}" and k: "\<And>h. hub_same (h\<lparr> hb_rooms := fmdrop room (hb_rooms h) \<rparr>) (k h)"
  shows "hub_ok (snd (bindE (with_db internal (db_delete_room room)) (\<lambda>_. bindE (modifyE k) (\<lambda>_. retE Ok)) h))"
proof -
  obtain r h1 where call: "with_db internal (db_delete_room room) h = (r, h1)" by fastforce
  show ?thesis
  proof (rule with_db_execute [OF call [unfolded db_delete_room_def]])
    fix fs
    assume "r = Inl internal" "h1 = h\<lparr> hb_db := (hb_db h)\<lparr> db_faults := fs \<rparr> \<rparr>"
    then show ?thesis using call ok faults_ok by (simp add: bindE_def)
  next
    fix fs
    let ?d = "(hb_db h)\<lparr> db_faults := fs, tbl_rooms := fmdrop room (tbl_rooms (hb_db h)) \<rparr>"
    assume run: "r = Inr ()" "h1 = h\<lparr> hb_db := (hb_db h)\<lparr> db_faults := fs \<rparr>\<lparr> tbl_rooms := fmdrop room (tbl_rooms ((hb_db h)\<lparr> db_faults := fs \<rparr>)) \<rparr> \<rparr>"
    have "mirror_ok (fmdrop room (hb_rooms h)) (tbl_rooms ?d) (seq_rooms ?d)"
      using ok by (auto simp: hub_ok_def base_ok_def mirror_ok_def split: if_splits)
    then have "hub_ok (h\<lparr> hb_db := ?d, hb_rooms := fmdrop room (hb_rooms h) \<rparr>)"
      using none_in_empty [OF ok none]
      by (intro empty_room_change [OF ok, where room = room and x = None]) auto
    then have "hub_ok (h1\<lparr> hb_rooms := fmdrop room (hb_rooms h1) \<rparr>)" unfolding run(2) by simp
    then have "hub_ok (k h1)" using hub_ok_same(3) [OF k [of h1]] by simp
    then show ?thesis using run(1) call by (simp add: bindE_def)
  qed
qed

lemma delete_room_keeps [keeps_intros]: "keeps hub_ok (delete_room E user room)"
proof -
  let ?k = "\<lambda>h. emit_all (RoomDeleted room)
         (h\<lparr> hb_rooms := fmdrop room (hb_rooms h),
              hb_last_joined := fmretain (\<lambda>_ joined. joined \<noteq> room) (hb_last_joined h) \<rparr>)"
  let ?loop = "\<lambda>entry. forE (\<lambda>m. bindE (place E m None) (\<lambda>_. retE ())) (members_list entry)"
  let ?drop = "bindE (with_db internal (db_delete_room room)) (\<lambda>_. bindE (modifyE ?k) (\<lambda>_. retE Ok))"
  have k: "hub_same (h\<lparr> hb_rooms := fmdrop room (hb_rooms h) \<rparr>) (?k h)" for h
    using hub_same_trans [OF hub_same_outside(2) hub_same_quiet [OF quiet_emit_all]] .
  have loop: "hub_ok (snd (bindE (?loop entry) (\<lambda>_. ?drop) h))"
    if ok: "hub_ok h" and entry: "fmlookup (hb_rooms h) room = Some entry" for entry h
  proof -
    have none: "none_in h room (set (members_list entry))"
      unfolding none_in_def
    proof (intro allI impI)
      fix u
      assume "map_option s_room (fmlookup (hb_sessions h) u) = Some (Some room)"
      then have "\<exists>e. fmlookup (hb_rooms h) room = Some e \<and> u |\<in>| e_members e"
        using ok unfolding hub_ok_def base_ok_def membership_ok_def by auto
      then show "u \<in> set (members_list entry)" using entry by (simp add: members_list_def)
    qed
    obtain r h1 where run: "?loop entry h = (r, h1)" by fastforce
    have "keeps hub_ok (?loop entry)" by (intro keeps_intros)
    from keepsD' [OF this run ok] have ok1: "hub_ok h1" .
    show ?thesis
    proof (cases r)
      case (Inl e)
      then show ?thesis using run ok1 by (simp add: bindE_def)
    next
      case (Inr x)
      have "none_in h1 room {}" using move_out_all [OF run [unfolded Inr] none ok] by simp
      from drop_room_keeps [OF ok1 this k] show ?thesis
        unfolding bindE_Inr [where m = "?loop entry", OF run [unfolded Inr]] .
    qed
  qed
  show ?thesis
  proof (rule keepsI)
    fix h
    assume ok: "hub_ok h"
    show "hub_ok (snd (delete_room E user room h))"
    proof (cases "fmlookup (hb_rooms h) room")
      case None
      then show ?thesis using ok
        by (auto simp: delete_room_def get_role_def get_session_def require_def get_entry_def bindE_def split: option.splits)
    next
      case (Some entry)
      note l = loop [OF ok Some]
      show ?thesis
        using ok l Some
        by (auto simp: delete_room_def get_role_def get_session_def require_def get_entry_def bindE_def [of "liftE _"]
           bindE_def [of "getE _"] bindE_def [of "retE _"] bindE_def [of "failE _"] bindE_def [of "bindE _ _"] split: option.splits)
    qed
  qed
qed

end
