(* ===== verification/Hub_Reach.thy ===== *)
theory Hub_Reach
  imports Hub_Safe
begin

text \<open>
  The remaining operations keep the invariant of the hub, and with them every step of the server:
  signing in and out, requests and the work they resume, and the periodic jobs. So the invariant
  holds in every state reachable from a start on a database in order.
\<close>

subsection \<open>Sessions that change in place\<close>

lemma shares_in_sharers:
  assumes "sessions_ok (hb_sessions h)" "fmlookup (hb_rooms h) room = Some e"
  shows "shares_in h room = card (sharers (hb_sessions h) e)"
proof -
  let ?ss = "hb_sessions h"
  let ?us = "filter (\<lambda>u. \<exists>s. fmlookup ?ss u = Some s \<and> share (s_media s) \<noteq> None) (members_list e)"
  have "length (filter (\<lambda>s. share (s_media s) \<noteq> None) (List.map_filter (fmlookup ?ss) us)) =
      length (filter (\<lambda>u. \<exists>s. fmlookup ?ss u = Some s \<and> share (s_media s) \<noteq> None) us)" for us
    by (induction us) (auto simp: List.map_filter_simps split: option.splits)
  then have "shares_in h room = length ?us"
    using assms(2) by (simp add: shares_in_def member_sessions_def)
  also have "\<dots> = card (set ?us)"
    by (rule distinct_card [symmetric]) (simp add: members_list_def sorted_list_of_fset.rep_eq)
  also have "set ?us = sharers ?ss e"
    by (auto simp: sharers_def members_list_def)
  finally show ?thesis .
qed

text \<open>
  A change of one session that keeps its place, its tracks and its connection; it may start a
  share only where there is room for one more.
\<close>

lemma update_session_base:
  assumes base: "base_ok h"
    and keep: "\<And>s. row_id (s_row (f s)) = row_id (s_row s)" "\<And>s. s_room (f s) = s_room s"
      "\<And>s. s_tracks (f s) = s_tracks s" "\<And>s. s_conn_id (f s) = s_conn_id s"
    and share: "\<And>s. fmlookup (hb_sessions h) user = Some s \<Longrightarrow> share (s_media (f s)) \<noteq> None \<Longrightarrow>
      share (s_media s) \<noteq> None \<or> (\<exists>room. s_room s = Some room \<and> shares_in h room < MAX_ROOM_SHARES)"
  shows "base_ok (update_session user f h)"
proof (cases "fmlookup (hb_sessions h) user")
  case None
  then show ?thesis using base by (simp add: update_session_def)
next
  case (Some s)
  note parts = base [unfolded base_ok_def]
  let ?ss = "hb_sessions h" and ?ss' = "fmupd user (f s) (hb_sessions h)"
  have at: "tracks_at ?ss' u = tracks_at ?ss u" "conn_at ?ss' u = conn_at ?ss u"
      "map_option s_room (fmlookup ?ss' u) = map_option s_room (fmlookup ?ss u)" for u
    using Some keep by (auto simp: tracks_at_def conn_at_def)
  have "(\<exists>s. fmlookup ?ss' u = Some s \<and> s_room s = Some r) \<longleftrightarrow> (\<exists>s. fmlookup ?ss u = Some s \<and> s_room s = Some r)" for u r
    using Some keep(2) by auto
  then have "membership_ok ?ss' (hb_rooms h)" using parts by (simp only: membership_ok_def simp_thms)
  moreover have sess: "session_ok user s" using parts Some by (simp add: sessions_ok_def)
  then have "session_ok user (f s)" using keep share [OF Some]
    by (cases "share (s_media (f s))") (auto simp: session_ok_def simp del: not_None_eq)
  then have "sessions_ok ?ss'" using parts by (auto simp: sessions_ok_def)
  moreover have "tracks_ok ?ss' (media_id_after (tbl_next_media_id (hb_db h)))" "conns_ok ?ss' (hb_next_conn h)"
    using parts by (simp_all add: tracks_ok_def conns_ok_def at)
  moreover have "caps_ok ?ss' (hb_rooms h)"
    unfolding caps_ok_def
  proof (intro conjI allI impI)
    show "fmsize ?ss' \<le> MAX_SIGNED_IN"
      using parts Some by (simp add: caps_ok_def fmsize_upd)
    fix r e
    assume e: "fmlookup (hb_rooms h) r = Some e"
    show "fcard (e_members e) \<le> MAX_ROOM_MEMBERS" using parts e by (simp add: caps_ok_def)
    have cap: "card (sharers ?ss e) \<le> MAX_ROOM_SHARES" using parts e by (simp add: caps_ok_def)
    show "card (sharers ?ss' e) \<le> MAX_ROOM_SHARES"
    proof (cases "share (s_media (f s)) = None \<or> share (s_media s) \<noteq> None \<or> user |\<notin>| e_members e")
      case True
      then have "sharers ?ss' e \<subseteq> sharers ?ss e" using Some by (auto simp: sharers_def split: if_splits)
      then show ?thesis using cap card_mono [OF finite_sharers] order_trans by blast
    next
      case False
      then have "s_room s = Some r"
        using conjunct1 [OF parts, unfolded membership_ok_def, rule_format, of r user] Some e by auto
      then have "card (sharers ?ss e) < MAX_ROOM_SHARES"
        using share [OF Some] False shares_in_sharers [OF conjunct1 [OF conjunct2 [OF parts]] e] by auto
      moreover have "sharers ?ss' e \<subseteq> insert user (sharers ?ss e)" by (auto simp: sharers_def split: if_splits)
      then have "card (sharers ?ss' e) \<le> Suc (card (sharers ?ss e))"
        using card_mono [OF finite.insertI [OF finite_sharers], of "sharers ?ss' e" user ?ss e]
          card_insert_if [OF finite_sharers, of user ?ss e] by (simp split: if_splits)
      ultimately show ?thesis by simp
    qed
  qed
  ultimately show ?thesis using parts Some by (simp add: base_ok_def update_session_def)
qed

lemma set_watched_keeps [keeps_intros]: "keeps hub_ok (set_watched E user ids)"
proof -
  have "hub_ok (rebuild_routes (update_session user (\<lambda>s. s\<lparr> s_watching := ids \<rparr>) h))" if "hub_ok h" for h
    using that by (intro rebuild_makes_ok update_session_base) (auto simp: hub_ok_def)
  moreover have "hub_same h (fold (\<lambda>m h. case share_track h m of
       Some (owner, Video) \<Rightarrow> ask_keyframe E owner m Idr h | _ \<Rightarrow> h) started h)" for started h
    by (rule hub_same_fold) (auto simp: hub_same_ask_keyframe split: option.splits track_kind.splits)
  ultimately show ?thesis
    unfolding set_watched_def by (intro ok_view.request_intros keeps_modify ok_view.keeps_same)
qed

lemma media_changed_ok:
  assumes ok: "hub_ok h" and s: "fmlookup (hb_sessions h) user = Some s" "s_room s = Some room"
    and share: "share applied \<noteq> None \<Longrightarrow> share (s_media s) \<noteq> None \<or> shares_in h room < MAX_ROOM_SHARES"
    and h': "h' = update_session user (\<lambda>s. s\<lparr> s_media := applied \<rparr>) h"
  shows "hub_ok (let h = (if share applied \<noteq> share (s_media s) then broadcast_peers room None h' else h');
           h = (if deafened applied \<noteq> deafened (s_media s) \<or> (share applied \<noteq> None) \<noteq> (share (s_media s) \<noteq> None)
                then rebuild_routes h else h)
       in announce_presence user h)"
proof -
  have base: "base_ok h'"
    unfolding h' using ok s share by (intro update_session_base) (auto simp: hub_ok_def)
  let ?told = "if share applied \<noteq> share (s_media s) then broadcast_peers room None h' else h'"
  have told: "hub_same h' ?told" using hub_same_quiet [OF quiet_broadcast_peers] by simp
  have "hub_ok (if deafened applied \<noteq> deafened (s_media s) \<or> (share applied \<noteq> None) \<noteq> (share (s_media s) \<noteq> None)
      then rebuild_routes ?told else ?told)" (is "hub_ok (if ?changed then _ else _)")
  proof (cases ?changed)
    case True
    then show ?thesis using base hub_ok_same(1) [OF told] rebuild_makes_ok by simp
  next
    case False
    then have "forget (s\<lparr> s_media := applied \<rparr>) = forget s"
      by (cases "share applied"; cases "share (s_media s)") (auto simp: forget_def)
    then have "hub_same h h'" using s(1)
      by (simp add: h' hub_same_def update_session_def fmmap_forget_upd)
    then have "hub_ok ?told" using ok hub_ok_same(3) told by blast
    then show ?thesis using False by simp
  qed
  from quiet_ok [OF quiet_announce_presence this] show ?thesis unfolding Let_def .
qed


lemma share_allowance:
  obtains limited bs where
    "(if c then bindE (ask_buckets hb_share_changes hb_share_changes_update op) (\<lambda>taken. retE (\<not> taken))
      else retE False) h = (Inr limited, h\<lparr> hb_share_changes := bs \<rparr>)"
proof -
  obtain a bs where "op (hb_share_changes h) = (a, bs)" by fastforce
  then show ?thesis
    using that [of "if c then \<not> a else False" "if c then bs else hb_share_changes h"]
    by (simp add: ask_buckets_def bindE_def)
qed

lemma set_media_keeps [keeps_intros]: "keeps hub_ok (set_media E user media)"
proof (rule keepsI)
  fix h
  assume ok: "hub_ok h"
  consider s room where "fmlookup (hb_sessions h) user = Some s" "s_room s = Some room"
    | "fmlookup (hb_sessions h) user = None" | s where "fmlookup (hb_sessions h) user = Some s" "s_room s = None"
    by (cases "fmlookup (hb_sessions h) user") auto
  then show "hub_ok (snd (set_media E user media h))"
  proof cases
    case (1 s room)
    let ?stored = "s_media s"
    let ?full = "(share media \<noteq> None \<and> share ?stored = None) \<and> shares_in h room \<ge> MAX_ROOM_SHARES"
    obtain limited bs where ask: "(if share media \<noteq> None \<and> share media \<noteq> share ?stored \<and> \<not> ?full
            then bindE (ask_buckets hb_share_changes hb_share_changes_update
                          (\<lambda>b. buckets_take b user 1 (ev_now E))) (\<lambda>taken. retE (\<not> taken))
            else (retE False :: bool hm)) h = (Inr limited, h\<lparr> hb_share_changes := bs \<rparr>)"
      by (rule share_allowance)
    let ?applied = "media\<lparr> share := (if ?full \<or> limited then share ?stored else share media) \<rparr>"
    let ?g = "h\<lparr> hb_share_changes := bs \<rparr>"
    have g: "hub_ok ?g" "shares_in ?g room = shares_in h room"
      using ok hub_ok_same(3) [of h ?g] by (simp_all add: hub_same_def shares_in_def split: option.splits)
    have changed: "hub_ok (let h = (if share ?applied \<noteq> share ?stored then broadcast_peers room None h' else h');
           h = (if deafened ?applied \<noteq> deafened ?stored \<or> (share ?applied \<noteq> None) \<noteq> (share ?stored \<noteq> None)
                then rebuild_routes h else h)
       in announce_presence user h)" if "h' = update_session user (\<lambda>s. s\<lparr> s_media := ?applied \<rparr>) ?g" for h'
      by (rule media_changed_ok [OF g(1) _ _ _ that]) (use 1 g(2) in \<open>auto split: if_splits\<close>)
    have ends: "snd ((if a then failE e else if b then failE e' else retE x) g) = g" for a b e e' x and g :: hub
      by simp
    have "snd (set_media E user media h) = (let h' = update_session user (\<lambda>s. s\<lparr> s_media := ?applied \<rparr>) ?g;
       h = (if share ?applied \<noteq> share ?stored then broadcast_peers room None h' else h');
           h = (if deafened ?applied \<noteq> deafened ?stored \<or> (share ?applied \<noteq> None) \<noteq> (share ?stored \<noteq> None)
                then rebuild_routes h else h)
       in announce_presence user h)"
      by (simp only: set_media_def current_room_def get_session_def bindE_def liftE_simp getE_simp retE_simp
          modifyE_simp Let_def option.case sum.case prod.case ask 1 ends)
    then show ?thesis using changed [OF refl] unfolding Let_def by simp
  qed (use ok in \<open>simp_all add: set_media_def current_room_def get_session_def bindE_def\<close>)
qed

subsection \<open>Keys\<close>

lemma bump_epochs_keeps: "distinct rooms \<Longrightarrow> keeps hub_ok (bump_epochs rooms)"
proof (rule keepsI)
  fix h
  assume dist: "distinct rooms" and ok: "hub_ok h"
  obtain r h' where run: "bump_epochs rooms h = (r, h')" by fastforce
  from run dist have "hub_ok h'"
  proof (cases rule: bump_epochs_cases)
    case (failed e fs)
    then show ?thesis using ok faults_ok by simp
  next
    case (bumped es fs)
    then have "next_of h es" using dist by (simp add: next_of_def)
    from at_epochs_ok [OF faults_ok [OF ok] this, of fs] show ?thesis
      using bumped(2) by (simp add: at_epochs_def)
  qed
  then show "hub_ok (snd (bump_epochs rooms h))" by (simp add: run)
qed

lemma set_encryption_key_keeps [keeps_intros]: "keeps hub_ok (set_encryption_key E user key)"
proof -
  have row: "hub_same h (update_session user (\<lambda>s. s\<lparr> s_row := (s_row s)\<lparr> row_encryption_key := Some key \<rparr> \<rparr>) h)" for h
    by (rule hub_same_update_session) simp
  have "keeps hub_ok (bump_epochs [room])" for room by (rule bump_epochs_keeps) simp
  with row show ?thesis
    unfolding set_encryption_key_def
    by (intro ok_view.request_intros ok_view.keeps_quiet ok_view.keeps_same quiet_intros)
qed

subsection \<open>Entering rooms, signing in\<close>

lemma enter_keeps [keeps_intros]: "keeps hub_ok (enter E user target)"
  unfolding enter_def by (intro ok_view.request_intros ok_view.keeps_same hub_same_outside)

lemma join_keeps [keeps_intros]: "keeps hub_ok (join E user target password)"
  unfolding join_def by (intro ok_view.request_intros enter_keeps)

lemma finish_join_keeps [keeps_intros]: "keeps hub_ok (finish_join E user room hash matched)"
  unfolding finish_join_def by (intro ok_view.request_intros enter_keeps ok_view.keeps_same hub_same_outside)

lemma rejoin_ok: "hub_ok h \<Longrightarrow> hub_ok (snd (rejoin E user room h))"
proof -
  assume ok: "hub_ok h"
  have "keeps hub_ok (bindE (ask_rejoin returning (\<lambda>bs. buckets_holds bs user 1 (ev_now E))) (\<lambda>held.
            if \<not> held then retE None
            else bindE (place E user (Some room)) (\<lambda>p.
                 bindE (ask_rejoin returning (\<lambda>bs. buckets_take bs user 1 (ev_now E))) (\<lambda>_.
                 retE (Some p)))))" for returning
    by (intro ok_view.request_intros place_keeps)
  from keepsD [OF this ok] show ?thesis by (simp add: rejoin_def Let_def split_beta)
qed

text \<open>A new session takes the place of an evicted one.\<close>

definition take_over :: "env \<Rightarrow> user_id \<Rightarrow> handle_id \<Rightarrow> user_row \<Rightarrow> hub \<Rightarrow> hub" where
  "take_over E user k row h =
     (let h1 = evict E user ''you signed in from somewhere else'' h; cid = hb_next_conn h1 + 1
      in h1\<lparr> hb_next_conn := cid, hb_sessions := fmupd user (new_session cid k row) (hb_sessions h1) \<rparr>)"

lemma fmsize_dom: "fmsize m = fcard (fmdom m)"
  by (simp add: fmsize_eq_card fcard.rep_eq fmdom'_alt_def)

lemma conns_add:
  assumes "conns_ok ss c" "c < c'" "\<And>u. conn_at ss' u = (if u = user then Some c' else conn_at ss u)"
  shows "conns_ok ss' c'"
proof -
  have old: "d < c'" if "conn_at ss u = Some d" for u d
    using assms(1,2) that unfolding conns_ok_def by (meson order.strict_trans1)
  then have "d \<le> c'" if "conn_at ss' u = Some d" for u d
    using that assms(3) by (cases "u = user") (auto intro: order.strict_implies_order)
  moreover have "u = v" if "conn_at ss' u = Some d" "conn_at ss' v = Some d" for u v d
    using that assms(1,3) old unfolding conns_ok_def
    by (cases "u = user"; cases "v = user") (auto simp: order.strict_iff_not)
  ultimately show ?thesis by (auto simp: conns_ok_def)
qed

lemma take_over_ok:
  assumes ok: "hub_ok h" and row: "row_id row = user" and fresh: "hb_next_conn h \<noteq> - 1"
    and space: "fmsize (hb_sessions h) < MAX_SIGNED_IN \<or> fmlookup (hb_sessions h) user \<noteq> None"
  shows "hub_ok (take_over E user k row h)"
proof -
  let ?h = "evict E user ''you signed in from somewhere else'' h"
  note ev = evict_ok [OF ok, of E user "''you signed in from somewhere else''"]
  let ?cid = "hb_next_conn h + 1" and ?s = "new_session (hb_next_conn h + 1) k row"
  have later: "hb_next_conn h < ?cid" using fresh inc_less_eq_iff [of "hb_next_conn h" "hb_next_conn h"] by (simp add: not_le)
  have "hub_ok (?h\<lparr> hb_sessions := fmupd user ?s (hb_sessions ?h), hb_next_conn := ?cid \<rparr>)"
  proof (rule outside_session_ok [OF ev(1), where user = user])
    show "session_ok user s \<and> s_room s = None" if "fmlookup (fmupd user ?s (hb_sessions ?h)) user = Some s" for s
      using that row by (auto simp: session_ok_def new_session_def media_default_def)
    have "fmsize (hb_sessions ?h) < MAX_SIGNED_IN"
    proof -
      have dom: "fmsize (hb_sessions ?h) = fmsize (fmdrop user (hb_sessions h))"
        by (simp add: fmsize_dom ev(3) fmdom_drop)
      have "0 < MAX_SIGNED_IN" by (simp add: MAX_SIGNED_IN_def MAX_ONLINE_def)
      moreover have "fmsize (hb_sessions h) \<le> MAX_SIGNED_IN"
        using ok unfolding hub_ok_def base_ok_def caps_ok_def by blast
      ultimately show ?thesis unfolding dom fmsize_drop using space by auto
    qed
    then show "fmsize (fmupd user ?s (hb_sessions ?h)) \<le> MAX_SIGNED_IN"
      using ev(2) by (simp add: fmsize_upd)
    show "conns_ok (fmupd user ?s (hb_sessions ?h)) ?cid"
    proof (rule conns_add [OF _ later])
      show "conns_ok (hb_sessions ?h) (hb_next_conn h)" using ev(1,4) by (simp add: hub_ok_def base_ok_def)
      show "conn_at (fmupd user ?s (hb_sessions ?h)) u = (if u = user then Some ?cid else conn_at (hb_sessions ?h) u)" for u
        by (simp add: conn_at_def new_session_def)
    qed
  qed (use ev(2) in auto)
  moreover have "g\<lparr> hb_sessions := ss, hb_next_conn := c \<rparr> = g\<lparr> hb_next_conn := c, hb_sessions := ss \<rparr>" for g :: hub and ss c
    by (cases g) simp
  ultimately show ?thesis by (simp add: take_over_def Let_def ev(4))
qed

lemma bindE_getE: "bindE (getE f) g s = g (f s) s"
  by (simp add: bindE_def)

lemma bindE_modifyE: "bindE (modifyE f) g s = g () (f s)"
  by (simp add: bindE_def)

lemma connect_ok:
  assumes ok: "hub_ok h" and fresh: "hb_next_conn h \<noteq> - 1"
  shows "hub_ok (snd (connect E authed k want h))"
proof -
  let ?user = "row_id authed"
  have tail: "keeps hub_ok (bindE (getE hb_next_conn) (\<lambda>cid.
        bindE (\<lambda>h. let (p, h') = rejoin_or_lobby E ?user want h in (Inr p, h')) (\<lambda>placement.
        bindE server_profile_or_default (\<lambda>server.
        bindE (getE (\<lambda>h. (room_list h, List.map_filter presence_of (fmvals (hb_sessions h))))) (\<lambda>(rs, ps).
        retE (cid, \<lparr> w_me = ?user, w_role = row_role row, w_rooms = rs, w_presence = ps,
               w_placement = placement, w_server = server,
               w_profile = \<lparr> up_name = row_name row, up_avatar = row_avatar row \<rparr> \<rparr>)))))
        :: (hub, connect_error, u64 \<times> welcome_msg) se)" for row
  proof -
    have "hub_ok (snd (rejoin_or_lobby E ?user want h))" if "hub_ok h" for h
    proof (cases want)
      case (Some room)
      have "snd (case rejoin E ?user room h of (Some p, h') \<Rightarrow> (p, h') | (None, h') \<Rightarrow> (lobby, h')) = snd (rejoin E ?user room h)"
        by (simp split: prod.split option.split)
      then show ?thesis using Some that rejoin_ok [OF that] by (simp add: rejoin_or_lobby_def)
    qed (simp add: rejoin_or_lobby_def that)
    then have "keeps hub_ok (\<lambda>h. let (p, h') = rejoin_or_lobby E ?user want h in (Inr p, h'))"
      by (simp add: keeps_def split_beta)
    moreover have "snd (server_profile_or_default h) = snd (with_db () db_server_profile h)" for h
      by (simp add: server_profile_or_default_def split: prod.split sum.split)
    then have "keeps hub_ok server_profile_or_default"
      using ok_view.keeps_calm [OF calm_blobs(3), of "()"] unfolding keeps_def by simp
    ultimately show ?thesis by (intro keeps_intros)
  qed
  obtain r1 h1 where user: "with_db ConnectFailed (db_user ?user) h = (r1, h1)" by fastforce
  then have h1: "h1 = h\<lparr> hb_db := snd (db_user ?user (hb_db h)) \<rparr>" by (rule with_db_state)
  then have ok1: "hub_ok h1" using keepsD' [OF ok_view.keeps_calm [OF calm_users(1)] user ok] by simp
  obtain r2 h2 where seen: "with_db ConnectFailed (db_mark_seen ?user (ev_unix E)) h1 = (r2, h2)" by fastforce
  then have ok2: "hub_ok h2" using keepsD' [OF ok_view.keeps_calm [OF calm_users(7)] seen ok1] by simp
  have next2: "hb_next_conn h2 \<noteq> - 1" using fresh h1 with_db_state [OF seen] by simp
  show ?thesis
  proof (cases r1)
    case (Inl e)
    then show ?thesis using user ok1 by (simp add: connect_def bindE_def Let_def)
  next
    case (Inr found)
    show ?thesis
    proof (cases "\<exists>row. found = Some row \<and> row_pubkey row = row_pubkey authed")
      case False
      then show ?thesis using user Inr ok1 by (auto simp: connect_def bindE_def Let_def split: option.splits)
    next
      case True
      then obtain row where row: "found = Some row" "row_pubkey row = row_pubkey authed" by blast
      then have id: "row_id row = ?user" using user Inr db_user_result by (fastforce simp: with_db_def split: prod.splits sum.splits)
      show ?thesis
      proof (cases r2)
        case (Inl e)
        then show ?thesis using user Inr row seen ok2 \<open>r1 = Inr found\<close> by (simp add: connect_def bindE_def Let_def)
      next
        case (Inr x)
        let ?refused = "(fmsize (hb_sessions h2) \<ge> MAX_SIGNED_IN \<or> (row_role row \<noteq> Admin \<and> is_full h2)) \<and>
                     fmlookup (hb_sessions h2) ?user = None"
        have take: "hub_ok (take_over E ?user k row h2)" if "\<not> ?refused"
          using that by (intro take_over_ok ok2 id next2) auto
        show ?thesis
        proof (cases ?refused)
          case True
          then show ?thesis
            using user row seen ok2 \<open>r1 = Inr found\<close> Inr by (simp add: connect_def bindE_def Let_def)
        next
          case False
          note steps = user [unfolded \<open>r1 = Inr found\<close> row(1)] seen [unfolded Inr]
          from keepsD [OF tail [of row] take [OF False]] show ?thesis
            by (simp only: connect_def Let_def take_over_def row option.case bindE_getE bindE_modifyE False if_False simp_thms
                bindE_Inr [where m = "with_db _ _", OF steps(1)] bindE_Inr [where m = "with_db _ _", OF steps(2)])
        qed
      qed
    qed
  qed
qed

subsection \<open>Removing people\<close>

lemma kick_from_room_keeps [keeps_intros]: "keeps hub_ok (kick_from_room E user target room)"
proof -
  have "hub_ok (emit_to target ev (leave_room E target (h\<lparr> hb_last_joined := l h \<rparr>)))" if "hub_ok h" for h ev l
    using that leave_room_ok quiet_ok [OF quiet_emit_to] hub_ok_same(3) [OF hub_same_outside(2)] by blast
  then show ?thesis
    unfolding kick_from_room_def by (intro ok_view.request_intros keeps_modify)
qed

lemma removed_one_ok: "hub_ok h \<Longrightarrow> hub_ok (removed_one E user h)"
  unfolding removed_one_def
  using evict_ok(1) quiet_ok [OF quiet_emit_user_list_change] hub_ok_same(3) [OF hub_same_outside(2)] by blast

lemma removed_all_ok: "hub_ok h \<Longrightarrow> hub_ok (fold (removed_one E) users h)"
  by (induction users arbitrary: h) (simp_all add: removed_one_ok)

lemma remove_user_keeps [keeps_intros]: "keeps hub_ok (remove_user E user target cascade)"
  unfolding remove_user_def by (intro ok_view.request_intros keeps_modify removed_all_ok)

lemma remove_inactive_keeps: "keeps hub_ok (remove_inactive E now)"
  unfolding remove_inactive_def by (intro ok_view.view_intros keeps_modify removed_all_ok)

lemma hub_same_flush_keyframes: "hub_same h (flush_keyframes E h)"
proof -
  have "hub_same h (case share_track h m of Some (owner, _) \<Rightarrow> emit_to owner (KeyframeRequested m kind) h
      | None \<Rightarrow> h\<lparr> hb_keyframes := kf_forget (hb_keyframes h) m \<rparr>)" for m kind h
    using hub_same_quiet [OF quiet_emit_to] by (auto split: option.splits)
  then have "hub_same h (fold (\<lambda>(m, kind) h. case share_track h m of Some (owner, _) \<Rightarrow> emit_to owner (KeyframeRequested m kind) h
      | None \<Rightarrow> h\<lparr> hb_keyframes := kf_forget (hb_keyframes h) m \<rparr>) due h)" for due h
    by (intro hub_same_fold) (auto split: prod.splits)
  from hub_same_trans [OF hub_same_outside(1) this] show ?thesis
    by (simp add: flush_keyframes_def split: prod.split)
qed

subsection \<open>Every request\<close>

lemma create_room_keeps [keeps_intros]: "keeps hub_ok (create_room user name password)"
  unfolding create_room_def by (intro ok_view.request_intros add_room_keeps)

lemma set_room_password_keeps [keeps_intros]: "keeps hub_ok (set_room_password user room password)"
  unfolding set_room_password_def by (intro ok_view.request_intros store_room_password_keeps)

lemma dispatch_request_keeps: "keeps hub_ok (dispatch_request E user request)"
  by (cases request) (auto simp: done_with_def intro!: ok_view.request_intros keeps_intros)

lemma handle_ok: "hub_ok h \<Longrightarrow> hub_ok (snd (handle E user cid request h))"
proof -
  assume "hub_ok h"
  moreover have "keeps hub_ok (dispatch E user cid request)"
    unfolding dispatch_def by (intro ok_view.request_intros dispatch_request_keeps)
  moreover have "snd (handle E user cid request h) = snd (dispatch E user cid request h)"
    by (simp add: handle_def split: prod.split sum.split)
  ultimately show ?thesis by (simp add: keepsD)
qed

lemma resume_ok: "hub_ok h \<Longrightarrow> hub_ok (snd (resume E user cid work h))"
proof -
  assume "hub_ok h"
  moreover have "keeps hub_ok (finish E user cid work)"
    unfolding finish_def by (cases work) (auto intro!: ok_view.request_intros keeps_intros)
  moreover have "snd (resume E user cid work h) = snd (finish E user cid work h)"
    by (simp add: resume_def split: prod.split sum.split)
  ultimately show ?thesis by (simp add: keepsD)
qed

subsection \<open>Every reachable state\<close>

text \<open>
  What may happen to the hub between two holds of its lock. Connections come, go and drain their
  queues (\<open>conns\<close>); signing up and signing in write to the tables of users and invites
  (\<open>enrolled\<close>). A sign-in numbers its connection, which it can do \<open>2 ^ 64 - 1\<close> times.
\<close>

inductive hub_step :: "hub \<Rightarrow> hub \<Rightarrow> bool" where
  connected: "hb_next_conn h \<noteq> - 1 \<Longrightarrow> connect E row k want h = (r, h') \<Longrightarrow> hub_step h h'"
| disconnected: "hub_step h (disconnect E user cid h)"
| requested: "handle E user cid request h = (r, h') \<Longrightarrow> hub_step h h'"
| resumed: "resume E user cid work h = (r', h') \<Longrightarrow> hub_step h h'"
| pruned: "remove_inactive E now h = (r'', h') \<Longrightarrow> hub_step h h'"
| flushed: "hub_step h (flush_keyframes E h)"
| promoted: "hub_step h (role_changed user role h)"
| conns: "hub_step h (h\<lparr> hb_conns := c \<rparr>)"
| enrolled: "db_core d = db_core (hb_db h) \<Longrightarrow> hub_step h (h\<lparr> hb_db := d \<rparr>)"

definition db_in_order :: "database \<Rightarrow> bool" where
  "db_in_order d \<longleftrightarrow> seq_rooms d < 2 ^ 63 \<and> media_id_after (tbl_next_media_id d) \<le> 2 ^ 32 \<and>
     (\<forall>r \<in> set (fmkeys (tbl_rooms d)). unat r \<le> seq_rooms d)"

inductive hub_reach :: "hub \<Rightarrow> bool" where
  started: "db_in_order d \<Longrightarrow> hub_new E fp d = (Inr h, d') \<Longrightarrow> hub_reach h"
| stepped: "hub_reach h \<Longrightarrow> hub_step h h' \<Longrightarrow> hub_reach h'"

lemma hub_step_ok: "hub_step h h' \<Longrightarrow> hub_ok h \<Longrightarrow> hub_ok h'"
proof (induction rule: hub_step.induct)
  case (connected h E row k want r h')
  then show ?case using connect_ok [of h E row k want] by simp
next
  case (disconnected h E user cid)
  then show ?case using disconnect_ok by blast
next
  case (requested E user cid request h r h')
  then show ?case using handle_ok [of h E user cid request] by simp
next
  case (resumed E user cid work h r' h')
  then show ?case using resume_ok [of h E user cid work] by simp
next
  case (pruned E now h r'' h')
  then show ?case using keepsD' [OF remove_inactive_keeps] by blast
next
  case (flushed h E)
  then show ?case using hub_ok_same(3) [OF hub_same_flush_keyframes [of h E]] by simp
next
  case (promoted h user role)
  then show ?case using hub_ok_same(3) [OF hub_same_role_changed [of h user role]] by simp
next
  case (conns h c)
  then show ?case using hub_ok_same(3) [of h "h\<lparr> hb_conns := c \<rparr>"] by (simp add: hub_same_def)
next
  case (enrolled d h)
  then show ?case using hub_ok_same(3) [OF hub_same_db [OF enrolled(1)]] by simp
qed

lemma fresh_hub_ok:
  assumes "db_in_order d" "\<And>r. map_option entry_view (fmlookup rs r) = map_option rec_view (fmlookup (tbl_rooms d) r)"
    and empty: "\<And>r e. fmlookup rs r = Some e \<Longrightarrow> e_members e = {||}"
  shows "hub_ok (fresh_hub d fp rs)"
proof -
  have "routes_at fmempty rs r = []" "audiences_at fmempty rs r = []" for r
    using empty_room [OF empty] by (auto simp: routes_at_def audiences_at_def split: option.splits)
  moreover have "routes_at fmempty fmempty r = []" "audiences_at fmempty fmempty r = []" for r
    by (simp_all add: routes_at_def audiences_at_def)
  ultimately have "all_routes fmempty rs = all_routes fmempty fmempty" "all_audiences fmempty rs = all_audiences fmempty fmempty"
    using routes_by_room [of fmempty rs fmempty] by simp_all
  moreover have "table_of (all_routes fmempty fmempty) = fmempty" "all_audiences fmempty fmempty = fmempty"
    by (simp_all add: all_routes_def table_of_def all_audiences_def fmap_ext)
  ultimately have "table_of (all_routes fmempty rs) = fmempty" "all_audiences fmempty rs = fmempty" by simp_all
  moreover have "membership_ok fmempty rs" using empty by (auto simp: membership_ok_def)
  moreover have "caps_ok fmempty rs" using empty empty_room [OF empty] by (simp add: caps_ok_def fcard.rep_eq)
  moreover have "mirror_ok rs (tbl_rooms d) (seq_rooms d)"
    using assms(1,2) by (auto simp: mirror_ok_def db_in_order_def fmlookup_dom'_iff)
  moreover have "tracks_ok fmempty (media_id_after (tbl_next_media_id d))"
    using assms(1) by (simp add: tracks_ok_def tracks_at_def db_in_order_def)
  ultimately show ?thesis
    by (simp add: hub_ok_def base_ok_def routes_ok_def fresh_hub_def sessions_ok_def conns_ok_def conn_at_def)
qed

lemma query_answer:
  assumes "query f d = (Inr x, d')"
  shows "\<exists>fs. x = f (d\<lparr> db_faults := fs \<rparr>) \<and> d' = d\<lparr> db_faults := fs \<rparr>"
proof (cases rule: query_cases [of f d])
  case (1 fs)
  then show ?thesis using assms by simp
next
  case (2 fs)
  then show ?thesis using assms by auto
qed

lemma hub_new_ok:
  assumes order: "db_in_order d" and run: "hub_new E fp d = (Inr h, d')"
  shows "hub_ok h"
proof -
  obtain rows d1 n d2 where rows: "db_rooms d = (Inr rows, d1)" and blobs: "delete_unused_blobs (ev_unix E) d1 = (Inr n, d2)"
      and h: "h = fresh_hub d2 fp (fmap_of_list (map (\<lambda>row. (rr_id row, entry_of_row row)) rows))"
    using run unfolding hub_new_def by (elim bindE_success) blast
  let ?row = "\<lambda>k. let r = the (fmlookup (tbl_rooms d) k)
     in \<lparr> rr_id = k, rr_name = r_name r, rr_epoch = ucast (r_epoch r), rr_password_hash = r_password_hash r \<rparr>"
  let ?rs = "fmap_of_list (map (\<lambda>row. (rr_id row, entry_of_row row)) rows)"
  have rows_eq: "rows = map ?row (fmkeys (tbl_rooms d))" and core1: "db_core d1 = db_core d"
    using query_answer [OF rows [unfolded db_rooms_def]] by auto
  have core: "db_core d2 = db_core d"
    using calmD [OF calm_delete_unused_blobs, of "ev_unix E" d1] blobs core1 by simp
  have lookup: "fmlookup ?rs r = map_option (\<lambda>rec. entry_of_row (?row r)) (fmlookup (tbl_rooms d) r)" for r
  proof -
    have "map (\<lambda>row. (rr_id row, entry_of_row row)) rows = map (\<lambda>k. (k, entry_of_row (?row k))) (fmkeys (tbl_rooms d))"
      by (simp add: rows_eq Let_def)
    then have "fmlookup ?rs r = map_of (map (\<lambda>k. (k, entry_of_row (?row k))) (fmkeys (tbl_rooms d))) r"
      by (simp add: fmlookup_of_list)
    also have "\<dots> = (if r \<in> fmdom' (tbl_rooms d) then Some (entry_of_row (?row r)) else None)"
      by (simp add: map_of_map_restrict restrict_map_def)
    finally show ?thesis by (auto simp: fmlookup_dom'_iff)
  qed
  have "hub_ok (fresh_hub d2 fp ?rs)"
  proof (rule fresh_hub_ok)
    show "db_in_order d2" using order core by (simp add: db_in_order_def db_core_def)
    show "map_option entry_view (fmlookup ?rs r) = map_option rec_view (fmlookup (tbl_rooms d2) r)" for r
      unfolding lookup using core by (cases "fmlookup (tbl_rooms d) r")
        (simp_all add: db_core_def entry_view_def rec_view_def entry_of_row_def Let_def)
    show "e_members e = {||}" if "fmlookup ?rs r = Some e" for r e
      using that unfolding lookup by (auto simp: entry_of_row_def)
  qed
  then show ?thesis by (simp add: h)
qed

lemma hub_reach_ok: "hub_reach h \<Longrightarrow> hub_ok h"
  by (induction rule: hub_reach.induct) (use hub_new_ok hub_step_ok in blast)+

end
