(* ===== verification/Hub_Live.thy ===== *)
theory Hub_Live
  imports Hub_Reach
begin

text \<open>
  What an allowed request does get: a user with a valid key, allowance left and a room with
  space joins it, and a user who signs in gets a session.
\<close>

subsection \<open>What moving leaves alone\<close>

text \<open>The part of the state that moving and telling do not touch: rows, the database, allowances.\<close>

definition who :: "session \<Rightarrow> user_row \<times> u64 \<times> handle_id \<times> bool" where
  "who s = (s_row s, s_conn_id s, s_handle s, deafened (s_media s))"

definition rest :: "hub \<Rightarrow> (user_id, user_row \<times> u64 \<times> handle_id \<times> bool) fmap \<times> database \<times> user_id buckets \<times> user_id buckets" where
  "rest h = (fmmap who (hb_sessions h), hb_db h, hb_requests h, hb_room_changes h)"

lemma rows_upd: "fmlookup ss u = Some s \<Longrightarrow> who s' = who s \<Longrightarrow> fmmap who (fmupd u s' ss) = fmmap who ss"
  by (rule fmap_ext) auto

lemma rest_update_session: "(\<And>s. who (f s) = who s) \<Longrightarrow> rest (update_session u f h) = rest h"
  by (cases "fmlookup (hb_sessions h) u") (simp_all add: rest_def update_session_def rows_upd)

lemma rest_quiet: "quiet f \<Longrightarrow> rest (f h) = rest h"
proof -
  assume "quiet f"
  then obtain c where "f h = h\<lparr> hb_conns := c \<rparr>" unfolding quiet_def by blast
  then show ?thesis by (simp add: rest_def)
qed

lemma rest_audiences_in: "rest (snd (audiences_in room u h)) = rest h"
  by (simp add: audiences_in_def Let_def rest_update_session who_def)

lemma rest_tell_room: "rest (tell_room room h) = rest h"
proof -
  have "rest (tell_audiences room u h) = rest h" for u h
    using rest_audiences_in [of room u h] rest_quiet [OF quiet_send]
    by (cases "audiences_in room u h") (simp add: tell_audiences_def split: option.split)
  then show ?thesis by (simp add: tell_room_def fold_fixes)
qed

lemma rest_rebuild_routes: "rest (rebuild_routes h) = rest h"
proof -
  have "rest (fold tell_room rooms g) = rest g" for rooms g
    by (rule fold_fixes) (rule rest_tell_room)
  then show ?thesis by (simp add: rebuild_routes_def Let_def rest_def)
qed

lemma rest_placement_of: "rest (snd (placement_of u h)) = rest h"
proof -
  have "rest g = rest h" if "audiences_in room u h = (a, g)" for room a g
    using rest_audiences_in [of room u h] that by simp
  then show ?thesis by (auto simp: placement_of_def Let_def split: option.split prod.split)
qed

lemma rest_move: "rest (move u old new t h) = rest h"
proof -
  have "rest (update_entry r f g) = rest g" for r f g
    by (simp add: rest_def update_entry_def split: option.split)
  then have mem: "rest (insert_member u new (remove_member u old h)) = rest h"
    by (simp add: insert_member_def remove_member_def split: option.split)
  have "rest (set_membership u new t g) = rest g" for g
    by (cases "fmlookup (hb_sessions g) u") (simp_all add: rest_def set_membership_def Let_def rows_upd who_def)
  with mem show ?thesis by (simp add: move_def)
qed

lemma rest_apply_epochs: "rest (apply_epochs es h) = rest h"
  unfolding apply_epochs_def
  by (rule fold_fixes) (auto simp: rest_def update_entry_def split: prod.split option.split)

subsection \<open>Placing succeeds\<close>

text \<open>Room and time for one more: nothing \<open>place\<close> asks for is missing.\<close>

definition epoch_left :: "hub \<Rightarrow> room_id \<Rightarrow> bool" where
  "epoch_left h room = (case fmlookup (hb_rooms h) room of None \<Rightarrow> False | Some e \<Rightarrow> e_epoch e \<noteq> - 1)"

definition can_place :: "env \<Rightarrow> user_id \<Rightarrow> room_id \<Rightarrow> hub \<Rightarrow> bool" where
  "can_place E user room h =
     (case (fmlookup (hb_sessions h) user, fmlookup (hb_rooms h) room) of
        (Some s, Some e) \<Rightarrow>
          s_room s \<noteq> Some room \<and> fcard (e_members e) < MAX_ROOM_MEMBERS \<and> epoch_left h room \<and>
          (case s_room s of None \<Rightarrow> True | Some old \<Rightarrow> epoch_left h old) \<and>
          (case row_encryption_key (s_row s) of None \<Rightarrow> False | Some key \<Rightarrow> ev_unix E < ek_not_after key) \<and>
          db_faults (hb_db h) = [] \<and> media_id_after (tbl_next_media_id (hb_db h)) + 2 < 2 ^ 32
      | _ \<Rightarrow> False)"

lemma next_epochs_left: "(\<And>r. r \<in> set rooms \<Longrightarrow> epoch_left h r) \<Longrightarrow> \<exists>es. next_epochs h rooms = Inr es"
proof (induction rooms)
  case (Cons r rooms)
  have "epoch_left h r" using Cons.prems by simp
  then obtain e where "fmlookup (hb_rooms h) r = Some e" "e_epoch e \<noteq> - 1"
    by (auto simp: epoch_left_def split: option.splits)
  moreover obtain es where "next_epochs h rooms = Inr es" using Cons by auto
  ultimately show ?case by simp
qed simp

text \<open>How \<open>user\<close> joining \<open>room\<close> changed the state.\<close>

definition joined :: "user_id \<Rightarrow> room_id \<Rightarrow> hub \<Rightarrow> hub \<Rightarrow> bool" where
  "joined user room h h' \<longleftrightarrow>
     (\<forall>u. map_option s_room (fmlookup (hb_sessions h') u) =
        (if u = user then Some (Some room) else map_option s_room (fmlookup (hb_sessions h) u))) \<and>
     fmmap who (hb_sessions h') = fmmap who (hb_sessions h) \<and>
     fmlookup (hb_rooms h') room = map_option (\<lambda>e. e\<lparr> e_epoch := e_epoch e + 1,
       e_members := finsert user (e_members e) \<rparr>) (fmlookup (hb_rooms h) room) \<and>
     db_faults (hb_db h') = [] \<and>
     media_id_after (tbl_next_media_id (hb_db h')) = media_id_after (tbl_next_media_id (hb_db h)) + 3"

lemma place_succeeds:
  assumes "can_place E user room h"
  obtains p h' where "place E user (Some room) h = (Inr p, h')" "joined user room h h'"
    "hb_requests h' = hb_requests h" "hb_room_changes h' = hb_room_changes h"
proof -
  obtain s e where s: "fmlookup (hb_sessions h) user = Some s" "fmlookup (hb_rooms h) room = Some e"
      "s_room s \<noteq> Some room" "fcard (e_members e) < MAX_ROOM_MEMBERS" "epoch_left h room"
      "\<And>old. s_room s = Some old \<Longrightarrow> epoch_left h old" "key_valid E s"
      "db_faults (hb_db h) = []" "media_id_after (tbl_next_media_id (hb_db h)) + 2 < 2 ^ 32"
    using assms unfolding can_place_def key_valid_def
    by (cases "fmlookup (hb_sessions h) user"; cases "fmlookup (hb_rooms h) room") (fastforce split: option.splits)+
  let ?n = "media_id_after (tbl_next_media_id (hb_db h))"
  let ?rooms = "option_list (s_room s) @ option_list (Some room)"
  obtain key where key: "row_encryption_key (s_row s) = Some key" "ev_unix E < ek_not_after key"
    using s(7) by (auto simp: key_valid_def)
  have may: "may_place E s (Some room) h = (Inr (), h)"
    using s(2,4) key by (simp add: may_place_def get_entry_def bindE_def not_le)
  obtain t h1 where alloc: "allocate_tracks h = (Inr t, h1)" and h1: "h1 = h\<lparr> hb_db := (hb_db h)\<lparr> tbl_next_media_id := Some (?n + 3) \<rparr> \<rparr>"
    using s(8,9) by (simp add: allocate_tracks_def bindE_def with_db_def db_allocate_media_ids_def stmt_faultless
        allocate_tx_def TRACKS_PER_MEMBERSHIP_def Let_def)
  obtain es where es: "next_epochs h1 ?rooms = Inr es"
  proof -
    have "epoch_left h1 r" if "r \<in> set ?rooms" for r
      using that s(5) s(6) [of r] by (cases "s_room s") (auto simp: h1 option_list_def epoch_left_def)
    then show ?thesis using next_epochs_left that by blast
  qed
  let ?d = "store_epochs es (hb_db h1)"
  let ?h2 = "apply_epochs es (h1\<lparr> hb_db := ?d \<rparr>)"
  have bump: "bump_epochs ?rooms h1 = (Inr (), ?h2)"
    using s(8) es by (simp add: bump_epochs_def bindE_def with_db_def db_set_epochs_eq execute_def stmt_faultless h1)
  let ?g = "rebuild_routes (announce_move user (s_room s) (Some room) (move user (s_room s) (Some room) (Some t) ?h2))"
  obtain p h' where pl: "placement_of user ?g = (p, h')" by fastforce
  have run: "place E user (Some room) h = (Inr p, h')"
    using s(1,3) may alloc bump pl
    by (simp add: place_def get_session_def bindE_def [of "get_session user"] bindE_Inr [of "may_place E s (Some room)"]
        bindE_Inr [of "bindE allocate_tracks _"] bindE_Inr [of "bump_epochs _"] bindE_Inr [of "modifyE _"] bindE_def Let_def move_def)
  have "rest h' = rest ?h2"
    using rest_placement_of [of user ?g] pl rest_rebuild_routes rest_quiet [OF quiet_announce_move] rest_move by simp
  then have "rest h' = rest (h1\<lparr> hb_db := ?d \<rparr>)" by (simp add: rest_apply_epochs)
  then have rest: "fmmap who (hb_sessions h') = fmmap who (hb_sessions h)" "hb_db h' = ?d"
      "hb_requests h' = hb_requests h" "hb_room_changes h' = hb_room_changes h"
    by (simp_all add: rest_def h1)
  have "hb_rooms h' = hb_rooms (move user (s_room s) (Some room) (Some t) ?h2)"
    using hub_same_placement_of [of ?g user] pl by (simp add: hub_same_def rebuild_routes_fields)
  moreover have fst_es: "map fst es = ?rooms" using next_epochs_result [OF es] by blast
  moreover have dist: "distinct (map fst es)"
    unfolding fst_es using s(3) by (cases "s_room s") (auto simp: option_list_def)
  moreover have at: "map_of es room = Some (e_epoch e + 1)"
  proof -
    have "room \<in> set (map fst es)" unfolding fst_es by (simp add: option_list_def)
    then have "room \<in> fst ` set es" by simp
    then obtain ep where "map_of es room = Some ep" by (metis map_of_eq_None_iff not_None_eq)
    moreover from this obtain e' where "fmlookup (hb_rooms h1) room = Some e'" "ep = e_epoch e' + 1"
      using next_epochs_result [OF es] by blast
    ultimately show ?thesis using s(2) by (simp add: h1)
  qed
  ultimately have "fmlookup (hb_rooms h') room = Some (e\<lparr> e_epoch := e_epoch e + 1, e_members := finsert user (e_members e) \<rparr>)"
    using s(2) by (simp add: move_rooms [OF s(3)] apply_epochs_lookup [OF dist] h1 new_members_def at)
  moreover have "db_faults ?d = []"
    using s(8) by (simp add: store_epochs_def fold_fixes split_beta h1)
  ultimately have "joined user room h h'"
    using place_rooms [OF run] rest s(2) by (simp add: joined_def h1 media_id_after_def)
  with run rest show ?thesis using that by blast
qed

subsection \<open>Joining succeeds\<close>

text \<open>The room is open to the user: it has no password, or the user manages rooms.\<close>

definition open_to :: "hub \<Rightarrow> user_id \<Rightarrow> room_id \<Rightarrow> bool" where
  "open_to h user room =
     (case (fmlookup (hb_rooms h) room, fmlookup (hb_sessions h) user) of
        (Some e, Some s) \<Rightarrow> e_password_hash e = None \<or> can_manage_rooms (row_role (s_row s))
      | _ \<Rightarrow> False)"

text \<open>Allowance for one request that changes the room.\<close>

definition may_move :: "env \<Rightarrow> user_id \<Rightarrow> hub \<Rightarrow> bool" where
  "may_move E user h \<longleftrightarrow> fst (buckets_holds (hb_requests h) user 1 (ev_now E)) \<and>
     fst (buckets_holds (hb_room_changes h) user 1 (ev_now E))"

definition meters_ok :: "hub \<Rightarrow> bool" where
  "meters_ok h \<longleftrightarrow> buckets_ok (hb_requests h) \<and> buckets_ok (hb_room_changes h)"

lemma enter_succeeds:
  assumes "can_place E user room h" "fst (buckets_take (hb_room_changes h) user 1 (ev_now E))"
  obtains p h' where "enter E user (Some room) h = (Inr (PlacementR p), h')" "joined user room h h'"
    "hb_requests h' = hb_requests h" "hb_room_changes h' = snd (buckets_take (hb_room_changes h) user 1 (ev_now E))"
proof -
  let ?bs = "snd (buckets_take (hb_room_changes h) user 1 (ev_now E))"
  let ?h = "h\<lparr> hb_room_changes := ?bs \<rparr>"
  obtain s where s: "fmlookup (hb_sessions h) user = Some s" "s_room s \<noteq> Some room"
    using assms(1) by (auto simp: can_place_def split: option.splits)
  have "can_place E user room ?h"
    using assms(1) by (simp add: can_place_def epoch_left_def cong: option.case_cong)
  then obtain p h' where p: "place E user (Some room) ?h = (Inr p, h')" "joined user room ?h h'"
      "hb_requests h' = hb_requests ?h" "hb_room_changes h' = hb_room_changes ?h"
    by (rule place_succeeds)
  let ?g = "h'\<lparr> hb_last_joined := fmupd user room (hb_last_joined h') \<rparr>"
  have ask: "(ask_buckets hb_room_changes hb_room_changes_update (\<lambda>bs. buckets_take bs user 1 (ev_now E)) :: bool hm) h
      = (Inr True, ?h)"
    using assms(2) by (simp add: ask_buckets_def split_beta)
  have "enter E user (Some room) h = (Inr (PlacementR p), ?g)"
    using s ask p(1) by (simp add: enter_def enters_another_room_def get_session_def bindE_def)
  then show ?thesis using that [of p ?g] p(2-4) by (simp add: joined_def)
qed

lemma join_succeeds:
  assumes cur: "is_current h user cid" and can: "can_place E user room h" and open_room: "open_to h user room"
    and meters: "meters_ok h" and may: "may_move E user h"
  obtains p h' where "handle E user cid (JoinRoom room pw) h = (Done (PlacementR p), h')"
    "joined user room h h'"
    "hb_requests h' = snd (buckets_take (hb_requests h) user 1 (ev_now E))"
    "hb_room_changes h' =
       snd (buckets_take (snd (buckets_holds (hb_room_changes h) user 1 (ev_now E))) user 1 (ev_now E))"
proof -
  let ?now = "ev_now E"
  let ?h1 = "h\<lparr> hb_requests := snd (buckets_take (hb_requests h) user 1 ?now) \<rparr>"
  let ?h2 = "?h1\<lparr> hb_room_changes := snd (buckets_holds (hb_room_changes h) user 1 ?now) \<rparr>"
  obtain s e where s: "fmlookup (hb_sessions h) user = Some s" "s_room s \<noteq> Some room"
      and e: "fmlookup (hb_rooms h) room = Some e" "fcard (e_members e) < MAX_ROOM_MEMBERS"
    using can by (auto simp: can_place_def split: option.splits)
  have is_1: "is_f64 1" by (simp add: is_f64_def)
  have charge: "charge_request E user (JoinRoom room pw) h = (Inr (), ?h1)"
    using may meters keyed.spend_iff_holds [of "hb_requests h" user 1 ?now]
    by (simp add: charge_request_def bindE_def ask_buckets_def split_beta may_move_def meters_ok_def)
  have "can_place E user room ?h2"
    using can by (simp add: can_place_def epoch_left_def cong: option.case_cong)
  moreover have "fst (buckets_take (hb_room_changes ?h2) user 1 ?now)"
    using keyed.spend_after_holds [OF _ is_1, of "hb_room_changes h" user ?now] may meters
    by (simp add: may_move_def meters_ok_def)
  ultimately obtain p h' where p: "enter E user (Some room) ?h2 = (Inr (PlacementR p), h')"
      "joined user room ?h2 h'"
      "hb_requests h' = hb_requests ?h2" "hb_room_changes h' = snd (buckets_take (hb_room_changes ?h2) user 1 ?now)"
    by (rule enter_succeeds)
  have held: "(ask_buckets hb_room_changes hb_room_changes_update (\<lambda>bs. buckets_holds bs user 1 ?now) :: bool hm) ?h1
      = (Inr True, ?h2)"
    using may by (simp add: ask_buckets_def split_beta may_move_def)
  have "needed_password user (Some room) ?h2 = (Inr None, ?h2)"
    using open_room s e
    by (auto simp: needed_password_def password_to_enter_def get_entry_def get_session_def get_role_def bindE_def
        open_to_def split: option.split)
  then have "join E user (Some room) pw ?h1 = (Inr (Done (PlacementR p)), h')"
    using s e held p(1)
    by (simp add: join_def enters_another_room_def refuse_full_def get_session_def get_entry_def bindE_def not_le)
  then have "handle E user cid (JoinRoom room pw) h = (Done (PlacementR p), h')"
    using cur charge by (simp add: handle_def dispatch_def require_current_def bindE_def)
  then show ?thesis using that [of p h'] p(2-4) by (simp add: joined_def)
qed

text \<open>
  C17. An allowed join succeeds. A user whose connection is current, who has a valid encryption key
  and allowance left, and who asks for a room that is open to them, has space and is not the one
  they are in, is told their new placement and is in that room afterwards; nobody else moved.
\<close>

theorem allowed_join_succeeds:
  assumes "is_current h user cid" "can_place E user room h" "open_to h user room" "meters_ok h" "may_move E user h"
  shows "\<exists>p h'. handle E user cid (JoinRoom room pw) h = (Done (PlacementR p), h') \<and>
    (\<forall>u. map_option s_room (fmlookup (hb_sessions h') u) =
      (if u = user then Some (Some room) else map_option s_room (fmlookup (hb_sessions h) u)))"
proof -
  obtain p h' where "handle E user cid (JoinRoom room pw) h = (Done (PlacementR p), h')" "joined user room h h'"
    by (rule join_succeeds [OF assms, where pw = pw])
  then show ?thesis by (auto simp: joined_def)
qed

subsection \<open>Signing in\<close>

lemma connect_new:
  assumes d: "db_faults (hb_db h) = []" "fmlookup (tbl_users (hb_db h)) u = Some r" "user_row_of u r = Inr row"
    and a: "row_id authed = u" "row_pubkey authed = row_pubkey row"
    and h: "fmlookup (hb_sessions h) u = None" "fmsize (hb_sessions h) < MAX_ONLINE"
  obtains w where "connect E authed k None h = (Inr w,
     h\<lparr> hb_db := update_user u (\<lambda>r. r\<lparr> u_last_seen := ev_unix E \<rparr>) (hb_db h), hb_next_conn := hb_next_conn h + 1,
        hb_sessions := fmupd u (new_session (hb_next_conn h + 1) k row) (hb_sessions h) \<rparr>)"
proof -
  let ?d = "update_user u (\<lambda>r. r\<lparr> u_last_seen := ev_unix E \<rparr>) (hb_db h)"
  have user: "with_db ConnectFailed (db_user u) h = (Inr (Some row), h)"
    using d by (simp add: with_db_def db_user_def stmt_faultless user_entry_def optional_row_def)
  have seen: "with_db ConnectFailed (db_mark_seen u (ev_unix E)) h = (Inr (), h\<lparr> hb_db := ?d \<rparr>)"
    using d(1) by (simp add: with_db_def db_mark_seen_def execute_def stmt_faultless)
  have evict: "evict E u reason (h\<lparr> hb_db := ?d \<rparr>) = h\<lparr> hb_db := ?d \<rparr>" for reason
    using h(1) by (simp add: evict_def leave_room_def)
  have room: "\<not> MAX_SIGNED_IN \<le> fmsize (hb_sessions h)" "\<not> is_full (h\<lparr> hb_db := ?d \<rparr>)"
    using h(2) by (simp_all add: MAX_SIGNED_IN_def is_full_def)
  have server: "\<exists>p. server_profile_or_default g = (Inr p, g)" if "db_faults (hb_db g) = []" for g
    using that by (simp add: server_profile_or_default_def with_db_def db_server_profile_def query_def stmt_faultless)
  let ?g = "h\<lparr> hb_db := ?d, hb_next_conn := hb_next_conn h + 1,
        hb_sessions := fmupd u (new_session (hb_next_conn h + 1) k row) (hb_sessions h) \<rparr>"
  obtain p where p: "server_profile_or_default ?g = (Inr p, ?g)" using server [of ?g] d(1) by auto
  show ?thesis
    using that a user seen room evict p
    by (simp add: connect_def Let_def bindE_def rejoin_or_lobby_def)
qed

end
