(* ===== verification/Hub_Demo.thy ===== *)
theory Hub_Demo
  imports Hub_Live
begin

text \<open>
  A small server, run from its start: one open room and one with a password, an admin and two
  users. The theorems about reachable states are applied to its states.
\<close>

definition demo_env :: env where
  "demo_env = \<lparr> ev_now = 0, ev_unix = 1000, ev_random = (\<lambda>i. replicate 10 (of_nat i)),
     ev_verify = (\<lambda>_ _ _. True), ev_sha256 = (\<lambda>bs. take 32 (bs @ replicate 32 0)) \<rparr>"

definition demo_user_rec :: "u8 \<Rightarrow> role \<Rightarrow> user_rec" where
  "demo_user_rec b role = \<lparr> u_pubkey = replicate 32 b, u_encryption_key = Some (replicate 32 b),
     u_encryption_key_sig = Some (replicate 64 b), u_encryption_key_not_after = Some 5000, u_name = [65],
     u_avatar_hash = None, u_role = rank role, u_invited_by = None, u_created_at = 0, u_last_seen = 0 \<rparr>"

definition demo_row :: "user_id \<Rightarrow> role \<Rightarrow> user_row" where
  "demo_row u role = \<lparr> row_id = u, row_pubkey = replicate 32 (ucast u),
     row_encryption_key = Some \<lparr> ek_key = replicate 32 (ucast u), ek_not_after = 5000, ek_sig = replicate 64 (ucast u) \<rparr>,
     row_name = [65], row_avatar = None, row_role = role, row_invited_by = None, row_created_at = 0 \<rparr>"

definition demo_db :: database where
  "demo_db = empty_database\<lparr> seq_users := 3,
     tbl_users := fmap_of_list [(1, demo_user_rec 1 Admin), (2, demo_user_rec 2 User), (3, demo_user_rec 3 User)],
     seq_rooms := 2,
     tbl_rooms := fmap_of_list [(1, \<lparr> r_name = [66], r_epoch = 0, r_password_hash = None \<rparr>),
       (2, \<lparr> r_name = [67], r_epoch = 5, r_password_hash = Some [68] \<rparr>)] \<rparr>"

definition demo_rooms :: "(room_id, room_entry) fmap" where
  "demo_rooms = fmap_of_list [
     (1, \<lparr> e_name = [66], e_epoch = 0, e_password_hash = None, e_members = {||} \<rparr>),
     (2, \<lparr> e_name = [67], e_epoch = 5, e_password_hash = Some [68], e_members = {||} \<rparr>)]"

definition demo_start :: hub where
  "demo_start = fresh_hub demo_db (replicate 32 9) demo_rooms"

lemma demo_keys: "fmkeys (tbl_rooms demo_db) = [1, 2]"
  by code_simp

lemma fmretain_empty [simp]: "fmretain P fmempty = fmempty"
  by (rule fmap_ext) simp

lemma demo_started: "hub_new demo_env (replicate 32 9) demo_db = (Inr demo_start, demo_db)"
  using demo_keys
  by (simp add: hub_new_def bindE_def db_rooms_def query_def stmt_faultless demo_db_def empty_database_def
      delete_unused_blobs_def db_delete_unused_blobs_def Let_def demo_start_def demo_rooms_def entry_of_row_def)

lemma demo_reach: "hub_reach demo_start"
  using demo_keys by (intro hub_reach.started [OF _ demo_started])
    (simp add: db_in_order_def, simp add: demo_db_def empty_database_def media_id_after_def)

lemma demo_rows: "user_row_of 1 (demo_user_rec 1 Admin) = Inr (demo_row 1 Admin)"
  "user_row_of 2 (demo_user_rec 2 User) = Inr (demo_row 2 User)"
  by (simp_all add: user_row_of_def demo_user_rec_def demo_row_def hash_column_def key_columns_def from_rank_def)

lemma demo_sign_in:
  assumes "hub_reach h" "db_faults (hb_db h) = []" "fmlookup (tbl_users (hb_db h)) u = Some (demo_user_rec b role)"
    "user_row_of u (demo_user_rec b role) = Inr (demo_row u role)"
    "fmlookup (hb_sessions h) u = None" "fmsize (hb_sessions h) < MAX_ONLINE" "hb_next_conn h \<noteq> - 1"
  shows "hub_reach (h\<lparr> hb_db := update_user u (\<lambda>r. r\<lparr> u_last_seen := 1000 \<rparr>) (hb_db h), hb_next_conn := hb_next_conn h + 1,
        hb_sessions := fmupd u (new_session (hb_next_conn h + 1) (unat u) (demo_row u role)) (hb_sessions h) \<rparr>)"
proof -
  have id: "row_id (demo_row u role) = u" by (simp add: demo_row_def)
  obtain w where "connect demo_env (demo_row u role) (unat u) None h = (Inr w,
     h\<lparr> hb_db := update_user u (\<lambda>r. r\<lparr> u_last_seen := ev_unix demo_env \<rparr>) (hb_db h), hb_next_conn := hb_next_conn h + 1,
        hb_sessions := fmupd u (new_session (hb_next_conn h + 1) (unat u) (demo_row u role)) (hb_sessions h) \<rparr>)"
    by (rule connect_new [OF assms(2,3,4) id refl assms(5,6)])
  then show ?thesis
    using hub_reach.stepped [OF assms(1) hub_step.connected [OF assms(7)]] by (simp add: demo_env_def)
qed

definition demo_seen :: database where
  "demo_seen = update_user 2 (\<lambda>r. r\<lparr> u_last_seen := 1000 \<rparr>) (update_user 1 (\<lambda>r. r\<lparr> u_last_seen := 1000 \<rparr>) demo_db)"

definition demo_lobby :: hub where
  "demo_lobby = demo_start\<lparr> hb_db := demo_seen, hb_next_conn := 2,
     hb_sessions := fmupd 2 (new_session 2 2 (demo_row 2 User)) (fmupd 1 (new_session 1 1 (demo_row 1 Admin)) fmempty) \<rparr>"

lemma demo_lobby_reach: "hub_reach demo_lobby"
proof -
  let ?d = "update_user 1 (\<lambda>r. r\<lparr> u_last_seen := 1000 \<rparr>) demo_db"
  let ?one = "demo_start\<lparr> hb_db := ?d, hb_next_conn := 1, hb_sessions := fmupd 1 (new_session 1 1 (demo_row 1 Admin)) fmempty \<rparr>"
  have start: "hb_db demo_start = demo_db" "hb_sessions demo_start = fmempty" "hb_next_conn demo_start = 0"
    by (simp_all add: demo_start_def fresh_hub_def)
  have users: "fmlookup (tbl_users demo_db) 1 = Some (demo_user_rec 1 Admin)" "fmlookup (tbl_users demo_db) 2 = Some (demo_user_rec 2 User)"
      "db_faults demo_db = []"
    by (simp_all add: demo_db_def empty_database_def fmlookup_of_list)
  then have users1: "fmlookup (tbl_users ?d) 2 = Some (demo_user_rec 2 User)" by (simp add: update_user_def)
  have one: "hub_reach ?one"
    using demo_sign_in [OF demo_reach, of 1 1 Admin] start users demo_rows by (simp add: MAX_ONLINE_def)
  have "fmsize (fmupd 1 (new_session 1 1 (demo_row 1 Admin)) fmempty) < MAX_ONLINE"
    by (simp add: fmsize_upd MAX_ONLINE_def)
  then show ?thesis
    using demo_sign_in [OF one, of 2 2 User] start users users1 demo_rows
    by (simp add: demo_lobby_def demo_seen_def)
qed

text \<open>A first and a second member of the open room.\<close>

lemma fresh_allowance:
  assumes "0 \<le> b_capacity bs" "0 \<le> b_per_second bs" "is_f64 (b_capacity bs)" "1 \<le> b_capacity bs"
    "fmlookup (b_buckets bs) k = None"
  shows "fst (buckets_holds bs k 1 now)"
proof -
  have "fst (buckets_bucket bs k now) = bucket_full (b_capacity bs) (b_per_second bs) now"
    using assms(5) by (auto simp: buckets_bucket_def Let_def split: option.splits)
  then show ?thesis
    using refill_fresh [OF assms(1-3)] assms(4) by (simp add: buckets_holds_def Let_def split_beta bucket_full_def)
qed

lemma take_other:
  assumes "fmlookup (b_buckets bs) k = None" "k \<noteq> k'"
  shows "fmlookup (b_buckets (snd (buckets_take bs k' c now))) k = None"
    "fmlookup (b_buckets (snd (buckets_holds bs k' c now))) k = None"
  using assms by (auto simp: buckets_take_def buckets_holds_def buckets_bucket_def Let_def split: option.splits prod.splits if_splits)

lemma bucket_sizes [simp]:
  "b_capacity (snd (buckets_take bs k c now)) = b_capacity bs" "b_per_second (snd (buckets_take bs k c now)) = b_per_second bs"
  "b_capacity (snd (buckets_holds bs k c now)) = b_capacity bs" "b_per_second (snd (buckets_holds bs k c now)) = b_per_second bs"
  by (auto simp: buckets_take_def buckets_holds_def buckets_bucket_def Let_def split: option.splits prod.splits if_splits)

definition unspent :: "'k buckets \<Rightarrow> 'k \<Rightarrow> bool" where
  "unspent bs k \<longleftrightarrow> buckets_ok bs \<and> 1 \<le> b_capacity bs \<and> fmlookup (b_buckets bs) k = None"

lemma unspent_holds: "unspent bs k \<Longrightarrow> fst (buckets_holds bs k 1 now)"
  by (rule fresh_allowance) (auto simp: unspent_def buckets_ok_def)

lemma unspent_other:
  "unspent bs k \<Longrightarrow> k \<noteq> k' \<Longrightarrow> unspent (snd (buckets_take bs k' 1 now)) k"
  "unspent bs k \<Longrightarrow> k \<noteq> k' \<Longrightarrow> unspent (snd (buckets_holds bs k' 1 now)) k"
  using keyed.ok_spend [of bs 1 k' now] keyed.ok_holds [of bs k' 1 now]
  by (auto simp: unspent_def take_other)

text \<open>What a user needs to join room 1 of the demo server next.\<close>

definition demo_ready :: "user_id \<Rightarrow> role \<Rightarrow> hub \<Rightarrow> bool" where
  "demo_ready u role h \<longleftrightarrow> hub_reach h \<and> fmmap who (hb_sessions h) = fmmap who (hb_sessions demo_lobby) \<and>
     fmlookup (fmmap who (hb_sessions h)) u = Some (demo_row u role, u, unat u, False) \<and>
     map_option s_room (fmlookup (hb_sessions h) u) = Some None \<and>
     (\<exists>e. fmlookup (hb_rooms h) 1 = Some e \<and> fcard (e_members e) < MAX_ROOM_MEMBERS \<and> e_epoch e < 10 \<and> e_password_hash e = None) \<and>
     db_faults (hb_db h) = [] \<and> media_id_after (tbl_next_media_id (hb_db h)) < 100 \<and>
     unspent (hb_requests h) u \<and> unspent (hb_room_changes h) u"

lemma demo_may_join:
  assumes "demo_ready u role h"
  shows "is_current h u u" "can_place demo_env u 1 h" "open_to h u 1" "meters_ok h" "may_move demo_env u h"
proof -
  obtain s where s: "fmlookup (hb_sessions h) u = Some s" "who s = (demo_row u role, u, unat u, False)" "s_room s = None"
    using assms by (auto simp: demo_ready_def)
  obtain e where e: "fmlookup (hb_rooms h) 1 = Some e" "fcard (e_members e) < MAX_ROOM_MEMBERS" "e_epoch e < 10" "e_password_hash e = None"
    using assms by (auto simp: demo_ready_def)
  have "e_epoch e \<noteq> - 1" using e(3) by auto
  then show "can_place demo_env u 1 h"
    using s e assms by (simp add: can_place_def epoch_left_def demo_row_def demo_env_def demo_ready_def who_def)
  show "is_current h u u" using s by (simp add: is_current_def who_def)
  show "open_to h u 1" using s e by (simp add: open_to_def)
  have "unspent (hb_requests h) u" "unspent (hb_room_changes h) u" using assms by (simp_all add: demo_ready_def)
  then show "meters_ok h" "may_move demo_env u h"
    by (simp_all add: meters_ok_def may_move_def unspent_holds) (simp_all add: unspent_def)
qed

lemma demo_join:
  assumes "demo_ready u role h"
  obtains p h' where "handle demo_env u u (JoinRoom 1 None) h = (Done (PlacementR p), h')" "hub_reach h'" "joined u 1 h h'"
    "\<And>k. unspent (hb_requests h) k \<Longrightarrow> k \<noteq> u \<Longrightarrow> unspent (hb_requests h') k"
    "\<And>k. unspent (hb_room_changes h) k \<Longrightarrow> k \<noteq> u \<Longrightarrow> unspent (hb_room_changes h') k"
proof (rule join_succeeds [OF demo_may_join [OF assms], where pw = None])
  fix p h'
  assume run: "handle demo_env u u (JoinRoom 1 None) h = (Done (PlacementR p), h')" "joined u 1 h h'"
    and reqs: "hb_requests h' = snd (buckets_take (hb_requests h) u 1 (ev_now demo_env))"
      "hb_room_changes h' = snd (buckets_take (snd (buckets_holds (hb_room_changes h) u 1 (ev_now demo_env))) u 1 (ev_now demo_env))"
  have "hub_reach h'" using hub_reach.stepped [OF _ hub_step.requested [OF run(1)]] assms by (simp add: demo_ready_def)
  then show ?thesis using that run reqs unspent_other by metis
qed

lemma demo_ready_lobby: "demo_ready 1 Admin demo_lobby" "demo_ready 2 User demo_lobby"
proof -
  have new: "unspent (buckets_new REQUEST_BURST REQUESTS_PER_SECOND) (k :: user_id)"
      "unspent (buckets_new ROOM_CHANGE_BURST ROOM_CHANGES_PER_SECOND) k" for k
    by (simp_all add: unspent_def buckets_ok_def buckets_new_def REQUEST_BURST_def REQUESTS_PER_SECOND_def
        ROOM_CHANGE_BURST_def ROOM_CHANGES_PER_SECOND_def is_f64_def f64_round_numeral f64_div_def f64_round_nonneg)
  have fields: "hb_sessions demo_lobby = fmupd 2 (new_session 2 2 (demo_row 2 User)) (fmupd 1 (new_session 1 1 (demo_row 1 Admin)) fmempty)"
      "hb_rooms demo_lobby = demo_rooms" "hb_db demo_lobby = demo_seen"
      "hb_requests demo_lobby = buckets_new REQUEST_BURST REQUESTS_PER_SECOND"
      "hb_room_changes demo_lobby = buckets_new ROOM_CHANGE_BURST ROOM_CHANGES_PER_SECOND"
    by (simp_all add: demo_lobby_def demo_start_def fresh_hub_def)
  have db: "db_faults demo_seen = []" "tbl_next_media_id demo_seen = None"
    by (simp_all add: demo_seen_def demo_db_def empty_database_def)
  show "demo_ready 1 Admin demo_lobby" "demo_ready 2 User demo_lobby"
    by (simp_all add: demo_ready_def demo_lobby_reach fields new db who_def new_session_def media_default_def demo_rooms_def
        fmlookup_of_list fcard.rep_eq MAX_ROOM_MEMBERS_def media_id_after_def)
qed

theorem allowed_join_succeeds_witness:
  "\<exists>p h'. handle demo_env 2 2 (JoinRoom 1 None) demo_lobby = (Done (PlacementR p), h') \<and>
     map_option s_room (fmlookup (hb_sessions h') 2) = Some (Some 1)"
proof -
  obtain p h' where "handle demo_env 2 2 (JoinRoom 1 None) demo_lobby = (Done (PlacementR p), h')"
      "\<forall>u. map_option s_room (fmlookup (hb_sessions h') u) =
        (if u = 2 then Some (Some 1) else map_option s_room (fmlookup (hb_sessions demo_lobby) u))"
    using allowed_join_succeeds [OF demo_may_join [OF demo_ready_lobby(2)], of None] by blast
  then show ?thesis by metis
qed

text \<open>Both are in the room: a reachable state with two members.\<close>

lemma demo_members:
  "\<exists>h s x. hub_reach h \<and> fmlookup (hb_sessions h) 1 = Some s \<and> s_room s = Some 1 \<and> s_conn_id s = 1 \<and> s_handle s = 1 \<and>
     fmlookup (hb_sessions h) 2 = Some x \<and> s_room x = Some 1 \<and> s_handle x = 2 \<and> \<not> deafened (s_media x) \<and>
     fmdom (hb_sessions h) = {|1, 2|}"
proof (rule demo_join [OF demo_ready_lobby(1)])
  fix p h1
  assume one: "hub_reach h1" "joined 1 1 demo_lobby h1"
    and left: "\<And>k. unspent (hb_requests demo_lobby) k \<Longrightarrow> k \<noteq> 1 \<Longrightarrow> unspent (hb_requests h1) k"
      "\<And>k. unspent (hb_room_changes demo_lobby) k \<Longrightarrow> k \<noteq> 1 \<Longrightarrow> unspent (hb_room_changes h1) k"
  have who1: "fmmap who (hb_sessions h1) = fmmap who (hb_sessions demo_lobby)"
    using one(2) unfolding joined_def by blast
  obtain e where e: "fmlookup (hb_rooms demo_lobby) 1 = Some e" "e_members e = {||}" "e_epoch e = 0" "e_password_hash e = None"
    by (simp add: demo_lobby_def demo_start_def fresh_hub_def demo_rooms_def fmlookup_of_list)
  have "\<exists>e. fmlookup (hb_rooms h1) 1 = Some e \<and> fcard (e_members e) < MAX_ROOM_MEMBERS \<and> e_epoch e < 10 \<and> e_password_hash e = None"
    using one(2) e by (simp add: joined_def fcard.rep_eq MAX_ROOM_MEMBERS_def)
  moreover have "map_option s_room (fmlookup (hb_sessions h1) 2) = Some None"
    using one(2) demo_ready_lobby(2) unfolding joined_def demo_ready_def by (auto simp: numeral_eq_one_iff)
  moreover have "media_id_after (tbl_next_media_id (hb_db h1)) < 100"
    using one(2) by (simp add: joined_def demo_lobby_def demo_seen_def demo_db_def empty_database_def media_id_after_def)
  moreover have "unspent (hb_requests h1) 2" "unspent (hb_room_changes h1) 2"
    using left demo_ready_lobby(2) by (simp_all add: demo_ready_def)
  moreover have "fmlookup (fmmap who (hb_sessions h1)) 2 = Some (demo_row 2 User, 2, unat (2 :: user_id), False)"
    unfolding who1 using demo_ready_lobby(2) unfolding demo_ready_def by blast
  moreover have "db_faults (hb_db h1) = []" using one(2) unfolding joined_def by blast
  ultimately have "demo_ready 2 User h1" using one(1) who1 unfolding demo_ready_def by blast
  then show ?thesis
  proof (rule demo_join)
    fix p h2
    assume two: "hub_reach h2" "joined 2 1 h1 h2"
    have "fmmap who (hb_sessions h2) = fmmap who (hb_sessions demo_lobby)"
      using two(2) who1 unfolding joined_def by simp
    from arg_cong [OF this, of "\<lambda>m. fmlookup m 1"] arg_cong [OF this, of "\<lambda>m. fmlookup m 2"] arg_cong [OF this, of fmdom]
    obtain s x where "fmlookup (hb_sessions h2) 1 = Some s" "who s = (demo_row 1 Admin, 1, 1, False)"
        "fmlookup (hb_sessions h2) 2 = Some x" "who x = (demo_row 2 User, 2, 2, False)" "fmdom (hb_sessions h2) = {|1, 2|}"
      by (auto simp: demo_lobby_def who_def new_session_def media_default_def)
    moreover have "map_option s_room (fmlookup (hb_sessions h2) 1) = Some (Some 1)" "map_option s_room (fmlookup (hb_sessions h2) 2) = Some (Some 1)"
      using two(2) one(2) by (simp_all add: joined_def)
    ultimately show ?thesis using two(1) by (auto simp: who_def)
  qed
qed

end
