(* ===== verification/Hub_Routes.thy ===== *)
theory Hub_Routes
  imports Hub_Demo
begin

text \<open>
  What the forwarding table of a reachable hub says: every track of a member goes to the other
  members of the same room who may and want to receive it, and nothing else is forwarded.
\<close>

subsection \<open>Reading the table\<close>

lemma table_of_append: "table_of (xs @ [(m, r)]) = fmupd m r (table_of xs)"
  by (simp add: table_of_def)

lemma table_of_lookup:
  assumes "\<And>m r r'. (m, r) \<in> set l \<Longrightarrow> (m, r') \<in> set l \<Longrightarrow> r = r'"
  shows "fmlookup (table_of l) m = Some r \<longleftrightarrow> (m, r) \<in> set l"
  using assms
proof (induction l rule: rev_induct)
  case (snoc p l)
  obtain m' r' where p: "p = (m', r')" by (cases p)
  have "fmlookup (table_of l) m = Some r \<longleftrightarrow> (m, r) \<in> set l"
    using snoc.prems by (intro snoc.IH) auto
  moreover have "r = r'" if "m = m'" "(m, r) \<in> set l" using snoc.prems [of m r r'] that p by simp
  ultimately show ?case by (auto simp: p table_of_append)
qed (simp add: table_of_def)

definition members_of :: "hub \<Rightarrow> room_id \<Rightarrow> session set" where
  "members_of h room = {s. \<exists>u. fmlookup (hb_sessions h) u = Some s \<and> s_room s = Some room}"

lemma member_sessions_members:
  assumes "membership_ok (hb_sessions h) (hb_rooms h)" "fmlookup (hb_rooms h) room = Some e"
  shows "set (member_sessions (hb_sessions h) e) = members_of h room"
proof -
  have "set (member_sessions (hb_sessions h) e) = {s. \<exists>u. u |\<in>| e_members e \<and> fmlookup (hb_sessions h) u = Some s}"
    by (force simp: member_sessions_def members_list_def List.map_filter_def)
  moreover have "u |\<in>| e_members e \<longleftrightarrow> (\<exists>s. fmlookup (hb_sessions h) u = Some s \<and> s_room s = Some room)" for u
    using assms(1) [unfolded membership_ok_def, rule_format, of room u] assms(2) by auto
  ultimately show ?thesis by (auto simp: members_of_def)
qed

text \<open>The other members of a room, and the route each track of a member gets.\<close>

definition others_of :: "session list \<Rightarrow> session \<Rightarrow> session list" where
  "others_of ms s = filter (\<lambda>m. row_id (s_row m) \<noteq> row_id (s_row s)) ms"

lemma sender_routes_iff:
  assumes "s_tracks s = Some t"
  shows "(m, r) \<in> set (sender_routes ms s) \<longleftrightarrow>
    (m = t_mic t \<and> r = route_to (s_conn_id s) Audio (filter (\<lambda>x. \<not> deafened (s_media x)) (others_of ms s))) \<or>
    (\<exists>sh \<in> set (t_shares t).
       (m = st_video sh \<and> r = route_to (s_conn_id s) Video (filter (sees sh) (others_of ms s))) \<or>
       (m = st_audio sh \<and> r = route_to (s_conn_id s) Audio (filter (hears sh) (others_of ms s))))"
  using assms by (fastforce simp: sender_routes_def others_of_def Let_def)

lemma sender_routes_ids:
  "(m, r) \<in> set (sender_routes ms s) \<Longrightarrow> \<exists>t. s_tracks s = Some t \<and> m \<in> set (track_ids t)"
  by (cases "s_tracks s") (auto simp: sender_routes_iff track_ids_def, simp add: sender_routes_def)

text \<open>Distinct track ids: the audio and video ids of a member's shares tell the shares apart.\<close>

lemma share_ids_distinct:
  assumes "distinct (concat (map (\<lambda>sh. [st_video sh, st_audio sh]) shs))" "a \<in> set shs" "b \<in> set shs"
  shows "st_video a = st_video b \<Longrightarrow> a = b" "st_audio a = st_audio b \<Longrightarrow> a = b" "st_video a \<noteq> st_audio b"
proof -
  have "(st_video a = st_video b \<longrightarrow> a = b) \<and> (st_audio a = st_audio b \<longrightarrow> a = b) \<and> st_video a \<noteq> st_audio b"
    using assms
  proof (induction shs)
    case (Cons c shs)
    have "st_video d \<noteq> st_video c \<and> st_video d \<noteq> st_audio c \<and> st_audio d \<noteq> st_video c \<and> st_audio d \<noteq> st_audio c"
      if "d \<in> set shs" for d
      using Cons.prems(1) that by auto
    note apart = this
    have own: "st_video c \<noteq> st_audio c" using Cons.prems(1) by simp
    have rest: "distinct (concat (map (\<lambda>sh. [st_video sh, st_audio sh]) shs))" using Cons.prems(1) by simp
    consider "a = c" "b = c" | "a = c" "b \<in> set shs" | "a \<in> set shs" "b = c" | "a \<in> set shs" "b \<in> set shs"
      using Cons.prems(2,3) by auto
    then show ?case
    proof cases
      case 1 then show ?thesis using own by simp
    next
      case 2 then show ?thesis using apart [OF 2(2)] by auto
    next
      case 3 then show ?thesis using apart [OF 3(1)] by auto
    next
      case 4 then show ?thesis using Cons.IH [OF rest] by simp
    qed
  qed simp
  then show "st_video a = st_video b \<Longrightarrow> a = b" "st_audio a = st_audio b \<Longrightarrow> a = b" "st_video a \<noteq> st_audio b"
    by blast+
qed

lemma sender_routes_functional:
  assumes t: "s_tracks s = Some t" and dist: "distinct (track_ids t)"
    and "(m, r) \<in> set (sender_routes ms s)" "(m, r') \<in> set (sender_routes ms s)"
  shows "r = r'"
proof -
  have mic: "t_mic t \<noteq> st_video sh \<and> t_mic t \<noteq> st_audio sh" if "sh \<in> set (t_shares t)" for sh
    using dist that by (auto simp: track_ids_def)
  have shares: "distinct (concat (map (\<lambda>sh. [st_video sh, st_audio sh]) (t_shares t)))"
    using dist by (simp add: track_ids_def)
  note apart = share_ids_distinct [OF shares]
  show ?thesis
    using assms(3,4) unfolding sender_routes_iff [OF t]
    by (auto dest: mic apart(1,2) apart(3) apart(3) [THEN not_sym])
qed

lemma all_routes_iff:
  assumes ok: "base_ok h"
  shows "(m, r) \<in> set (all_routes (hb_sessions h) (hb_rooms h)) \<longleftrightarrow>
    (\<exists>room e s. fmlookup (hb_rooms h) room = Some e \<and> s \<in> members_of h room \<and>
       (m, r) \<in> set (sender_routes (member_sessions (hb_sessions h) e) s))"
proof -
  have mem: "membership_ok (hb_sessions h) (hb_rooms h)" using ok by (simp add: base_ok_def)
  have "(m, r) \<in> set (all_routes (hb_sessions h) (hb_rooms h)) \<longleftrightarrow>
      (\<exists>room e. fmlookup (hb_rooms h) room = Some e \<and> (m, r) \<in> set (room_routes (hb_sessions h) e))"
    by (force simp: all_routes_def fmlookup_dom'_iff)
  also have "\<dots> \<longleftrightarrow> (\<exists>room e s. fmlookup (hb_rooms h) room = Some e \<and> s \<in> set (member_sessions (hb_sessions h) e) \<and>
       (m, r) \<in> set (sender_routes (member_sessions (hb_sessions h) e) s))"
    by (auto simp: room_routes_def Let_def)
  finally show ?thesis using member_sessions_members [OF mem] by blast
qed

lemma members_apart:
  assumes base: "base_ok h" and s: "s \<in> members_of h room" "s_tracks s = Some t" "m \<in> set (track_ids t)"
    and s': "s' \<in> members_of h room'" "s_tracks s' = Some t'" "m \<in> set (track_ids t')"
  shows "s = s' \<and> room = room'"
proof -
  obtain u u' where u: "fmlookup (hb_sessions h) u = Some s" "s_room s = Some room"
      and u': "fmlookup (hb_sessions h) u' = Some s'" "s_room s' = Some room'"
    using s(1) s'(1) by (auto simp: members_of_def)
  then have "tracks_at (hb_sessions h) u = Some t" "tracks_at (hb_sessions h) u' = Some t'"
    using s(2) s'(2) by (simp_all add: tracks_at_def)
  then have "u = u'" using base s(3) s'(3) unfolding base_ok_def tracks_ok_def by blast
  then show ?thesis using u u' by simp
qed

lemma member_tracks_distinct:
  assumes "base_ok h" "s \<in> members_of h room" "s_tracks s = Some t"
  shows "distinct (track_ids t)"
proof -
  obtain u where "fmlookup (hb_sessions h) u = Some s" using assms(2) by (auto simp: members_of_def)
  then have "tracks_at (hb_sessions h) u = Some t" using assms(3) by (simp add: tracks_at_def)
  then show ?thesis using assms(1) unfolding base_ok_def tracks_ok_def by blast
qed

lemma all_routes_functional:
  assumes base: "base_ok h"
    and "(m, r) \<in> set (all_routes (hb_sessions h) (hb_rooms h))" "(m, r') \<in> set (all_routes (hb_sessions h) (hb_rooms h))"
  shows "r = r'"
proof -
  obtain room e s where s: "fmlookup (hb_rooms h) room = Some e" "s \<in> members_of h room"
      "(m, r) \<in> set (sender_routes (member_sessions (hb_sessions h) e) s)"
    using assms(2) all_routes_iff [OF base] by blast
  obtain room' e' s' where s': "fmlookup (hb_rooms h) room' = Some e'" "s' \<in> members_of h room'"
      "(m, r') \<in> set (sender_routes (member_sessions (hb_sessions h) e') s')"
    using assms(3) all_routes_iff [OF base] by blast
  obtain t t' where t: "s_tracks s = Some t" "m \<in> set (track_ids t)" "s_tracks s' = Some t'" "m \<in> set (track_ids t')"
    using sender_routes_ids [OF s(3)] sender_routes_ids [OF s'(3)] by blast
  have "s = s'" "room = room'" using members_apart [OF base s(2) t(1,2) s'(2) t(3,4)] by auto
  then show ?thesis
    using sender_routes_functional [OF t(1) member_tracks_distinct [OF base s(2) t(1)] s(3)] s'(3) s(1) s'(1) by auto
qed

lemma table_iff:
  assumes "hub_ok h"
  shows "fmlookup (hb_table h) m = Some r \<longleftrightarrow>
    (\<exists>room e s. fmlookup (hb_rooms h) room = Some e \<and> s \<in> members_of h room \<and>
       (m, r) \<in> set (sender_routes (member_sessions (hb_sessions h) e) s))"
proof -
  have base: "base_ok h" and table: "hb_table h = table_of (all_routes (hb_sessions h) (hb_rooms h))"
    using assms by (simp_all add: hub_ok_def routes_ok_def)
  have "fmlookup (hb_table h) m = Some r \<longleftrightarrow> (m, r) \<in> set (all_routes (hb_sessions h) (hb_rooms h))"
    unfolding table by (rule table_of_lookup) (rule all_routes_functional [OF base])
  then show ?thesis unfolding all_routes_iff [OF base] .
qed

text \<open>Who of a room's members receives a track of one of them.\<close>

definition receivers :: "hub \<Rightarrow> room_id \<Rightarrow> user_id \<Rightarrow> (session \<Rightarrow> bool) \<Rightarrow> handle_id set" where
  "receivers h room sender wants =
     {k. \<exists>u s. fmlookup (hb_sessions h) u = Some s \<and> s_room s = Some room \<and> u \<noteq> sender \<and> wants s \<and> s_handle s = k}"

lemma subscribers_receivers:
  assumes ok: "hub_ok h" and e: "fmlookup (hb_rooms h) room = Some e" and u: "fmlookup (hb_sessions h) u = Some s"
  shows "set (route_subscribers (route_to c kind (filter wants (others_of (member_sessions (hb_sessions h) e) s)))) =
    receivers h room u wants"
proof -
  have mem: "set (member_sessions (hb_sessions h) e) = members_of h room"
    using member_sessions_members [OF _ e] ok by (simp add: hub_ok_def base_ok_def)
  have ids: "row_id (s_row x) = v" if "fmlookup (hb_sessions h) v = Some x" for v x
    using ok that by (auto simp: hub_ok_def base_ok_def sessions_ok_def session_ok_def)
  show ?thesis
    using u by (auto simp: route_to_def others_of_def mem members_of_def receivers_def image_iff ids) (use ids in metis)+
qed

lemma entry_of_member:
  assumes "hub_ok h" "fmlookup (hb_sessions h) u = Some s" "s_room s = Some room"
  obtains e t where "fmlookup (hb_rooms h) room = Some e" "s_tracks s = Some t" "s \<in> members_of h room"
proof -
  have "\<exists>e. fmlookup (hb_rooms h) room = Some e \<and> u |\<in>| e_members e"
    using assms unfolding hub_ok_def base_ok_def membership_ok_def by blast
  moreover have "session_ok u s" using assms by (simp add: hub_ok_def base_ok_def sessions_ok_def)
  then have "s_tracks s \<noteq> None" using assms(3) unfolding session_ok_def by simp
  ultimately show ?thesis using that assms(2,3) by (auto simp: members_of_def)
qed

text \<open>The track \<open>m\<close> is forwarded, under the connection \<open>owner\<close>, to exactly \<open>ks\<close>.\<close>

definition routed :: "hub \<Rightarrow> media_id \<Rightarrow> u64 \<Rightarrow> track_kind \<Rightarrow> handle_id set \<Rightarrow> bool" where
  "routed h m owner kind ks \<longleftrightarrow> (\<exists>r. fmlookup (hb_table h) m = Some r \<and> route_owner r = owner \<and>
     route_kind r = kind \<and> set (route_subscribers r) = ks)"

lemma routed_member:
  assumes ok: "hub_ok h" and e: "fmlookup (hb_rooms h) room = Some e" and u: "fmlookup (hb_sessions h) u = Some s"
    and s: "s \<in> members_of h room"
    and route: "(m, route_to (s_conn_id s) kind (filter wants (others_of (member_sessions (hb_sessions h) e) s)))
      \<in> set (sender_routes (member_sessions (hb_sessions h) e) s)"
  shows "routed h m (s_conn_id s) kind (receivers h room u wants)"
proof -
  have "fmlookup (hb_table h) m = Some (route_to (s_conn_id s) kind (filter wants (others_of (member_sessions (hb_sessions h) e) s)))"
    unfolding table_iff [OF ok] using e s route by blast
  then show ?thesis
    unfolding routed_def using subscribers_receivers [OF ok e u] by (auto simp: route_to_def)
qed

lemma mic_routed:
  assumes ok: "hub_ok h" and u: "fmlookup (hb_sessions h) u = Some s" "s_room s = Some room" and t: "s_tracks s = Some t"
  shows "routed h (t_mic t) (s_conn_id s) Audio (receivers h room u (\<lambda>x. \<not> deafened (s_media x)))"
proof -
  obtain e t' where e: "fmlookup (hb_rooms h) room = Some e" "s_tracks s = Some t'" "s \<in> members_of h room"
    using entry_of_member [OF ok u] .
  show ?thesis
    by (rule routed_member [OF ok e(1) u(1) e(3)]) (simp add: sender_routes_iff [OF t])
qed

lemma only_receiver:
  assumes "fmdom (hb_sessions h) = {|1, 2|}" "fmlookup (hb_sessions h) 2 = Some x" "s_room x = Some room" "s_handle x = k" "wants x"
  shows "receivers h room 1 wants = {k}"
proof -
  have "u = 1 \<or> u = 2" if "fmlookup (hb_sessions h) u = Some s" for u s
    using assms(1) fmdomI [OF that] by auto
  then show ?thesis using assms by (force simp: receivers_def)
qed

text \<open>
  C11. Media goes exactly where the memberships say: in every reachable state the microphone of a
  member is forwarded, under the member's connection, to every other member of the room who is not
  deafened; each video track to every other member who watches it; and each share's audio to every
  other member who watches it and is not deafened. To nobody else.
\<close>

theorem forwarding_follows_membership:
  assumes "hub_reach h" "fmlookup (hb_sessions h) u = Some s" "s_room s = Some room"
  shows "\<exists>t. s_tracks s = Some t \<and>
    routed h (t_mic t) (s_conn_id s) Audio (receivers h room u (\<lambda>x. \<not> deafened (s_media x))) \<and>
    (\<forall>sh \<in> set (t_shares t).
       routed h (st_video sh) (s_conn_id s) Video (receivers h room u (\<lambda>x. st_video sh \<in> set (s_watching x))) \<and>
       routed h (st_audio sh) (s_conn_id s) Audio
         (receivers h room u (\<lambda>x. st_audio sh \<in> set (s_watching x) \<and> \<not> deafened (s_media x))))"
proof -
  have ok: "hub_ok h" using assms(1) by (rule hub_reach_ok)
  obtain e t where e: "fmlookup (hb_rooms h) room = Some e" "s_tracks s = Some t" "s \<in> members_of h room"
    using entry_of_member [OF ok assms(2,3)] .
  note member = routed_member [OF ok e(1) assms(2) e(3)]
  have "routed h (t_mic t) (s_conn_id s) Audio (receivers h room u (\<lambda>x. \<not> deafened (s_media x)))"
    by (rule mic_routed [OF ok assms(2,3) e(2)])
  moreover have "routed h (st_video sh) (s_conn_id s) Video (receivers h room u (sees sh))"
      "routed h (st_audio sh) (s_conn_id s) Audio (receivers h room u (hears sh))" if "sh \<in> set (t_shares t)" for sh
    using that by (auto intro!: member simp: sender_routes_iff [OF e(2)])
  moreover have "sees sh = (\<lambda>x. st_video sh \<in> set (s_watching x))"
      "hears sh = (\<lambda>x. st_audio sh \<in> set (s_watching x) \<and> \<not> deafened (s_media x))" for sh
    by (simp_all add: fun_eq_iff sees_def hears_def)
  ultimately show ?thesis using e(2) by simp
qed

theorem forwarding_follows_membership_witness:
  "\<exists>h s t. hub_reach h \<and> fmlookup (hb_sessions h) 1 = Some s \<and> s_room s = Some 1 \<and> s_tracks s = Some t \<and>
     routed h (t_mic t) 1 Audio {2}"
proof -
  obtain h s x where h: "hub_reach h" "fmlookup (hb_sessions h) 1 = Some s" "s_room s = Some 1" "s_conn_id s = 1"
      "fmlookup (hb_sessions h) 2 = Some x" "s_room x = Some 1" "s_handle x = 2" "\<not> deafened (s_media x)"
      "fmdom (hb_sessions h) = {|1, 2|}"
    using demo_members by blast
  then show ?thesis
    using forwarding_follows_membership [OF h(1-3)] only_receiver [OF h(9,5,6,7), of "\<lambda>x. \<not> deafened (s_media x)"]
    by auto
qed

text \<open>
  C2. Media never leaves its room: whatever a reachable hub forwards belongs to a session that is
  in some room, and each connection it is forwarded to belongs to another user's session in the
  same room.
\<close>

theorem media_stays_in_its_room:
  assumes "hub_reach h" "fmlookup (hb_table h) m = Some r" "k \<in> set (route_subscribers r)"
  shows "\<exists>room u s t v x. fmlookup (hb_sessions h) u = Some s \<and> s_room s = Some room \<and> s_tracks s = Some t \<and>
    m \<in> set (track_ids t) \<and> route_owner r = s_conn_id s \<and>
    fmlookup (hb_sessions h) v = Some x \<and> s_room x = Some room \<and> v \<noteq> u \<and> s_handle x = k"
proof -
  have ok: "hub_ok h" using assms(1) by (rule hub_reach_ok)
  obtain room e s where e: "fmlookup (hb_rooms h) room = Some e" "s \<in> members_of h room"
      "(m, r) \<in> set (sender_routes (member_sessions (hb_sessions h) e) s)"
    using assms(2) table_iff [OF ok] by blast
  obtain u where u: "fmlookup (hb_sessions h) u = Some s" "s_room s = Some room"
    using e(2) by (auto simp: members_of_def)
  obtain t where t: "s_tracks s = Some t" "m \<in> set (track_ids t)" using sender_routes_ids [OF e(3)] by blast
  obtain kind wants where r: "r = route_to (s_conn_id s) kind (filter wants (others_of (member_sessions (hb_sessions h) e) s))"
    using e(3) unfolding sender_routes_iff [OF t(1)] by blast
  have "k \<in> receivers h room u wants" using assms(3) subscribers_receivers [OF ok e(1) u(1)] r by simp
  moreover have "route_owner r = s_conn_id s" by (simp add: r route_to_def)
  ultimately show ?thesis using u t unfolding receivers_def by blast
qed

theorem media_stays_in_its_room_witness:
  "\<exists>h m r room u s t v x. hub_reach h \<and> fmlookup (hb_table h) m = Some r \<and> 2 \<in> set (route_subscribers r) \<and>
    fmlookup (hb_sessions h) u = Some s \<and> s_room s = Some room \<and> s_tracks s = Some t \<and> m \<in> set (track_ids t) \<and>
    route_owner r = s_conn_id s \<and>
    fmlookup (hb_sessions h) v = Some x \<and> s_room x = Some room \<and> v \<noteq> u \<and> s_handle x = 2"
proof -
  obtain h s x where h: "hub_reach h" "fmlookup (hb_sessions h) 1 = Some s" "s_room s = Some 1" "s_conn_id s = 1"
      "fmlookup (hb_sessions h) 2 = Some x" "s_room x = Some 1" "s_handle x = 2" "\<not> deafened (s_media x)"
      "fmdom (hb_sessions h) = {|1, 2|}"
    using demo_members by blast
  have ok: "hub_ok h" using h(1) by (rule hub_reach_ok)
  obtain t where t: "s_tracks s = Some t" using entry_of_member [OF ok h(2,3)] by blast
  have "receivers h 1 1 (\<lambda>x. \<not> deafened (s_media x)) = {2}" using only_receiver [OF h(9,5,6,7)] h(8) by simp
  then obtain r where r: "fmlookup (hb_table h) (t_mic t) = Some r" "2 \<in> set (route_subscribers r)"
    using mic_routed [OF ok h(2,3) t] by (auto simp: routed_def)
  from media_stays_in_its_room [OF h(1) r] show ?thesis using h(1) r by blast
qed

end
