(* ===== verification/Hub_Entry.thy ===== *)
theory Hub_Entry
  imports Hub_Demo
begin

text \<open>
  Who gets into which room: of all requests only joining and the password check that finishes one
  put anybody into a room they were not in, and they put in only the user who asked, and only into
  a room that is open to them or whose present password they gave.
\<close>

subsection \<open>Views of the places of users\<close>

definition in_room :: "hub \<Rightarrow> user_id \<Rightarrow> room_id \<Rightarrow> bool" where
  "in_room h user room \<longleftrightarrow> map_option s_room (fmlookup (hb_sessions h) user) = Some (Some room)"

definition places_same :: "hub \<Rightarrow> hub \<Rightarrow> bool" where
  "places_same h h' \<longleftrightarrow>
     (\<forall>u. map_option s_room (fmlookup (hb_sessions h) u) = map_option s_room (fmlookup (hb_sessions h') u))"

lemma places_same_refl [simp]: "places_same h h"
  by (simp add: places_same_def)

lemma places_same_trans: "places_same a b \<Longrightarrow> places_same b c \<Longrightarrow> places_same a c"
  by (simp add: places_same_def)

lemma places_same_hub: "hub_same h h' \<Longrightarrow> places_same h h'"
  unfolding places_same_def
proof
  fix u
  assume "hub_same h h'"
  then have "fmmap forget (hb_sessions h) = fmmap forget (hb_sessions h')"
    unfolding hub_same_def by (rule conjunct1)
  from arg_cong [OF this, of "\<lambda>m. map_option s_room (fmlookup m u)"]
  show "map_option s_room (fmlookup (hb_sessions h) u) = map_option s_room (fmlookup (hb_sessions h') u)"
    by (simp add: option.map_comp comp_def)
qed

lemma places_same_sessions: "hb_sessions h' = hb_sessions h \<Longrightarrow> places_same h h'"
  by (simp add: places_same_def)

lemma places_same_update: "(\<And>s. s_room (f s) = s_room s) \<Longrightarrow> places_same h (update_session user f h)"
  by (simp add: places_same_def update_session_def split: option.split)

lemma places_same_rebuild: "places_same h (rebuild_routes h)"
proof -
  have "places_same h (h\<lparr> hb_table := a, hb_audiences := b \<rparr>)" for a b by (simp add: places_same_def)
  then show ?thesis using places_same_trans places_same_hub [OF rebuild_routes_result] by blast
qed

locale place_view =
  fixes P :: "hub \<Rightarrow> bool"
  assumes same_places: "places_same h h' \<Longrightarrow> P h = P h'"

sublocale place_view \<subseteq> hub_view P
  by unfold_locales (rule same_places [OF places_same_hub])

context place_view
begin

lemma keeps_places: "(\<And>h. places_same h (f h)) \<Longrightarrow> keeps P (modifyE f)"
  using same_places by (auto intro: keeps_modify)

lemma keeps_any_db: "keeps P (with_db err m)"
proof (rule keepsI)
  fix h
  assume "P h"
  moreover have "places_same h (snd (with_db err m h))"
    using with_db_state [of err m h] by (cases "with_db err m h") (simp add: places_same_def)
  ultimately show "P (snd (with_db err m h))" using same_places by blast
qed

lemma keeps_rooms:
  "keeps P (add_room name pw)" "keeps P (rename_room user room name)" "keeps P (store_room_password room hash)"
  "keeps P (bump_epochs rooms)"
  unfolding add_room_def rename_room_def store_room_password_def bump_epochs_def
  by (intro request_intros keeps_any_db keeps_places places_same_sessions; simp)+

lemma keeps_media: "keeps P (set_watched E user ids)" "keeps P (set_media E user media)"
proof -
  have "places_same h (rebuild_routes (update_session user (\<lambda>s. s\<lparr> s_watching := ids \<rparr>) h))" for h
    by (intro places_same_trans [OF places_same_update places_same_rebuild]) simp
  moreover have "places_same h (fold (\<lambda>m h. case share_track h m of
       Some (owner, Video) \<Rightarrow> ask_keyframe E owner m Idr h | _ \<Rightarrow> h) started h)" for started h
    by (rule places_same_hub [OF hub_same_fold]) (auto simp: hub_same_ask_keyframe split: option.splits track_kind.splits)
  ultimately show "keeps P (set_watched E user ids)"
    unfolding set_watched_def by (intro request_intros keeps_places)
  have "places_same h (update_session user (\<lambda>s. s\<lparr> s_media := media \<rparr>) h)" for h media
    by (rule places_same_update) simp
  moreover have "places_same h (let h = (if a then broadcast_peers room None h else h); h = (if b then rebuild_routes h else h)
      in announce_presence user h)" for h a b room
  proof -
    have "places_same g (if b then rebuild_routes g else g)" for g using places_same_rebuild by simp
    moreover have "places_same g (if a then broadcast_peers room None g else g)" for g
      using places_same_hub [OF hub_same_quiet [OF quiet_broadcast_peers]] by simp
    ultimately show ?thesis
      unfolding Let_def using places_same_trans places_same_hub [OF hub_same_quiet [OF quiet_announce_presence]] by blast
  qed
  ultimately show "keeps P (set_media E user media)"
    unfolding set_media_def by (intro request_intros keeps_places)
qed

lemma keeps_key: "keeps P (set_encryption_key E user key)"
proof -
  have "places_same h (update_session user (\<lambda>s. s\<lparr> s_row := (s_row s)\<lparr> row_encryption_key := Some key \<rparr> \<rparr>) h)" for h
    by (rule places_same_update) simp
  then show ?thesis
    unfolding set_encryption_key_def by (intro request_intros keeps_rooms(4) keeps_quiet keeps_places quiet_intros)
qed

lemma keeps_making: "keeps P (create_room user name password)" "keeps P (set_room_password user room password)"
  unfolding create_room_def set_room_password_def by (intro request_intros keeps_rooms)+

lemmas place_intros = request_intros keeps_rooms keeps_media keeps_key keeps_making

end

subsection \<open>Leaving\<close>

text \<open>Nobody is in a room in \<open>h\<close> who was not in it in \<open>g\<close>.\<close>

definition none_new :: "hub \<Rightarrow> hub \<Rightarrow> bool" where
  "none_new g h \<longleftrightarrow> (\<forall>u room. in_room h u room \<longrightarrow> in_room g u room)"

abbreviation outside :: "user_id \<Rightarrow> room_id \<Rightarrow> hub \<Rightarrow> bool" where
  "outside u room h \<equiv> \<not> in_room h u room"

interpretation outside: place_view "outside u room" for u room
  by unfold_locales (simp add: places_same_def in_room_def)

lemma none_new_trans: "none_new a b \<Longrightarrow> none_new b c \<Longrightarrow> none_new a c"
  by (auto simp: none_new_def)

lemma none_new_places: "places_same h h' \<Longrightarrow> none_new h h'"
  by (simp add: none_new_def places_same_def in_room_def)

lemma keeps_outside: "(\<And>h. none_new h (f h)) \<Longrightarrow> keeps (outside u room) (modifyE f)"
  by (rule keeps_modify) (auto simp: none_new_def)

lemma place_none_new:
  assumes "place E user target h = (r, h')"
  shows "in_room h' u room \<Longrightarrow> \<not> in_room h u room \<Longrightarrow> u = user \<and> target = Some room \<and> isl r = False"
proof (cases r)
  case (Inl e)
  from assms have "spent_ids h h'" by (cases rule: place_result) (use Inl in auto)
  then show "in_room h' u room \<Longrightarrow> \<not> in_room h u room \<Longrightarrow> u = user \<and> target = Some room \<and> isl r = False"
    by (simp add: in_room_def spent_ids_fields)
next
  case (Inr p)
  then show "in_room h' u room \<Longrightarrow> \<not> in_room h u room \<Longrightarrow> u = user \<and> target = Some room \<and> isl r = False"
    using place_rooms [OF assms [unfolded Inr], of u] unfolding in_room_def by (auto split: if_splits)
qed

lemma place_keeps_outside:
  assumes "u \<noteq> user \<or> target \<noteq> Some room"
  shows "keeps (outside u room) (place E user target)"
proof (rule keepsI)
  fix h
  assume "outside u room h"
  moreover obtain r h' where "place E user target h = (r, h')" by fastforce
  ultimately show "outside u room (snd (place E user target h))"
    using place_none_new [of E user target h r h' u room] assms by auto
qed

lemma none_new_membership: "none_new h (set_membership user None t h)"
  by (auto simp: none_new_def in_room_def set_membership_def Let_def split: option.splits if_splits)

lemma none_new_leave: "none_new h (leave_room E user h)"
proof -
  obtain r h1 where run: "place E user None h = (r, h1)" by fastforce
  have one: "none_new h h1"
    using place_none_new [OF run] by (auto simp: none_new_def)
  let ?out = "\<lambda>room g. rebuild_routes (emit_all (PresenceEnded user) (broadcast_peers room None
                 (set_membership user None None (remove_member user (Some room) g))))"
  have "none_new g (?out room g)" for room g
  proof -
    have "places_same g (remove_member user (Some room) g)" by (rule places_same_sessions) simp
    moreover have "places_same x (rebuild_routes (emit_all ev (broadcast_peers room None x)))" for x ev
      using places_same_trans [OF places_same_trans [OF places_same_hub [OF hub_same_quiet [OF quiet_broadcast_peers]]
        places_same_hub [OF hub_same_quiet [OF quiet_emit_all]]] places_same_rebuild] .
    ultimately show ?thesis using none_new_membership none_new_places none_new_trans by meson
  qed
  then show ?thesis
    using one run none_new_trans [OF one] none_new_places [OF places_same_refl]
    by (auto simp: leave_room_def split: sum.split option.split)
qed

lemma none_new_drop: "none_new h (h\<lparr> hb_sessions := fmdrop user (hb_sessions h) \<rparr>)"
  by (auto simp: none_new_def in_room_def split: if_splits)

lemma none_new_evict: "none_new h (evict E user reason h)"
proof -
  let ?h = "leave_room E user h"
  have "none_new h (kick k reason REMOVED (?h\<lparr> hb_sessions := fmdrop user (hb_sessions ?h) \<rparr>))" for k
    using none_new_trans [OF none_new_trans [OF none_new_leave none_new_drop]
      none_new_places [OF places_same_hub [OF hub_same_quiet [OF quiet_kick]]]] .
  then show ?thesis using none_new_leave by (simp add: evict_def Let_def split: option.split)
qed

lemma none_new_last_joined: "none_new h (h\<lparr> hb_last_joined := l \<rparr>)"
  by (simp add: none_new_def in_room_def)

lemma none_new_removed: "none_new h (removed_one E user h)"
  unfolding removed_one_def
  using none_new_trans [OF none_new_trans [OF none_new_last_joined none_new_evict]
      none_new_places [OF places_same_hub [OF hub_same_quiet [OF quiet_emit_user_list_change]]]] .

lemma none_new_fold: "(\<And>x h. none_new h (f x h)) \<Longrightarrow> none_new h (fold f xs h)"
  by (induction xs arbitrary: h) (auto intro: none_new_trans none_new_places)

lemma removing_keeps:
  "keeps (outside u q) (kick_from_room E user target room)" "keeps (outside u q) (remove_user E user target cascade)"
  "keeps (outside u q) (delete_room E user room)"
proof -
  have "none_new h (emit_to target ev (leave_room E target (h\<lparr> hb_last_joined := l h \<rparr>)))" for h ev l
    using none_new_trans [OF none_new_trans [OF none_new_last_joined none_new_leave]
      none_new_places [OF places_same_hub [OF hub_same_quiet [OF quiet_emit_to]]]] .
  then show "keeps (outside u q) (kick_from_room E user target room)"
    unfolding kick_from_room_def by (intro outside.request_intros keeps_outside)
  show "keeps (outside u q) (remove_user E user target cascade)"
    unfolding remove_user_def by (intro outside.request_intros keeps_outside none_new_fold none_new_removed)
  have "places_same h (emit_all ev (h\<lparr> hb_rooms := rs, hb_last_joined := l \<rparr>))" for h ev rs l
    by (rule places_same_sessions) simp
  then show "keeps (outside u q) (delete_room E user room)"
    unfolding delete_room_def by (intro outside.place_intros outside.keeps_any_db outside.keeps_places place_keeps_outside) auto
qed

subsection \<open>Entering\<close>

lemma enter_keeps_outside:
  assumes "u \<noteq> user \<or> target \<noteq> Some room"
  shows "keeps (outside u room) (enter E user target)"
  unfolding enter_def
  by (intro outside.place_intros place_keeps_outside [OF assms] keeps_outside none_new_last_joined)

text \<open>Joining puts in nobody unless the room is open to the user.\<close>

lemma password_to_enter_open:
  assumes "password_to_enter user room h = (Inr x, h')" "fmlookup (hb_sessions h) user \<noteq> None"
  shows "h' = h" "x = None \<Longrightarrow> open_to h user room \<or> in_room h user room"
    "x = Some hash \<Longrightarrow> \<exists>e. fmlookup (hb_rooms h) room = Some e \<and> e_password_hash e = Some hash"
  using assms
  by (auto simp: password_to_enter_def get_entry_def get_session_def get_role_def bindE_def
      open_to_def in_room_def split: option.splits if_splits)

lemma needed_password_open:
  assumes "needed_password user (Some room) h = (Inr None, h')" "fmlookup (hb_sessions h) user \<noteq> None"
  shows "h' = h" "open_to h user room \<or> in_room h user room"
proof -
  have "password_to_enter user room h = (Inr None, h')"
    using assms(1) by (auto simp: needed_password_def bindE_def split: prod.splits sum.splits)
  from password_to_enter_open [OF this assms(2)] show "h' = h" "open_to h user room \<or> in_room h user room" by auto
qed

lemma join_keeps_outside:
  assumes "u \<noteq> user \<or> target \<noteq> Some room"
  shows "keeps (outside u room) (join E user target pw)"
  unfolding join_def by (intro outside.place_intros enter_keeps_outside [OF assms])

text \<open>
  \<open>leads P m Q\<close>: run from a state with \<open>P\<close>, \<open>m\<close> ends in one with \<open>Q\<close>, whatever it answers. A composite
  is followed through parts that keep \<open>P\<close>, with what they answered at hand.
\<close>

definition leads :: "('s \<Rightarrow> bool) \<Rightarrow> ('s, 'e, 'a) se \<Rightarrow> ('s \<Rightarrow> bool) \<Rightarrow> bool" where
  "leads P m Q \<longleftrightarrow> (\<forall>s. P s \<longrightarrow> Q (snd (m s)))"

lemma leads_bind:
  assumes "keeps P m" "\<And>s. P s \<Longrightarrow> Q s" "\<And>x s t. P s \<Longrightarrow> m s = (Inr x, t) \<Longrightarrow> leads P (f x) Q"
  shows "leads P (bindE m f) Q"
  unfolding leads_def
proof (intro allI impI)
  fix s
  assume P: "P s"
  obtain r t where run: "m s = (r, t)" by fastforce
  have "P t" using keepsD' [OF assms(1) run P] .
  then show "Q (snd (bindE m f s))"
    using assms(2) assms(3) [OF P, of _ t] run by (cases r) (auto simp: bindE_def leads_def)
qed

lemma leads_keeps: "keeps Q m \<Longrightarrow> (\<And>s. P s \<Longrightarrow> Q s) \<Longrightarrow> leads P m Q"
  by (simp add: leads_def keeps_def)

lemma leads_if: "(b \<Longrightarrow> leads P m Q) \<Longrightarrow> (\<not> b \<Longrightarrow> leads P n Q) \<Longrightarrow> leads P (if b then m else n) Q"
  by simp

definition still :: "hub \<Rightarrow> hub \<Rightarrow> bool" where
  "still g h \<longleftrightarrow> hb_sessions h = hb_sessions g \<and> hb_rooms h = hb_rooms g"

lemma still_open: "still h g \<Longrightarrow> open_to g user room = open_to h user room"
  by (simp add: still_def open_to_def cong: option.case_cong)

lemma still_keeps:
  "keeps I (enters_another_room user target)" "keeps I (refuse_full user target)" "keeps I (needed_password user target)"
  "keeps I (password_to_enter user room)"
  "keeps (still g) (if b then ask_buckets hb_room_changes hb_room_changes_update op else retE True)"
  unfolding enters_another_room_def refuse_full_def needed_password_def password_to_enter_def get_session_def get_entry_def get_role_def
  by (intro keeps_intros; auto simp: keeps_def ask_buckets_def still_def split: prod.split)+

lemma join_opens:
  assumes shut: "\<not> open_to h user room" and out: "outside user room h" and session: "fmlookup (hb_sessions h) user \<noteq> None"
  shows "leads (still h) (join E user (Some room) pw) (outside user room)"
proof -
  have start: "outside user room g" if "still h g" for g using that out by (simp add: still_def in_room_def)
  have "needed \<noteq> None" if "still h g" "needed_password user (Some room) g = (Inr needed, t)" for needed g t
  proof
    assume "needed = None"
    moreover have "fmlookup (hb_sessions g) user \<noteq> None" using that(1) session by (simp add: still_def)
    ultimately have "open_to g user room \<or> in_room g user room" using needed_password_open(2) that(2) by blast
    then show False using still_open [OF that(1)] shut start [OF that(1)] by blast
  qed
  moreover have "keeps (outside user room) (case needed of
       None \<Rightarrow> bindE (enter E user (Some room)) (\<lambda>r. retE (Done r))
     | Some (room, hash) \<Rightarrow>
         (case pw of
            None \<Rightarrow> failE (Refusal WrongPassword ''this room needs a password'')
          | Some password \<Rightarrow>
              bindE (check_guess E user room) (\<lambda>_.
              bindE (ask_buckets hb_password_tries hb_password_tries_update
                       (\<lambda>bs. buckets_take bs user 1 (ev_now E))) (\<lambda>taken.
              if \<not> taken
              then failE (Refusal RateLimited ''too many password attempts; wait a few seconds'')
              else retE (Pending (WorkJoin room password hash))))))" if "needed \<noteq> None" for needed
    using that by (intro outside.place_intros) simp
  ultimately show ?thesis
    unfolding join_def
    by (intro leads_bind leads_if still_keeps start leads_keeps [OF _ start] keeps_fail) blast+
qed

lemma request_keeps_outside:
  assumes "\<not> (u = user \<and> (\<exists>pw. request = JoinRoom room pw))"
  shows "keeps (outside u room) (dispatch_request E user request)"
proof (cases request)
  case (JoinRoom q pw)
  then have "u \<noteq> user \<or> Some q \<noteq> Some room" using assms by auto
  then show ?thesis unfolding JoinRoom dispatch_request.simps by (rule join_keeps_outside)
next
  case LeaveRoom
  show ?thesis unfolding LeaveRoom dispatch_request.simps by (rule join_keeps_outside) simp
next
  case (SetProfile x y)
  show ?thesis unfolding SetProfile dispatch_request.simps done_with_def by (intro outside.place_intros)
qed (simp_all only: dispatch_request.simps done_with_def, (rule outside.place_intros removing_keeps; (rule outside.place_intros removing_keeps)?; fail)+)

text \<open>
  C4. No request puts anybody into a room they were not in, except that a request to join a room
  puts in the user who made it, and only when that room has no password or the user manages rooms.
\<close>

theorem requests_enter_open_rooms_only:
  assumes run: "handle E user cid request h = (r, h')" and entered: "in_room h' u room" "\<not> in_room h u room"
  shows "u = user \<and> (\<exists>pw. request = JoinRoom room pw) \<and> open_to h user room"
proof -
  have h': "h' = snd (dispatch E user cid request h)"
    using run by (cases "dispatch E user cid request h"; cases "fst (dispatch E user cid request h)") (auto simp: handle_def)
  have join: "u = user \<and> (\<exists>pw. request = JoinRoom room pw)"
  proof (rule ccontr)
    assume "\<not> ?thesis"
    then have "keeps (outside u room) (dispatch E user cid request)"
      unfolding dispatch_def by (intro keeps_bind outside.keeps_lookups(1) outside.keeps_keys(2) request_keeps_outside)
    from keepsD [OF this, of h] show False using entered h' by simp
  qed
  then obtain pw where pw: "request = JoinRoom room pw" by blast
  have "open_to h user room"
  proof (rule ccontr)
    assume shut: "\<not> open_to h user room"
    show False
    proof (cases "fmlookup (hb_sessions h) user")
      case None
      then have "h' = h" by (simp add: h' dispatch_def require_current_def is_current_def bindE_def)
      then show False using entered by simp
    next
      case (Some s)
      have out: "outside user room g" if "still h g" for g using that entered(2) join by (simp add: still_def in_room_def)
      have "keeps (still h) (require_current user cid)" "keeps (still h) (charge_request E user request)"
        by (auto simp: pw keeps_def require_current_def charge_request_def bindE_def ask_buckets_def still_def split_beta)
      then have "leads (still h) (dispatch E user cid request) (outside user room)"
        unfolding dispatch_def pw dispatch_request.simps
        by (intro leads_bind out join_opens [OF shut]) (use Some in \<open>auto simp: still_def\<close>)
      then show False using entered(1) join h' by (auto simp: leads_def still_def)
    qed
  qed
  with join show ?thesis by blast
qed

lemma demo_outside: "\<not> in_room demo_lobby 2 room"
  by (simp add: in_room_def demo_lobby_def new_session_def)

theorem requests_enter_open_rooms_only_witness:
  "\<exists>r h'. handle demo_env 2 2 (JoinRoom 1 None) demo_lobby = (r, h') \<and> in_room h' 2 1 \<and> \<not> in_room demo_lobby 2 1 \<and>
     open_to demo_lobby 2 1"
proof (rule join_succeeds [OF demo_may_join [OF demo_ready_lobby(2)], where pw = None])
  fix p h'
  assume run: "handle demo_env 2 2 (JoinRoom 1 None) demo_lobby = (Done (PlacementR p), h')" and joined: "joined 2 1 demo_lobby h'"
  have "in_room h' 2 1" using joined by (simp only: joined_def in_room_def simp_thms if_True)
  moreover have "\<not> in_room demo_lobby 2 1" by (rule demo_outside)
  ultimately show ?thesis using requests_enter_open_rooms_only [OF run] run by blast
qed

lemma finish_join_opens:
  assumes shut: "\<not> open_to h user room" and out: "outside user room h" and session: "fmlookup (hb_sessions h) user \<noteq> None"
    and other: "\<And>e. fmlookup (hb_rooms h) room = Some e \<Longrightarrow> e_password_hash e \<noteq> Some hash"
  shows "leads (still h) (finish_join E user room hash matched) (outside user room)"
proof -
  have start: "outside user room g" if "still h g" for g using that out by (simp add: still_def in_room_def)
  have "(case current of None \<Rightarrow> False | Some c \<Rightarrow> c \<noteq> hash)"
    if "still h g" "password_to_enter user room g = (Inr current, t)" for current g t
  proof (cases current)
    case None
    then show ?thesis
      using password_to_enter_open(2) [OF that(2)] still_open [OF that(1)] start [OF that(1)] shut session that(1)
      by (simp add: still_def)
  next
    case (Some c)
    then show ?thesis
      using password_to_enter_open(3) [OF that(2) _ Some] session that(1) other by (auto simp: still_def)
  qed
  moreover have "keeps (still h) (modifyE (\<lambda>h. h\<lparr> hb_guesses := f h \<rparr>))" for f
    by (simp add: keeps_def still_def)
  ultimately show ?thesis
    unfolding finish_join_def
    by (intro leads_bind leads_if still_keeps start leads_keeps [OF _ start] keeps_fail) auto
qed

lemma finish_keeps_outside:
  assumes not: "\<not> (u = user \<and> (\<exists>hash. work = DoneJoin room hash True))"
  shows "keeps (outside u room) (finish_done E user work)"
proof (cases work)
  case (DoneJoin q hash matched)
  have "keeps (outside u room) (finish_join E user q hash matched)"
  proof (cases matched)
    case True
    then have "u \<noteq> user \<or> Some q \<noteq> Some room" using not DoneJoin by auto
    then show ?thesis unfolding finish_join_def
      by (intro outside.place_intros enter_keeps_outside outside.keeps_same hub_same_outside)
  next
    case False
    then show ?thesis unfolding finish_join_def
      by (simp, intro outside.place_intros outside.keeps_same hub_same_outside)
  qed
  then show ?thesis by (simp add: DoneJoin)
qed (simp_all split: option.split, (intro allI impI conjI outside.place_intros)+)

lemma finish_needs_session:
  assumes "snd (finish E user cid work h) \<noteq> h"
  obtains s where "fmlookup (hb_sessions h) user = Some s" "s_conn_id s = cid"
  using assms by (cases "fmlookup (hb_sessions h) user"; cases "is_current h user cid")
    (auto simp: finish_def require_current_def is_current_def bindE_def)

text \<open>
  C5. A password admits to the room it was checked for and no other, and only as that room asks now:
  when the answer to a password check puts anybody into a room, it is the user who gave the password,
  still on the connection they gave it on, into the room they gave it for; the password matched; and
  at that moment the room's hash is the one it was checked against, or the room asks this user for no
  password at all, because it has none any more or because they manage rooms by now. A room that asks
  for another password by then admits nobody.
\<close>

theorem password_admits_only_current_hash:
  assumes run: "resume E user cid work h = (r, h')" and entered: "in_room h' u room" "\<not> in_room h u room"
  shows "u = user \<and> (\<exists>hash e s. work = DoneJoin room hash True \<and>
    fmlookup (hb_rooms h) room = Some e \<and> fmlookup (hb_sessions h) user = Some s \<and> s_conn_id s = cid \<and>
    (e_password_hash e = Some hash \<or> e_password_hash e = None \<or> can_manage_rooms (row_role (s_row s))))"
proof -
  have h': "h' = snd (finish E user cid work h)"
    using run by (cases "finish E user cid work h"; cases "fst (finish E user cid work h)") (auto simp: resume_def)
  have join: "u = user \<and> (\<exists>hash. work = DoneJoin room hash True)"
  proof (rule ccontr)
    assume not: "\<not> ?thesis"
    have "keeps (outside u room) (finish_done E user work)"
      using not by (intro finish_keeps_outside) blast
    then have "keeps (outside u room) (finish E user cid work)"
      unfolding finish_def by (intro keeps_bind outside.keeps_lookups(1))
    from keepsD [OF this, of h] show False using entered h' by simp
  qed
  then obtain hash where work: "work = DoneJoin room hash True" by blast
  have "h' \<noteq> h" using entered by blast
  then obtain s where Some: "fmlookup (hb_sessions h) user = Some s" "s_conn_id s = cid"
    using h' finish_needs_session by metis
  have "open_to h user room \<or> map_option e_password_hash (fmlookup (hb_rooms h) room) = Some (Some hash)"
  proof (rule ccontr)
    assume not: "\<not> ?thesis"
    show False
    proof -
      have out: "outside user room g" if "still h g" for g using that entered(2) join by (simp add: still_def in_room_def)
      have "keeps (still h) (require_current user cid)" by (simp add: keeps_def require_current_def)
      then have "leads (still h) (finish E user cid work) (outside user room)"
        unfolding finish_def work finish_done.simps
        by (intro leads_bind out finish_join_opens) (use not Some in \<open>auto simp: still_def\<close>)
      then show False using entered(1) join h' by (auto simp: leads_def still_def)
    qed
  qed
  then obtain e where "fmlookup (hb_rooms h) room = Some e"
      "e_password_hash e = Some hash \<or> e_password_hash e = None \<or> can_manage_rooms (row_role (s_row s))"
    using Some by (auto simp: open_to_def split: option.splits)
  with join work Some show ?thesis by blast
qed

lemma demo_password:
  "\<exists>r h'. resume demo_env 2 2 (DoneJoin 2 [68] True) demo_lobby = (r, h') \<and> in_room h' 2 2"
proof -
  let ?h = "demo_lobby\<lparr> hb_guesses := guess_succeeded (hb_guesses demo_lobby) 2 2 \<rparr>"
  have h: "fmlookup (hb_sessions ?h) 2 = Some (new_session 2 2 (demo_row 2 User))"
      "fmlookup (hb_rooms ?h) 2 = Some \<lparr> e_name = [67], e_epoch = 5, e_password_hash = Some [68], e_members = {||} \<rparr>"
    by (simp_all add: demo_lobby_def demo_start_def fresh_hub_def demo_rooms_def fmlookup_of_list)
  have "can_place demo_env 2 2 ?h"
    using h by (simp add: can_place_def epoch_left_def new_session_def fcard.rep_eq MAX_ROOM_MEMBERS_def demo_row_def
        demo_env_def demo_lobby_def demo_seen_def demo_db_def empty_database_def media_id_after_def)
  moreover have "unspent (hb_room_changes demo_lobby) 2" using demo_ready_lobby(2) by (simp add: demo_ready_def)
  then have "fst (buckets_take (hb_room_changes ?h) 2 1 (ev_now demo_env))"
    using keyed.spend_iff_holds [of "hb_room_changes demo_lobby"] unspent_holds [of "hb_room_changes demo_lobby" 2]
    by (simp add: unspent_def)
  ultimately obtain p h' where run: "enter demo_env 2 (Some 2) ?h = (Inr (PlacementR p), h')" "joined 2 2 ?h h'"
    by (rule enter_succeeds)
  have "password_to_enter 2 2 ?h = (Inr (Some [68]), ?h)"
    using h by (simp add: password_to_enter_def get_entry_def get_session_def get_role_def bindE_def new_session_def
        demo_row_def can_manage_rooms_def less_eq_role_def)
  then have "resume demo_env 2 2 (DoneJoin 2 [68] True) demo_lobby = (PlacementR p, h')"
    using h(1) run(1)
    by (simp add: resume_def finish_def require_current_def is_current_def finish_join_def bindE_def new_session_def)
  moreover have "in_room h' 2 2" using run(2) by (simp only: joined_def in_room_def simp_thms if_True)
  ultimately show ?thesis by blast
qed

theorem password_admits_only_current_hash_witness:
  "\<exists>r h' e. resume demo_env 2 2 (DoneJoin 2 [68] True) demo_lobby = (r, h') \<and> in_room h' 2 2 \<and>
     fmlookup (hb_rooms demo_lobby) 2 = Some e \<and> e_password_hash e = Some [68]"
proof -
  obtain r h' where run: "resume demo_env 2 2 (DoneJoin 2 [68] True) demo_lobby = (r, h')" "in_room h' 2 2"
    using demo_password by blast
  have "\<not> in_room demo_lobby 2 2" by (rule demo_outside)
  moreover have "fmlookup (hb_rooms demo_lobby) 2 = Some e \<Longrightarrow> e_password_hash e \<noteq> None"
    "fmlookup (hb_sessions demo_lobby) 2 = Some s \<Longrightarrow> \<not> can_manage_rooms (row_role (s_row s))" for e s
    by (auto simp: demo_lobby_def demo_start_def fresh_hub_def demo_rooms_def fmlookup_of_list new_session_def demo_row_def
        can_manage_rooms_def less_eq_role_def)
  ultimately show ?thesis using password_admits_only_current_hash [OF run] run by fastforce
qed

end
