(* ===== verification/Hub_Outcomes.thy ===== *)
theory Hub_Outcomes
  imports Hub_Routes Hub_Entry
begin

text \<open>
  What the hub promises: the invariant of its reachable states, moves that re-key both rooms or
  change nothing, and sender keys that reach current members only.
\<close>

subsection \<open>The invariant\<close>

text \<open>
  C1. In every reachable state the hub is in order: sessions and rooms agree on who is where, every
  member has tracks of their own that nobody else has or had, no room holds more members or shares
  than allowed, every room mirrors its row in the database, connection numbers are unique, and the
  forwarding table and the audiences are the ones the memberships call for.
\<close>

theorem reachable_hub_in_order: "hub_reach h \<Longrightarrow> hub_ok h"
  by (rule hub_reach_ok)

theorem reachable_hub_in_order_witness:
  "hub_ok demo_lobby \<and> map_option s_conn_id (fmlookup (hb_sessions demo_lobby) 2) = Some 2"
  using reachable_hub_in_order [OF demo_lobby_reach] by (simp add: demo_lobby_def new_session_def)

subsection \<open>Moves\<close>

text \<open>The rooms a call of \<open>place\<close> takes \<open>user\<close> out of and puts them into.\<close>

definition rooms_changed :: "hub \<Rightarrow> user_id \<Rightarrow> room_id option \<Rightarrow> room_id set" where
  "rooms_changed h user target =
     (case fmlookup (hb_sessions h) user of
        None \<Rightarrow> {}
      | Some s \<Rightarrow> if s_room s = target then {} else set_option (s_room s) \<union> set_option target)"

definition epoch_of :: "hub \<Rightarrow> room_id \<Rightarrow> epoch option" where
  "epoch_of h room = map_option e_epoch (fmlookup (hb_rooms h) room)"

lemma placed_epochs:
  assumes "placed E user s target h h'"
  shows "\<forall>room. epoch_of h' room =
      (if room \<in> rooms_changed h user target then map_option (\<lambda>e. e + 1) (epoch_of h room) else epoch_of h room)"
    and "\<forall>room \<in> rooms_changed h user target. \<exists>e. epoch_of h room = Some e \<and> e \<noteq> - 1"
proof -
  obtain t es d where p: "fmlookup (hb_sessions h) user = Some s" "s_room s \<noteq> target" "next_of h es"
      "map fst es = option_list (s_room s) @ option_list target"
      "hub_same (rebuild_routes (move user (s_room s) target t (at_epochs es d h))) h'"
    using assms unfolding placed_def by blast
  have dist: "distinct (map fst es)" using p(3) by (simp add: next_of_def)
  have changed: "rooms_changed h user target = fst ` set es"
  proof -
    have "fst ` set es = set (option_list (s_room s) @ option_list target)" using p(4) by (metis list.set_map)
    then show ?thesis using p(1,2)
      by (cases "s_room s"; cases target) (auto simp: rooms_changed_def option_list_def)
  qed
  have rooms: "hb_rooms h' = hb_rooms (move user (s_room s) target t (at_epochs es d h))"
    using p(5) by (simp add: hub_same_def rebuild_routes_fields)
  have view: "e_epoch (new_members user old new r e) = e_epoch e" for old new r e
    by (simp add: new_members_def)
  have bumped: "\<exists>e. fmlookup (hb_rooms h) room = Some e \<and> e_epoch e \<noteq> - 1 \<and> map_of es room = Some (e_epoch e + 1)"
    if "room \<in> rooms_changed h user target" for room
  proof -
    have "room \<in> fst ` set es" using that changed by simp
    then obtain ep where "map_of es room = Some ep" by (cases "map_of es room") (auto simp: map_of_eq_None_iff)
    then show ?thesis using p(3) unfolding next_of_def by blast
  qed
  show "\<forall>room \<in> rooms_changed h user target. \<exists>e. epoch_of h room = Some e \<and> e \<noteq> - 1"
    using bumped by (fastforce simp: epoch_of_def)
  show "\<forall>room. epoch_of h' room =
      (if room \<in> rooms_changed h user target then map_option (\<lambda>e. e + 1) (epoch_of h room) else epoch_of h room)"
  proof
    fix room
    show "epoch_of h' room =
        (if room \<in> rooms_changed h user target then map_option (\<lambda>e. e + 1) (epoch_of h room) else epoch_of h room)"
    proof (cases "room \<in> rooms_changed h user target")
      case True
      then show ?thesis using bumped [OF True]
        by (auto simp: epoch_of_def rooms move_rooms [OF p(2)] at_epochs_rooms [OF dist] view)
    next
      case False
      then have "map_of es room = None" by (simp add: changed map_of_eq_None_iff)
      then show ?thesis using False
        by (cases "fmlookup (hb_rooms h) room")
          (simp_all add: epoch_of_def rooms move_rooms [OF p(2)] at_epochs_rooms [OF dist] view)
    qed
  qed
qed

text \<open>
  C18. Every change of membership re-keys, all or nothing: when \<open>place\<close> succeeds, the room the user
  left and the room they entered are each exactly one epoch further, without wrapping around, and
  every other room is at the epoch it was; when it fails, no session, room, route or stored room
  changed.
\<close>

theorem moves_rekey_or_change_nothing:
  assumes "place E user target h = (r, h')"
  shows "case r of
      Inl e \<Rightarrow> hb_sessions h' = hb_sessions h \<and> hb_rooms h' = hb_rooms h \<and> hb_table h' = hb_table h \<and>
        hb_audiences h' = hb_audiences h \<and> tbl_rooms (hb_db h') = tbl_rooms (hb_db h)
    | Inr p \<Rightarrow> map_option s_room (fmlookup (hb_sessions h') user) = Some target \<and>
        (\<forall>room \<in> rooms_changed h user target. epoch_of h room \<noteq> None \<and> epoch_of h room \<noteq> Some (- 1)) \<and>
        (\<forall>room. epoch_of h' room =
          (if room \<in> rooms_changed h user target then map_option (\<lambda>e. e + 1) (epoch_of h room) else epoch_of h room))"
  using assms
proof (cases rule: place_result)
  case (failed e)
  then show ?thesis using spent_ids_fields [OF failed(2)] by simp
next
  case (stayed p s)
  then have "rooms_changed h user target = {}" "hb_rooms h' = hb_rooms h"
    by (simp_all add: rooms_changed_def hub_same_def)
  then show ?thesis using place_rooms [OF assms [unfolded stayed(1)]] stayed(1) by (simp add: epoch_of_def del: map_option_eq_Some)
next
  case (moved_on p s)
  then show ?thesis
    using placed_epochs [OF moved_on(2)] place_rooms [OF assms [unfolded moved_on(1)]] by (fastforce simp del: map_option_eq_Some)
qed

theorem moves_rekey_or_change_nothing_witness:
  "\<exists>p h'. place demo_env 2 (Some 1) demo_lobby = (Inr p, h') \<and> epoch_of h' 1 = Some 1 \<and> epoch_of h' 2 = Some 5"
proof -
  obtain p h' where run: "place demo_env 2 (Some 1) demo_lobby = (Inr p, h')"
    using demo_may_join(2) [OF demo_ready_lobby(2)] by (rule place_succeeds)
  have "rooms_changed demo_lobby 2 (Some 1) = {1}"
    by (simp add: rooms_changed_def demo_lobby_def new_session_def)
  moreover have "epoch_of demo_lobby 1 = Some 0" "epoch_of demo_lobby 2 = Some 5"
    by (simp_all add: epoch_of_def demo_lobby_def demo_start_def fresh_hub_def demo_rooms_def fmlookup_of_list)
  ultimately show ?thesis
    using moves_rekey_or_change_nothing [OF run] run by simp
qed

subsection \<open>Sender keys\<close>

lemma check_wrapped_ok:
  "check_wrapped user entry seen wrapped = Inr () \<longleftrightarrow>
     distinct (map fst wrapped) \<and> (\<forall>(to, blob) \<in> set wrapped.
       to \<noteq> user \<and> to |\<in>| e_members entry \<and> to |\<notin>| seen \<and> length blob \<le> MAX_WRAPPED_BYTES)"
proof (induction user entry seen wrapped rule: check_wrapped.induct)
  case (2 user entry seen to blob rest)
  show ?case
  proof (cases "to = user \<or> to |\<notin>| e_members entry \<or> to |\<in>| seen \<or> length blob > MAX_WRAPPED_BYTES")
    case True
    then show ?thesis by auto
  next
    case False
    then have "check_wrapped user entry (finsert to seen) rest = Inr () \<longleftrightarrow> distinct (map fst rest) \<and>
        (\<forall>(v, b) \<in> set rest. v \<noteq> user \<and> v |\<in>| e_members entry \<and> v |\<notin>| finsert to seen \<and> length b \<le> MAX_WRAPPED_BYTES)"
      using 2 by simp
    then show ?thesis using False by (force simp: not_less)
  qed
qed simp

lemma publish_key_run:
  "publish_key user epoch wrapped h = (case fmlookup (hb_sessions h) user of
      None \<Rightarrow> (Inl (Refusal Internal ''no session''), h)
    | Some s \<Rightarrow> (case s_room s of
        None \<Rightarrow> (Inl (Refusal Invalid ''join a room first''), h)
      | Some room \<Rightarrow> (case fmlookup (hb_rooms h) room of
          None \<Rightarrow> (Inl no_such_room, h)
        | Some e \<Rightarrow> if epoch \<noteq> e_epoch e then (Inl (Refusal StaleEpoch ''the room has moved to a newer epoch''), h)
            else (case check_wrapped user e {||} wrapped of
              Inl x \<Rightarrow> (Inl x, h)
            | Inr _ \<Rightarrow> (Inr Ok, fold (\<lambda>(to, blob). emit_to to (SenderKeyPublished user epoch blob)) wrapped h)))))"
proof (cases "fmlookup (hb_sessions h) user")
  case (Some s)
  show ?thesis
  proof (cases "s_room s")
    case (Some room)
    show ?thesis
    proof (cases "fmlookup (hb_rooms h) room")
      case (Some e)
      then show ?thesis using \<open>fmlookup (hb_sessions h) user = Some s\<close> \<open>s_room s = Some room\<close>
        by (cases "check_wrapped user e {||} wrapped")
          (simp_all add: publish_key_def current_room_def get_session_def get_entry_def bindE_def)
    qed (use \<open>fmlookup (hb_sessions h) user = Some s\<close> \<open>s_room s = Some room\<close> in
      \<open>simp add: publish_key_def current_room_def get_session_def get_entry_def bindE_def\<close>)
  qed (use Some in \<open>simp add: publish_key_def current_room_def get_session_def bindE_def\<close>)
qed (simp add: publish_key_def current_room_def get_session_def bindE_def)

text \<open>
  C20. A sender key reaches current members of the sender's room only. Publishing succeeds exactly
  when the epoch named is the present one of the room the sender is in and the recipients are
  other members, each named once, with keys of at most 256 bytes; then each recipient is sent
  their own wrapped key and nothing else happens. Otherwise nothing at all happens.
\<close>

theorem sender_keys_reach_current_members_only:
  assumes "publish_key user epoch wrapped h = (r, h')"
  shows "if \<exists>s room e. fmlookup (hb_sessions h) user = Some s \<and> s_room s = Some room \<and> fmlookup (hb_rooms h) room = Some e \<and>
       e_epoch e = epoch \<and> distinct (map fst wrapped) \<and>
       (\<forall>(to, blob) \<in> set wrapped. to \<noteq> user \<and> to |\<in>| e_members e \<and> length blob \<le> MAX_WRAPPED_BYTES)
     then r = Inr Ok \<and> h' = fold (\<lambda>(to, blob). emit_to to (SenderKeyPublished user epoch blob)) wrapped h
     else isl r \<and> h' = h"
proof (cases "\<exists>s room e. fmlookup (hb_sessions h) user = Some s \<and> s_room s = Some room \<and>
    fmlookup (hb_rooms h) room = Some e \<and> e_epoch e = epoch \<and> check_wrapped user e {||} wrapped = Inr ()")
  case True
  have some: "\<exists>s room e. fmlookup (hb_sessions h) user = Some s \<and> s_room s = Some room \<and> fmlookup (hb_rooms h) room = Some e \<and>
       e_epoch e = epoch \<and> distinct (map fst wrapped) \<and>
       (\<forall>(to, blob) \<in> set wrapped. to \<noteq> user \<and> to |\<in>| e_members e \<and> length blob \<le> MAX_WRAPPED_BYTES)"
    using True unfolding check_wrapped_ok by simp
  have "r = Inr Ok \<and> h' = fold (\<lambda>(to, blob). emit_to to (SenderKeyPublished user epoch blob)) wrapped h"
    using assms True by (auto simp: publish_key_run)
  then show ?thesis using some by (simp only: if_True)
next
  case False
  have none: "\<not> (\<exists>s room e. fmlookup (hb_sessions h) user = Some s \<and> s_room s = Some room \<and> fmlookup (hb_rooms h) room = Some e \<and>
       e_epoch e = epoch \<and> distinct (map fst wrapped) \<and>
       (\<forall>(to, blob) \<in> set wrapped. to \<noteq> user \<and> to |\<in>| e_members e \<and> length blob \<le> MAX_WRAPPED_BYTES))"
    using False unfolding check_wrapped_ok by simp
  have "isl r \<and> h' = h" using assms False by (auto simp: publish_key_run split: option.splits sum.splits if_splits)
  then show ?thesis using none by (simp only: if_False)
qed

theorem sender_keys_reach_current_members_only_witness:
  "\<exists>h epoch. hub_reach h \<and> publish_key 1 epoch [(2, [7])] h = (Inr Ok, emit_to 2 (SenderKeyPublished 1 epoch [7]) h)"
proof -
  obtain h s x where h: "hub_reach h" "fmlookup (hb_sessions h) 1 = Some s" "s_room s = Some 1"
      "fmlookup (hb_sessions h) 2 = Some x" "s_room x = Some 1"
    using demo_members by blast
  have mem: "membership_ok (hb_sessions h) (hb_rooms h)"
    using hub_reach_ok [OF h(1)] by (simp add: hub_ok_def base_ok_def)
  then obtain e where e: "fmlookup (hb_rooms h) 1 = Some e" "2 |\<in>| e_members e"
    using h(4,5) unfolding membership_ok_def by blast
  have "publish_key 1 (e_epoch e) [(2, [7])] h = (Inr Ok, emit_to 2 (SenderKeyPublished 1 (e_epoch e) [7]) h)"
    using sender_keys_reach_current_members_only [of 1 "e_epoch e" "[(2, [7])]" h
      "fst (publish_key 1 (e_epoch e) [(2, [7])] h)" "snd (publish_key 1 (e_epoch e) [(2, [7])] h)"] h e
    by (simp add: MAX_WRAPPED_BYTES_def prod_eq_iff)
  then show ?thesis using h(1) by blast
qed

end
