(* ===== verification/Hub_Refusals.thy ===== *)
theory Hub_Refusals
  imports Hub_Outcomes
begin

text \<open>
  Refused requests. A request that is answered with an error has been charged for, and nothing
  else happened in the hub: nobody moved, no room, route, setting or key changed and nobody was
  sent anything; and while the database works, the users, rooms and profile stored in it are as they
  were. Three requests act before they can fail and are left out here.
\<close>

subsection \<open>Failing cleanly\<close>

definition uncounted :: "session \<Rightarrow> session" where
  "uncounted s = s\<lparr> s_key_publishes := None \<rparr>"

definition hub_untouched :: "hub \<Rightarrow> hub \<Rightarrow> bool" where
  "hub_untouched g h \<longleftrightarrow>
     fmmap uncounted (hb_sessions h) = fmmap uncounted (hb_sessions g) \<and> hb_rooms h = hb_rooms g \<and>
     hb_table h = hb_table g \<and> hb_audiences h = hb_audiences g \<and> hb_conns h = hb_conns g \<and>
     hb_keyframes h = hb_keyframes g \<and> hb_last_joined h = hb_last_joined g \<and> hb_next_conn h = hb_next_conn g \<and>
     hb_fingerprint h = hb_fingerprint g"

text \<open>
  The users, the rooms and the server's profile, as stored. Spent media ids, purged invites and
  pictures in the database are housekeeping that a refused request may have done.
\<close>

definition db_records where
  "db_records d = (tbl_users d, seq_users d, tbl_rooms d, seq_rooms d, tbl_server_profile d)"

definition only_charged :: "hub \<Rightarrow> hub \<Rightarrow> bool" where
  "only_charged g h \<longleftrightarrow> hub_untouched g h \<and>
     (db_faults (hb_db g) = [] \<longrightarrow> db_faults (hb_db h) = [] \<and> db_records (hb_db h) = db_records (hb_db g))"

definition refused_cleanly :: "hub \<Rightarrow> hub \<Rightarrow> bool" where
  "refused_cleanly g h \<longleftrightarrow> hub_untouched g h \<and>
     (db_faults (hb_db g) = [] \<longrightarrow> db_records (hb_db h) = db_records (hb_db g))"

definition clean :: "hub \<Rightarrow> 'a hm \<Rightarrow> bool" where
  "clean g m \<longleftrightarrow> (\<forall>h. only_charged g h \<longrightarrow> isl (fst (m h)) \<longrightarrow> refused_cleanly g (snd (m h)))"

lemma only_charged_refused: "only_charged g h \<Longrightarrow> refused_cleanly g h"
  by (simp add: only_charged_def refused_cleanly_def)

definition sure :: "'a hm \<Rightarrow> bool" where
  "sure m \<longleftrightarrow> (\<forall>h. \<not> isl (fst (m h)))"

named_theorems clean_intros

lemma clean_keeps: "keeps (only_charged g) m \<Longrightarrow> clean g m"
  by (simp add: clean_def keeps_def only_charged_refused)

lemma clean_ret [clean_intros]: "clean g (retE x)" "clean g (failE e)" "clean g (modifyE f)"
  by (simp_all add: clean_def only_charged_refused)

lemma clean_first [clean_intros]:
  "keeps (only_charged g) m \<Longrightarrow> (\<And>x. clean g (f x)) \<Longrightarrow> clean g (bindE m f)"
  by (fastforce simp: clean_def keeps_def bindE_def only_charged_refused split: prod.splits sum.splits)

lemma clean_last:
  "clean g m \<Longrightarrow> (\<And>x. sure (f x)) \<Longrightarrow> clean g (bindE m f)"
  by (fastforce simp: clean_def sure_def bindE_def split: prod.splits sum.splits)

lemma sure_bind: "sure m \<Longrightarrow> (\<And>x. sure (f x)) \<Longrightarrow> sure (bindE m f)"
  unfolding sure_def bindE_def
  by (intro allI) (simp split: prod.split sum.split, metis fst_conv sum.disc(1))

lemma sure_simps: "sure (retE x)" "sure (modifyE f)"
  by (simp_all add: sure_def)

lemma clean_sure: "sure m \<Longrightarrow> clean g m"
  by (simp add: sure_def clean_def)

lemma clean_modify [clean_intros]: "(\<And>x. sure (f x)) \<Longrightarrow> clean g (bindE (modifyE u) f)"
  by (intro clean_sure sure_bind sure_simps)

lemma clean_if [clean_intros]:
  "(b \<Longrightarrow> clean g m) \<Longrightarrow> (\<not> b \<Longrightarrow> clean g n) \<Longrightarrow> clean g (if b then m else n)"
  by simp

lemma clean_option [clean_intros]:
  "(x = None \<Longrightarrow> clean g m) \<Longrightarrow> (\<And>y. x = Some y \<Longrightarrow> clean g (n y)) \<Longrightarrow>
   clean g (case x of None \<Rightarrow> m | Some y \<Rightarrow> n y)"
  by (cases x) simp_all

lemma clean_prod [clean_intros]: "(\<And>a b. x = (a, b) \<Longrightarrow> clean g (m a b)) \<Longrightarrow> clean g (case x of (a, b) \<Rightarrow> m a b)"
  by (cases x) simp

lemma clean_let [clean_intros]: "(\<And>y. y = x \<Longrightarrow> clean g (m y)) \<Longrightarrow> clean g (let y = x in m y)"
  by simp

subsection \<open>Steps that only look or charge\<close>

named_theorems look_intros

text \<open>Statements that leave these records alone, and those that do when they fail by themselves.\<close>

definition spares :: "'a db \<Rightarrow> bool" where
  "spares m \<longleftrightarrow> (\<forall>d. db_faults d = [] \<longrightarrow> db_faults (snd (m d)) = [] \<and> db_records (snd (m d)) = db_records d)"

definition backs_out :: "'a db \<Rightarrow> bool" where
  "backs_out m \<longleftrightarrow> (\<forall>d. db_faults d = [] \<longrightarrow> isl (fst (m d)) \<longrightarrow> db_records (snd (m d)) = db_records d)"

lemma hub_untouched_db [simp]: "hub_untouched g (h\<lparr> hb_db := d \<rparr>) = hub_untouched g h"
  by (simp add: hub_untouched_def)

lemma with_db_snd: "snd (with_db err m h) = h\<lparr> hb_db := snd (m (hb_db h)) \<rparr>"
  using with_db_state [of err m h] by (cases "with_db err m h") simp

lemma with_db_isl: "isl (fst (with_db err m h)) = isl (fst (m (hb_db h)))"
  by (auto simp: with_db_def split: prod.splits sum.splits)

lemma look_db [look_intros]: "spares m \<Longrightarrow> keeps (only_charged g) (with_db err m)"
  by (rule keepsI) (simp add: with_db_snd only_charged_def spares_def)

lemma clean_db [clean_intros]: "backs_out m \<Longrightarrow> clean g (with_db err m)"
  by (simp add: clean_def with_db_snd with_db_isl only_charged_def refused_cleanly_def backs_out_def)

lemma spares_query [look_intros]: "spares (query f)"
  by (simp add: spares_def query_def stmt_def getE_def)

lemma spares_lift: "spares (stmt (liftE f))"
  by (simp add: spares_def stmt_def liftE_def split: sum.split)

lemma spares_execute: "(\<And>d. db_faults (f d) = db_faults d \<and> db_records (f d) = db_records d) \<Longrightarrow> spares (execute f)"
  by (simp add: spares_def execute_def stmt_def)

lemma backs_execute [clean_intros]: "backs_out (execute f)"
  by (simp add: backs_out_def execute_def stmt_def)

lemma spares_ret: "spares (retE x)" "spares (failE e)"
  by (simp_all add: spares_def)

lemma spares_bind: "spares m \<Longrightarrow> (\<And>x. spares (f x)) \<Longrightarrow> spares (bindE m f)"
  by (fastforce simp: spares_def bindE_def split: prod.splits sum.splits)

lemma spares_reads [look_intros]:
  "spares (db_user u)" "spares (db_has_blob b)" "spares db_server_profile" "spares (db_blob b)" "spares db_users"
  "spares db_admin_count" "spares (db_invite_tree u)" "spares (db_invites_used u now since)"
  unfolding db_user_def db_has_blob_def db_server_profile_def db_blob_def db_users_def db_admin_count_def
    db_invite_tree_def db_invites_used_def
  by (intro spares_bind spares_query spares_lift spares_ret)+

lemma spares_housekeeping [look_intros]:
  "spares (delete_unused_blobs now)" "spares (db_put_blob b bs now)" "spares (mint_invite random minter now)"
proof -
  show "spares (delete_unused_blobs now)"
    by (simp add: spares_def delete_unused_blobs_def db_delete_unused_blobs_def stmt_def Let_def db_records_def)
  show "spares (db_put_blob b bs now)"
    unfolding db_put_blob_def by (intro spares_execute) (simp add: db_records_def)
  have "spares (db_insert_invite i)" for i
    by (simp add: spares_def db_insert_invite_def stmt_def db_records_def)
  then have "spares (mint_attempts random minter expires i n)" for expires i n
    by (induction n arbitrary: i) (auto intro!: spares_bind spares_ret simp: Let_def)
  moreover have "spares (db_purge_expired_invites now)"
    unfolding db_purge_expired_invites_def by (intro spares_execute) (simp add: db_records_def)
  ultimately show "spares (mint_invite random minter now)"
    unfolding mint_invite_def by (intro spares_bind)
qed

named_theorems write_intros

lemma clean_write: "backs_out m \<Longrightarrow> (\<And>x. sure (f x)) \<Longrightarrow> clean g (bindE (with_db err m) f)"
  by (intro clean_last clean_db)

lemma clean_writes [write_intros]:
  "(\<And>x. sure (f x)) \<Longrightarrow> clean g (bindE (with_db err (db_create_room name pw)) f)"
  "(\<And>x. sure (f' x)) \<Longrightarrow> clean g (bindE (with_db err (db_rename_room room name)) f')"
  "(\<And>x. sure (f' x)) \<Longrightarrow> clean g (bindE (with_db err (db_set_room_password_hash room pw)) f')"
  "(\<And>x. sure (f' x)) \<Longrightarrow> clean g (bindE (with_db err (db_set_profile u name avatar)) f')"
  "(\<And>x. sure (f' x)) \<Longrightarrow> clean g (bindE (with_db err (db_set_role u role)) f')"
  "(\<And>x. sure (f' x)) \<Longrightarrow> clean g (bindE (with_db err (db_remove_users us)) f')"
proof -
  have "backs_out (db_create_room name pw)"
    by (simp add: backs_out_def db_create_room_def stmt_def split: option.split)
  then show "(\<And>x. sure (f x)) \<Longrightarrow> clean g (bindE (with_db err (db_create_room name pw)) f)" by (intro clean_write)
qed (unfold db_rename_room_def db_set_room_password_hash_def db_set_profile_def db_set_role_def db_remove_users_def,
    (intro clean_write backs_execute; assumption)+)

text \<open>The profile is read back after it was stored, which only a failing database refuses.\<close>

lemma clean_announced [write_intros]:
  "clean g (bindE (with_db internal (db_set_server_name sname)) (\<lambda>_. announce_server_profile))"
  "clean g (bindE (with_db internal (db_set_server_avatar savatar)) (\<lambda>_. announce_server_profile))"
proof -
  have "clean g (bindE (with_db internal (execute f)) (\<lambda>_. announce_server_profile))"
    if "\<And>d. db_faults (f d) = db_faults d" for f
  proof -
    have "refused_cleanly g h'" if g: "only_charged g h" and
      run: "bindE (with_db internal (execute f)) (\<lambda>_. announce_server_profile) h = (r, h')" and l: "isl r" for h r h'
    proof (cases "db_faults (hb_db h)")
      case Nil
      with run l \<open>\<And>d. db_faults (f d) = db_faults d\<close> have False
        by (auto simp: bindE_def announce_server_profile_def with_db_def execute_def db_server_profile_def query_def stmt_def
            split: option.splits)
      then show ?thesis ..
    next
      case Cons
      then have "db_faults (hb_db g) \<noteq> []" using g by (auto simp: only_charged_def)
      moreover have "hub_untouched h h'"
        using run l by (auto simp: bindE_def announce_server_profile_def hub_untouched_def with_db_def split: prod.splits sum.splits)
      ultimately show ?thesis using g by (auto simp: only_charged_def refused_cleanly_def hub_untouched_def)
    qed
    then show ?thesis unfolding clean_def by (metis prod.collapse)
  qed
  then show "clean g (bindE (with_db internal (db_set_server_name sname)) (\<lambda>_. announce_server_profile))"
    "clean g (bindE (with_db internal (db_set_server_avatar savatar)) (\<lambda>_. announce_server_profile))"
    by (simp_all add: db_set_server_name_def db_set_server_avatar_def)
qed

lemma look_ask [look_intros]:
  "keeps (only_charged g) (ask_buckets hb_requests hb_requests_update op)"
  "keeps (only_charged g) (ask_buckets hb_cheap_requests hb_cheap_requests_update op)"
  "keeps (only_charged g) (ask_buckets hb_uploads hb_uploads_update op)"
  "keeps (only_charged g) (ask_buckets hb_password_tries hb_password_tries_update op)"
  "keeps (only_charged g) (ask_buckets hb_room_changes hb_room_changes_update op)"
  "keeps (only_charged g) (ask_buckets hb_encryption_key_changes hb_encryption_key_changes_update op)"
  by (simp_all add: keeps_def ask_buckets_def only_charged_def hub_untouched_def split_beta)

lemma look_lookups [look_intros]:
  "keeps (only_charged g) (require_current user cid)" "keeps (only_charged g) (get_session user)"
  "keeps (only_charged g) (get_role user)"
  "keeps (only_charged g) (current_room user)" "keeps (only_charged g) (get_entry room)" "keeps (only_charged g) (require b)"
  "keeps (only_charged g) (checked_name name)" "keeps (only_charged g) (check_password_length pw)"
  unfolding require_current_def get_session_def get_role_def current_room_def get_entry_def require_def
    checked_name_def check_password_length_def
  by (intro keeps_intros)+

lemma look_stored [look_intros]:
  "keeps (only_charged g) (stored_user user)" "keeps (only_charged g) (require_picture avatar)"
  unfolding stored_user_def require_picture_def by (intro keeps_intros look_intros)+

lemma look_entering [look_intros]:
  "keeps (only_charged g) (enters_another_room user target)" "keeps (only_charged g) (refuse_full user target)"
  "keeps (only_charged g) (needed_password user target)" "keeps (only_charged g) (password_to_enter user room)"
  unfolding enters_another_room_def refuse_full_def needed_password_def password_to_enter_def
  by (intro keeps_intros look_intros)+

lemma look_guess [look_intros]: "keeps (only_charged g) (check_guess E user room)"
  by (rule keepsI)
    (auto simp: check_guess_def only_charged_def hub_untouched_def case_prod_unfold Let_def split: sum.split unit.split wait.split)

lemma look_charge [look_intros]: "keeps (only_charged g) (charge_request E user request)"
proof -
  have upd: "fmmap uncounted (fmupd u (uncounted_of s) m) = fmmap uncounted m"
    if "fmlookup m u = Some s" "uncounted (uncounted_of s) = uncounted s" for u m s and uncounted_of :: "session \<Rightarrow> session"
    using that by (intro fmap_ext) auto
  have "only_charged g (snd (free_request user request h))" if "only_charged g h" for h
    using that by (cases request)
      (auto simp: free_key_publish_def Let_def only_charged_def hub_untouched_def update_session_def uncounted_def upd split: option.splits)
  then have "keeps (only_charged g) (\<lambda>h. let (free, h') = free_request user request h in (Inr free, h'))"
    by (simp add: keeps_def split_beta)
  then show ?thesis unfolding charge_request_def by (intro keeps_intros look_intros)
qed

subsection \<open>The requests\<close>

lemma clean_place: "clean g (place E user target)"
proof -
  have "refused_cleanly g (snd (place E user target h))" if g: "only_charged g h" and l: "isl (fst (place E user target h))" for h
  proof -
    obtain e h' where run: "place E user target h = (Inl e, h')"
      using l by (metis isl_def prod.collapse)
    then have "spent_ids h h'" by (cases rule: place_result) auto
    then show ?thesis using g run by (auto simp: spent_ids_def only_charged_def refused_cleanly_def db_records_def)
  qed
  then show ?thesis by (simp add: clean_def)
qed

lemma clean_enter [clean_intros]: "clean g (enter E user target)"
  unfolding enter_def
  by (intro clean_intros clean_last [OF clean_place] sure_bind sure_simps keeps_intros look_intros)

lemma clean_done [clean_intros]: "clean g m \<Longrightarrow> clean g (done_with m)"
  unfolding done_with_def by (intro clean_last sure_simps)

lemma clean_join: "clean g (join E user target pw)"
  unfolding join_def
  by (intro clean_intros clean_last [OF clean_enter] sure_simps keeps_intros look_intros)

lemma clean_rooms:
  "clean g (add_room name hash)" "clean g (create_room user name pw)" "clean g (rename_room user room name)"
  "clean g (store_room_password room hash)" "clean g (set_room_password user room pw)"
proof -
  show add: "clean g (add_room name hash)" for name hash
    unfolding add_room_def by (intro write_intros clean_intros look_intros sure_bind sure_simps)
  have may: "keeps (only_charged g) (room_to_create user name)" "keeps (only_charged g) (may_manage_room user room)"
    unfolding room_to_create_def may_manage_room_def by (intro keeps_intros look_intros)+
  show store: "clean g (store_room_password room hash)" for room hash
    unfolding store_room_password_def by (intro write_intros clean_intros look_intros sure_bind sure_simps)
  show "clean g (create_room user name pw)" "clean g (set_room_password user room pw)"
    unfolding create_room_def set_room_password_def
    by (intro clean_intros look_intros may clean_last [OF add] clean_last [OF store] sure_simps)+
  show "clean g (rename_room user room name)"
    unfolding rename_room_def by (intro write_intros clean_intros look_intros sure_bind sure_simps)
qed

text \<open>The session is looked up again after the profile was stored, and is still there.\<close>

lemma get_session_again:
  "bindE (get_session user) (\<lambda>s. if b s then failE e else bindE (with_db err m) (\<lambda>x. bindE (get_session user) (\<lambda>_. f x))) =
   bindE (get_session user) (\<lambda>s. if b s then failE e else bindE (with_db err m) f)"
  by (rule ext) (auto simp: bindE_def get_session_def with_db_def split: option.splits prod.splits sum.splits)

lemma clean_users:
  "clean g (set_profile E user name avatar)" "clean g (set_avatar E user bs)" "clean g (get_avatar hash)"
  "clean g (create_invite E user)" "clean g (list_users user)" "clean g (set_role user target role)"
  "clean g (remove_user E user target cascade)" "clean g (kick_from_room E user target room)"
  "clean g (set_server_name user sname)" "clean g (set_server_avatar user savatar)"
proof -
  show "clean g (set_profile E user name avatar)"
    unfolding set_profile_def get_session_again
    by (intro write_intros clean_intros look_intros sure_bind sure_simps)
  show "clean g (set_avatar E user bs)" "clean g (get_avatar hash)"
      "clean g (create_invite E user)" "clean g (list_users user)" "clean g (set_role user target role)"
      "clean g (remove_user E user target cascade)" "clean g (kick_from_room E user target room)"
      "clean g (set_server_name user sname)" "clean g (set_server_avatar user savatar)"
    unfolding set_avatar_def get_avatar_def create_invite_def list_users_def set_role_def
      remove_user_def kick_from_room_def set_server_name_def set_server_avatar_def
    by (intro write_intros clean_intros keeps_intros look_intros sure_bind sure_simps)+
qed

lemma clean_media:
  "clean g (set_watched E user ids)" "clean g (request_keyframe E user m kind)" "clean g (publish_key user epoch wrapped)"
proof -
  have "clean g (case k of Audio \<Rightarrow> failE e | Video \<Rightarrow> bindE (modifyE (ask_keyframe E owner m kind)) (\<lambda>_. retE Ok))" for k owner e
    by (cases k) (simp_all add: clean_intros sure_simps)
  then show "clean g (request_keyframe E user m kind)"
    unfolding request_keyframe_def by (intro clean_intros keeps_intros look_intros)
  show "clean g (set_watched E user ids)" "clean g (publish_key user epoch wrapped)"
    unfolding set_watched_def publish_key_def
    by (intro clean_intros keeps_intros look_intros sure_bind sure_simps)+
qed

fun acts_before_failing :: "request \<Rightarrow> bool" where
  "acts_before_failing (SetMedia media) = True"
| "acts_before_failing (SetEncryptionKey key) = True"
| "acts_before_failing (DeleteRoom room) = True"
| "acts_before_failing _ = False"

lemma clean_request: "\<not> acts_before_failing request \<Longrightarrow> clean g (dispatch_request E user request)"
  by (cases request) (simp_all add: clean_join clean_rooms clean_users clean_media clean_done)

lemma only_charged_refl [simp]: "only_charged h h"
  by (simp add: only_charged_def hub_untouched_def)

lemma clean_finish: "clean g (finish E user cid work)"
proof -
  have "keeps (only_charged g) (modifyE (\<lambda>h. h\<lparr> hb_guesses := f h \<rparr>))" for f
    by (simp add: keeps_def only_charged_def hub_untouched_def)
  then have "clean g (finish_join E user room hash matched)" for room hash matched
    unfolding finish_join_def by (intro clean_intros keeps_intros look_intros)
  moreover have "keeps (only_charged g) (room_to_create user name)" "keeps (only_charged g) (may_manage_room user room)" for name room
    unfolding room_to_create_def may_manage_room_def by (intro keeps_intros look_intros)+
  ultimately have "clean g (finish_done E user work)"
    by (cases work) (auto intro!: clean_intros clean_rooms split: option.split)
  then show ?thesis unfolding finish_def by (intro clean_intros look_intros)
qed

text \<open>
  C19. A refused request changed nothing but allowances. When a request other than the three that act
  before they can fail (\<open>SetMedia\<close>, which applies the switches, \<open>SetEncryptionKey\<close> and
  \<open>DeleteRoom\<close>) is answered with an error, and likewise when the password work of one is: sessions,
  rooms, routes, audiences, rejoin rights, keyframe requests and the queues of every connection are as
  they were; and if the database works, so are the users, the rooms and the server's profile stored in
  it. Spent media ids and the purging of invites and pictures stay. When the database fails between two
  statements of one request, what the first stored stays stored.
\<close>

theorem refusals_change_nothing:
  assumes "(\<not> acts_before_failing request \<and> dispatch E user cid request h = (Inl refusal, h')) \<or>
     finish E user cid work h = (Inl refusal, h')"
  shows "fmmap uncounted (hb_sessions h') = fmmap uncounted (hb_sessions h) \<and> hb_rooms h' = hb_rooms h \<and>
     hb_table h' = hb_table h \<and> hb_audiences h' = hb_audiences h \<and> hb_conns h' = hb_conns h \<and>
     hb_keyframes h' = hb_keyframes h \<and> hb_last_joined h' = hb_last_joined h \<and> hb_next_conn h' = hb_next_conn h \<and>
     (db_faults (hb_db h) = [] \<longrightarrow> tbl_users (hb_db h') = tbl_users (hb_db h) \<and> tbl_rooms (hb_db h') = tbl_rooms (hb_db h) \<and>
        seq_users (hb_db h') = seq_users (hb_db h) \<and> seq_rooms (hb_db h') = seq_rooms (hb_db h) \<and>
        tbl_server_profile (hb_db h') = tbl_server_profile (hb_db h))"
proof -
  have "clean h (dispatch E user cid request)" if "\<not> acts_before_failing request"
    unfolding dispatch_def using clean_request [OF that] by (intro clean_intros look_intros)
  then have "refused_cleanly h h'"
    using assms clean_finish [of h E user cid work] by (auto simp: clean_def dest!: spec [of _ h])
  then show ?thesis by (simp add: refused_cleanly_def hub_untouched_def db_records_def)
qed

theorem refusals_change_nothing_witness:
  "\<exists>refusal h'. dispatch demo_env 2 2 (SetWatched []) demo_lobby = (Inl refusal, h') \<and>
     hb_conns h' = hb_conns demo_lobby \<and> hb_rooms h' = hb_rooms demo_lobby \<and> tbl_rooms (hb_db h') = tbl_rooms (hb_db demo_lobby)"
proof -
  have cur: "require_current 2 2 demo_lobby = (Inr (), demo_lobby)"
    by (simp add: require_current_def is_current_def demo_lobby_def new_session_def)
  obtain r h1 where charge: "charge_request demo_env 2 (SetWatched []) demo_lobby = (r, h1)"
    by (rule prod.exhaust)
  then have "only_charged demo_lobby h1"
    using keepsD' [OF look_charge charge] by simp
  then have "fmlookup (fmmap uncounted (hb_sessions h1)) 2 = fmlookup (fmmap uncounted (hb_sessions demo_lobby)) 2"
    by (simp add: only_charged_def hub_untouched_def)
  then obtain s where s: "fmlookup (hb_sessions h1) 2 = Some s" "uncounted s = uncounted (new_session 2 2 (demo_row 2 User))"
    by (auto simp: demo_lobby_def)
  have lobby: "s_room s = None" using arg_cong [OF s(2), of s_room] by (simp add: uncounted_def new_session_def)
  have "isl (fst (dispatch demo_env 2 2 (SetWatched []) demo_lobby))"
    using cur charge s(1) lobby by (cases r)
      (simp_all add: dispatch_def bindE_def done_with_def set_watched_def current_room_def get_session_def)
  then obtain refusal h' where "dispatch demo_env 2 2 (SetWatched []) demo_lobby = (Inl refusal, h')"
    by (metis isl_def prod.collapse)
  moreover from refusals_change_nothing [OF disjI1 [OF conjI [OF _ this]]]
  have "hb_conns h' = hb_conns demo_lobby \<and> hb_rooms h' = hb_rooms demo_lobby \<and> tbl_rooms (hb_db h') = tbl_rooms (hb_db demo_lobby)"
    by (simp add: demo_lobby_def demo_seen_def demo_db_def empty_database_def)
  ultimately show ?thesis by blast
qed

subsection \<open>A key change that is acknowledged but never announced\<close>

text \<open>
  C29. A failed re-key is never made up for. When a member changes their encryption key and the
  write of the new epoch fails after the key itself was stored, the request is answered with an
  error and the room is neither re-keyed nor told of the key. Repeating the request is then
  answered with success and again does nothing, since the key is already the stored one.
\<close>

theorem failed_rekey_is_not_repeated:
  assumes s: "fmlookup (hb_sessions h) user = Some s" "s_room s = Some room" "row_encryption_key (s_row s) = Some old"
    and e: "fmlookup (hb_rooms h) room = Some e" "e_epoch e \<noteq> - 1"
    and key: "ek_key old \<noteq> ek_key key" "ev_unix E < ek_not_after key"
      "ek_not_after key \<le> ev_unix E + MAX_ENCRYPTION_KEY_LIFETIME"
      "ev_verify E (row_pubkey (s_row s)) (encryption_key_message (hb_fingerprint h) user (ek_not_after key) (ek_key key)) (ek_sig key)"
    and allowed: "fst (buckets_take (hb_encryption_key_changes h) user 1 (ev_now E))"
    and faults: "db_faults (hb_db h) = [False, True]"
  shows "\<exists>h1. set_encryption_key E user key h = (Inl internal, h1) \<and> hb_rooms h1 = hb_rooms h \<and> hb_conns h1 = hb_conns h \<and>
     map_option (row_encryption_key \<circ> s_row) (fmlookup (hb_sessions h1) user) = Some (Some key) \<and>
     set_encryption_key E user key h1 = (Inr Ok, h1)"
proof -
  have new: "old \<noteq> key" using key(1) by auto
  have late: "\<not> ek_not_after key \<le> ev_unix E" "\<not> ek_not_after key > ev_unix E + MAX_ENCRYPTION_KEY_LIFETIME"
    using key(2,3) by auto
  obtain h1 where run: "set_encryption_key E user key h = (Inl internal, h1)" "hb_rooms h1 = hb_rooms h" "hb_conns h1 = hb_conns h"
      "fmlookup (hb_sessions h1) user = Some (s\<lparr> s_row := (s_row s)\<lparr> row_encryption_key := Some key \<rparr> \<rparr>)"
    using s e key(1,4) new late allowed faults
    by (simp add: set_encryption_key_def Let_def bindE_def get_session_def ask_buckets_def split_beta with_db_def
        db_set_encryption_key_def execute_def stmt_def update_session_def bump_epochs_def db_set_epochs_eq)
  moreover have "set_encryption_key E user key h1 = (Inr Ok, h1)"
    using run(4) late by (simp add: set_encryption_key_def bindE_def get_session_def)
  ultimately show ?thesis by simp
qed

lemma fresh_key_changes:
  "fst (buckets_take (buckets_new ENCRYPTION_KEY_CHANGE_BURST ENCRYPTION_KEY_CHANGES_PER_SECOND) (k :: user_id) 1 now)"
proof -
  let ?bs = "buckets_new ENCRYPTION_KEY_CHANGE_BURST ENCRYPTION_KEY_CHANGES_PER_SECOND :: user_id buckets"
  have "unspent ?bs k"
    by (simp add: unspent_def buckets_ok_def buckets_new_def ENCRYPTION_KEY_CHANGE_BURST_def
        ENCRYPTION_KEY_CHANGES_PER_SECOND_def is_f64_def f64_round_numeral f64_div_def f64_round_nonneg)
  then show ?thesis using unspent_holds keyed.spend_iff_holds [of ?bs] by (simp add: unspent_def)
qed

theorem failed_rekey_is_not_repeated_witness:
  "\<exists>h h1 key. set_encryption_key demo_env 2 key h = (Inl internal, h1) \<and> epoch_of h1 1 = epoch_of h 1 \<and>
     set_encryption_key demo_env 2 key h1 = (Inr Ok, h1)"
proof -
  obtain g s where g: "hub_reach g" "fmlookup (hb_sessions g) 2 = Some s" "s_room s = Some 1"
    using demo_members by blast
  let ?key = "\<lparr> ek_key = replicate 32 77, ek_not_after = 6000, ek_sig = replicate 64 77 \<rparr>"
  let ?s = "s\<lparr> s_row := demo_row 2 User \<rparr>"
  let ?e = "\<lparr> e_name = [66], e_epoch = 2, e_password_hash = None, e_members = {|2|} \<rparr>"
  let ?h = "g\<lparr> hb_sessions := fmupd 2 ?s (hb_sessions g), hb_rooms := fmupd 1 ?e (hb_rooms g),
    hb_db := (hb_db g)\<lparr> db_faults := [False, True] \<rparr>,
    hb_encryption_key_changes := buckets_new ENCRYPTION_KEY_CHANGE_BURST ENCRYPTION_KEY_CHANGES_PER_SECOND \<rparr>"
  obtain h1 where "set_encryption_key demo_env 2 ?key ?h = (Inl internal, h1)" "hb_rooms h1 = hb_rooms ?h"
      "set_encryption_key demo_env 2 ?key h1 = (Inr Ok, h1)"
    using failed_rekey_is_not_repeated [of ?h 2 ?s 1 _ ?e ?key demo_env] g(3) fresh_key_changes
    by (auto simp: demo_row_def demo_env_def MAX_ENCRYPTION_KEY_LIFETIME_def word_less_def)
  then show ?thesis by (metis epoch_of_def)
qed

end
