(* ===== verification/Audio_Queues.thy ===== *)
theory Audio_Queues
  imports Sfu
begin

text \<open>
  One receiver's queued audio, \<open>AudioQueues\<close> of \<open>egress.rs\<close>: a queue per track, served in
  turns, with a cap on all of them that costs the longest queue a packet. Where the code asks a
  \<open>HashMap\<close> for the longest queue, the order of its iteration is the argument \<open>order\<close>. Lemmas: the
  bookkeeping is exact, every track's packets leave in the order they came, only a longest queue
  loses packets, and within one round every queued track is served once.
\<close>

definition MAX_QUEUED_AUDIO :: nat where
  "MAX_QUEUED_AUDIO = 2 * 50 * (MAX_ROOM_MEMBERS - 1 + MAX_ROOM_SHARES)"

record audio_queues =
  aq_tracks :: "(media_id, bytes list) fmap"
  aq_turns :: "media_id list"
  aq_len :: nat

definition audio_default :: audio_queues where
  "audio_default = \<lparr> aq_tracks = fmempty, aq_turns = [], aq_len = 0 \<rparr>"

type_synonym iteration = "(media_id, bytes list) fmap \<Rightarrow> media_id list"

text \<open>\<open>max_by_key\<close>: the last of the elements with the largest key.\<close>

fun max_by_key :: "('a \<Rightarrow> nat) \<Rightarrow> 'a list \<Rightarrow> 'a option" where
  "max_by_key f [] = None"
| "max_by_key f (x # xs) =
     (case max_by_key f xs of None \<Rightarrow> Some x | Some y \<Rightarrow> if f x > f y then Some x else Some y)"

definition queue_of :: "audio_queues \<Rightarrow> media_id \<Rightarrow> bytes list" where
  "queue_of q m = fmget (aq_tracks q) m []"

definition evict_from_longest :: "iteration \<Rightarrow> audio_queues \<Rightarrow> media_id option \<times> audio_queues" where
  "evict_from_longest order q =
     (case max_by_key (\<lambda>m. length (queue_of q m)) (order (aq_tracks q)) of
        None \<Rightarrow> (None, q)
      | Some m \<Rightarrow>
          let queue = tl (queue_of q m)
          in (Some m, if queue = []
                      then q\<lparr> aq_tracks := fmdrop m (aq_tracks q),
                              aq_turns := filter (\<lambda>x. x \<noteq> m) (aq_turns q), aq_len := aq_len q - 1 \<rparr>
                      else q\<lparr> aq_tracks := fmupd m queue (aq_tracks q), aq_len := aq_len q - 1 \<rparr>))"

definition audio_push :: "iteration \<Rightarrow> media_id \<Rightarrow> bytes \<Rightarrow> audio_queues \<Rightarrow> media_id option \<times> audio_queues" where
  "audio_push order m bs q =
     (let (evicted, q) = (if aq_len q \<ge> MAX_QUEUED_AUDIO then evict_from_longest order q else (None, q));
          queue = queue_of q m
      in (evicted, q\<lparr> aq_tracks := fmupd m (queue @ [bs]) (aq_tracks q),
                     aq_turns := (if queue = [] then aq_turns q @ [m] else aq_turns q),
                     aq_len := aq_len q + 1 \<rparr>))"

text \<open>The two early returns behind the first happen only when the bookkeeping is broken.\<close>

definition audio_pop :: "audio_queues \<Rightarrow> (media_id \<times> bytes) option \<times> audio_queues" where
  "audio_pop q =
     (case aq_turns q of
        [] \<Rightarrow> (None, q)
      | m # turns \<Rightarrow>
          (case fmlookup (aq_tracks q) m of
             None \<Rightarrow> (None, q\<lparr> aq_turns := turns \<rparr>)
           | Some [] \<Rightarrow> (None, q\<lparr> aq_turns := turns \<rparr>)
           | Some (bs # queue) \<Rightarrow>
               (Some (m, bs),
                if queue = []
                then q\<lparr> aq_tracks := fmdrop m (aq_tracks q), aq_turns := turns, aq_len := aq_len q - 1 \<rparr>
                else q\<lparr> aq_tracks := fmupd m queue (aq_tracks q), aq_turns := turns @ [m],
                       aq_len := aq_len q - 1 \<rparr>)))"

subsection \<open>Queues served in turns\<close>

primrec pops :: "('q \<Rightarrow> 'x option \<times> 'q) \<Rightarrow> nat \<Rightarrow> 'q \<Rightarrow> 'x list \<times> 'q" where
  "pops f 0 q = ([], q)"
| "pops f (Suc n) q =
     (case f q of (None, q') \<Rightarrow> ([], q') | (Some x, q') \<Rightarrow> let (xs, q'') = pops f n q' in (x # xs, q''))"

definition of_key :: "'k \<Rightarrow> ('k \<times> 'a) list \<Rightarrow> 'a list" where
  "of_key k xs = map snd (filter (\<lambda>x. fst x = k) xs)"

text \<open>
  What a receiver relies on: a queue per key, and a front that takes the keys with something queued
  in turns.
\<close>

locale turn_queues =
  fixes view :: "'q \<Rightarrow> 'k \<Rightarrow> 'a list"
    and turns :: "'q \<Rightarrow> 'k list"
    and take_next :: "'q \<Rightarrow> ('k \<times> 'a) option \<times> 'q"
    and ok :: "'q \<Rightarrow> bool"
  assumes turns_distinct: "ok q \<Longrightarrow> distinct (turns q)"
    and turns_iff: "ok q \<Longrightarrow> k \<in> set (turns q) \<longleftrightarrow> view q k \<noteq> []"
    and next_none: "ok q \<Longrightarrow> turns q = [] \<Longrightarrow> take_next q = (None, q)"
    and next_some: "ok q \<Longrightarrow> turns q = k # ks \<Longrightarrow>
      \<exists>q'. take_next q = (Some (k, hd (view q k)), q') \<and> ok q' \<and> view q' = (view q)(k := tl (view q k)) \<and>
        turns q' = ks @ (if tl (view q k) = [] then [] else [k])"
begin

lemma empty_iff: "ok q \<Longrightarrow> fst (take_next q) = None \<longleftrightarrow> (\<forall>k. view q k = [])"
proof (cases "turns q")
  case Nil
  assume "ok q"
  then show ?thesis using Nil next_none turns_iff by (metis empty_iff fst_conv list.set(1))
next
  case (Cons k ks)
  assume "ok q"
  then show ?thesis using Cons next_some turns_iff by (metis fst_conv list.set_intros(1) option.distinct(1))
qed

lemma round:
  assumes "ok q" "turns q = ks @ rest"
  shows "\<exists>q'. pops take_next (length ks) q = (map (\<lambda>k. (k, hd (view q k))) ks, q') \<and> ok q' \<and>
    view q' = (\<lambda>k. if k \<in> set ks then tl (view q k) else view q k) \<and>
    turns q' = rest @ filter (\<lambda>k. tl (view q k) \<noteq> []) ks"
  using assms
proof (induction ks arbitrary: q rest)
  case (Cons k ks)
  obtain q1 where q1: "take_next q = (Some (k, hd (view q k)), q1)" "ok q1" "view q1 = (view q)(k := tl (view q k))"
      "turns q1 = ks @ rest @ (if tl (view q k) = [] then [] else [k])"
    using next_some [OF Cons.prems(1)] Cons.prems(2) by fastforce
  have k: "k \<notin> set ks" using turns_distinct [OF Cons.prems(1)] Cons.prems(2) by simp
  obtain q2 where q2: "pops take_next (length ks) q1 = (map (\<lambda>k. (k, hd (view q1 k))) ks, q2)" "ok q2"
      "view q2 = (\<lambda>k. if k \<in> set ks then tl (view q1 k) else view q1 k)"
      "turns q2 = (rest @ (if tl (view q k) = [] then [] else [k])) @ filter (\<lambda>k. tl (view q1 k) \<noteq> []) ks"
    using Cons.IH [OF q1(2,4)] by blast
  have "map (\<lambda>k. (k, hd (view q1 k))) ks = map (\<lambda>k. (k, hd (view q k))) ks"
      "filter (\<lambda>k. tl (view q1 k) \<noteq> []) ks = filter (\<lambda>k. tl (view q k) \<noteq> []) ks"
    using k by (auto simp: q1(3) intro!: map_cong filter_cong)
  then show ?case using q1(1,3) q2 k by (auto simp: fun_eq_iff)
qed (simp add: fun_eq_iff)

lemma drain:
  assumes "ok q" "(\<Sum>k \<in> set (turns q). length (view q k)) = n"
  shows "\<exists>xs q'. pops take_next n q = (xs, q') \<and> ok q' \<and> (\<forall>k. view q' k = []) \<and> (\<forall>k. of_key k xs = view q k) \<and>
    length xs = n"
  using assms
proof (induction n arbitrary: q)
  case 0
  then have "\<forall>k \<in> set (turns q). view q k = []" by (metis List.finite_set length_0_conv sum_eq_0_iff)
  then have "\<forall>k. view q k = []" using turns_iff [OF 0(1)] by blast
  then show ?case using 0(1) by (simp add: of_key_def)
next
  case (Suc n)
  then obtain k ks where t: "turns q = k # ks" by (cases "turns q") auto
  obtain q1 where q1: "take_next q = (Some (k, hd (view q k)), q1)" "ok q1" "view q1 = (view q)(k := tl (view q k))"
      "turns q1 = ks @ (if tl (view q k) = [] then [] else [k])"
    using next_some [OF Suc.prems(1) t] by blast
  have k: "k \<notin> set ks" "view q k \<noteq> []" using turns_distinct [OF Suc.prems(1)] turns_iff [OF Suc.prems(1), of k] t by auto
  have rest: "(\<Sum>x \<in> set ks. length (view q1 x)) = (\<Sum>x \<in> set ks. length (view q x))"
    using k(1) by (intro sum.cong) (auto simp: q1(3))
  have "Suc n = length (view q k) + (\<Sum>x \<in> set ks. length (view q x))"
    using Suc.prems(2) t k(1) by simp
  then have "(\<Sum>x \<in> set (turns q1). length (view q1 x)) = n"
    using k rest by (cases "view q k") (auto simp: q1(3,4))
  from Suc.IH [OF q1(2) this] obtain xs q2 where q2: "pops take_next n q1 = (xs, q2)" "ok q2" "\<forall>k. view q2 k = []"
      "\<forall>k. of_key k xs = view q1 k" "length xs = n" by blast
  have "of_key j ((k, hd (view q k)) # xs) = view q j" for j
    using q2(4) k(2) by (auto simp: of_key_def q1(3))
  then show ?case using q1(1) q2 by (auto intro!: exI)
qed

end

subsection \<open>The bookkeeping\<close>

definition queued_audio :: "audio_queues \<Rightarrow> nat" where
  "queued_audio q = (\<Sum>m \<in> set (aq_turns q). length (queue_of q m))"

definition audio_ok :: "audio_queues \<Rightarrow> bool" where
  "audio_ok q \<longleftrightarrow> distinct (aq_turns q) \<and> (\<forall>m. m \<in> set (aq_turns q) \<longleftrightarrow> m \<in> fmdom' (aq_tracks q)) \<and>
     (\<forall>m. fmlookup (aq_tracks q) m \<noteq> Some []) \<and> aq_len q = queued_audio q \<and> aq_len q \<le> MAX_QUEUED_AUDIO"

lemma queue_of_upd [simp]:
  "queue_of (q\<lparr> aq_tracks := fmupd m xs (aq_tracks q) \<rparr>) k = (if k = m then xs else queue_of q k)"
  "queue_of (q\<lparr> aq_tracks := fmdrop m (aq_tracks q) \<rparr>) k = (if k = m then [] else queue_of q k)"
  "queue_of (q\<lparr> aq_turns := ts \<rparr>) = queue_of q" "queue_of (q\<lparr> aq_len := n \<rparr>) = queue_of q"
  by (simp_all add: queue_of_def fmget_def fun_eq_iff)

lemma queue_of_iff: "audio_ok q \<Longrightarrow> queue_of q m \<noteq> [] \<longleftrightarrow> m \<in> set (aq_turns q)"
  by (auto simp: audio_ok_def queue_of_def fmget_def fmlookup_dom'_iff split: option.split)

lemma audio_default_ok: "audio_ok audio_default"
  by (simp add: audio_ok_def audio_default_def queued_audio_def)

lemma audio_pop_some:
  assumes ok: "audio_ok q" and t: "aq_turns q = m # ts"
  shows "\<exists>q'. audio_pop q = (Some (m, hd (queue_of q m)), q') \<and> audio_ok q' \<and>
    queue_of q' = (queue_of q)(m := tl (queue_of q m)) \<and> aq_turns q' = ts @ (if tl (queue_of q m) = [] then [] else [m])"
proof -
  have m: "m \<notin> set ts" using ok t by (simp add: audio_ok_def)
  have "m \<in> fmdom' (aq_tracks q)" using ok t by (auto simp: audio_ok_def)
  then obtain bs queue where look: "fmlookup (aq_tracks q) m = Some (bs # queue)"
    using ok by (metis audio_ok_def fmlookup_dom'_iff list.exhaust)
  then have q: "queue_of q m = bs # queue" by (simp add: queue_of_def fmget_def)
  have rest: "(\<Sum>x \<in> set ts. length (if x = m then v else queue_of q x)) = (\<Sum>x \<in> set ts. length (queue_of q x))" for v
    using m by (intro sum.cong) auto
  have len: "aq_len q = Suc (length queue) + (\<Sum>x \<in> set ts. length (queue_of q x))"
    using ok m by (simp add: audio_ok_def queued_audio_def t q)
  have doms: "(x = m \<or> x \<in> set ts) = (x \<in> fmdom' (aq_tracks q))" for x
    using ok t by (auto simp: audio_ok_def)
  show ?thesis
    using ok m len by (auto simp: audio_pop_def t look q audio_ok_def queued_audio_def rest fun_eq_iff doms [symmetric])
qed

interpretation audio: turn_queues queue_of aq_turns audio_pop audio_ok
proof
  fix q k ks
  assume ok: "audio_ok q"
  then show "distinct (aq_turns q)" "k \<in> set (aq_turns q) \<longleftrightarrow> queue_of q k \<noteq> []"
    by (simp add: audio_ok_def) (simp add: queue_of_iff [OF ok])
  show "audio_pop q = (None, q)" if "aq_turns q = []" using that by (simp add: audio_pop_def)
  show "\<exists>q'. audio_pop q = (Some (k, hd (queue_of q k)), q') \<and> audio_ok q' \<and> queue_of q' = (queue_of q)(k := tl (queue_of q k)) \<and>
      aq_turns q' = ks @ (if tl (queue_of q k) = [] then [] else [k])" if "aq_turns q = k # ks"
    using audio_pop_some [OF ok that] .
qed

definition iterates :: "iteration \<Rightarrow> bool" where
  "iterates order \<longleftrightarrow> (\<forall>tracks. set (order tracks) = fmdom' tracks)"

lemma max_by_key_spec:
  "(max_by_key f xs = None \<longleftrightarrow> xs = []) \<and>
   (\<forall>y. max_by_key f xs = Some y \<longrightarrow> y \<in> set xs \<and> (\<forall>x \<in> set xs. f x \<le> f y))"
  by (induction xs) (force split: option.splits)+

lemma evict_result:
  assumes ok: "audio_ok q" and order: "iterates order" and full: "aq_len q > 0"
  obtains m q' where "evict_from_longest order q = (Some m, q')" "audio_ok q'" "Suc (aq_len q') = aq_len q"
    "queue_of q m \<noteq> []" "\<And>k. length (queue_of q k) \<le> length (queue_of q m)" "queue_of q' = (queue_of q)(m := tl (queue_of q m))"
proof -
  have doms: "\<And>x. x \<in> fmdom' (aq_tracks q) \<longleftrightarrow> x \<in> set (aq_turns q)" using ok by (simp add: audio_ok_def)
  have "aq_turns q \<noteq> []" using ok full by (auto simp: audio_ok_def queued_audio_def)
  then have "order (aq_tracks q) \<noteq> []"
    using order doms by (metis iterates_def empty_iff list.set(1) list.set_intros(1) neq_Nil_conv)
  then obtain m where m: "max_by_key (\<lambda>m. length (queue_of q m)) (order (aq_tracks q)) = Some m"
    using max_by_key_spec by (metis option.exhaust)
  then have in_m: "m \<in> set (aq_turns q)" and longest: "\<forall>k \<in> fmdom' (aq_tracks q). length (queue_of q k) \<le> length (queue_of q m)"
    using max_by_key_spec [of "\<lambda>m. length (queue_of q m)" "order (aq_tracks q)"] order doms by (auto simp: iterates_def)
  have ne: "queue_of q m \<noteq> []" using queue_of_iff [OF ok] in_m by blast
  have all: "length (queue_of q k) \<le> length (queue_of q m)" for k
    using longest doms queue_of_iff [OF ok, of k] by (cases "queue_of q k = []") auto
  have split: "(\<Sum>x \<in> set (aq_turns q). length (if x = m then v else queue_of q x)) =
      length v + (\<Sum>x \<in> set (aq_turns q) - {m}. length (queue_of q x))" for v
    using in_m by (subst sum.remove [of _ m]) (auto intro!: sum.cong)
  have len: "aq_len q = length (queue_of q m) + (\<Sum>x \<in> set (aq_turns q) - {m}. length (queue_of q x))"
    using ok in_m by (simp add: audio_ok_def queued_audio_def sum.remove)
  have minus: "{x \<in> set (aq_turns q). x \<noteq> m} = set (aq_turns q) - {m}" by auto
  have apart: "(\<Sum>x \<in> set (aq_turns q) - {m}. length (if x = m then v else queue_of q x)) =
      (\<Sum>x \<in> set (aq_turns q) - {m}. length (queue_of q x))" for v
    by (intro sum.cong) auto
  obtain bs queue where cons: "queue_of q m = bs # queue" using ne by (cases "queue_of q m") auto
  let ?q = "snd (evict_from_longest order q)"
  have "evict_from_longest order q = (Some m, ?q)" by (simp add: evict_from_longest_def m Let_def)
  moreover have "audio_ok ?q" "Suc (aq_len ?q) = aq_len q" "queue_of ?q = (queue_of q)(m := tl (queue_of q m))"
    using ok len in_m by (auto simp: evict_from_longest_def m Let_def cons audio_ok_def queued_audio_def split minus apart doms fun_eq_iff)
  ultimately show ?thesis using that ne all by blast
qed

lemma append_ok:
  fixes bs :: bytes and m :: media_id
  assumes ok: "audio_ok q" and room: "aq_len q < MAX_QUEUED_AUDIO"
  defines "q' \<equiv> q\<lparr> aq_tracks := fmupd m (queue_of q m @ [bs]) (aq_tracks q),
      aq_turns := (if queue_of q m = [] then aq_turns q @ [m] else aq_turns q), aq_len := aq_len q + 1 \<rparr>"
  shows "audio_ok q'" "queue_of q' = (queue_of q)(m := queue_of q m @ [bs])"
proof -
  have doms: "\<And>x. x \<in> fmdom' (aq_tracks q) \<longleftrightarrow> x \<in> set (aq_turns q)" using ok by (simp add: audio_ok_def)
  show view: "queue_of q' = (queue_of q)(m := queue_of q m @ [bs])" by (simp add: q'_def fun_eq_iff)
  show "audio_ok q'"
  proof (cases "queue_of q m = []")
    case True
    then have m: "m \<notin> set (aq_turns q)" using queue_of_iff [OF ok] by blast
    then have "(\<Sum>x \<in> set (aq_turns q). length (if x = m then v else queue_of q x)) =
        (\<Sum>x \<in> set (aq_turns q). length (queue_of q x))" for v
      by (intro sum.cong) auto
    then show ?thesis using ok room True m by (auto simp: audio_ok_def q'_def queued_audio_def doms)
  next
    case False
    then have m: "m \<in> set (aq_turns q)" using queue_of_iff [OF ok] by blast
    then have "(\<Sum>x \<in> set (aq_turns q). length (if x = m then queue_of q m @ [bs] else queue_of q x)) =
        Suc (\<Sum>x \<in> set (aq_turns q). length (queue_of q x))"
      by (subst (1 2) sum.remove [of _ m]) (auto intro!: sum.cong)
    then show ?thesis using ok room False m by (auto simp: audio_ok_def q'_def queued_audio_def doms)
  qed
qed

lemma push_audio_ok:
  assumes ok: "audio_ok q" and order: "iterates order"
  shows "\<exists>e q'. audio_push order m bs q = (e, q') \<and> audio_ok q'"
proof (cases "aq_len q < MAX_QUEUED_AUDIO")
  case True
  then show ?thesis using append_ok(1) [OF ok True, of m bs] by (simp add: audio_push_def Let_def)
next
  case False
  then have "aq_len q > 0" by (simp add: MAX_QUEUED_AUDIO_def MAX_ROOM_MEMBERS_def MAX_ROOM_SHARES_def)
  then obtain k q1 where q1: "evict_from_longest order q = (Some k, q1)" "audio_ok q1" "Suc (aq_len q1) = aq_len q"
    using evict_result [OF ok order] by metis
  have "aq_len q1 < MAX_QUEUED_AUDIO" using q1(3) ok by (simp add: audio_ok_def)
  from append_ok(1) [OF q1(2) this, of m bs] show ?thesis using False q1 by (simp add: audio_push_def Let_def)
qed

text \<open>
  C27. A track that floods a receiver loses only its own packets: a packet is queued behind those of
  its track, and either nothing is lost, which is always so below the cap, or the oldest packet of
  one track is, and then no other track had more packets queued. The cap holds, and whichever order
  the hash map is iterated in, the bookkeeping stays exact.
\<close>

theorem flooding_costs_the_longest_queue:
  assumes ok: "audio_ok q" and order: "iterates order"
  shows "\<exists>evicted q'. audio_push order m bs q = (evicted, q') \<and> audio_ok q' \<and>
    (evicted = None \<longleftrightarrow> queued_audio q < MAX_QUEUED_AUDIO) \<and>
    (case evicted of
       None \<Rightarrow> queue_of q' = (queue_of q)(m := queue_of q m @ [bs])
     | Some k \<Rightarrow> (\<forall>j. length (queue_of q j) \<le> length (queue_of q k)) \<and> queue_of q k \<noteq> [] \<and>
         (let kept = (queue_of q)(k := tl (queue_of q k)) in queue_of q' = kept(m := kept m @ [bs])))"
proof (cases "aq_len q < MAX_QUEUED_AUDIO")
  case True
  then show ?thesis using append_ok [OF ok True, of m bs] ok
    by (simp add: audio_push_def Let_def audio_ok_def [of q])
next
  case False
  then have "aq_len q > 0" by (simp add: MAX_QUEUED_AUDIO_def MAX_ROOM_MEMBERS_def MAX_ROOM_SHARES_def)
  then obtain k q1 where q1: "evict_from_longest order q = (Some k, q1)" "audio_ok q1" "Suc (aq_len q1) = aq_len q"
      "queue_of q k \<noteq> []" "\<And>j. length (queue_of q j) \<le> length (queue_of q k)" "queue_of q1 = (queue_of q)(k := tl (queue_of q k))"
    using evict_result [OF ok order] by metis
  have "aq_len q1 < MAX_QUEUED_AUDIO" using q1(3) ok by (simp add: audio_ok_def)
  from append_ok [OF q1(2) this, of m bs] show ?thesis
    using False q1 ok by (simp add: audio_push_def Let_def audio_ok_def [of q])
qed

lemma audio_default_view: "queue_of audio_default m = []"
  by (simp add: queue_of_def audio_default_def fmget_def)

theorem flooding_costs_the_longest_queue_witness:
  "\<exists>q'. audio_push fmkeys 7 [1] audio_default = (None, q') \<and> queue_of q' 7 = [[1]]"
  using flooding_costs_the_longest_queue [OF audio_default_ok, of fmkeys 7 "[1]"]
  by (auto simp: iterates_def queued_audio_def MAX_QUEUED_AUDIO_def MAX_ROOM_MEMBERS_def audio_default_def [THEN arg_cong, of aq_turns]
      audio_default_view split: option.splits)

text \<open>
  Tracks take turns. However audio is queued, as many pops as there are tracks with packets
  queued serve each of them once, its oldest packet each; and popping until nothing is left
  delivers every track's packets, all of them and in the order they came.
\<close>

theorem audio_tracks_take_turns:
  assumes "audio_ok q"
  shows "(\<exists>q'. pops audio_pop (length (aq_turns q)) q = (map (\<lambda>m. (m, hd (queue_of q m))) (aq_turns q), q') \<and>
       (\<forall>m. queue_of q' m = tl (queue_of q m))) \<and>
    (\<exists>xs q'. pops audio_pop (aq_len q) q = (xs, q') \<and> (\<forall>m. queue_of q' m = []) \<and> (\<forall>m. of_key m xs = queue_of q m))"
proof
  obtain q' where q': "pops audio_pop (length (aq_turns q)) q = (map (\<lambda>m. (m, hd (queue_of q m))) (aq_turns q), q')"
      "queue_of q' = (\<lambda>m. if m \<in> set (aq_turns q) then tl (queue_of q m) else queue_of q m)"
    using audio.round [OF assms, of "aq_turns q" "[]"] by auto
  have "queue_of q' m = tl (queue_of q m)" for m
    using queue_of_iff [OF assms, of m] by (cases "m \<in> set (aq_turns q)") (auto simp: q'(2))
  then show "\<exists>q'. pops audio_pop (length (aq_turns q)) q = (map (\<lambda>m. (m, hd (queue_of q m))) (aq_turns q), q') \<and>
       (\<forall>m. queue_of q' m = tl (queue_of q m))" using q'(1) by blast
  show "\<exists>xs q'. pops audio_pop (aq_len q) q = (xs, q') \<and> (\<forall>m. queue_of q' m = []) \<and> (\<forall>m. of_key m xs = queue_of q m)"
    using audio.drain [OF assms] assms unfolding audio_ok_def queued_audio_def by metis
qed

definition demo_audio :: audio_queues where
  "demo_audio = \<lparr> aq_tracks = fmap_of_list [(1, [[1], [2]]), (2, [[3]])], aq_turns = [2, 1], aq_len = 3 \<rparr>"

theorem audio_tracks_take_turns_witness:
  "\<exists>q'. pops audio_pop 2 demo_audio = ([(2, [3]), (1, [1])], q')"
proof -
  have "audio_ok demo_audio"
    by (auto simp: audio_ok_def demo_audio_def queued_audio_def queue_of_def fmget_def fmlookup_of_list fmlookup_dom'_iff
        MAX_QUEUED_AUDIO_def MAX_ROOM_MEMBERS_def MAX_ROOM_SHARES_def split: if_splits)
  from audio_tracks_take_turns [OF this] show ?thesis
    by (auto simp: demo_audio_def queue_of_def fmget_def fmlookup_of_list numeral_2_eq_2)
qed

end
