(* ===== verification/Egress.thy ===== *)
theory Egress
  imports Audio_Queues
begin

text \<open>
  What happens to media on its way to one receiver, \<open>egress.rs\<close> of the server: the inbox packets
  are offered to, the video queue in whole access units with its history, budget and counters, and
  one round of the egress task. Byte counts and queue lengths are natural numbers; the invariant
  proved elsewhere shows that no subtraction goes below zero. Unit ids are 64-bit words.
\<close>

definition VIDEO_BUDGET :: duration where "VIDEO_BUDGET = from_millis 150"
definition LINK_STATS_INTERVAL :: duration where "LINK_STATS_INTERVAL = from_secs 2"
definition INBOX :: nat where "INBOX = 8192"
definition MAX_QUEUED_VIDEO_BYTES :: nat where
  "MAX_QUEUED_VIDEO_BYTES =
     nat \<lfloor>f64_mul (f64_mul (f64_of_nat MAX_ROOM_SHARES) MAX_INGRESS_BYTES_PER_SECOND) (as_secs_f64 VIDEO_BUDGET)\<rfloor>"
definition MAX_UNIT_FRAGMENTS :: nat where "MAX_UNIT_FRAGMENTS = 4096"
definition UNIT_IDLE :: duration where "UNIT_IDLE = from_secs 1"
definition IDLE_CHECK :: duration where "IDLE_CHECK = from_millis 100"
definition HISTORY :: nat where "HISTORY = 32"

subsection \<open>The inbox\<close>

record lost =
  l_kind :: track_kind
  l_media_id :: media_id
  l_seq :: u32
  l_first :: bool

record inbox_drops =
  id_lost :: "lost list"
  id_overflow :: "(media_id, u32) fmap"

definition drops_default :: inbox_drops where
  "drops_default = \<lparr> id_lost = [], id_overflow = fmempty \<rparr>"

definition record_drop :: "lost \<Rightarrow> inbox_drops \<Rightarrow> inbox_drops" where
  "record_drop lost self =
     (if length (id_lost self) < INBOX then self\<lparr> id_lost := id_lost self @ [lost] \<rparr>
      else self\<lparr> id_overflow := fmupd (l_media_id lost) (fmget (id_overflow self) (l_media_id lost) 0 + 1) (id_overflow self) \<rparr>)"

text \<open>
  A receiver's handle: a channel of \<open>INBOX\<close> packets, closed once the receiver is gone, and the
  packets that found no place in it.
\<close>

record egress_handle =
  eh_inbox :: "packet list"
  eh_closed :: bool
  eh_drops :: inbox_drops

definition offer :: "packet \<Rightarrow> egress_handle \<Rightarrow> egress_handle" where
  "offer p self =
     (if \<not> eh_closed self \<and> length (eh_inbox self) < INBOX then self\<lparr> eh_inbox := eh_inbox self @ [p] \<rparr>
      else self\<lparr> eh_drops := record_drop
             \<lparr> l_kind = p_kind p, l_media_id = h_media_id (p_header p), l_seq = h_seq (p_header p),
               l_first = contains (h_flags (p_header p)) FIRST \<rparr> (eh_drops self) \<rparr>)"

subsection \<open>Units\<close>

datatype fate = Queued u64 | Sent | Dropped

record video_unit =
  vu_id :: u64
  vu_media_id :: media_id
  vu_packets :: "bytes list"
  vu_received :: nat
  vu_arrived :: instant
  vu_last_fragment :: instant
  vu_started :: bool
  vu_complete :: bool
  vu_stray :: bool
  vu_first_seq :: u32
  vu_copy :: bool

definition unit_new :: "u64 \<Rightarrow> media_id \<Rightarrow> u32 \<Rightarrow> bytes \<Rightarrow> instant \<Rightarrow> video_unit" where
  "unit_new uid m first_seq bs now =
     \<lparr> vu_id = uid, vu_media_id = m, vu_packets = [bs], vu_received = 1, vu_arrived = now,
       vu_last_fragment = now, vu_started = False, vu_complete = False, vu_stray = False,
       vu_first_seq = first_seq, vu_copy = False \<rparr>"

definition unit_bytes :: "video_unit \<Rightarrow> nat" where
  "unit_bytes u = sum_list (map length (vu_packets u))"

record counters =
  c_forwarded :: u32
  c_dropped_units :: u32

definition counters_default :: counters where
  "counters_default = \<lparr> c_forwarded = 0, c_dropped_units = 0 \<rparr>"

type_synonym unit_history = "(u32, fate) fmap"

record queues =
  q_audio :: audio_queues
  q_started :: "(u64, video_unit) fmap"
  q_waiting :: "(u64, video_unit) fmap"
  q_sending :: "u64 fset"
  q_strays :: "u64 list"
  q_copies :: "(media_id \<times> u32, u64 fset) fmap"
  q_next_idle_check :: "instant option"
  q_history :: "(media_id, unit_history) fmap"
  q_active_tracks :: "media_id fset"
  q_next_id :: u64
  q_stats :: "(media_id, counters) fmap"
  q_video_bytes :: nat

definition queues_default :: queues where
  "queues_default =
     \<lparr> q_audio = audio_default, q_started = fmempty, q_waiting = fmempty, q_sending = {||}, q_strays = [],
       q_copies = fmempty, q_next_idle_check = None, q_history = fmempty, q_active_tracks = {||},
       q_next_id = 0, q_stats = fmempty, q_video_bytes = 0 \<rparr>"

text \<open>The first key of a \<open>BTreeMap\<close> or \<open>BTreeSet\<close>, and the entry at or below a key.\<close>

definition first_key :: "('k::linorder, 'v) fmap \<Rightarrow> 'k option" where
  "first_key m = (case fmkeys m of [] \<Rightarrow> None | k # _ \<Rightarrow> Some k)"

definition first_elem :: "'k::linorder fset \<Rightarrow> 'k option" where
  "first_elem s = (case sorted_list_of_fset s of [] \<Rightarrow> None | k # _ \<Rightarrow> Some k)"

definition entry_at_or_below :: "('k::linorder, 'v) fmap \<Rightarrow> 'k \<Rightarrow> ('k \<times> 'v) option" where
  "entry_at_or_below m k =
     (case filter (\<lambda>x. x \<le> k) (fmkeys m) of
        [] \<Rightarrow> None | ks \<Rightarrow> map_option (Pair (last ks)) (fmlookup m (last ks)))"

function trim_history :: "unit_history \<Rightarrow> unit_history" where
  "trim_history h = (if fmsize h > HISTORY then trim_history (fmdrop (hd (fmkeys h)) h) else h)"
  by auto
termination
proof (relation "measure fmsize")
  fix h :: unit_history
  assume large: "HISTORY < fmsize h"
  then have "fmkeys h \<noteq> []" by (metis length_fmkeys less_nat_zero_code list.size(3))
  then have "hd (fmkeys h) \<in> fmdom' h" by (metis hd_in_set set_fmkeys)
  then show "(fmdrop (hd (fmkeys h)) h, h) \<in> measure fmsize"
    using large by (auto simp: fmsize_drop fmlookup_dom'_iff)
qed simp

declare trim_history.simps [simp del]

definition remember :: "unit_history \<Rightarrow> u32 \<Rightarrow> fate \<Rightarrow> unit_history" where
  "remember h first_seq fate = trim_history (fmupd first_seq fate h)"

subsection \<open>Reading and counting\<close>

definition history_of :: "queues \<Rightarrow> media_id \<Rightarrow> unit_history" where
  "history_of q m = fmget (q_history q) m fmempty"

text \<open>\<open>unit_mut\<close>: a unit by its id, and writing through it.\<close>

definition find_unit :: "queues \<Rightarrow> u64 \<Rightarrow> video_unit option" where
  "find_unit q uid =
     (case fmlookup (q_started q) uid of Some u \<Rightarrow> Some u | None \<Rightarrow> fmlookup (q_waiting q) uid)"

definition update_unit :: "u64 \<Rightarrow> (video_unit \<Rightarrow> video_unit) \<Rightarrow> queues \<Rightarrow> queues" where
  "update_unit uid f q =
     (case fmlookup (q_started q) uid of
        Some u \<Rightarrow> q\<lparr> q_started := fmupd uid (f u) (q_started q) \<rparr>
      | None \<Rightarrow>
          (case fmlookup (q_waiting q) uid of
             Some u \<Rightarrow> q\<lparr> q_waiting := fmupd uid (f u) (q_waiting q) \<rparr>
           | None \<Rightarrow> q))"

definition update_counters :: "media_id \<Rightarrow> (counters \<Rightarrow> counters) \<Rightarrow> queues \<Rightarrow> queues" where
  "update_counters m f q = q\<lparr> q_stats := fmupd m (f (fmget (q_stats q) m counters_default)) (q_stats q) \<rparr>"

definition count_drop :: "media_id \<Rightarrow> queues \<Rightarrow> queues" where
  "count_drop m = update_counters m (\<lambda>c. c\<lparr> c_dropped_units := c_dropped_units c + 1 \<rparr>)"

definition count_forwarded :: "media_id \<Rightarrow> queues \<Rightarrow> queues" where
  "count_forwarded m = update_counters m (\<lambda>c. c\<lparr> c_forwarded := c_forwarded c + 1 \<rparr>)"

definition new_id :: "queues \<Rightarrow> u64 \<times> queues" where
  "new_id q = (q_next_id q, q\<lparr> q_next_id := q_next_id q + 1 \<rparr>)"

definition queue_unit :: "video_unit \<Rightarrow> queues \<Rightarrow> queues" where
  "queue_unit u q =
     q\<lparr> q_video_bytes := q_video_bytes q + unit_bytes u,
        q_strays := (if vu_stray u then q_strays q @ [vu_id u] else q_strays q),
        q_waiting := fmupd (vu_id u) u (q_waiting q) \<rparr>"

subsection \<open>Finishing and dropping units\<close>

definition remove_copy :: "u64 \<Rightarrow> video_unit \<Rightarrow> queues \<Rightarrow> queues" where
  "remove_copy uid u q =
     (let key = (vu_media_id u, vu_first_seq u)
      in case fmlookup (q_copies q) key of
           None \<Rightarrow> q
         | Some ids \<Rightarrow>
             if ids |-| {|uid|} = {||} then q\<lparr> q_copies := fmdrop key (q_copies q) \<rparr>
             else q\<lparr> q_copies := fmupd key (ids |-| {|uid|}) (q_copies q) \<rparr>)"

definition note_fate :: "u64 \<Rightarrow> fate \<Rightarrow> video_unit \<Rightarrow> queues \<Rightarrow> queues" where
  "note_fate uid fate u q =
     (case fmlookup (q_history q) (vu_media_id u) of
        None \<Rightarrow> q
      | Some h \<Rightarrow>
          if fmlookup h (vu_first_seq u) = Some (Queued uid)
          then q\<lparr> q_history := fmupd (vu_media_id u) (fmupd (vu_first_seq u) fate h) (q_history q) \<rparr> else q)"

definition finish_unit :: "u64 \<Rightarrow> fate \<Rightarrow> queues \<Rightarrow> queues" where
  "finish_unit uid fate q =
     (case find_unit q uid of
        None \<Rightarrow> q
      | Some u \<Rightarrow>
          let q = (if fmlookup (q_started q) uid \<noteq> None then q\<lparr> q_started := fmdrop uid (q_started q) \<rparr>
                   else q\<lparr> q_waiting := fmdrop uid (q_waiting q) \<rparr>);
              q = q\<lparr> q_video_bytes := q_video_bytes q - unit_bytes u, q_sending := q_sending q |-| {|uid|} \<rparr>;
              q = (if \<not> vu_stray u then remove_copy uid u q else q)
          in note_fate uid fate u q)"

definition drop_unit :: "u64 \<Rightarrow> queues \<Rightarrow> queues" where
  "drop_unit uid q =
     (case find_unit q uid of
        None \<Rightarrow> q
      | Some u \<Rightarrow>
          let q = finish_unit uid Dropped q;
              twin = Option.bind (fmlookup (q_copies q) (vu_media_id u, vu_first_seq u)) first_elem
          in case Option.bind twin (find_unit q) of
               Some t \<Rightarrow> update_unit (the twin) (\<lambda>t. t\<lparr> vu_copy := False \<rparr>) q
             | None \<Rightarrow> if \<not> (vu_stray u \<or> vu_copy u) then count_drop (vu_media_id u) q else q)"

subsection \<open>Arrivals\<close>

definition push_first :: "packet \<Rightarrow> instant \<Rightarrow> queues \<Rightarrow> queues" where
  "push_first p now q =
     (let m = h_media_id (p_header p); seq = h_seq (p_header p);
          (uid, q) = new_id q;
          seen = fmlookup (history_of q m) seq;
          q = (if seen = Some Dropped
               then update_counters m (\<lambda>c. c\<lparr> c_dropped_units :=
                      (if c_dropped_units c = 0 then 0 else c_dropped_units c - 1) \<rparr>) q
               else q);
          q = q\<lparr> q_history := fmupd m (remember (history_of q m) seq (Queued uid)) (q_history q),
                 q_copies := fmupd (m, seq) (finsert uid (fmget (q_copies q) (m, seq) {||})) (q_copies q) \<rparr>
      in queue_unit ((unit_new uid m seq (p_bytes p) now)
           \<lparr> vu_complete := contains (h_flags (p_header p)) LAST,
             vu_copy := (seen \<noteq> None \<and> seen \<noteq> Some Dropped) \<rparr>) q)"

definition push_fragment :: "packet \<Rightarrow> instant \<Rightarrow> u64 \<Rightarrow> queues \<Rightarrow> queues" where
  "push_fragment p now uid q =
     (case find_unit q uid of
        None \<Rightarrow> q
      | Some u \<Rightarrow>
          if vu_received u \<ge> MAX_UNIT_FRAGMENTS then drop_unit uid q
          else
            let q = update_unit uid (\<lambda>u. u\<lparr> vu_packets := vu_packets u @ [p_bytes p],
                      vu_received := vu_received u + 1, vu_last_fragment := now,
                      vu_complete := (vu_complete u \<or> contains (h_flags (p_header p)) LAST) \<rparr>) q
            in q\<lparr> q_sending := (if vu_started u then finsert uid (q_sending q) else q_sending q),
                  q_video_bytes := q_video_bytes q + length (p_bytes p) \<rparr>)"

definition push_stray :: "packet \<Rightarrow> instant \<Rightarrow> queues \<Rightarrow> queues" where
  "push_stray p now q =
     (let (uid, q) = new_id q
      in queue_unit ((unit_new uid (h_media_id (p_header p)) (h_seq (p_header p)) (p_bytes p) now)
           \<lparr> vu_complete := True, vu_stray := True \<rparr>) q)"

definition push_video :: "packet \<Rightarrow> instant \<Rightarrow> queues \<Rightarrow> queues" where
  "push_video p now q =
     (let m = h_media_id (p_header p); seq = h_seq (p_header p);
          q = q\<lparr> q_active_tracks := finsert m (q_active_tracks q) \<rparr>
      in if contains (h_flags (p_header p)) FIRST then push_first p now q
         else case Option.bind (fmlookup (q_history q) m) (\<lambda>h. entry_at_or_below h seq) of
                Some (_, Queued uid) \<Rightarrow> push_fragment p now uid q
              | Some (_, Sent) \<Rightarrow> push_stray p now q
              | Some (_, Dropped) \<Rightarrow> q
              | None \<Rightarrow> q)"

definition queues_push :: "iteration \<Rightarrow> packet \<Rightarrow> instant \<Rightarrow> queues \<Rightarrow> queues" where
  "queues_push order p now q =
     (case p_kind p of
        Audio \<Rightarrow>
          let (evicted, a) = audio_push order (h_media_id (p_header p)) (p_bytes p) (q_audio q);
              q = q\<lparr> q_audio := a \<rparr>
          in (case evicted of None \<Rightarrow> q | Some m \<Rightarrow> count_drop m q)
      | Video \<Rightarrow> push_video p now q)"

definition lose :: "lost \<Rightarrow> queues \<Rightarrow> queues" where
  "lose l q =
     (let m = l_media_id l; seq = l_seq l
      in if l_kind l = Audio then count_drop m q
         else
           let q = q\<lparr> q_active_tracks := finsert m (q_active_tracks q) \<rparr>;
               h = history_of q m;
               q = q\<lparr> q_history := fmupd m h (q_history q) \<rparr>;
               remembered = (\<lambda>first_seq. count_drop m
                 (q\<lparr> q_history := fmupd m (remember h first_seq Dropped) (q_history q) \<rparr>))
           in if l_first l then (if fmlookup h seq = None then remembered seq else q)
              else case entry_at_or_below h seq of
                     Some (_, Queued uid) \<Rightarrow> drop_unit uid q
                   | Some (first_seq, Sent) \<Rightarrow> remembered first_seq
                   | Some (_, Dropped) \<Rightarrow> q
                   | None \<Rightarrow> remembered seq)"

subsection \<open>The budget\<close>

definition give_up_idle_units :: "instant \<Rightarrow> queues \<Rightarrow> queues" where
  "give_up_idle_units now q =
     (if (case q_next_idle_check q of None \<Rightarrow> False | Some t \<Rightarrow> now < t) then q
      else
        let q = q\<lparr> q_next_idle_check := Some (now + IDLE_CHECK) \<rparr>;
            idle = map vu_id (filter (\<lambda>u. vu_packets u = [] \<and> duration_since now (vu_last_fragment u) > UNIT_IDLE)
                     (fmvals (q_started q)))
        in fold (\<lambda>uid. finish_unit uid Sent) idle q)"

definition unstarted_victim :: "queues \<Rightarrow> u64 option \<times> queues" where
  "unstarted_victim q =
     (let strays = dropWhile (\<lambda>uid. fmlookup (q_waiting q) uid = None) (q_strays q);
          q = q\<lparr> q_strays := strays \<rparr>
      in (case strays of uid # _ \<Rightarrow> Some uid | [] \<Rightarrow> first_key (q_waiting q), q))"

definition over_budget :: "instant \<Rightarrow> queues \<Rightarrow> bool" where
  "over_budget now q =
     (case first_key (q_waiting q) of
        None \<Rightarrow> False
      | Some uid \<Rightarrow>
          duration_since now (vu_arrived (the (fmlookup (q_waiting q) uid))) > VIDEO_BUDGET)"

definition units_queued :: "queues \<Rightarrow> nat" where
  "units_queued q = fmsize (q_started q) + fmsize (q_waiting q)"

lemma first_key_some: "first_key m = Some k \<Longrightarrow> fmlookup m k \<noteq> None"
proof -
  assume "first_key m = Some k"
  then have "k \<in> set (fmkeys m)" by (auto simp: first_key_def simp del: set_fmkeys split: list.splits)
  then show ?thesis by (auto simp: fmlookup_dom'_iff)
qed

lemma unstarted_victim_waits:
  assumes "unstarted_victim q = (Some uid, q')"
  shows "fmlookup (q_waiting q) uid \<noteq> None" "q_waiting q' = q_waiting q" "q_started q' = q_started q"
proof -
  show "fmlookup (q_waiting q) uid \<noteq> None"
  proof (cases "dropWhile (\<lambda>uid. fmlookup (q_waiting q) uid = None) (q_strays q)")
    case Nil
    then have "first_key (q_waiting q) = Some uid" using assms unfolding unstarted_victim_def Let_def Nil by simp
    then show ?thesis by (rule first_key_some)
  next
    case (Cons x xs)
    then have "fmlookup (q_waiting q) x \<noteq> None" by (metis (mono_tags, lifting) hd_dropWhile list.distinct(1) list.sel(1))
    then show ?thesis using assms Cons by (simp add: unstarted_victim_def Let_def)
  qed
  show "q_waiting q' = q_waiting q" "q_started q' = q_started q"
    using assms by (auto simp: unstarted_victim_def Let_def)
qed

lemma bookkeeping_units [simp]:
  "q_started (remove_copy uid u q) = q_started q" "q_waiting (remove_copy uid u q) = q_waiting q"
  "q_started (note_fate uid f u q) = q_started q" "q_waiting (note_fate uid f u q) = q_waiting q"
  "q_started (update_counters m g q) = q_started q" "q_waiting (update_counters m g q) = q_waiting q"
  "q_started (count_drop m q) = q_started q" "q_waiting (count_drop m q) = q_waiting q"
  by (auto simp: remove_copy_def note_fate_def update_counters_def count_drop_def Let_def split: option.splits)

lemma units_queued_cong: "q_started q = q_started q' \<Longrightarrow> q_waiting q = q_waiting q' \<Longrightarrow> units_queued q = units_queued q'"
  by (simp add: units_queued_def)

lemma finish_unit_units:
  assumes "find_unit q uid \<noteq> None"
  shows "q_started (finish_unit uid f q) = fmdrop uid (q_started q)"
    "q_waiting (finish_unit uid f q) = (if fmlookup (q_started q) uid = None then fmdrop uid (q_waiting q) else q_waiting q)"
    "units_queued (finish_unit uid f q) < units_queued q"
proof -
  have drop_none: "fmdrop uid m = m" if "fmlookup m uid = None" for m :: "(u64, video_unit) fmap"
    using that by (intro fmap_ext) auto
  obtain u where u: "find_unit q uid = Some u" using assms by blast
  show s: "q_started (finish_unit uid f q) = fmdrop uid (q_started q)"
    by (auto simp: finish_unit_def u Let_def drop_none)
  show w: "q_waiting (finish_unit uid f q) = (if fmlookup (q_started q) uid = None then fmdrop uid (q_waiting q) else q_waiting q)"
    by (auto simp: finish_unit_def u Let_def)
  have pos: "fmlookup m uid \<noteq> None \<Longrightarrow> fmsize m > 0" for m :: "(u64, video_unit) fmap"
    by (auto simp: fmsize_eq_card card_gt_0_iff fmlookup_dom'_iff [symmetric] dest: fmdom'I)
  show "units_queued (finish_unit uid f q) < units_queued q"
    using u pos [of "q_started q"] pos [of "q_waiting q"]
    by (auto simp: units_queued_def s w fmsize_drop find_unit_def split: option.splits)
qed

lemma update_unit_queued [simp]: "units_queued (update_unit uid f q) = units_queued q"
  by (auto simp: units_queued_def update_unit_def fmsize_upd split: option.splits)

lemma count_drop_queued [simp]: "units_queued (count_drop m q) = units_queued q"
  by (simp add: units_queued_def)

lemma drop_unit_queued: "find_unit q uid \<noteq> None \<Longrightarrow> units_queued (drop_unit uid q) < units_queued q"
  using finish_unit_units(3) [of q uid Dropped] by (auto simp: drop_unit_def Let_def split: option.splits)

lemma find_unit_cong: "q_started q = q_started q' \<Longrightarrow> q_waiting q = q_waiting q' \<Longrightarrow> find_unit q uid = find_unit q' uid"
  by (cases "fmlookup (q_started q') uid") (simp_all add: find_unit_def)

lemma find_unit_waiting: "fmlookup (q_waiting q) uid \<noteq> None \<Longrightarrow> find_unit q uid \<noteq> None"
  by (auto simp: find_unit_def split: option.splits)

lemma find_unit_started: "fmlookup (q_started q) uid \<noteq> None \<Longrightarrow> find_unit q uid \<noteq> None"
  by (auto simp: find_unit_def split: option.splits)

lemma victim_dropped:
  assumes "unstarted_victim q = (Some uid, q')"
  shows "units_queued (drop_unit uid q') < units_queued q"
  using drop_unit_queued [of q' uid] unstarted_victim_waits [OF assms] find_unit_waiting [of q' uid] units_queued_cong [of q' q] by simp

function drop_late :: "instant \<Rightarrow> queues \<Rightarrow> queues" where
  "drop_late now q =
     (if over_budget now q
      then (case unstarted_victim q of
              (None, q') \<Rightarrow> q'
            | (Some victim, q') \<Rightarrow> drop_late now (drop_unit victim q'))
      else q)"
  by auto
termination by (relation "measure (\<lambda>(now, q). units_queued q)") (simp_all add: victim_dropped)

declare drop_late.simps [simp del]

definition large_victim :: "queues \<Rightarrow> u64 option \<times> queues" where
  "large_victim q =
     (let oldest = first_key (q_started q)
      in case unstarted_victim q of (Some victim, q') \<Rightarrow> (Some victim, q') | (None, q') \<Rightarrow> (oldest, q'))"

lemma large_victim_queued:
  assumes "large_victim q = (Some uid, q')"
  shows "find_unit q uid \<noteq> None" "q_waiting q' = q_waiting q" "q_started q' = q_started q"
proof -
  obtain v q1 where v: "unstarted_victim q = (v, q1)" by (rule prod.exhaust)
  then show "q_waiting q' = q_waiting q" "q_started q' = q_started q"
    using assms by (auto simp: large_victim_def Let_def unstarted_victim_def split: option.splits)
  show "find_unit q uid \<noteq> None"
  proof (cases v)
    case None
    then show ?thesis using assms v first_key_some [of "q_started q" uid] find_unit_started [of q uid] by (auto simp: large_victim_def)
  next
    case (Some x)
    then show ?thesis using assms v unstarted_victim_waits(1) [of q x q1] find_unit_waiting [of q x] by (auto simp: large_victim_def)
  qed
qed

lemma large_dropped: "large_victim q = (Some uid, q') \<Longrightarrow> units_queued (drop_unit uid q') < units_queued q"
  using large_victim_queued [of q uid q'] drop_unit_queued [of q' uid] units_queued_cong [of q' q] find_unit_cong [of q' q uid]
  by (simp del: not_None_eq)

function drop_large :: "queues \<Rightarrow> queues" where
  "drop_large q =
     (if q_video_bytes q > MAX_QUEUED_VIDEO_BYTES
      then (case large_victim q of
              (None, q') \<Rightarrow> q'
            | (Some victim, q') \<Rightarrow> drop_large (drop_unit victim q'))
      else q)"
  by auto
termination by (relation "measure units_queued") (simp_all add: large_dropped)

declare drop_large.simps [simp del]

definition enforce_budget :: "instant \<Rightarrow> queues \<Rightarrow> queues" where
  "enforce_budget now q = drop_large (drop_late now (give_up_idle_units now q))"

subsection \<open>Sending\<close>

definition forget_quiet_tracks :: "queues \<Rightarrow> queues" where
  "forget_quiet_tracks q =
     (let queued = vu_media_id ` set (fmvals (q_started q) @ fmvals (q_waiting q))
      in q\<lparr> q_history := fmretain (\<lambda>m _. m |\<in>| q_active_tracks q \<or> m \<in> queued) (q_history q),
            q_active_tracks := {||} \<rparr>)"

text \<open>The unit to send from: one that is being sent already, or the first waiting one.\<close>

definition start_unit :: "queues \<Rightarrow> u64 option \<times> queues" where
  "start_unit q =
     (case first_elem (q_sending q) of
        Some uid \<Rightarrow> (Some uid, q)
      | None \<Rightarrow>
          (case first_key (q_waiting q) of
             None \<Rightarrow> (None, q)
           | Some uid \<Rightarrow>
               let u = the (fmlookup (q_waiting q) uid);
                   q = q\<lparr> q_waiting := fmdrop uid (q_waiting q), q_strays := dropWhile (\<lambda>s. s \<le> uid) (q_strays q) \<rparr>;
                   q = (if \<not> vu_stray u \<and> \<not> vu_copy u then count_forwarded (vu_media_id u) q else q)
               in (Some uid, q\<lparr> q_started := fmupd uid (u\<lparr> vu_started := True \<rparr>) (q_started q) \<rparr>)))"

definition send_from :: "u64 \<Rightarrow> queues \<Rightarrow> bytes option \<times> queues" where
  "send_from uid q =
     (case fmlookup (q_started q) uid of
        None \<Rightarrow> (None, q)
      | Some u \<Rightarrow>
          (case vu_packets u of
             [] \<Rightarrow> (None, q)
           | bs # rest \<Rightarrow>
               let q = q\<lparr> q_started := fmupd uid (u\<lparr> vu_packets := rest \<rparr>) (q_started q),
                          q_video_bytes := q_video_bytes q - length bs \<rparr>
               in (Some bs,
                   if rest \<noteq> [] then q\<lparr> q_sending := finsert uid (q_sending q) \<rparr>
                   else let q = q\<lparr> q_sending := q_sending q |-| {|uid|} \<rparr>
                        in if vu_complete u then finish_unit uid Sent q else q)))"

definition pop_video :: "queues \<Rightarrow> bytes option \<times> queues" where
  "pop_video q = (case start_unit q of (None, q') \<Rightarrow> (None, q') | (Some uid, q') \<Rightarrow> send_from uid q')"

definition queues_pop :: "queues \<Rightarrow> bytes option \<times> queues" where
  "queues_pop q =
     (let (taken, a) = audio_pop (q_audio q); q = q\<lparr> q_audio := a \<rparr>
      in case taken of
           Some (m, bs) \<Rightarrow> (Some bs, count_forwarded m q)
         | None \<Rightarrow> pop_video q)"

definition take_stats :: "queues \<Rightarrow> track_stats list \<times> queues" where
  "take_stats q =
     (map (\<lambda>m. let c = the (fmlookup (q_stats q) m)
               in \<lparr> ts_media_id = m, ts_forwarded = c_forwarded c, ts_dropped_units = c_dropped_units c \<rparr>)
        (fmkeys (q_stats q)), q\<lparr> q_stats := fmempty \<rparr>)"

subsection \<open>A round of the task\<close>

text \<open>
  What the task of one receiver keeps, and one round of it up to the datagram it sends. The packets
  are those \<open>try_recv\<close> found in the inbox, each with the time it was queued at; \<open>permit\<close> says
  whether the control channel had room. Out come the report it sent, if any, and the datagram.
\<close>

record egress_task =
  et_queues :: queues
  et_next_stats :: instant

definition add_overflow :: "(media_id, u32) fmap \<Rightarrow> queues \<Rightarrow> queues" where
  "add_overflow overflow =
     fold (\<lambda>m. update_counters m (\<lambda>c. c\<lparr> c_dropped_units := c_dropped_units c + the (fmlookup overflow m) \<rparr>))
       (fmkeys overflow)"

definition egress_intake :: "iteration \<Rightarrow> inbox_drops \<Rightarrow> (packet \<times> instant) list \<Rightarrow> queues \<Rightarrow> queues" where
  "egress_intake order drops packets q =
     add_overflow (id_overflow drops)
       (fold lose (filter (\<lambda>l. \<not> l_first l) (id_lost drops))
         (fold (\<lambda>(p, t). queues_push order p t) packets
           (fold lose (filter l_first (id_lost drops)) q)))"

definition egress_report :: "instant \<Rightarrow> bool \<Rightarrow> egress_task \<Rightarrow> track_stats list option \<times> egress_task" where
  "egress_report now permit t =
     (if now < et_next_stats t then (None, t)
      else
        let t = t\<lparr> et_next_stats := now + LINK_STATS_INTERVAL, et_queues := forget_quiet_tracks (et_queues t) \<rparr>
        in if \<not> permit then (None, t)
           else let (tracks, q) = take_stats (et_queues t)
                in (if tracks = [] then None else Some tracks, t\<lparr> et_queues := q \<rparr>))"

definition egress_round ::
  "iteration \<Rightarrow> inbox_drops \<Rightarrow> (packet \<times> instant) list \<Rightarrow> instant \<Rightarrow> bool \<Rightarrow> egress_task \<Rightarrow>
   track_stats list option \<times> bytes option \<times> egress_task" where
  "egress_round order drops packets now permit t =
     (let q = enforce_budget now (egress_intake order drops packets (et_queues t));
          (report, t) = egress_report now permit (t\<lparr> et_queues := q \<rparr>);
          (sent, q) = queues_pop (et_queues t)
      in (report, sent, t\<lparr> et_queues := q \<rparr>))"

end
