(* ===== verification/Egress_Inv.thy ===== *)
theory Egress_Inv
  imports Egress
begin

text \<open>
  The invariant of a receiver's queues: started units are older than waiting ones, the set of
  units being sent, the byte count and the index of copies are exact, the history points at units
  that are queued, and the list of strays misses none. Every operation keeps it.
\<close>

subsection \<open>Maps of units\<close>

definition map_bytes :: "(u64, video_unit) fmap \<Rightarrow> nat" where
  "map_bytes m = (\<Sum>k \<in> fmdom' m. case fmlookup m k of None \<Rightarrow> 0 | Some u \<Rightarrow> unit_bytes u)"

lemma finite_fmdom' [simp]: "finite (fmdom' m)"
  by (simp add: fmdom'_alt_def)

lemma map_bytes_split:
  assumes "fmlookup m k = Some u"
  shows "map_bytes m = unit_bytes u + map_bytes (fmdrop k m)"
proof -
  have "k \<in> fmdom' m" using assms by (auto simp: fmlookup_dom'_iff)
  then have "map_bytes m = unit_bytes u + (\<Sum>x \<in> fmdom' m - {k}. case fmlookup m x of None \<Rightarrow> 0 | Some u \<Rightarrow> unit_bytes u)"
    using assms by (simp add: map_bytes_def sum.remove)
  also have "(\<Sum>x \<in> fmdom' m - {k}. case fmlookup m x of None \<Rightarrow> 0 | Some u \<Rightarrow> unit_bytes u) = map_bytes (fmdrop k m)"
    unfolding map_bytes_def by (intro sum.cong) auto
  finally show ?thesis .
qed

lemma map_bytes_upd: "map_bytes (fmupd k u m) = unit_bytes u + map_bytes (fmdrop k m)"
proof -
  have "fmdrop k (fmupd k u m) = fmdrop k m" by (intro fmap_ext) simp
  then show ?thesis using map_bytes_split [of "fmupd k u m" k u] by simp
qed

lemma fmdrop_absent: "fmlookup m k = None \<Longrightarrow> fmdrop k m = m"
  by (intro fmap_ext) auto

lemma map_bytes_new: "fmlookup m k = None \<Longrightarrow> map_bytes (fmupd k u m) = unit_bytes u + map_bytes m"
  by (simp add: map_bytes_upd fmdrop_absent)

lemma map_bytes_empty [simp]: "map_bytes fmempty = 0"
  by (simp add: map_bytes_def)

subsection \<open>The invariant\<close>

definition units_ok :: "queues \<Rightarrow> bool" where
  "units_ok q \<longleftrightarrow>
     (\<forall>k u. fmlookup (q_started q) k = Some u \<longrightarrow> vu_id u = k \<and> vu_started u \<and> k < q_next_id q) \<and>
     (\<forall>k u. fmlookup (q_waiting q) k = Some u \<longrightarrow>
        vu_id u = k \<and> \<not> vu_started u \<and> vu_packets u \<noteq> [] \<and> k < q_next_id q) \<and>
     (\<forall>a b u v. fmlookup (q_started q) a = Some u \<longrightarrow> fmlookup (q_waiting q) b = Some v \<longrightarrow> a < b)"

definition sending_ok :: "queues \<Rightarrow> bool" where
  "sending_ok q \<longleftrightarrow>
     (\<forall>k. k |\<in>| q_sending q \<longleftrightarrow> (\<exists>u. fmlookup (q_started q) k = Some u \<and> vu_packets u \<noteq> []))"

definition bytes_ok :: "queues \<Rightarrow> bool" where
  "bytes_ok q \<longleftrightarrow> q_video_bytes q = map_bytes (q_started q) + map_bytes (q_waiting q)"

definition copy_ids :: "queues \<Rightarrow> media_id \<times> u32 \<Rightarrow> u64 set" where
  "copy_ids q key = {k. \<exists>u. find_unit q k = Some u \<and> \<not> vu_stray u \<and> (vu_media_id u, vu_first_seq u) = key}"

definition copies_ok :: "queues \<Rightarrow> bool" where
  "copies_ok q \<longleftrightarrow>
     (\<forall>key. fset (fmget (q_copies q) key {||}) = copy_ids q key \<and> fmlookup (q_copies q) key \<noteq> Some {||})"

definition history_ok :: "queues \<Rightarrow> bool" where
  "history_ok q \<longleftrightarrow>
     (\<forall>m. fmsize (history_of q m) \<le> HISTORY) \<and>
     (\<forall>m s k. fmlookup (history_of q m) s = Some (Queued k) \<longrightarrow> k \<in> copy_ids q (m, s))"

definition strays_ok :: "queues \<Rightarrow> bool" where
  "strays_ok q \<longleftrightarrow>
     (\<forall>k u. fmlookup (q_waiting q) k = Some u \<longrightarrow> vu_stray u \<longrightarrow> k \<in> set (q_strays q)) \<and>
     (\<forall>k \<in> set (q_strays q). k < q_next_id q \<and> (\<forall>u. find_unit q k = Some u \<longrightarrow> vu_stray u))"

definition times_ok :: "instant \<Rightarrow> queues \<Rightarrow> bool" where
  "times_ok c q \<longleftrightarrow>
     (\<forall>k u. fmlookup (q_waiting q) k = Some u \<longrightarrow> vu_arrived u \<le> c) \<and>
     (\<forall>a b u v. fmlookup (q_waiting q) a = Some u \<longrightarrow> fmlookup (q_waiting q) b = Some v \<longrightarrow> a \<le> b \<longrightarrow>
        vu_arrived u \<le> vu_arrived v)"

definition queues_ok :: "instant \<Rightarrow> queues \<Rightarrow> bool" where
  "queues_ok c q \<longleftrightarrow> audio_ok (q_audio q) \<and> units_ok q \<and> sending_ok q \<and> bytes_ok q \<and> copies_ok q \<and>
     history_ok q \<and> strays_ok q \<and> times_ok c q"

lemmas queues_ok_defs = queues_ok_def units_ok_def sending_ok_def bytes_ok_def copies_ok_def history_ok_def strays_ok_def times_ok_def

lemma queues_default_ok: "queues_ok c queues_default"
  by (simp add: queues_ok_defs queues_default_def audio_default_ok copy_ids_def find_unit_def history_of_def fmget_def)

text \<open>Counters, active tracks and the time of the next idle check do not matter.\<close>

lemma history_of_irrelevant [simp]:
  "history_of (q\<lparr> q_stats := s \<rparr>) = history_of q" "history_of (q\<lparr> q_active_tracks := a \<rparr>) = history_of q"
  "history_of (q\<lparr> q_next_idle_check := i \<rparr>) = history_of q" "history_of (q\<lparr> q_audio := au \<rparr>) = history_of q"
  "history_of (q\<lparr> q_strays := ss \<rparr>) = history_of q" "history_of (q\<lparr> q_copies := cs \<rparr>) = history_of q"
  "history_of (q\<lparr> q_next_id := n \<rparr>) = history_of q" "history_of (q\<lparr> q_sending := se \<rparr>) = history_of q"
  "history_of (q\<lparr> q_video_bytes := b \<rparr>) = history_of q" "history_of (q\<lparr> q_started := st \<rparr>) = history_of q"
  "history_of (q\<lparr> q_waiting := w \<rparr>) = history_of q"
  "history_of (q\<lparr> q_history := fmupd m h (q_history q) \<rparr>) = (history_of q)(m := h)"
  by (simp_all add: history_of_def fmget_def fun_eq_iff)

lemma find_unit_irrelevant [simp]:
  "find_unit (q\<lparr> q_stats := s \<rparr>) = find_unit q" "find_unit (q\<lparr> q_active_tracks := a \<rparr>) = find_unit q"
  "find_unit (q\<lparr> q_next_idle_check := i \<rparr>) = find_unit q" "find_unit (q\<lparr> q_audio := au \<rparr>) = find_unit q"
  "find_unit (q\<lparr> q_strays := ss \<rparr>) = find_unit q" "find_unit (q\<lparr> q_copies := cs \<rparr>) = find_unit q"
  "find_unit (q\<lparr> q_next_id := n \<rparr>) = find_unit q" "find_unit (q\<lparr> q_sending := se \<rparr>) = find_unit q"
  "find_unit (q\<lparr> q_video_bytes := b \<rparr>) = find_unit q" "find_unit (q\<lparr> q_history := hs \<rparr>) = find_unit q"
  by (simp_all add: find_unit_def fun_eq_iff cong: option.case_cong)

lemma copy_ids_cong: "find_unit q = find_unit q' \<Longrightarrow> copy_ids q = copy_ids q'"
  by (simp add: copy_ids_def fun_eq_iff)

lemma queues_ok_counters [simp]:
  "queues_ok c (q\<lparr> q_stats := s \<rparr>) = queues_ok c q" "queues_ok c (q\<lparr> q_active_tracks := a \<rparr>) = queues_ok c q"
  "queues_ok c (q\<lparr> q_next_idle_check := i \<rparr>) = queues_ok c q"
  by (simp_all add: queues_ok_defs copy_ids_def)

lemma queues_ok_update_counters [simp]:
  "queues_ok c (update_counters m f q) = queues_ok c q" "queues_ok c (count_drop m q) = queues_ok c q"
  "queues_ok c (count_forwarded m q) = queues_ok c q"
  by (simp_all add: update_counters_def count_drop_def count_forwarded_def)

lemma queues_ok_audio: "queues_ok c q \<Longrightarrow> audio_ok a \<Longrightarrow> queues_ok c (q\<lparr> q_audio := a \<rparr>)"
  by (simp add: queues_ok_defs copy_ids_def)

lemma queues_ok_later: "queues_ok c q \<Longrightarrow> c \<le> d \<Longrightarrow> queues_ok d q"
  unfolding queues_ok_def times_ok_def by (meson order_trans)

subsection \<open>Units leave\<close>

lemma started_not_waiting:
  assumes "units_ok q" "fmlookup (q_started q) k = Some u"
  shows "fmlookup (q_waiting q) k = None"
  using assms unfolding units_ok_def by (metis less_irrefl option.exhaust)

lemma finish_unit_fields:
  assumes ok: "units_ok q" and u: "find_unit q k = Some u"
  shows "q_started (finish_unit k f q) = fmdrop k (q_started q)" "q_waiting (finish_unit k f q) = fmdrop k (q_waiting q)"
    "q_sending (finish_unit k f q) = q_sending q |-| {|k|}" "q_strays (finish_unit k f q) = q_strays q"
    "q_video_bytes (finish_unit k f q) = q_video_bytes q - unit_bytes u" "q_next_id (finish_unit k f q) = q_next_id q"
    "q_audio (finish_unit k f q) = q_audio q" "q_next_idle_check (finish_unit k f q) = q_next_idle_check q"
proof -
  have w: "fmdrop k (q_waiting q) = q_waiting q" if "fmlookup (q_started q) k \<noteq> None"
    using that started_not_waiting [OF ok] by (intro fmdrop_absent) blast
  show "q_started (finish_unit k f q) = fmdrop k (q_started q)" "q_waiting (finish_unit k f q) = fmdrop k (q_waiting q)"
    using finish_unit_units(1,2) [of q k f] u w by (auto simp: fmdrop_absent)
  show "q_sending (finish_unit k f q) = q_sending q |-| {|k|}" "q_strays (finish_unit k f q) = q_strays q"
    "q_video_bytes (finish_unit k f q) = q_video_bytes q - unit_bytes u" "q_next_id (finish_unit k f q) = q_next_id q"
    "q_audio (finish_unit k f q) = q_audio q" "q_next_idle_check (finish_unit k f q) = q_next_idle_check q"
    by (auto simp: finish_unit_def u Let_def remove_copy_def note_fate_def split: option.splits)
qed

lemma finish_unit_find:
  "units_ok q \<Longrightarrow> find_unit q k = Some u \<Longrightarrow> find_unit (finish_unit k f q) x = (if x = k then None else find_unit q x)"
  by (simp add: finish_unit_fields find_unit_def [of "finish_unit k f q"] find_unit_def [of q x] cong: option.case_cong)

lemma finish_unit_copies:
  assumes u: "find_unit q k = Some u"
  shows "fmget (q_copies (finish_unit k f q)) key {||} =
      fmget (q_copies q) key {||} |-| (if \<not> vu_stray u \<and> key = (vu_media_id u, vu_first_seq u) then {|k|} else {||})"
    and "fmlookup (q_copies q) key \<noteq> Some {||} \<Longrightarrow> fmlookup (q_copies (finish_unit k f q)) key \<noteq> Some {||}"
proof -
  have noted: "q_copies (note_fate k f u q') = q_copies q'" for q' by (simp add: note_fate_def split: option.split)
  show "fmget (q_copies (finish_unit k f q)) key {||} =
      fmget (q_copies q) key {||} |-| (if \<not> vu_stray u \<and> key = (vu_media_id u, vu_first_seq u) then {|k|} else {||})"
    by (auto simp: finish_unit_def u Let_def noted remove_copy_def fmget_def split: option.split)
  show "fmlookup (q_copies (finish_unit k f q)) key \<noteq> Some {||}" if "fmlookup (q_copies q) key \<noteq> Some {||}"
    using that by (auto simp: finish_unit_def u Let_def noted remove_copy_def split: option.splits)
qed

lemma finish_unit_history:
  assumes u: "find_unit q k = Some u"
  shows "history_of (finish_unit k f q) m =
    (if m = vu_media_id u \<and> fmlookup (history_of q m) (vu_first_seq u) = Some (Queued k)
     then fmupd (vu_first_seq u) f (history_of q m) else history_of q m)"
proof -
  have copy: "q_history (remove_copy k u q') = q_history q'" for q' by (simp add: remove_copy_def Let_def split: option.split)
  show ?thesis
    by (auto simp: finish_unit_def u Let_def note_fate_def copy history_of_def fmget_def split: option.splits)
qed

lemma finish_unit_ok:
  assumes ok: "queues_ok c q" and f: "\<And>x. f \<noteq> Queued x"
  shows "queues_ok c (finish_unit k f q)"
proof (cases "find_unit q k")
  case None
  then show ?thesis using ok by (simp add: finish_unit_def)
next
  case (Some u)
  note parts = ok [unfolded queues_ok_def]
  have units: "units_ok q" using parts by simp
  note fields = finish_unit_fields [OF units Some, of f]
  note look = finish_unit_find [OF units Some, of f]
  let ?q = "finish_unit k f q"
  have in_copies: "copy_ids ?q key = copy_ids q key - {k}" for key by (auto simp: copy_ids_def look)
  have k_in: "k \<in> copy_ids q key \<longleftrightarrow> \<not> vu_stray u \<and> key = (vu_media_id u, vu_first_seq u)" for key
    using Some by (auto simp: copy_ids_def)
  have "units_ok ?q" using units by (auto simp: units_ok_def fields)
  moreover have "sending_ok ?q" using parts by (auto simp: sending_ok_def fields)
  moreover have "bytes_ok ?q"
  proof (cases "fmlookup (q_started q) k")
    case None
    then have "fmlookup (q_waiting q) k = Some u" using Some by (simp add: find_unit_def)
    then show ?thesis using parts None by (simp add: bytes_ok_def fields fmdrop_absent map_bytes_split)
  next
    case (Some v)
    then have "v = u" using \<open>find_unit q k = Some u\<close> by (simp add: find_unit_def)
    then show ?thesis using parts Some started_not_waiting [OF units Some]
      by (simp add: bytes_ok_def fields fmdrop_absent map_bytes_split)
  qed
  moreover have "copies_ok ?q"
    using parts k_in by (auto simp: copies_ok_def finish_unit_copies [OF Some] in_copies)
  moreover have "history_ok ?q"
  proof -
    have "fmsize (history_of ?q m) \<le> HISTORY" for m
      using parts by (auto simp: history_ok_def finish_unit_history [OF Some] fmsize_upd)
    moreover have "x \<in> copy_ids ?q (m, s)" if "fmlookup (history_of ?q m) s = Some (Queued x)" for m s x
    proof -
      have h: "fmlookup (history_of q m) s = Some (Queued x)" "x \<noteq> k \<or> \<not> (m = vu_media_id u \<and> s = vu_first_seq u)"
        using that f [of x] by (auto simp: finish_unit_history [OF Some] split: if_splits)
      then have "x \<in> copy_ids q (m, s)" using parts by (simp add: history_ok_def)
      then show ?thesis using h(2) k_in [of "(m, s)"] by (auto simp: in_copies)
    qed
    ultimately show ?thesis by (simp add: history_ok_def)
  qed
  moreover have "strays_ok ?q" using parts by (auto simp: strays_ok_def fields look)
  moreover have "times_ok c ?q" using parts by (auto simp: times_ok_def fields)
  ultimately show ?thesis using parts by (simp add: queues_ok_def fields)
qed

subsection \<open>Units change\<close>

definition same_unit :: "video_unit \<Rightarrow> video_unit \<Rightarrow> bool" where
  "same_unit u v \<longleftrightarrow> vu_id v = vu_id u \<and> vu_media_id v = vu_media_id u \<and> vu_stray v = vu_stray u \<and>
     vu_first_seq v = vu_first_seq u \<and> vu_started v = vu_started u \<and> vu_arrived v = vu_arrived u"

lemma update_unit_find:
  "find_unit (update_unit k f q) x = (if x = k then map_option f (find_unit q k) else find_unit q x)"
  by (auto simp: update_unit_def find_unit_def split: option.splits)

lemma update_unit_fields [simp]:
  "q_sending (update_unit k f q) = q_sending q" "q_strays (update_unit k f q) = q_strays q"
  "q_video_bytes (update_unit k f q) = q_video_bytes q" "q_next_id (update_unit k f q) = q_next_id q"
  "q_audio (update_unit k f q) = q_audio q" "q_copies (update_unit k f q) = q_copies q"
  "q_history (update_unit k f q) = q_history q" "history_of (update_unit k f q) = history_of q"
  by (auto simp: update_unit_def history_of_def fun_eq_iff split: option.split)

lemma update_unit_started:
  "fmlookup (q_started (update_unit k f q)) x = (if x = k then map_option f (fmlookup (q_started q) k) else fmlookup (q_started q) x)"
  by (auto simp: update_unit_def split: option.split)

lemma update_unit_waiting:
  assumes "units_ok q"
  shows "fmlookup (q_waiting (update_unit k f q)) x = (if x = k then map_option f (fmlookup (q_waiting q) k) else fmlookup (q_waiting q) x)"
  using started_not_waiting [OF assms] by (auto simp: update_unit_def split: option.split)

lemma map_bytes_change:
  assumes "fmlookup m k = Some u" "\<And>x. fmlookup m' x = (if x = k then Some v else fmlookup m x)"
  shows "map_bytes m' + unit_bytes u = map_bytes m + unit_bytes v"
proof -
  have "m' = fmupd k v m" using assms(2) by (intro fmap_ext) simp
  then show ?thesis using map_bytes_split [OF assms(1)] by (simp add: map_bytes_upd)
qed

lemma map_bytes_same: "(\<And>x. fmlookup m' x = fmlookup m x) \<Longrightarrow> map_bytes m' = map_bytes m"
  using fmap_ext [of m' m] by simp

lemma update_unit_bytes:
  assumes units: "units_ok q" and u: "find_unit q k = Some u" and more: "unit_bytes (f u) = unit_bytes u + n"
  shows "map_bytes (q_started (update_unit k f q)) + map_bytes (q_waiting (update_unit k f q)) =
    map_bytes (q_started q) + map_bytes (q_waiting q) + n"
proof (cases "fmlookup (q_started q) k")
  case None
  then have w: "fmlookup (q_waiting q) k = Some u" using u by (simp add: find_unit_def)
  have "map_bytes (q_started (update_unit k f q)) = map_bytes (q_started q)"
    using None by (intro map_bytes_same) (simp add: update_unit_started)
  then show ?thesis
    using map_bytes_change [OF w, of "q_waiting (update_unit k f q)" "f u"] w more by (simp add: update_unit_waiting [OF units])
next
  case (Some v)
  then have v: "fmlookup (q_started q) k = Some u" using u by (simp add: find_unit_def)
  have "map_bytes (q_waiting (update_unit k f q)) = map_bytes (q_waiting q)"
    using started_not_waiting [OF units v] by (intro map_bytes_same) (simp add: update_unit_waiting [OF units])
  then show ?thesis
    using map_bytes_change [OF v, of "q_started (update_unit k f q)" "f u"] v more by (simp add: update_unit_started)
qed

lemma update_unit_ok:
  assumes ok: "queues_ok c q" and u: "find_unit q k = Some u" and same: "same_unit u (f u)"
    and more: "vu_packets (f u) = vu_packets u @ ps"
    and sending: "\<And>x. x |\<in>| s \<longleftrightarrow> x |\<in>| q_sending q \<or> x = k \<and> vu_started u \<and> ps \<noteq> []"
  shows "queues_ok c ((update_unit k f q)\<lparr> q_sending := s, q_video_bytes := q_video_bytes q + sum_list (map length ps) \<rparr>)"
    (is "queues_ok c ?q")
proof -
  note parts = ok [unfolded queues_ok_def]
  have units: "units_ok q" using parts by simp
  have at: "fmlookup (q_started q) k = Some u \<or> fmlookup (q_started q) k = None \<and> fmlookup (q_waiting q) k = Some u"
    using u by (auto simp: find_unit_def split: option.splits)
  let ?u = "update_unit k f q"
  have look: "find_unit ?u x = (if x = k then Some (f u) else find_unit q x)" for x
    using u by (simp add: update_unit_find)
  have st: "fmlookup (q_started ?u) x = (if x = k then map_option f (fmlookup (q_started q) k) else fmlookup (q_started q) x)"
    and wt: "fmlookup (q_waiting ?u) x = (if x = k then map_option f (fmlookup (q_waiting q) k) else fmlookup (q_waiting q) x)" for x
    by (simp_all add: update_unit_started update_unit_waiting [OF units])
  have fu: "vu_id (f u) = vu_id u" "vu_started (f u) = vu_started u" "vu_arrived (f u) = vu_arrived u"
      "vu_stray (f u) = vu_stray u" "(vu_media_id (f u), vu_first_seq (f u)) = (vu_media_id u, vu_first_seq u)"
    using same by (simp_all add: same_unit_def)
  have copies: "copy_ids ?q = copy_ids q"
    using u fu by (simp add: copy_ids_def look fun_eq_iff) (auto split: if_splits)
  have w_k: "fmlookup (q_waiting q) k = Some v \<Longrightarrow> v = u" for v
    using at started_not_waiting [OF units] by fastforce
  have s_k: "fmlookup (q_started q) k = Some v \<Longrightarrow> v = u" for v using at by auto
  have "units_ok ?q"
  proof -
    have "fmlookup (q_started ?q) x = Some v \<Longrightarrow> vu_id v = x \<and> vu_started v \<and> x < q_next_id ?q" for x v
      using units fu s_k unfolding units_ok_def by (cases "x = k") (auto simp: st)
    moreover have "fmlookup (q_waiting ?q) x = Some v \<Longrightarrow> vu_id v = x \<and> \<not> vu_started v \<and> vu_packets v \<noteq> [] \<and> x < q_next_id ?q" for x v
      using units fu w_k more unfolding units_ok_def by (cases "x = k") (auto simp: wt)
    moreover have "fmlookup (q_started ?q) a = Some v \<Longrightarrow> fmlookup (q_waiting ?q) b = Some w \<Longrightarrow> a < b" for a b v w
    proof -
      assume "fmlookup (q_started ?q) a = Some v" "fmlookup (q_waiting ?q) b = Some w"
      then have "fmlookup (q_started q) a \<noteq> None" "fmlookup (q_waiting q) b \<noteq> None" by (auto simp: st wt split: if_splits)
      then show "a < b" using units unfolding units_ok_def by blast
    qed
    ultimately show ?thesis unfolding units_ok_def by blast
  qed
  moreover have "sending_ok ?q"
  proof -
    have "x |\<in>| s \<longleftrightarrow> (\<exists>v. fmlookup (q_started ?q) x = Some v \<and> vu_packets v \<noteq> [])" for x
    proof (cases "x = k")
      case False
      then show ?thesis using parts by (simp add: sending st sending_ok_def)
    next
      case True
      have "vu_started u \<longleftrightarrow> fmlookup (q_started q) k = Some u" using at units unfolding units_ok_def by auto
      then show ?thesis using True parts at more by (auto simp: sending st sending_ok_def)
    qed
    then show ?thesis by (simp add: sending_ok_def)
  qed
  moreover have "bytes_ok ?q"
    using parts update_unit_bytes [OF units u, of f "sum_list (map length ps)"] more by (simp add: bytes_ok_def unit_bytes_def)
  moreover have "copies_ok ?q" "history_ok ?q" using parts by (simp_all add: copies_ok_def history_ok_def copies)
  moreover have "strays_ok ?q"
    using parts u fu w_k by (simp add: strays_ok_def look wt) (auto split: if_splits)
  moreover have "times_ok c ?q"
  proof -
    have arr: "\<exists>v'. fmlookup (q_waiting q) x = Some v' \<and> vu_arrived v' = vu_arrived v" if "fmlookup (q_waiting ?q) x = Some v" for x v
      using that w_k fu by (auto simp: wt split: if_splits)
    have old: "times_ok c q" using parts by simp
    show ?thesis unfolding times_ok_def
    proof (intro conjI allI impI)
      fix x v assume "fmlookup (q_waiting ?q) x = Some v"
      from arr [OF this] show "vu_arrived v \<le> c" using old unfolding times_ok_def by fastforce
    next
      fix a b v w assume "fmlookup (q_waiting ?q) a = Some v" "fmlookup (q_waiting ?q) b = Some w" "a \<le> b"
      then show "vu_arrived v \<le> vu_arrived w" using arr [of a v] arr [of b w] old unfolding times_ok_def by fastforce
    qed
  qed
  ultimately show ?thesis using parts by (simp add: queues_ok_def)
qed

lemma update_unit_sending: "(update_unit k f q)\<lparr> q_sending := q_sending q \<rparr> = update_unit k f q"
  by (simp add: update_unit_def split: option.split)

lemma mark_original_ok:
  assumes "queues_ok c q" "find_unit q k = Some u"
  shows "queues_ok c (update_unit k (\<lambda>u. u\<lparr> vu_copy := False \<rparr>) q)"
proof -
  let ?u = "update_unit k (\<lambda>u. u\<lparr> vu_copy := False \<rparr>) q"
  have same: "?u\<lparr> q_sending := q_sending q, q_video_bytes := q_video_bytes q \<rparr> = ?u"
    by (simp add: update_unit_def split: option.split)
  have "queues_ok c (?u\<lparr> q_sending := q_sending q, q_video_bytes := q_video_bytes q \<rparr>)"
    using update_unit_ok [OF assms, of "\<lambda>u. u\<lparr> vu_copy := False \<rparr>" "[]" "q_sending q"] by (simp add: same_unit_def)
  then show ?thesis unfolding same .
qed

lemma drop_unit_ok: "queues_ok c q \<Longrightarrow> queues_ok c (drop_unit k q)"
  using finish_unit_ok [of c q Dropped k] mark_original_ok
  by (auto simp: drop_unit_def Let_def split: option.splits bind_splits)

end
