(* ===== verification/Egress_Arrivals.thy ===== *)
theory Egress_Arrivals
  imports Egress_Inv
begin

text \<open>Arrivals, losses, the budget and sending keep the invariant of a receiver's queues.\<close>

subsection \<open>History\<close>

lemma trim_history_lookup: "fmlookup (trim_history h) s = Some f \<Longrightarrow> fmlookup h s = Some f"
proof (induction h rule: trim_history.induct)
  case (1 h)
  then show ?case by (subst (asm) trim_history.simps) (auto split: if_splits)
qed

lemma trim_history_size: "fmsize (trim_history h) \<le> HISTORY"
proof (induction h rule: trim_history.induct)
  case (1 h)
  then show ?case by (subst trim_history.simps) auto
qed

lemma remember_lookup: "fmlookup (remember h s f) x = Some g \<Longrightarrow> (if x = s then g = f else fmlookup h x = Some g)"
  using trim_history_lookup [of "fmupd s f h" x g] by (auto simp: remember_def)

lemma remember_size: "fmsize (remember h s f) \<le> HISTORY"
  by (simp add: remember_def trim_history_size)

lemma entry_at_or_below_lookup: "entry_at_or_below h s = Some (x, f) \<Longrightarrow> fmlookup h x = Some f"
  by (auto simp: entry_at_or_below_def split: list.splits)

text \<open>A history that points at no other unit is as good.\<close>

lemma set_history_ok:
  assumes "queues_ok c q" "fmsize h \<le> HISTORY"
    "\<And>s k. fmlookup h s = Some (Queued k) \<Longrightarrow> fmlookup (history_of q m) s = Some (Queued k)"
  shows "queues_ok c (q\<lparr> q_history := fmupd m h (q_history q) \<rparr>)"
  using assms unfolding queues_ok_defs by (auto simp: copy_ids_def)

subsection \<open>A new unit\<close>

lemma next_id_less: "n \<noteq> - 1 \<Longrightarrow> n < n + (1 :: u64)"
proof -
  assume "n \<noteq> - 1"
  then have "unat n \<noteq> unat (- 1 :: u64)" by (metis word_unat_eq_iff)
  moreover have "unat n < 2 ^ 64" using unsigned_less [of n] by simp
  ultimately have "unat n + 1 < 2 ^ 64" by (simp add: unsigned_minus_1_eq_mask mask_eq_exp_minus_1)
  then show ?thesis by (simp add: word_less_nat_alt unat_word_ariths)
qed

lemma add_unit_ok:
  assumes ok: "queues_ok c q" and clock: "c \<le> now" and room: "q_next_id q \<noteq> - 1"
    and u: "vu_id u = q_next_id q" "\<not> vu_started u" "vu_packets u \<noteq> []" "vu_arrived u = now"
    and q': "audio_ok (q_audio q')" "q_started q' = q_started q" "q_waiting q' = fmupd (q_next_id q) u (q_waiting q)"
      "q_sending q' = q_sending q" "q_video_bytes q' = q_video_bytes q + unit_bytes u" "q_next_id q' = q_next_id q + 1"
    and strays: "q_strays q' = (if vu_stray u then q_strays q @ [q_next_id q] else q_strays q)"
    and copies: "q_copies q' = (if vu_stray u then q_copies q else
      fmupd (vu_media_id u, vu_first_seq u)
        (finsert (q_next_id q) (fmget (q_copies q) (vu_media_id u, vu_first_seq u) {||})) (q_copies q))"
    and history: "\<And>m. fmsize (history_of q' m) \<le> HISTORY"
      "\<And>m s k. fmlookup (history_of q' m) s = Some (Queued k) \<Longrightarrow> fmlookup (history_of q m) s = Some (Queued k) \<or>
         \<not> vu_stray u \<and> k = q_next_id q \<and> m = vu_media_id u \<and> s = vu_first_seq u"
  shows "queues_ok now q'"
proof -
  note parts = ok [unfolded queues_ok_def]
  let ?n = "q_next_id q"
  have units: "units_ok q" using parts by simp
  have less: "k < ?n \<Longrightarrow> k < ?n + 1" for k using next_id_less [OF room] less_trans by blast
  have new: "fmlookup (q_started q) ?n = None" "fmlookup (q_waiting q) ?n = None"
    using units unfolding units_ok_def by (metis less_irrefl option.exhaust)+
  have below: "find_unit q k = Some v \<Longrightarrow> k < ?n" for k v
    using units unfolding units_ok_def by (auto simp: find_unit_def split: option.splits)
  have look: "find_unit q' k = (if k = ?n then Some u else find_unit q k)" for k
    using new by (auto simp: find_unit_def q' split: option.splits)
  have ids: "copy_ids q' key = copy_ids q key \<union> (if \<not> vu_stray u \<and> key = (vu_media_id u, vu_first_seq u) then {?n} else {})" for key
    using below by (auto simp: copy_ids_def look)
  have "units_ok q'"
    using units u less next_id_less [OF room] unfolding units_ok_def q' by auto
  moreover have "sending_ok q'" using parts by (simp add: sending_ok_def q')
  moreover have "bytes_ok q'" using parts by (simp add: bytes_ok_def q' map_bytes_new new)
  moreover have "copies_ok q'" using parts by (auto simp: copies_ok_def copies ids fmget_def)
  moreover have "history_ok q'" using parts history by (fastforce simp: history_ok_def ids)
  moreover have "strays_ok q'"
    using parts less next_id_less [OF room] below unfolding strays_ok_def q' strays look by (auto split: if_splits)
  moreover have "times_ok now q'"
  proof -
    have old: "fmlookup (q_waiting q) k = Some v \<Longrightarrow> vu_arrived v \<le> now" for k v
      using parts clock unfolding times_ok_def by fastforce
    have before: "fmlookup (q_waiting q) k = Some v \<Longrightarrow> k < ?n" for k v using units unfolding units_ok_def by blast
    have mono: "fmlookup (q_waiting q) a = Some v \<Longrightarrow> fmlookup (q_waiting q) b = Some w \<Longrightarrow> a \<le> b \<Longrightarrow> vu_arrived v \<le> vu_arrived w" for a b v w
      using parts unfolding times_ok_def by blast
    show ?thesis unfolding times_ok_def q'
    proof (intro conjI allI impI)
      fix k v assume "fmlookup (fmupd ?n u (q_waiting q)) k = Some v"
      then show "vu_arrived v \<le> now" using old u(4) by (auto split: if_splits)
    next
      fix a b v w
      assume a: "fmlookup (fmupd ?n u (q_waiting q)) a = Some v" and b: "fmlookup (fmupd ?n u (q_waiting q)) b = Some w" and le: "a \<le> b"
      show "vu_arrived v \<le> vu_arrived w"
      proof (cases "b = ?n")
        case True
        then show ?thesis using a b old u(4) by (auto split: if_splits)
      next
        case False
        then have "a \<noteq> ?n" using b before [of b w] le by auto
        then show ?thesis using a b le False mono [of a v b w] by simp
      qed
    qed
  qed
  ultimately show ?thesis using q'(1) by (simp add: queues_ok_def)
qed

lemma push_stray_ok:
  assumes ok: "queues_ok c q" and "c \<le> now" "q_next_id q \<noteq> - 1"
  shows "queues_ok now (push_stray p now q)"
proof -
  have "history_ok q" "audio_ok (q_audio q)" using ok by (simp_all add: queues_ok_def)
  then show ?thesis
    unfolding push_stray_def new_id_def queue_unit_def
    by (intro add_unit_ok [OF assms]) (auto simp: unit_new_def history_ok_def)
qed

lemma update_counters_simps [simp]:
  "q_next_id (update_counters m f q) = q_next_id q" "q_started (update_counters m f q) = q_started q"
  "q_waiting (update_counters m f q) = q_waiting q" "q_sending (update_counters m f q) = q_sending q"
  "q_strays (update_counters m f q) = q_strays q" "q_copies (update_counters m f q) = q_copies q"
  "q_history (update_counters m f q) = q_history q" "q_video_bytes (update_counters m f q) = q_video_bytes q"
  "q_audio (update_counters m f q) = q_audio q" "history_of (update_counters m f q) = history_of q"
  by (simp_all add: update_counters_def)

lemma push_first_ok:
  assumes ok: "queues_ok c q" and "c \<le> now" "q_next_id q \<noteq> - 1"
  shows "queues_ok now (push_first p now q)"
proof -
  have h: "history_ok q" "audio_ok (q_audio q)" using ok by (simp_all add: queues_ok_def)
  let ?m = "h_media_id (p_header p)" and ?s = "h_seq (p_header p)"
  let ?q1 = "\<lambda>g b. if b then update_counters ?m g (q\<lparr> q_next_id := q_next_id q + 1 \<rparr>) else q\<lparr> q_next_id := q_next_id q + 1 \<rparr>"
  have mem: "fmlookup (remember (history_of q ?m) ?s (Queued (q_next_id q))) s = Some (Queued k) \<Longrightarrow>
      fmlookup (history_of q ?m) s = Some (Queued k) \<or> k = q_next_id q \<and> s = ?s" for s k
    using remember_lookup [of "history_of q ?m" ?s "Queued (q_next_id q)" s "Queued k"] by (auto split: if_splits)
  have fields: "q_next_id (?q1 g b) = q_next_id q + 1" "q_started (?q1 g b) = q_started q" "q_waiting (?q1 g b) = q_waiting q"
      "q_sending (?q1 g b) = q_sending q" "q_strays (?q1 g b) = q_strays q" "q_copies (?q1 g b) = q_copies q"
      "q_video_bytes (?q1 g b) = q_video_bytes q" "q_audio (?q1 g b) = q_audio q" "history_of (?q1 g b) = history_of q" for g b
    by simp_all
  show ?thesis
    unfolding push_first_def new_id_def Let_def prod.case queue_unit_def
    by (rule add_unit_ok [OF assms])
      (use h remember_size in \<open>auto simp: unit_new_def history_ok_def fields split: if_splits dest: mem\<close>)
qed

lemma push_fragment_ok:
  assumes ok: "queues_ok c q"
  shows "queues_ok c (push_fragment p now k q)"
proof (cases "find_unit q k")
  case None
  then show ?thesis using ok by (simp add: push_fragment_def)
next
  case (Some u)
  show ?thesis
  proof (cases "vu_received u \<ge> MAX_UNIT_FRAGMENTS")
    case True
    then show ?thesis using Some drop_unit_ok [OF ok] by (simp add: push_fragment_def)
  next
    case False
    let ?f = "\<lambda>u. u\<lparr> vu_packets := vu_packets u @ [p_bytes p], vu_received := vu_received u + 1, vu_last_fragment := now,
                      vu_complete := (vu_complete u \<or> contains (h_flags (p_header p)) LAST) \<rparr>"
    have "queues_ok c ((update_unit k ?f q)\<lparr> q_sending := (if vu_started u then finsert k (q_sending q) else q_sending q),
        q_video_bytes := q_video_bytes q + sum_list (map length [p_bytes p]) \<rparr>)"
      by (intro update_unit_ok [OF ok Some]) (auto simp: same_unit_def)
    then show ?thesis using Some False by (cases "vu_started u") (simp_all add: push_fragment_def Let_def update_unit_sending)
  qed
qed

lemma push_video_ok:
  assumes ok: "queues_ok c q" and "c \<le> now" "q_next_id q \<noteq> - 1"
  shows "queues_ok now (push_video p now q)"
proof -
  let ?q = "q\<lparr> q_active_tracks := finsert (h_media_id (p_header p)) (q_active_tracks q) \<rparr>"
  have "queues_ok c ?q" "q_next_id ?q \<noteq> - 1" using assms by simp_all
  then show ?thesis
    using push_first_ok push_stray_ok push_fragment_ok queues_ok_later [OF _ assms(2)] assms(2)
    by (auto simp: push_video_def Let_def split: option.split fate.split bind_splits)
qed

lemma queues_push_ok:
  assumes ok: "queues_ok c q" and "c \<le> now" "q_next_id q \<noteq> - 1" and order: "iterates order"
  shows "queues_ok now (queues_push order p now q)"
proof (cases "p_kind p")
  case Audio
  have "audio_ok (q_audio q)" using ok by (simp add: queues_ok_def)
  then obtain e a where "audio_push order (h_media_id (p_header p)) (p_bytes p) (q_audio q) = (e, a)" "audio_ok a"
    using push_audio_ok [OF _ order] by metis
  then show ?thesis
    using queues_ok_audio [OF queues_ok_later [OF assms(1,2)]] Audio by (simp add: queues_push_def Let_def split: option.split)
next
  case Video
  then show ?thesis using push_video_ok [OF assms(1-3)] by (simp add: queues_push_def)
qed

lemma lose_ok:
  assumes ok: "queues_ok c q"
  shows "queues_ok c (lose l q)"
proof -
  let ?m = "l_media_id l"
  let ?q = "q\<lparr> q_active_tracks := finsert ?m (q_active_tracks q) \<rparr>"
  let ?h = "history_of q ?m"
  let ?q1 = "?q\<lparr> q_history := fmupd ?m ?h (q_history q) \<rparr>"
  have size: "fmsize ?h \<le> HISTORY" using ok by (simp add: queues_ok_def history_ok_def)
  have set_h: "queues_ok c (?q\<lparr> q_history := fmupd ?m h (q_history q) \<rparr>)" if "fmsize h \<le> HISTORY"
      "\<And>s k. fmlookup h s = Some (Queued k) \<Longrightarrow> fmlookup ?h s = Some (Queued k)" for h
    using set_history_ok [of c ?q h ?m] ok that by simp
  have one: "queues_ok c ?q1" using set_h [OF size] by simp
  have remembered: "queues_ok c (count_drop ?m (?q1\<lparr> q_history := fmupd ?m (remember ?h s Dropped) (q_history ?q1) \<rparr>))" for s
    using set_h [OF remember_size [of ?h s Dropped]] remember_lookup [of ?h s Dropped] by (fastforce split: if_splits)
  show ?thesis
    using ok one remembered drop_unit_ok [OF one]
    by (auto simp: lose_def Let_def split: option.split fate.split)
qed

end
