(* ===== verification/Egress_Flow.thy ===== *)
theory Egress_Flow
  imports Egress_Arrivals
begin

text \<open>
  How media leaves a receiver's queues: the budget that drops late video, sending unit by unit, and
  the states the queues can reach.
\<close>

subsection \<open>The budget\<close>

definition sent_parts :: "queues \<Rightarrow> (u64, bytes list) fmap" where
  "sent_parts q = fmmap vu_packets (q_started q)"

lemma in_dropWhile: "x \<in> set xs \<Longrightarrow> \<not> P x \<Longrightarrow> x \<in> set (dropWhile P xs)"
  by (induction xs) auto

lemma set_strays_ok:
  assumes "queues_ok c q" "set ss \<subseteq> set (q_strays q)"
    "\<And>k u. fmlookup (q_waiting q) k = Some u \<Longrightarrow> k \<in> set (q_strays q) \<Longrightarrow> k \<in> set ss"
  shows "queues_ok c (q\<lparr> q_strays := ss \<rparr>)"
  using assms unfolding queues_ok_defs by (auto simp: copy_ids_def)

lemma unstarted_victim_ok:
  assumes "queues_ok c q"
  shows "queues_ok c (snd (unstarted_victim q))"
  unfolding unstarted_victim_def Let_def snd_conv
  by (intro set_strays_ok [OF assms]) (auto dest: set_dropWhileD intro: in_dropWhile)

lemma unstarted_victim_none:
  assumes "unstarted_victim q = (None, q')"
  shows "q_waiting q = fmempty"
proof -
  have "first_key (q_waiting q) = None"
    using assms by (auto simp: unstarted_victim_def Let_def split: list.splits)
  then have "fmkeys (q_waiting q) = []" by (simp add: first_key_def split: list.splits)
  then have "fmdom' (q_waiting q) = {}" by (metis list.set(1) set_fmkeys)
  then show ?thesis by (intro fmap_ext) (metis fmdom'_notI empty_iff fmdom'_notD fmempty_lookup)
qed

text \<open>Units as far as a dropped copy leaves them alone.\<close>

definition plain :: "video_unit \<Rightarrow> video_unit" where
  "plain u = u\<lparr> vu_copy := False \<rparr>"

lemma plain_fields [simp]:
  "vu_packets (plain u) = vu_packets u" "vu_arrived (plain u) = vu_arrived u" "vu_last_fragment (plain u) = vu_last_fragment u"
  "unit_bytes (plain u) = unit_bytes u" "plain (u\<lparr> vu_copy := b \<rparr>) = plain u"
  by (simp_all add: plain_def unit_bytes_def)

lemma plain_view: "fmmap plain m = fmmap plain m' \<Longrightarrow> map_option plain (fmlookup m k) = map_option plain (fmlookup m' k)"
  by (metis fmlookup_map)

lemma update_unit_plain:
  "fmmap plain (q_started (update_unit t (\<lambda>u. u\<lparr> vu_copy := b \<rparr>) q)) = fmmap plain (q_started q)"
  "fmmap plain (q_waiting (update_unit t (\<lambda>u. u\<lparr> vu_copy := b \<rparr>) q)) = fmmap plain (q_waiting q)"
  by (auto simp: update_unit_def intro!: fmap_ext split: option.split)

lemma drop_unit_maps:
  assumes units: "units_ok q" and u: "find_unit q k \<noteq> None"
  shows "fmmap plain (q_started (drop_unit k q)) = fmdrop k (fmmap plain (q_started q))"
    "fmmap plain (q_waiting (drop_unit k q)) = fmdrop k (fmmap plain (q_waiting q))"
proof -
  obtain v where v: "find_unit q k = Some v" using u by blast
  note fields = finish_unit_fields(1,2) [OF units v, of Dropped]
  have drop: "fmmap plain (fmdrop k m) = fmdrop k (fmmap plain m)" for m by (intro fmap_ext) simp
  let ?q = "finish_unit k Dropped q" and ?f = "\<lambda>u. u\<lparr> vu_copy := False \<rparr>"
  have "drop_unit k q = ?q \<or> (\<exists>m. drop_unit k q = count_drop m ?q) \<or> (\<exists>t. drop_unit k q = update_unit t ?f ?q)"
    unfolding drop_unit_def v Let_def option.case by (cases "Option.bind (Option.bind (fmlookup (q_copies ?q) (vu_media_id v, vu_first_seq v)) first_elem) (find_unit ?q)") auto
  then have "fmmap plain (q_started (drop_unit k q)) = fmmap plain (q_started ?q) \<and>
      fmmap plain (q_waiting (drop_unit k q)) = fmmap plain (q_waiting ?q)"
    by (elim disjE exE) (simp_all only: update_unit_plain bookkeeping_units simp_thms)
  then show "fmmap plain (q_started (drop_unit k q)) = fmdrop k (fmmap plain (q_started q))"
    "fmmap plain (q_waiting (drop_unit k q)) = fmdrop k (fmmap plain (q_waiting q))"
    by (simp_all only: fields drop)
qed

lemma map_bytes_plain: "map_bytes (fmmap plain m) = map_bytes m"
proof -
  have "(case fmlookup (fmmap plain m) k of None \<Rightarrow> 0 | Some u \<Rightarrow> unit_bytes u) =
      (case fmlookup m k of None \<Rightarrow> 0 | Some u \<Rightarrow> unit_bytes u)" for k
    by (simp split: option.split)
  then show ?thesis by (simp only: map_bytes_def fmdom'_map)
qed

lemma over_budget_waiting: "over_budget now q \<Longrightarrow> q_waiting q \<noteq> fmempty"
  by (auto simp: over_budget_def first_key_def)

lemma unstarted_victim_same:
  "unstarted_victim q = (v, q') \<Longrightarrow> q_started q' = q_started q \<and> q_waiting q' = q_waiting q"
  by (auto simp: unstarted_victim_def Let_def)

text \<open>What is left of \<open>q\<close> after some waiting units were dropped.\<close>

definition some_waiting_left :: "queues \<Rightarrow> queues \<Rightarrow> bool" where
  "some_waiting_left q q' \<longleftrightarrow> (\<forall>k u. fmlookup (fmmap plain (q_waiting q')) k = Some u \<longrightarrow> fmlookup (fmmap plain (q_waiting q)) k = Some u)"

lemma some_waiting_left_trans: "some_waiting_left a b \<Longrightarrow> some_waiting_left b c \<Longrightarrow> some_waiting_left a c"
  unfolding some_waiting_left_def by blast

lemma victim_ok:
  assumes ok: "queues_ok c q" and v: "unstarted_victim q = (Some k, q')"
  shows "queues_ok c (drop_unit k q')" "fmmap plain (q_started (drop_unit k q')) = fmmap plain (q_started q)"
    "some_waiting_left q (drop_unit k q')"
proof -
  have ok': "queues_ok c q'" using unstarted_victim_ok [OF ok] v by simp
  then show "queues_ok c (drop_unit k q')" by (rule drop_unit_ok)
  note waits = unstarted_victim_waits [OF v]
  have units: "units_ok q'" "units_ok q" using ok ok' by (simp_all add: queues_ok_def)
  have found: "find_unit q' k \<noteq> None" using waits by (intro find_unit_waiting) simp
  have "fmlookup (q_started q) k = None"
    using waits(1) started_not_waiting [OF units(2)] by (metis not_Some_eq)
  then show "fmmap plain (q_started (drop_unit k q')) = fmmap plain (q_started q)"
    using waits(3) by (simp add: drop_unit_maps [OF units(1) found] fmdrop_absent)
  show "some_waiting_left q (drop_unit k q')"
    using waits(2) unfolding some_waiting_left_def drop_unit_maps(2) [OF units(1) found] by (auto split: if_splits)
qed

lemma drop_late_result:
  assumes "queues_ok c q"
  shows "queues_ok c (drop_late now q)" "\<not> over_budget now (drop_late now q)"
    "fmmap plain (q_started (drop_late now q)) = fmmap plain (q_started q)" "some_waiting_left q (drop_late now q)"
proof -
  have "queues_ok c (drop_late now q) \<and> \<not> over_budget now (drop_late now q) \<and>
      fmmap plain (q_started (drop_late now q)) = fmmap plain (q_started q) \<and> some_waiting_left q (drop_late now q)"
    using assms
  proof (induction now q rule: drop_late.induct)
    case (1 now q)
    show ?case
    proof (cases "over_budget now q")
      case False
      then show ?thesis using 1(2) by (simp add: drop_late.simps [of now q] some_waiting_left_def)
    next
      case True
      obtain v q' where v: "unstarted_victim q = (v, q')" by (rule prod.exhaust)
      show ?thesis
      proof (cases v)
        case None
        then show ?thesis using v unstarted_victim_none over_budget_waiting [OF True] by blast
      next
        case (Some k)
        note victim = victim_ok [OF 1(2) v [unfolded Some]]
        have "drop_late now q = drop_late now (drop_unit k q')" using True v Some by (simp add: drop_late.simps [of now q])
        then show ?thesis
          using 1(1) [OF True v [symmetric] Some victim(1)] victim(2,3) some_waiting_left_trans by metis
      qed
    qed
  qed
  then show "queues_ok c (drop_late now q)" "\<not> over_budget now (drop_late now q)"
    "fmmap plain (q_started (drop_late now q)) = fmmap plain (q_started q)" "some_waiting_left q (drop_late now q)"
    by blast+
qed

lemma drop_large_result:
  assumes "queues_ok c q"
  shows "queues_ok c (drop_large q)" "q_video_bytes (drop_large q) \<le> MAX_QUEUED_VIDEO_BYTES" "some_waiting_left q (drop_large q)"
    "map_bytes (q_started q) \<le> MAX_QUEUED_VIDEO_BYTES \<Longrightarrow> fmmap plain (q_started (drop_large q)) = fmmap plain (q_started q)"
proof -
  have "queues_ok c (drop_large q) \<and> q_video_bytes (drop_large q) \<le> MAX_QUEUED_VIDEO_BYTES \<and> some_waiting_left q (drop_large q) \<and>
      (map_bytes (q_started q) \<le> MAX_QUEUED_VIDEO_BYTES \<longrightarrow> fmmap plain (q_started (drop_large q)) = fmmap plain (q_started q))"
    using assms
  proof (induction q rule: drop_large.induct)
    case (1 q)
    have bytes: "q_video_bytes q = map_bytes (q_started q) + map_bytes (q_waiting q)"
      using 1(2) by (simp add: queues_ok_def bytes_ok_def)
    show ?case
    proof (cases "q_video_bytes q > MAX_QUEUED_VIDEO_BYTES")
      case False
      then show ?thesis using 1(2) by (simp add: drop_large.simps [of q] some_waiting_left_def)
    next
      case True
      obtain v q' where v: "unstarted_victim q = (v, q')" by (rule prod.exhaust)
      show ?thesis
      proof (cases v)
        case (Some k)
        note victim = victim_ok [OF 1(2) v [unfolded Some]]
        have large: "large_victim q = (Some k, q')" using v Some by (simp add: large_victim_def)
        then have "drop_large q = drop_large (drop_unit k q')" using True by (simp add: drop_large.simps [of q])
        moreover have "map_bytes (q_started (drop_unit k q')) = map_bytes (q_started q)" using victim(2) map_bytes_plain by metis
        ultimately show ?thesis
          using 1(1) [OF True large [symmetric] refl victim(1)] victim(2,3) some_waiting_left_trans by metis
      next
        case None
        then have empty: "q_waiting q = fmempty" using v unstarted_victim_none by blast
        then have big: "map_bytes (q_started q) > MAX_QUEUED_VIDEO_BYTES" using True bytes by simp
        then have "fmkeys (q_started q) \<noteq> []" by (auto simp: map_bytes_def simp flip: set_fmkeys)
        then obtain k where k: "first_key (q_started q) = Some k" by (cases "fmkeys (q_started q)") (auto simp: first_key_def)
        have large: "large_victim q = (Some k, q')" using v None k by (simp add: large_victim_def)
        have ok': "queues_ok c (drop_unit k q')" using unstarted_victim_ok [OF 1(2)] v drop_unit_ok by simp
        have "q_waiting (drop_unit k q') = fmempty"
        proof -
          have "units_ok q'" using unstarted_victim_ok [OF 1(2)] v by (simp add: queues_ok_def)
          moreover have "find_unit q' k \<noteq> None"
            using find_unit_started [of q' k] first_key_some [OF k] unstarted_victim_same [OF v] by simp
          ultimately have "fmmap plain (q_waiting (drop_unit k q')) = fmempty"
            using drop_unit_maps(2) empty unstarted_victim_same [OF v] by (simp add: fmdrop_absent)
          then show ?thesis by (metis fmap_ext fmempty_lookup fmlookup_map option.map_disc_iff)
        qed
        then have left: "some_waiting_left q (drop_unit k q')" by (simp add: some_waiting_left_def)
        have "drop_large q = drop_large (drop_unit k q')" using True large by (simp add: drop_large.simps [of q])
        then show ?thesis
          using 1(1) [OF True large [symmetric] refl ok'] left some_waiting_left_trans big by (metis not_less)
      qed
    qed
  qed
  then show "queues_ok c (drop_large q)" "q_video_bytes (drop_large q) \<le> MAX_QUEUED_VIDEO_BYTES" "some_waiting_left q (drop_large q)"
    "map_bytes (q_started q) \<le> MAX_QUEUED_VIDEO_BYTES \<Longrightarrow> fmmap plain (q_started (drop_large q)) = fmmap plain (q_started q)"
    by blast+
qed

lemma finish_all_ok:
  assumes "queues_ok c q"
  shows "queues_ok c (fold (\<lambda>k. finish_unit k Sent) ks q) \<and>
    (\<forall>k. k \<notin> set ks \<longrightarrow> fmlookup (q_started (fold (\<lambda>k. finish_unit k Sent) ks q)) k = fmlookup (q_started q) k) \<and>
    (\<forall>k u. fmlookup (q_waiting (fold (\<lambda>k. finish_unit k Sent) ks q)) k = Some u \<longrightarrow> fmlookup (q_waiting q) k = Some u)"
  using assms
proof (induction ks arbitrary: q)
  case (Cons k ks)
  have ok: "queues_ok c (finish_unit k Sent q)" using finish_unit_ok [OF Cons.prems, of Sent] by simp
  have units: "units_ok q" using Cons.prems by (simp add: queues_ok_def)
  have "fmlookup (q_started (finish_unit k Sent q)) x = (if x = k then None else fmlookup (q_started q) x)"
      "fmlookup (q_waiting (finish_unit k Sent q)) x = (if x = k then None else fmlookup (q_waiting q) x)" if "find_unit q k \<noteq> None" for x
    using that finish_unit_fields(1,2) [OF units] by auto
  moreover have "finish_unit k Sent q = q" if "find_unit q k = None" using that by (simp add: finish_unit_def)
  ultimately have step: "x \<noteq> k \<Longrightarrow> fmlookup (q_started (finish_unit k Sent q)) x = fmlookup (q_started q) x"
      "fmlookup (q_waiting (finish_unit k Sent q)) x = Some u \<Longrightarrow> fmlookup (q_waiting q) x = Some u" for x u
    by (metis option.distinct(1))+
  show ?case using Cons.IH [OF ok] step by (auto simp del: not_None_eq)
qed simp

lemma started_only:
  assumes "queues_ok c q"
  shows "fmlookup (q_started (fold (\<lambda>k. finish_unit k Sent) ks q)) k = Some u \<Longrightarrow> fmlookup (q_started q) k = Some u"
  using assms
proof (induction ks arbitrary: q)
  case (Cons j ks)
  have ok: "queues_ok c (finish_unit j Sent q)" using finish_unit_ok [OF Cons.prems(2), of Sent] by simp
  have "units_ok q" using Cons.prems(2) by (simp add: queues_ok_def)
  then have "fmlookup (q_started (finish_unit j Sent q)) k = Some u \<Longrightarrow> fmlookup (q_started q) k = Some u"
    using finish_unit_fields(1) [of q j _ Sent] by (cases "find_unit q j") (auto simp: finish_unit_def [of j Sent q] split: if_splits)
  then show ?case using Cons.IH [OF _ ok] Cons.prems(1) by simp
qed simp

lemma give_up_idle_units_result:
  assumes ok: "queues_ok c q"
  shows "queues_ok c (give_up_idle_units now q)"
    "\<And>k u. fmlookup (q_started q) k = Some u \<Longrightarrow> vu_packets u \<noteq> [] \<Longrightarrow> fmlookup (q_started (give_up_idle_units now q)) k = Some u"
    "some_waiting_left q (give_up_idle_units now q)"
    "map_bytes (q_started (give_up_idle_units now q)) \<le> map_bytes (q_started q)"
proof -
  let ?idle = "map vu_id (filter (\<lambda>u. vu_packets u = [] \<and> duration_since now (vu_last_fragment u) > UNIT_IDLE) (fmvals (q_started q)))"
  let ?q = "q\<lparr> q_next_idle_check := Some (now + IDLE_CHECK) \<rparr>"
  have units: "units_ok q" using ok by (simp add: queues_ok_def)
  have idle: "k \<in> set ?idle \<Longrightarrow> fmlookup (q_started q) k = Some u \<Longrightarrow> vu_packets u = []" for k u
    using units unfolding units_ok_def by (auto simp: set_fmvals)
  have cases: "give_up_idle_units now q = q \<or> give_up_idle_units now q = fold (\<lambda>k. finish_unit k Sent) ?idle ?q"
    by (simp add: give_up_idle_units_def Let_def)
  have all: "queues_ok c (fold (\<lambda>k. finish_unit k Sent) ?idle ?q)"
      "\<And>k. k \<notin> set ?idle \<Longrightarrow> fmlookup (q_started (fold (\<lambda>k. finish_unit k Sent) ?idle ?q)) k = fmlookup (q_started q) k"
      "\<And>k u. fmlookup (q_waiting (fold (\<lambda>k. finish_unit k Sent) ?idle ?q)) k = Some u \<Longrightarrow> fmlookup (q_waiting q) k = Some u"
    using finish_all_ok [of c ?q ?idle] ok by simp_all
  show ok': "queues_ok c (give_up_idle_units now q)" using cases all(1) ok by (elim disjE) simp_all
  show kept: "fmlookup (q_started (give_up_idle_units now q)) k = Some u" if "fmlookup (q_started q) k = Some u" "vu_packets u \<noteq> []" for k u
  proof -
    have "k \<notin> set ?idle" using idle [of k u] that by blast
    then show ?thesis using cases all(2) [of k] that(1) by (elim disjE) simp_all
  qed
  show "some_waiting_left q (give_up_idle_units now q)"
  proof -
    have "fmlookup (q_waiting (give_up_idle_units now q)) k = Some u \<Longrightarrow> fmlookup (q_waiting q) k = Some u" for k u
      using cases all(3) [of k u] by (elim disjE) simp_all
    then show ?thesis by (fastforce simp: some_waiting_left_def)
  qed
  show "map_bytes (q_started (give_up_idle_units now q)) \<le> map_bytes (q_started q)"
  proof -
    have sub: "fmlookup (q_started (give_up_idle_units now q)) k = Some u \<Longrightarrow> fmlookup (q_started q) k = Some u" for k u
      using cases started_only [of c ?q ?idle k u] ok by (elim disjE) simp_all
    have dom: "fmdom' (q_started (give_up_idle_units now q)) \<subseteq> fmdom' (q_started q)"
    proof
      fix x assume "x \<in> fmdom' (q_started (give_up_idle_units now q))"
      then obtain a where "fmlookup (q_started (give_up_idle_units now q)) x = Some a" by (auto simp: fmlookup_dom'_iff)
      from fmdom'I [OF sub [OF this]] show "x \<in> fmdom' (q_started q)" .
    qed
    have "map_bytes (q_started (give_up_idle_units now q)) =
        (\<Sum>k \<in> fmdom' (q_started (give_up_idle_units now q)). case fmlookup (q_started q) k of None \<Rightarrow> 0 | Some u \<Rightarrow> unit_bytes u)"
      unfolding map_bytes_def by (intro sum.cong) (auto simp: fmlookup_dom'_iff sub)
    also have "\<dots> \<le> map_bytes (q_started q)"
      unfolding map_bytes_def by (intro sum_mono2 finite_fmdom' dom) simp
    finally show ?thesis .
  qed
qed

lemma enforce_budget_ok: "queues_ok c q \<Longrightarrow> queues_ok c (enforce_budget now q)"
  unfolding enforce_budget_def
  by (intro drop_large_result(1) drop_late_result(1) give_up_idle_units_result(1))

lemma first_key_least:
  assumes "first_key m = Some k" "fmlookup m x = Some v"
  shows "k \<le> x"
proof -
  obtain ks where ks: "fmkeys m = k # ks" using assms(1) by (auto simp: first_key_def split: list.splits)
  have "x \<in> set (fmkeys m)" using assms(2) by (auto simp: fmlookup_dom'_iff)
  then show ?thesis using sorted_fmkeys [of m] unfolding ks by auto
qed

lemma within_budget:
  assumes ok: "queues_ok c q" and fine: "\<not> over_budget now q" and u: "fmlookup (q_waiting q) k = Some u"
  shows "duration_since now (vu_arrived u) \<le> VIDEO_BUDGET"
proof -
  have "first_key (q_waiting q) \<noteq> None"
  proof
    assume "first_key (q_waiting q) = None"
    then have "set (fmkeys (q_waiting q)) = {}" by (auto simp: first_key_def simp del: set_fmkeys split: list.splits)
    then show False using fmdom'I [OF u] by simp
  qed
  then obtain f where f: "first_key (q_waiting q) = Some f" by blast
  then obtain v where v: "fmlookup (q_waiting q) f = Some v" using first_key_some by blast
  have "duration_since now (vu_arrived v) \<le> VIDEO_BUDGET" using fine f v by (simp add: over_budget_def)
  moreover have "vu_arrived v \<le> vu_arrived u"
    using ok v u first_key_least [OF f u] unfolding queues_ok_def times_ok_def by blast
  ultimately show ?thesis by (simp add: duration_since_def)
qed

lemma enforce_budget_result:
  assumes ok: "queues_ok c q"
  shows "q_video_bytes (enforce_budget now q) \<le> MAX_QUEUED_VIDEO_BYTES \<and>
    (\<forall>k u. fmlookup (q_waiting (enforce_budget now q)) k = Some u \<longrightarrow>
       duration_since now (vu_arrived u) \<le> VIDEO_BUDGET \<and> (\<exists>v. fmlookup (q_waiting q) k = Some v \<and> plain v = plain u)) \<and>
    (map_bytes (q_started q) \<le> MAX_QUEUED_VIDEO_BYTES \<longrightarrow>
       (\<forall>k u. fmlookup (q_started q) k = Some u \<longrightarrow> vu_packets u \<noteq> [] \<longrightarrow>
         (\<exists>v. fmlookup (q_started (enforce_budget now q)) k = Some v \<and> plain v = plain u)))"
proof -
  let ?a = "give_up_idle_units now q"
  let ?b = "drop_late now ?a"
  note a = give_up_idle_units_result [OF ok]
  note b = drop_late_result [OF a(1) [of now], of now]
  note d = drop_large_result [OF b(1)]
  have same: "fmlookup (q_waiting y) k = Some v \<Longrightarrow> some_waiting_left x y \<Longrightarrow>
      \<exists>u. fmlookup (q_waiting x) k = Some u \<and> plain u = plain v" for x y k v
    unfolding some_waiting_left_def by fastforce
  have waiting: "duration_since now (vu_arrived u) \<le> VIDEO_BUDGET \<and> (\<exists>v. fmlookup (q_waiting q) k = Some v \<and> plain v = plain u)"
    if u: "fmlookup (q_waiting (drop_large ?b)) k = Some u" for k u
  proof
    obtain v where v: "fmlookup (q_waiting ?b) k = Some v" "plain v = plain u" using same [OF u d(3)] by blast
    have "vu_arrived u = vu_arrived v" using arg_cong [OF v(2), of vu_arrived] by simp
    then show "duration_since now (vu_arrived u) \<le> VIDEO_BUDGET" using within_budget [OF b(1,2) v(1)] by simp
    have "some_waiting_left q (drop_large ?b)" using some_waiting_left_trans a(3) b(4) d(3) by blast
    from same [OF u this] show "\<exists>v. fmlookup (q_waiting q) k = Some v \<and> plain v = plain u" .
  qed
  have started: "\<exists>v. fmlookup (q_started (drop_large ?b)) k = Some v \<and> plain v = plain u"
    if "map_bytes (q_started q) \<le> MAX_QUEUED_VIDEO_BYTES" "fmlookup (q_started q) k = Some u" "vu_packets u \<noteq> []" for k u
  proof -
    have "map_bytes (q_started ?b) \<le> MAX_QUEUED_VIDEO_BYTES"
      using that(1) a(4) [of now] b(3) map_bytes_plain by (metis le_trans)
    then have "fmmap plain (q_started (drop_large ?b)) = fmmap plain (q_started ?a)" using d(4) b(3) by simp
    from plain_view [OF this, of k] show ?thesis using a(2) [OF that(2,3)] by auto
  qed
  show ?thesis unfolding enforce_budget_def using d(2) waiting started by blast
qed

end
