(* ===== verification/Egress_Send.thy ===== *)
theory Egress_Send
  imports Egress_Flow
begin

text \<open>
  Sending from a receiver's queues: popping keeps the invariant, gets stuck only when nothing is
  queued, and sends the queued video unit by unit in the order the units arrived. The states the
  queues of a running task can reach all satisfy the invariant.
\<close>

subsection \<open>The queued video as one line\<close>

definition content :: "(u64, video_unit) fmap \<Rightarrow> bytes list" where
  "content m = concat (map vu_packets (fmvals m))"

definition line :: "queues \<Rightarrow> bytes list" where
  "line q = content (q_started q) @ content (q_waiting q)"

lemma fmkeys_cong: "fmdom m = fmdom m' \<Longrightarrow> fmkeys m = fmkeys m'"
  by (simp add: fmkeys_def)

lemma content_empty_iff: "content m = [] \<longleftrightarrow> (\<forall>k u. fmlookup m k = Some u \<longrightarrow> vu_packets u = [])"
  by (auto simp: content_def set_fmvals)

lemma fmkeys_split:
  assumes "fmlookup m k = Some u"
  obtains as bs where "fmkeys m = as @ k # bs" "fmkeys (fmdrop k m) = as @ bs" "\<And>x. x \<in> set as \<Longrightarrow> x < k"
    "k \<notin> set as" "k \<notin> set bs"
proof -
  have "k \<in> set (fmkeys m)" using fmdom'I [OF assms] by simp
  then obtain as bs where s: "fmkeys m = as @ k # bs" by (metis split_list)
  have d: "distinct (as @ k # bs)" "sorted (as @ k # bs)" using distinct_fmkeys [of m] sorted_fmkeys [of m] s by simp_all
  have "set (as @ bs) = fmdom' (fmdrop k m)"
    using d(1) s set_fmkeys [of m] by (auto simp: fmdom'_drop)
  moreover have "sorted (as @ bs)" "distinct (as @ bs)" using d by (auto simp: sorted_append)
  ultimately have "fmkeys (fmdrop k m) = as @ bs"
    by (metis sorted_distinct_set_unique sorted_fmkeys distinct_fmkeys set_fmkeys)
  moreover have "x < k" if "x \<in> set as" for x using d that by (fastforce simp: sorted_append)
  ultimately show ?thesis using that s d(1) by auto
qed

lemma content_front:
  assumes "\<And>x v. fmlookup m x = Some v \<Longrightarrow> x < k \<Longrightarrow> vu_packets v = []"
  shows "content (fmupd k u m) = vu_packets u @ content (fmdrop k m)"
proof -
  have look: "fmlookup (fmupd k u m) k = Some u" by simp
  have drop: "fmdrop k (fmupd k u m) = fmdrop k m" by (intro fmap_ext) simp
  obtain as bs where s: "fmkeys (fmupd k u m) = as @ k # bs" "fmkeys (fmdrop k m) = as @ bs" "\<And>x. x \<in> set as \<Longrightarrow> x < k"
      "k \<notin> set as" "k \<notin> set bs"
    using fmkeys_split [OF look] unfolding drop by metis
  have known: "\<exists>v. fmlookup m x = Some v" if "x \<in> set as" for x
  proof -
    have "x \<in> set (fmkeys (fmdrop k m))" using that s(2) by simp
    then show ?thesis by (auto simp: fmlookup_dom'_iff split: if_splits)
  qed
  have quiet: "concat (map (\<lambda>x. vu_packets (the (fmlookup m' x))) as) = []" if "\<And>x. x \<in> set as \<Longrightarrow> fmlookup m' x = fmlookup m x" for m'
    using that known assms s(3) by (fastforce simp: concat_eq_Nil_conv)
  have rest: "map (\<lambda>x. vu_packets (the (fmlookup (fmupd k u m) x))) bs = map (\<lambda>x. vu_packets (the (fmlookup (fmdrop k m) x))) bs"
    using s(5) by (intro map_cong) auto
  let ?f = "\<lambda>x. vu_packets (the (fmlookup (fmupd k u m) x))" and ?g = "\<lambda>x. vu_packets (the (fmlookup (fmdrop k m) x))"
  have quiets: "concat (map ?f as) = []" "concat (map ?g as) = []"
    by (rule quiet; use s(4) in auto)+
  have "content (fmupd k u m) = concat (map ?f as) @ ?f k @ concat (map ?f bs)"
    unfolding content_def fmvals_def s(1) map_map comp_def by (simp del: fmupd_lookup)
  also have "\<dots> = vu_packets u @ concat (map ?g bs)"
    unfolding quiets(1) rest look by simp
  also have "\<dots> = vu_packets u @ content (fmdrop k m)"
    unfolding content_def fmvals_def s(2) map_map comp_def map_append concat_append quiets(2) by simp
  finally show ?thesis .
qed

lemma content_change:
  assumes "fmlookup m k = Some u" "\<And>x v. fmlookup m x = Some v \<Longrightarrow> x < k \<Longrightarrow> vu_packets v = []"
  shows "content m = vu_packets u @ content (fmdrop k m)"
proof -
  have "fmupd k u m = m" using assms(1) by (intro fmap_ext) auto
  then show ?thesis using content_front [of m k u] assms(2) by simp
qed

subsection \<open>Starting a unit\<close>

lemma first_elem_some: "first_elem s = Some k \<longleftrightarrow> k |\<in>| s \<and> (\<forall>x. x |\<in>| s \<longrightarrow> k \<le> x)"
proof -
  have set: "set (sorted_list_of_fset s) = fset s" by (simp add: sorted_list_of_fset.rep_eq)
  have sorted: "sorted (sorted_list_of_fset s)" by (simp add: sorted_list_of_fset.rep_eq)
  show ?thesis
  proof (cases "sorted_list_of_fset s")
    case Nil
    then show ?thesis using set by (auto simp: first_elem_def)
  next
    case (Cons x xs)
    then show ?thesis using set sorted by (auto simp: first_elem_def) (metis antisym insertE insertI1 list.simps(15))+
  qed
qed

lemma first_elem_none: "first_elem s = None \<longleftrightarrow> s = {||}"
  by (metis first_elem_some fMin_in fMin_le option.distinct(1) option.exhaust fempty_iff)

lemma first_key_none: "first_key m = None \<longleftrightarrow> m = fmempty"
proof
  assume "first_key m = None"
  then have "fmkeys m = []" by (simp add: first_key_def split: list.splits)
  then have "fmdom' m = {}" by (metis list.set(1) set_fmkeys)
  then show "m = fmempty" by (intro fmap_ext) (metis fmdom'_notI empty_iff fmdom'_notD fmempty_lookup)
qed (simp add: first_key_def)

text \<open>The waiting unit becomes the one being sent.\<close>

definition started_with :: "u64 \<Rightarrow> video_unit \<Rightarrow> u64 list \<Rightarrow> queues \<Rightarrow> queues" where
  "started_with k u ss q = q\<lparr> q_waiting := fmdrop k (q_waiting q), q_strays := ss,
     q_started := fmupd k (u\<lparr> vu_started := True \<rparr>) (q_started q), q_sending := finsert k (q_sending q) \<rparr>"

lemma started_with_find:
  assumes "units_ok q" "fmlookup (q_waiting q) k = Some u"
  shows "find_unit (started_with k u ss q) x = (if x = k then Some (u\<lparr> vu_started := True \<rparr>) else find_unit q x)"
  using assms by (simp add: find_unit_def started_with_def cong: option.case_cong)

lemma started_with_ok:
  assumes ok: "queues_ok c q" and first: "first_key (q_waiting q) = Some k" and u: "fmlookup (q_waiting q) k = Some u"
  shows "queues_ok c (started_with k u (dropWhile (\<lambda>s. s \<le> k) (q_strays q)) q)" (is "queues_ok c ?q")
proof -
  note parts = ok [unfolded queues_ok_def]
  have units: "units_ok q" using parts by simp
  have fields: "q_waiting ?q = fmdrop k (q_waiting q)" "q_strays ?q = dropWhile (\<lambda>s. s \<le> k) (q_strays q)"
      "q_started ?q = fmupd k (u\<lparr> vu_started := True \<rparr>) (q_started q)" "q_sending ?q = finsert k (q_sending q)"
      "q_audio ?q = q_audio q" "q_next_id ?q = q_next_id q" "q_video_bytes ?q = q_video_bytes q" "q_copies ?q = q_copies q"
      "history_of ?q = history_of q"
    by (simp_all add: started_with_def history_of_def fun_eq_iff)
  have uk: "vu_id u = k" "k < q_next_id q" "vu_packets u \<noteq> []" using units u unfolding units_ok_def by blast+
  have not_started: "fmlookup (q_started q) k = None" using started_not_waiting [OF units] u by (metis option.distinct(1) option.exhaust)
  have look: "find_unit ?q x = (if x = k then Some (u\<lparr> vu_started := True \<rparr>) else find_unit q x)" for x
    by (rule started_with_find [OF units u])
  have at_k: "find_unit q k = Some u" using not_started u by (simp add: find_unit_def)
  have copies: "copy_ids ?q = copy_ids q" using at_k by (auto simp: copy_ids_def look fun_eq_iff)
  have least: "k \<le> x" if "fmlookup (q_waiting q) x = Some v" for x v using first_key_least [OF first that] .
  have "units_ok ?q"
    unfolding units_ok_def fields
  proof (intro conjI allI impI)
    fix x v assume "fmlookup (fmupd k (u\<lparr> vu_started := True \<rparr>) (q_started q)) x = Some v"
    then show "vu_id v = x" "vu_started v" "x < q_next_id q" using units uk unfolding units_ok_def by (auto split: if_splits)
  next
    fix x v assume "fmlookup (fmdrop k (q_waiting q)) x = Some v"
    then show "vu_id v = x" "\<not> vu_started v" "vu_packets v \<noteq> []" "x < q_next_id q"
      using units unfolding units_ok_def by (auto split: if_splits)
  next
    fix a b v w assume a: "fmlookup (fmupd k (u\<lparr> vu_started := True \<rparr>) (q_started q)) a = Some v" and b: "fmlookup (fmdrop k (q_waiting q)) b = Some w"
    then have b': "fmlookup (q_waiting q) b = Some w" "b \<noteq> k" by (auto split: if_splits)
    then show "a < b" using a units least [OF b'(1)] unfolding units_ok_def by (auto split: if_splits)
  qed
  moreover have "sending_ok ?q" using parts uk(3) by (auto simp: sending_ok_def fields)
  moreover have "bytes_ok ?q"
    using parts not_started map_bytes_split [OF u] by (simp add: bytes_ok_def fields map_bytes_new unit_bytes_def)
  moreover have "copies_ok ?q" "history_ok ?q" using parts by (simp_all add: copies_ok_def history_ok_def fields copies)
  moreover have "strays_ok ?q"
  proof -
    have "x \<in> set (dropWhile (\<lambda>s. s \<le> k) (q_strays q))" if "fmlookup (fmdrop k (q_waiting q)) x = Some v" "vu_stray v" for x v
    proof -
      have x: "fmlookup (q_waiting q) x = Some v" "x \<noteq> k" using that(1) by (auto split: if_splits)
      then have "\<not> x \<le> k" using least by fastforce
      moreover have "x \<in> set (q_strays q)" using parts x that(2) unfolding strays_ok_def by blast
      ultimately show ?thesis by (intro in_dropWhile)
    qed
    moreover have "x < q_next_id q \<and> (\<forall>v. find_unit ?q x = Some v \<longrightarrow> vu_stray v)" if "x \<in> set (dropWhile (\<lambda>s. s \<le> k) (q_strays q))" for x
    proof -
      have "x \<in> set (q_strays q)" using that by (rule set_dropWhileD)
      then have "x < q_next_id q \<and> (\<forall>v. find_unit q x = Some v \<longrightarrow> vu_stray v)" using parts unfolding strays_ok_def by blast
      then show ?thesis using at_k by (auto simp: look)
    qed
    ultimately show ?thesis unfolding strays_ok_def fields by blast
  qed
  moreover have "times_ok c ?q" using parts unfolding times_ok_def fields by (auto split: if_splits)
  ultimately show ?thesis using parts by (simp add: queues_ok_def fields)
qed

definition front_unit :: "u64 \<Rightarrow> queues \<Rightarrow> bool" where
  "front_unit k q \<longleftrightarrow> k |\<in>| q_sending q \<and> (\<forall>x u. fmlookup (q_started q) x = Some u \<longrightarrow> x < k \<longrightarrow> vu_packets u = [])"

lemma line_counters [simp]: "line (count_forwarded m q) = line q"
  by (simp add: line_def count_forwarded_def update_counters_def)

lemma start_unit_none:
  assumes ok: "queues_ok c q" and none: "start_unit q = (None, q')"
  shows "q' = q" "line q = []"
proof -
  have empty: "q_sending q = {||}" "q_waiting q = fmempty" "q' = q"
    using none by (auto simp: start_unit_def Let_def first_elem_none first_key_none split: option.splits)
  have "sending_ok q" using ok by (simp add: queues_ok_def)
  then have "content (q_started q) = []" using empty(1) by (auto simp: sending_ok_def content_empty_iff)
  then show "q' = q" "line q = []" using empty by (simp_all add: line_def content_def fmvals_def)
qed

lemma start_unit_some:
  assumes ok: "queues_ok c q" and some: "start_unit q = (Some k, q1)"
  defines "q2 \<equiv> q1\<lparr> q_sending := finsert k (q_sending q1) \<rparr>"
  shows "queues_ok c q2 \<and> front_unit k q2 \<and> line q2 = line q"
proof (cases "first_elem (q_sending q)")
  case (Some j)
  then have j: "k = j" "q1 = q" using some by (simp_all add: start_unit_def)
  have sending: "sending_ok q" using ok by (simp add: queues_ok_def)
  have first: "k |\<in>| q_sending q" "\<And>x. x |\<in>| q_sending q \<Longrightarrow> k \<le> x" using Some j(1) by (simp_all add: first_elem_some)
  have "q2 = q" using first(1) by (simp add: q2_def j(2) finsert_absorb)
  moreover have "front_unit k q"
    using first sending unfolding front_unit_def sending_ok_def by (meson leD)
  ultimately show ?thesis using ok by simp
next
  case None
  then obtain u where first: "first_key (q_waiting q) = Some k" and u: "fmlookup (q_waiting q) k = Some u"
    using some first_key_some [of "q_waiting q"] by (auto simp: start_unit_def Let_def split: option.splits)
  let ?s = "started_with k u (dropWhile (\<lambda>s. s \<le> k) (q_strays q)) q"
  have q2: "q2 = ?s \<or> q2 = count_forwarded (vu_media_id u) ?s"
    using some None first u
    by (auto simp: q2_def start_unit_def Let_def started_with_def count_forwarded_def update_counters_def)
  have idle: "content (q_started q) = []"
    using None ok by (auto simp: content_empty_iff first_elem_none queues_ok_def sending_ok_def)
  have below: "x < k" if "fmlookup (q_started q) x = Some v" for x v
    using ok that u unfolding queues_ok_def units_ok_def by blast
  have quiet: "vu_packets v = []" if "fmlookup (q_started q) x = Some v" for x v
    using idle that by (auto simp: content_empty_iff)
  have "fmlookup (q_started q) k = None" using below [of k] by (cases "fmlookup (q_started q) k") auto
  then have "content (q_started ?s) = vu_packets u"
    using content_front [of "q_started q" k "u\<lparr> vu_started := True \<rparr>"] quiet idle by (simp add: started_with_def fmdrop_absent)
  moreover have "content (q_waiting q) = vu_packets u @ content (fmdrop k (q_waiting q))"
    using first_key_least [OF first] by (intro content_change [OF u]) fastforce
  ultimately have "line ?s = line q" using idle by (simp add: line_def started_with_def)
  moreover have "front_unit k ?s" using quiet by (auto simp: front_unit_def started_with_def)
  ultimately show ?thesis using q2 started_with_ok [OF ok first u]
    by (auto simp: front_unit_def count_forwarded_def update_counters_def line_def)
qed

subsection \<open>Sending from a unit\<close>

definition taken_from :: "u64 \<Rightarrow> video_unit \<Rightarrow> bytes \<Rightarrow> bytes list \<Rightarrow> queues \<Rightarrow> queues" where
  "taken_from k u bs rest q = q\<lparr> q_started := fmupd k (u\<lparr> vu_packets := rest \<rparr>) (q_started q),
     q_video_bytes := q_video_bytes q - length bs,
     q_sending := (if rest \<noteq> [] then finsert k (q_sending q) else q_sending q |-| {|k|}) \<rparr>"

lemma taken_from_ok:
  assumes ok: "queues_ok c q" and u: "fmlookup (q_started q) k = Some u" "vu_packets u = bs # rest"
  shows "queues_ok c (taken_from k u bs rest q)" (is "queues_ok c ?q")
proof -
  note parts = ok [unfolded queues_ok_def]
  have units: "units_ok q" using parts by simp
  have fields: "q_waiting ?q = q_waiting q" "q_strays ?q = q_strays q" "q_started ?q = fmupd k (u\<lparr> vu_packets := rest \<rparr>) (q_started q)"
      "q_sending ?q = (if rest \<noteq> [] then finsert k (q_sending q) else q_sending q |-| {|k|})"
      "q_audio ?q = q_audio q" "q_next_id ?q = q_next_id q" "q_video_bytes ?q = q_video_bytes q - length bs" "q_copies ?q = q_copies q"
      "history_of ?q = history_of q"
    by (simp_all add: taken_from_def history_of_def fun_eq_iff)
  have look: "find_unit ?q x = (if x = k then Some (u\<lparr> vu_packets := rest \<rparr>) else find_unit q x)" for x
    by (simp add: find_unit_def fields cong: option.case_cong)
  have at_k: "find_unit q k = Some u" using u(1) by (simp add: find_unit_def)
  have copies: "copy_ids ?q = copy_ids q" using at_k by (auto simp: copy_ids_def look fun_eq_iff)
  have "units_ok ?q" using units u(1) unfolding units_ok_def fields by (auto split: if_splits)
  moreover have "sending_ok ?q" using parts u by (auto simp: sending_ok_def fields)
  moreover have "bytes_ok ?q"
    using parts map_bytes_split [OF u(1)] u(2) by (simp add: bytes_ok_def fields map_bytes_upd unit_bytes_def)
  moreover have "copies_ok ?q" "history_ok ?q" using parts by (simp_all add: copies_ok_def history_ok_def fields copies)
  moreover have "strays_ok ?q" using parts at_k unfolding strays_ok_def fields look by auto
  moreover have "times_ok c ?q" using parts unfolding times_ok_def fields by blast
  ultimately show ?thesis using parts by (simp add: queues_ok_def fields)
qed

lemma send_from_result:
  assumes ok: "queues_ok c q" and front: "front_unit k q"
  obtains bs q' where "send_from k q = (Some bs, q')" "queues_ok c q'" "line q = bs # line q'"
proof -
  obtain u where u: "fmlookup (q_started q) k = Some u" "vu_packets u \<noteq> []"
    using ok front unfolding front_unit_def queues_ok_def sending_ok_def by blast
  then obtain bs rest where p: "vu_packets u = bs # rest" by (cases "vu_packets u") auto
  let ?t = "taken_from k u bs rest q"
  have t_ok: "queues_ok c ?t" by (rule taken_from_ok [OF ok u(1) p])
  have low: "\<And>x v. fmlookup (q_started q) x = Some v \<Longrightarrow> x < k \<Longrightarrow> vu_packets v = []"
    using front unfolding front_unit_def by blast
  have before: "content (q_started q) = (bs # rest) @ content (fmdrop k (q_started q))"
    using content_change [OF u(1) low] p by simp
  have after: "content (q_started ?t) = rest @ content (fmdrop k (q_started q))"
    using content_front [of "q_started q" k "u\<lparr> vu_packets := rest \<rparr>"] low by (simp add: taken_from_def)
  have line_t: "line q = bs # line ?t" using before after by (simp add: line_def taken_from_def)
  have units: "units_ok ?t" using t_ok by (simp add: queues_ok_def)
  have send: "send_from k q = (Some bs, if rest = [] \<and> vu_complete u then finish_unit k Sent ?t else ?t)"
    using u(1) p by (auto simp: send_from_def Let_def taken_from_def)
  show ?thesis
  proof (cases "rest = [] \<and> vu_complete u")
    case True
    have found: "find_unit ?t k = Some (u\<lparr> vu_packets := rest \<rparr>)" by (simp add: find_unit_def taken_from_def)
    have not_waiting: "fmdrop k (q_waiting ?t) = q_waiting ?t"
      using started_not_waiting [OF units] by (intro fmdrop_absent) (simp add: taken_from_def)
    have "fmdrop k (q_started ?t) = fmdrop k (q_started q)" by (intro fmap_ext) (simp add: taken_from_def)
    then have "line (finish_unit k Sent ?t) = line ?t"
      using finish_unit_fields(1,2) [OF units found, of Sent] after True not_waiting by (simp add: line_def)
    moreover have "queues_ok c (finish_unit k Sent ?t)" using finish_unit_ok [OF t_ok, of Sent] by simp
    ultimately show ?thesis using that send True line_t by simp
  next
    case False
    then have "send_from k q = (Some bs, ?t)" by (simp only: send if_not_P [OF False] if_False)
    then show ?thesis using that t_ok line_t by blast
  qed
qed

lemma send_from_sending: "send_from k (q\<lparr> q_sending := finsert k (q_sending q) \<rparr>) = send_from k q \<or> fst (send_from k q) = None"
  by (auto simp: send_from_def Let_def split: option.split list.split)

lemma send_from_front:
  assumes "fst (send_from k (q\<lparr> q_sending := finsert k (q_sending q) \<rparr>)) \<noteq> None"
  shows "send_from k q = send_from k (q\<lparr> q_sending := finsert k (q_sending q) \<rparr>)"
proof -
  have "fst (send_from k (q\<lparr> q_sending := s \<rparr>)) = fst (send_from k q)" for s
    by (auto simp: send_from_def Let_def split: option.split list.split)
  then show ?thesis using send_from_sending [of k q] assms by metis
qed

lemma pop_video_result:
  assumes ok: "queues_ok c q"
  obtains "pop_video q = (None, q)" "line q = []"
  | bs q' where "pop_video q = (Some bs, q')" "queues_ok c q'" "line q = bs # line q'"
proof (cases "start_unit q")
  case (Pair s q1)
  show ?thesis
  proof (cases s)
    case None
    then show ?thesis using that(1) start_unit_none [OF ok, of q1] Pair by (simp add: pop_video_def)
  next
    case (Some k)
    let ?q = "q1\<lparr> q_sending := finsert k (q_sending q1) \<rparr>"
    have start: "queues_ok c ?q \<and> front_unit k ?q \<and> line ?q = line q"
      using start_unit_some [OF ok] Pair Some by simp
    then obtain bs q' where sent: "send_from k ?q = (Some bs, q')" "queues_ok c q'" "line ?q = bs # line q'"
      by (metis send_from_result)
    then have "pop_video q = (Some bs, q')"
      using send_from_front [of k q1] Pair Some by (simp add: pop_video_def)
    then show ?thesis using that(2) sent start by simp
  qed
qed

lemma finish_unit_audio: "q_audio (finish_unit k f q) = q_audio q"
  by (auto simp: finish_unit_def Let_def remove_copy_def note_fate_def split: option.split)

lemma pop_video_audio: "pop_video q = (x, q') \<Longrightarrow> q_audio q' = q_audio q"
  by (auto simp: pop_video_def start_unit_def send_from_def Let_def finish_unit_audio count_forwarded_def
      split: option.splits prod.splits list.splits if_splits)

lemma queues_pop_result:
  assumes ok: "queues_ok c q"
  shows "case audio_pop (q_audio q) of
      (Some (m, bs), a) \<Rightarrow> \<exists>q'. queues_pop q = (Some bs, q') \<and> queues_ok c q' \<and> q_audio q' = a \<and> line q' = line q
    | (None, a) \<Rightarrow> a = q_audio q \<and> queues_pop q = pop_video q"
proof -
  have audio: "audio_ok (q_audio q)" using ok by (simp add: queues_ok_def)
  show ?thesis
  proof (cases "aq_turns (q_audio q)")
    case Nil
    then have none: "audio_pop (q_audio q) = (None, q_audio q)" using audio.next_none [OF audio] by blast
    then show ?thesis by (simp add: queues_pop_def)
  next
    case (Cons m ms)
    then obtain bs a where some: "audio_pop (q_audio q) = (Some (m, bs), a)" "audio_ok a"
      using audio.next_some [OF audio Cons] by blast
    have "line (q\<lparr> q_audio := a \<rparr>) = line q" "q_audio (count_forwarded m (q\<lparr> q_audio := a \<rparr>)) = a"
      by (simp_all add: line_def count_forwarded_def)
    then show ?thesis using queues_ok_audio [OF ok some(2)] some(1) by (simp add: queues_pop_def)
  qed
qed

lemma queues_pop_ok: "queues_ok c q \<Longrightarrow> queues_ok c (snd (queues_pop q))"
proof -
  assume ok: "queues_ok c q"
  obtain x a where x: "audio_pop (q_audio q) = (x, a)" by (rule prod.exhaust)
  show ?thesis
  proof (cases x)
    case None
    then have "queues_pop q = pop_video q" using queues_pop_result [OF ok] x by simp
    moreover have "queues_ok c (snd (pop_video q))" by (rule pop_video_result [OF ok]) (simp_all add: ok)
    ultimately show ?thesis by simp
  next
    case (Some y)
    then show ?thesis using queues_pop_result [OF ok] x by (cases y) auto
  qed
qed

subsection \<open>Reachable states\<close>

inductive egress_reach :: "instant \<Rightarrow> queues \<Rightarrow> bool" where
  start: "egress_reach c queues_default"
| push: "egress_reach c q \<Longrightarrow> c \<le> now \<Longrightarrow> q_next_id q \<noteq> - 1 \<Longrightarrow> iterates order \<Longrightarrow>
    egress_reach now (queues_push order p now q)"
| lost: "egress_reach c q \<Longrightarrow> egress_reach c (lose l q)"
| overflow: "egress_reach c q \<Longrightarrow> egress_reach c (add_overflow drops q)"
| budget: "egress_reach c q \<Longrightarrow> c \<le> now \<Longrightarrow> egress_reach now (enforce_budget now q)"
| quiet: "egress_reach c q \<Longrightarrow> egress_reach c (forget_quiet_tracks q)"
| report: "egress_reach c q \<Longrightarrow> egress_reach c (snd (take_stats q))"
| pop: "egress_reach c q \<Longrightarrow> egress_reach c (snd (queues_pop q))"

lemma forget_quiet_tracks_ok:
  assumes ok: "queues_ok c q"
  shows "queues_ok c (forget_quiet_tracks q)"
proof -
  let ?q = "forget_quiet_tracks q"
  have look: "find_unit ?q = find_unit q" by (simp add: forget_quiet_tracks_def Let_def)
  have sub: "history_of ?q m = history_of q m \<or> history_of ?q m = fmempty" for m
    by (auto simp: forget_quiet_tracks_def Let_def history_of_def fmget_def split: option.split)
  have "fmsize (history_of ?q m) \<le> HISTORY" for m using sub [of m] ok by (auto simp: queues_ok_def history_ok_def)
  moreover have "k \<in> copy_ids ?q (m, s)" if "fmlookup (history_of ?q m) s = Some (Queued k)" for m s k
    using sub [of m] that ok by (auto simp: queues_ok_def history_ok_def copy_ids_cong [OF look])
  ultimately have "history_ok ?q" by (simp add: history_ok_def)
  then show ?thesis using ok copy_ids_cong [OF look] look
    by (simp add: queues_ok_defs) (simp add: forget_quiet_tracks_def Let_def)
qed

lemma add_overflow_ok: "queues_ok c (add_overflow drops q) = queues_ok c q"
proof -
  have "queues_ok c (fold (\<lambda>m. update_counters m (f m)) ms q) = queues_ok c q" for f and ms :: "media_id list" and q
    by (induction ms arbitrary: q) simp_all
  then show ?thesis by (simp add: add_overflow_def)
qed

lemma egress_reach_ok:
  assumes "egress_reach c q"
  shows "queues_ok c q"
  using assms
proof induction
  case (push c q now order p)
  then show ?case by (intro queues_push_ok)
next
  case (budget c q now)
  then show ?case by (intro enforce_budget_ok) (rule queues_ok_later)
qed (simp_all add: queues_default_ok lose_ok add_overflow_ok forget_quiet_tracks_ok queues_pop_ok take_stats_def)

text \<open>
  C24. The bookkeeping of a receiver's queues is exact in every state its task can reach, as long as
  fewer than \<open>2 ^ 64\<close> units have arrived: every unit is in the place its flags say, units being sent
  are older than waiting ones, the byte count is the sum of the queued packets (so no subtraction
  goes below zero), the index of copies and the set of units being sent are the ones the units call
  for, the history of each track is bounded and points only at queued units, every waiting stray is
  in the list of strays, waiting units are in order of arrival, and the audio queues are in order.
\<close>

theorem egress_bookkeeping_exact: "egress_reach c q \<Longrightarrow> queues_ok c q"
  by (rule egress_reach_ok)

definition demo_unit_packet :: packet where
  "demo_unit_packet = \<lparr> p_kind = Video,
     p_header = \<lparr> h_media_id = 5, h_epoch = 1, h_seq = 9, h_flags = FIRST OR LAST \<rparr>, p_bytes = [1, 2, 3] \<rparr>"

definition demo_queues :: queues where
  "demo_queues = queues_push fmkeys demo_unit_packet 0 queues_default"

lemma demo_queues_reach: "egress_reach 0 demo_queues"
  unfolding demo_queues_def
  by (intro egress_reach.push [OF egress_reach.start]) (simp_all add: queues_default_def iterates_def)

lemma demo_queues_fields:
  "q_waiting demo_queues = fmupd 0 ((unit_new 0 5 9 [1, 2, 3] 0)\<lparr> vu_complete := True \<rparr>) fmempty"
  "q_started demo_queues = fmempty" "q_audio demo_queues = audio_default" "q_video_bytes demo_queues = 3"
proof -
  have flags: "contains (FIRST OR LAST) FIRST" "contains (FIRST OR LAST) LAST"
    by (simp_all add: contains_def FIRST_def LAST_def)
  show "q_waiting demo_queues = fmupd 0 ((unit_new 0 5 9 [1, 2, 3] 0)\<lparr> vu_complete := True \<rparr>) fmempty"
    "q_started demo_queues = fmempty" "q_audio demo_queues = audio_default" "q_video_bytes demo_queues = 3"
    by (simp_all add: demo_queues_def queues_push_def demo_unit_packet_def push_video_def Let_def flags push_first_def new_id_def
        queue_unit_def queues_default_def unit_new_def unit_bytes_def history_of_def fmget_def)
qed

theorem egress_bookkeeping_exact_witness: "queues_ok 0 demo_queues \<and> q_video_bytes demo_queues = 3"
  using egress_bookkeeping_exact [OF demo_queues_reach] by (simp add: demo_queues_fields)

text \<open>
  C25. The budget loops end, and leave the queue within both limits: at most
  \<open>MAX_QUEUED_VIDEO_BYTES\<close> of video, and no unit still waiting to be sent that has waited longer
  than \<open>VIDEO_BUDGET\<close>. Nothing that remains is changed, and units already being sent are left
  alone as long as what they still hold fits the byte limit on its own.
\<close>

theorem budget_enforced:
  assumes "egress_reach c q"
  shows "q_video_bytes (enforce_budget now q) \<le> MAX_QUEUED_VIDEO_BYTES \<and>
    (\<forall>k u. fmlookup (q_waiting (enforce_budget now q)) k = Some u \<longrightarrow>
       duration_since now (vu_arrived u) \<le> VIDEO_BUDGET \<and> (\<exists>v. fmlookup (q_waiting q) k = Some v \<and> plain v = plain u)) \<and>
    (map_bytes (q_started q) \<le> MAX_QUEUED_VIDEO_BYTES \<longrightarrow>
       (\<forall>k u. fmlookup (q_started q) k = Some u \<longrightarrow> vu_packets u \<noteq> [] \<longrightarrow>
         (\<exists>v. fmlookup (q_started (enforce_budget now q)) k = Some v \<and> plain v = plain u)))"
  using enforce_budget_result [OF egress_reach_ok [OF assms]] .

theorem budget_enforced_witness:
  "q_video_bytes (enforce_budget (from_millis 200) demo_queues) \<le> MAX_QUEUED_VIDEO_BYTES \<and>
   q_waiting (enforce_budget (from_millis 200) demo_queues) = fmempty"
proof -
  note all = budget_enforced [OF demo_queues_reach, of "from_millis 200"]
  have "fmlookup (q_waiting (enforce_budget (from_millis 200) demo_queues)) k = None" for k
  proof (rule ccontr)
    assume "fmlookup (q_waiting (enforce_budget (from_millis 200) demo_queues)) k \<noteq> None"
    then obtain u v where late: "duration_since (from_millis 200) (vu_arrived u) \<le> VIDEO_BUDGET"
        and v: "fmlookup (q_waiting demo_queues) k = Some v" "plain v = plain u"
      using all by blast
    have "vu_arrived u = 0"
      using arg_cong [OF v(2), of vu_arrived] v(1) by (auto simp: demo_queues_fields unit_new_def split: if_splits)
    then show False using late by (simp add: duration_since_def from_millis_def VIDEO_BUDGET_def)
  qed
  then have "q_waiting (enforce_budget (from_millis 200) demo_queues) = fmempty" by (intro fmap_ext) simp
  then show ?thesis using all by blast
qed

lemma pops_line:
  assumes "queues_ok c q" "\<forall>m. queue_of (q_audio q) m = []"
  shows "\<exists>q'. pops queues_pop (length (line q)) q = (line q, q') \<and> line q' = [] \<and> q_audio q' = q_audio q"
  using assms
proof (induction "length (line q)" arbitrary: q)
  case (Suc n)
  have audio: "audio_ok (q_audio q)" using Suc.prems(1) by (simp add: queues_ok_def)
  have "fst (audio_pop (q_audio q)) = None" using audio.empty_iff [OF audio] Suc.prems(2) by blast
  then have pop: "queues_pop q = pop_video q"
    using queues_pop_result [OF Suc.prems(1)] by (cases "audio_pop (q_audio q)") auto
  show ?case
  proof (rule pop_video_result [OF Suc.prems(1)])
    assume "line q = []"
    then show ?thesis using Suc.hyps(2) by simp
  next
    fix bs q1
    assume q1: "pop_video q = (Some bs, q1)" "queues_ok c q1" "line q = bs # line q1"
    have "q_audio q1 = q_audio q" by (rule pop_video_audio [OF q1(1)])
    then have "\<exists>q'. pops queues_pop (length (line q1)) q1 = (line q1, q') \<and> line q' = [] \<and> q_audio q' = q_audio q"
      using Suc.hyps(1) [of q1] Suc.hyps(2) Suc.prems(2) q1 by simp
    then show ?thesis using q1 pop by auto
  qed
qed simp

lemma pops_append:
  assumes "pops f n q = (xs, q1)" "length xs = n" "pops f m q1 = (ys, q2)"
  shows "pops f (n + m) q = (xs @ ys, q2)"
  using assms
proof (induction n arbitrary: q xs)
  case (Suc n)
  obtain x q0 xs' where "f q = (Some x, q0)" "pops f n q0 = (xs', q1)" "xs = x # xs'"
    using Suc.prems(1,2) by (auto split: prod.splits option.splits)
  then show ?case using Suc by simp
qed simp

lemma pops_audio:
  assumes "queues_ok c q" "pops audio_pop n (q_audio q) = (xs, a)" "length xs = n"
  shows "\<exists>q'. pops queues_pop n q = (map snd xs, q') \<and> queues_ok c q' \<and> q_audio q' = a \<and> line q' = line q"
  using assms
proof (induction n arbitrary: q xs)
  case (Suc n)
  obtain m bs a1 xs' where a1: "audio_pop (q_audio q) = (Some (m, bs), a1)" "pops audio_pop n a1 = (xs', a)" "xs = (m, bs) # xs'"
    using Suc.prems(2,3) by (auto split: prod.splits option.splits)
  obtain q1 where q1: "queues_pop q = (Some bs, q1)" "queues_ok c q1" "q_audio q1 = a1" "line q1 = line q"
    using queues_pop_result [OF Suc.prems(1)] a1(1) by auto
  from Suc.IH [OF q1(2), of xs'] show ?case using a1 q1 Suc.prems(3) by auto
qed simp

text \<open>
  C26. Nothing queued is ever stuck, audio goes first and video goes in whole units: popping as often
  as there are packets queued sends every queued audio packet, each track's in its order, and then
  every queued video packet, unit after unit in the order the units arrived and each unit's packets
  in theirs, and leaves nothing behind.
\<close>

theorem queued_media_is_sent_in_order:
  assumes "egress_reach c q"
  shows "\<exists>as q'. pops queues_pop (aq_len (q_audio q) + length (line q)) q = (map snd as @ line q, q') \<and>
    (\<forall>m. of_key m as = queue_of (q_audio q) m) \<and> line q' = [] \<and> (\<forall>m. queue_of (q_audio q') m = [])"
proof -
  have ok: "queues_ok c q" using assms by (rule egress_reach_ok)
  then have audio: "audio_ok (q_audio q)" by (simp add: queues_ok_def)
  then have "(\<Sum>k \<in> set (aq_turns (q_audio q)). length (queue_of (q_audio q) k)) = aq_len (q_audio q)"
    by (simp add: audio_ok_def queued_audio_def)
  from audio.drain [OF audio this] obtain as a where as: "pops audio_pop (aq_len (q_audio q)) (q_audio q) = (as, a)"
      "\<forall>m. queue_of a m = []" "\<forall>m. of_key m as = queue_of (q_audio q) m" "length as = aq_len (q_audio q)" by blast
  obtain q1 where q1: "pops queues_pop (aq_len (q_audio q)) q = (map snd as, q1)" "queues_ok c q1" "q_audio q1 = a" "line q1 = line q"
    using pops_audio [OF ok as(1,4)] by blast
  obtain q2 where q2: "pops queues_pop (length (line q)) q1 = (line q, q2)" "line q2 = []" "q_audio q2 = a"
    using pops_line [OF q1(2)] q1(3,4) as(2) by auto
  then show ?thesis using pops_append [OF q1(1) _ q2(1)] as by auto
qed

theorem queued_media_is_sent_in_order_witness:
  "\<exists>q'. pops queues_pop 1 demo_queues = ([[1, 2, 3]], q') \<and> line q' = []"
proof -
  have line: "line demo_queues = [[1, 2, 3]]"
    by (simp add: line_def content_def fmvals_def demo_queues_fields fmkeys_def sorted_list_of_fset.rep_eq unit_new_def)
  obtain as q' where q': "pops queues_pop 1 demo_queues = (map snd as @ [[1, 2, 3]], q')" "line q' = []"
      "\<forall>m. of_key m as = queue_of audio_default m"
    using queued_media_is_sent_in_order [OF demo_queues_reach] by (auto simp: line demo_queues_fields audio_default_def)
  have "as = []"
  proof (cases as)
    case (Cons x xs)
    then have "of_key (fst x) as \<noteq> []" by (simp add: of_key_def)
    then show ?thesis using q'(3) audio_default_view by metis
  qed
  then show ?thesis using q' by simp
qed

end
