(* ===== verification/Crypto.thy ===== *)
theory Crypto
  imports Signed
begin

text \<open>
  The cryptographic formats, \<open>throcc-crypto\<close>: what is signed, what a wrapped sender secret is bound
  to, how media is sealed, the confirmation of an enrollment and the safety number. The algorithms
  themselves are libraries; they are the fields of a record \<open>crypto\<close>, an argument of every
  definition that uses one, and what a theorem needs of them is a named hypothesis.
\<close>

subsection \<open>The libraries\<close>

text \<open>
  Ed25519 verification, X25519 (which byte strings are keys, and the public key of a private one),
  HPKE in auth mode with AES-128-GCM (sealing takes the bytes it draws at random), HKDF-SHA256,
  AES-128-GCM with a detached tag, SHA-256, SHA-512, HMAC-SHA256, and SPAKE2 with its state opaque.
\<close>

record crypto =
  cr_verify :: "public_key \<Rightarrow> bytes \<Rightarrow> signature \<Rightarrow> bool"
  cr_is_key :: "bytes \<Rightarrow> bool"
  cr_public :: "bytes \<Rightarrow> public_key"
  cr_hpke_seal :: "bytes \<Rightarrow> bytes \<Rightarrow> public_key \<Rightarrow> bytes \<Rightarrow> bytes \<Rightarrow> (bytes \<times> bytes) option"
  cr_hpke_open :: "public_key \<Rightarrow> bytes \<Rightarrow> bytes \<Rightarrow> bytes \<Rightarrow> bytes \<Rightarrow> bytes option"
  cr_hkdf :: "bytes option \<Rightarrow> bytes \<Rightarrow> bytes \<Rightarrow> nat \<Rightarrow> bytes"
  cr_gcm_seal :: "bytes \<Rightarrow> bytes \<Rightarrow> bytes \<Rightarrow> bytes \<Rightarrow> (bytes \<times> bytes) option"
  cr_gcm_open :: "bytes \<Rightarrow> bytes \<Rightarrow> bytes \<Rightarrow> bytes \<Rightarrow> bytes \<Rightarrow> bytes option"
  cr_sha256 :: "bytes \<Rightarrow> bytes"
  cr_sha512 :: "bytes \<Rightarrow> bytes"
  cr_hmac :: "bytes \<Rightarrow> bytes \<Rightarrow> bytes"
  cr_spake_a :: "bytes \<Rightarrow> bytes \<Rightarrow> bytes \<Rightarrow> bytes \<Rightarrow> bytes \<times> bytes"
  cr_spake_b :: "bytes \<Rightarrow> bytes \<Rightarrow> bytes \<Rightarrow> bytes \<Rightarrow> bytes \<times> bytes"
  cr_spake_finish :: "bytes \<Rightarrow> bytes \<Rightarrow> bytes option"

text \<open>The bytes of a Rust string: UTF-8.\<close>

definition utf8_char :: "uchar \<Rightarrow> bytes" where
  "utf8_char c =
     map of_nat
       (if c < 0x80 then [c]
        else if c < 0x800 then [0xC0 + c div 64, 0x80 + c mod 64]
        else if c < 0x10000 then [0xE0 + c div 4096, 0x80 + c div 64 mod 64, 0x80 + c mod 64]
        else [0xF0 + c div 262144, 0x80 + c div 4096 mod 64, 0x80 + c div 64 mod 64, 0x80 + c mod 64])"

definition as_bytes :: "ustring \<Rightarrow> bytes" where
  "as_bytes s = concat (map utf8_char s)"

subsection \<open>The transcript of an enrollment\<close>

record transcript =
  tr_server_nonce :: bytes
  tr_client_nonce :: bytes
  tr_code_id :: ustring
  tr_pubkey :: bytes
  tr_spki_hash :: bytes
  tr_exporter :: bytes
  tr_pake_a :: bytes
  tr_pake_b :: bytes

definition transcript_parts :: "transcript \<Rightarrow> bytes list" where
  "transcript_parts t =
     [tr_server_nonce t, tr_client_nonce t, as_bytes (tr_code_id t), tr_pubkey t, tr_spki_hash t,
      tr_exporter t, tr_pake_a t, tr_pake_b t]"

definition length_prefixed :: "bytes \<Rightarrow> bytes" where
  "length_prefixed part = to_be_bytes (of_nat (length part)) @ part"

definition transcript_bytes :: "transcript \<Rightarrow> bytes" where
  "transcript_bytes t = ascii_bytes ''throcc/enroll/1'' @ concat (map length_prefixed (transcript_parts t))"

subsection \<open>Sender secrets\<close>

datatype hpke_error = BadKey | OpenFailed | SealFailed

definition ENCAPPED_BYTES :: nat where "ENCAPPED_BYTES = 32"

record key_pair =
  kp_private :: bytes
  kp_public :: public_key

definition from_secret :: "crypto \<Rightarrow> bytes \<Rightarrow> hpke_error + key_pair" where
  "from_secret C secret =
     (if \<not> cr_is_key C secret then Inl BadKey
      else Inr \<lparr> kp_private = secret, kp_public = cr_public C secret \<rparr>)"

record wrap_context =
  wc_server :: fingerprint
  wc_room :: room_id
  wc_epoch :: epoch
  wc_from :: user_id
  wc_to :: user_id

definition wrap_info :: "wrap_context \<Rightarrow> bytes" where
  "wrap_info c =
     ascii_bytes ''throcc/sender-key/1'' @ wc_server c @ to_be_bytes64 (wc_room c) @
     to_be_bytes (wc_epoch c) @ to_be_bytes64 (wc_from c) @ to_be_bytes64 (wc_to c)"

definition wrap :: "crypto \<Rightarrow> bytes \<Rightarrow> key_pair \<Rightarrow> public_key \<Rightarrow> wrap_context \<Rightarrow> bytes \<Rightarrow> hpke_error + bytes" where
  "wrap C seed sender recipient context secret =
     (if \<not> cr_is_key C recipient then Inl BadKey
      else case cr_hpke_seal C seed (kp_private sender) recipient (wrap_info context) secret of
             None \<Rightarrow> Inl SealFailed
           | Some (encapped, ciphertext) \<Rightarrow> Inr (encapped @ ciphertext))"

definition unwrap :: "crypto \<Rightarrow> key_pair \<Rightarrow> public_key \<Rightarrow> wrap_context \<Rightarrow> bytes \<Rightarrow> hpke_error + bytes" where
  "unwrap C recipient sender context wrapped =
     (if \<not> cr_is_key C sender then Inl BadKey
      else if length wrapped < ENCAPPED_BYTES then Inl OpenFailed
      else
        let encapped = take ENCAPPED_BYTES wrapped; ciphertext = drop ENCAPPED_BYTES wrapped in
        if \<not> cr_is_key C encapped then Inl OpenFailed
        else case cr_hpke_open C sender (kp_private recipient) encapped (wrap_info context) ciphertext of
               None \<Rightarrow> Inl OpenFailed
             | Some plaintext \<Rightarrow> if length plaintext \<noteq> 32 then Inl OpenFailed else Inr plaintext)"

subsection \<open>Media\<close>

datatype media_error = MediaHeader header_error | TooLong nat | MediaSeal | MediaShort | MediaAuth

text \<open>A \<open>TrackKey\<close> is the 16 bytes it was derived as.\<close>

type_synonym track_key = bytes

definition derive :: "crypto \<Rightarrow> bytes \<Rightarrow> media_id \<Rightarrow> track_key" where
  "derive C sender_secret m = cr_hkdf C None sender_secret (ascii_bytes ''throcc/media/1'' @ to_be_bytes m) 16"

definition seal :: "crypto \<Rightarrow> track_key \<Rightarrow> header \<Rightarrow> bytes list \<Rightarrow> media_error + bytes" where
  "seal C key h parts =
     (let len = sum_list (map length parts) in
      if len > BODY_BYTES then Inl (TooLong len)
      else case cr_gcm_seal C key (nonce h) (encode_header h) (concat parts) of
             None \<Rightarrow> Inl MediaSeal
           | Some (body, tag) \<Rightarrow> Inr (encode_header h @ body @ tag))"

definition open_media :: "crypto \<Rightarrow> track_key \<Rightarrow> bytes \<Rightarrow> media_error + (header \<times> bytes)" where
  "open_media C key datagram =
     (case parse_strict datagram of
        Inl e \<Rightarrow> Inl (MediaHeader e)
      | Inr h \<Rightarrow>
          if length datagram < TAG_BYTES \<or> length datagram - TAG_BYTES < HEADER_BYTES then Inl MediaShort
          else
            let tag_at = length datagram - TAG_BYTES; sealed = take tag_at datagram; tag = drop tag_at datagram;
                aad = take HEADER_BYTES sealed; body = drop HEADER_BYTES sealed
            in case cr_gcm_open C key (nonce h) aad body tag of
                 None \<Rightarrow> Inl MediaAuth
               | Some plaintext \<Rightarrow> Inr (h, plaintext))"

subsection \<open>Enrollment\<close>

datatype pake_error = Malformed | Confirmation

definition spake2_start ::
  "(bytes \<Rightarrow> bytes \<Rightarrow> bytes \<Rightarrow> bytes \<Rightarrow> bytes \<times> bytes) \<Rightarrow> bytes \<Rightarrow> ustring \<Rightarrow> ustring \<Rightarrow> bytes \<times> bytes" where
  "spake2_start side seed code_id secret =
     side seed (as_bytes secret) (ascii_bytes ''throcc/client/'' @ as_bytes code_id)
       (ascii_bytes ''throcc/server/'' @ as_bytes code_id)"

definition confirm_keys :: "crypto \<Rightarrow> bytes \<Rightarrow> bytes \<Rightarrow> bytes \<times> bytes" where
  "confirm_keys C pake_key transcript =
     (let salt = cr_sha256 C transcript
      in (cr_hkdf C (Some salt) pake_key (ascii_bytes ''throcc/confirm-a'') 32,
          cr_hkdf C (Some salt) pake_key (ascii_bytes ''throcc/confirm-b'') 32))"

definition mac :: "crypto \<Rightarrow> bytes \<Rightarrow> bytes \<Rightarrow> bytes" where
  "mac C key transcript = cr_hmac C key transcript"

definition verify_mac :: "crypto \<Rightarrow> bytes \<Rightarrow> bytes \<Rightarrow> bytes \<Rightarrow> pake_error + unit" where
  "verify_mac C key transcript tag = (if cr_hmac C key transcript = tag then Inr () else Inl Confirmation)"

definition client_start :: "crypto \<Rightarrow> bytes \<Rightarrow> ustring \<Rightarrow> ustring \<Rightarrow> bytes \<times> bytes" where
  "client_start C seed code_id secret = spake2_start (cr_spake_a C) seed code_id secret"

definition client_finish :: "crypto \<Rightarrow> bytes \<Rightarrow> transcript \<Rightarrow> bytes \<Rightarrow> pake_error + bytes" where
  "client_finish C state t confirm_b =
     (case cr_spake_finish C state (tr_pake_b t) of
        None \<Rightarrow> Inl Malformed
      | Some key \<Rightarrow>
          let bs = transcript_bytes t; (a, b) = confirm_keys C key bs
          in case verify_mac C b bs confirm_b of Inl e \<Rightarrow> Inl e | Inr _ \<Rightarrow> Inr (mac C a bs))"

record server_pake =
  sp_key :: bytes
  sp_pake_b :: bytes

definition server_respond :: "crypto \<Rightarrow> bytes \<Rightarrow> ustring \<Rightarrow> ustring \<Rightarrow> bytes \<Rightarrow> pake_error + server_pake" where
  "server_respond C seed code_id secret pake_a =
     (let (state, pake_b) = spake2_start (cr_spake_b C) seed code_id secret
      in case cr_spake_finish C state pake_a of
           None \<Rightarrow> Inl Malformed
         | Some key \<Rightarrow> Inr \<lparr> sp_key = key, sp_pake_b = pake_b \<rparr>)"

record server_confirm =
  sc_confirm_b :: bytes
  sc_key_a :: bytes
  sc_transcript :: bytes

definition server_confirm_of :: "crypto \<Rightarrow> server_pake \<Rightarrow> transcript \<Rightarrow> server_confirm" where
  "server_confirm_of C p t =
     (let bs = transcript_bytes t; (a, b) = confirm_keys C (sp_key p) bs
      in \<lparr> sc_confirm_b = mac C b bs, sc_key_a = a, sc_transcript = bs \<rparr>)"

definition check_confirm_a :: "crypto \<Rightarrow> server_confirm \<Rightarrow> bytes \<Rightarrow> pake_error + unit" where
  "check_confirm_a C s confirm_a = verify_mac C (sc_key_a s) (sc_transcript s) confirm_a"

subsection \<open>Safety numbers\<close>

definition ITERATIONS :: nat where "ITERATIONS = 5200"
definition VERSION :: bytes where "VERSION = [0, 0]"

primrec rehash :: "crypto \<Rightarrow> public_key \<Rightarrow> nat \<Rightarrow> bytes \<Rightarrow> bytes" where
  "rehash C key 0 h = h"
| "rehash C key (Suc n) h = rehash C key n (cr_sha512 C (h @ key))"

text \<open>\<open>format!("{:05}")\<close> of a number below 100000.\<close>

definition five_digits :: "nat \<Rightarrow> string" where
  "five_digits n = map (\<lambda>d. char_of (48 + d))
     [n div 10000 mod 10, n div 1000 mod 10, n div 100 mod 10, n div 10 mod 10, n mod 10]"

definition chunk_value :: "bytes \<Rightarrow> u64" where
  "chunk_value chunk = foldl (\<lambda>acc b. push_bit 8 acc OR ucast b) 0 chunk"

fun chunks5 :: "bytes \<Rightarrow> bytes list" where
  "chunks5 [] = []"
| "chunks5 (x # xs) = take 5 (x # xs) # chunks5 (drop 4 xs)"

definition half :: "crypto \<Rightarrow> public_key \<Rightarrow> string" where
  "half C key =
     (let h = rehash C key ITERATIONS (cr_sha512 C (VERSION @ key @ key))
      in concat (map (\<lambda>chunk. five_digits (unat (chunk_value chunk) mod 100000)) (chunks5 (take 30 h))))"

text \<open>The order of Rust strings, here of digits.\<close>

fun string_le :: "string \<Rightarrow> string \<Rightarrow> bool" where
  "string_le [] ys = True"
| "string_le (x # xs) [] = False"
| "string_le (x # xs) (y # ys) = ((of_char x :: nat) < of_char y \<or> x = y \<and> string_le xs ys)"

definition safety_number :: "crypto \<Rightarrow> public_key \<Rightarrow> public_key \<Rightarrow> string" where
  "safety_number C a b = (let a = half C a; b = half C b in if string_le a b then a @ b else b @ a)"

subsection \<open>What the libraries promise\<close>

definition gcm_ok :: "crypto \<Rightarrow> bool" where
  "gcm_ok C \<longleftrightarrow> (\<forall>key n aad p body tag. cr_gcm_seal C key n aad p = Some (body, tag) \<longrightarrow>
     length body = length p \<and> length tag = TAG_BYTES \<and> cr_gcm_open C key n aad body tag = Some p)"

definition hpke_ok :: "crypto \<Rightarrow> bool" where
  "hpke_ok C \<longleftrightarrow> (\<forall>seed a b info p encapped ciphertext.
     cr_hpke_seal C seed a (cr_public C b) info p = Some (encapped, ciphertext) \<longrightarrow>
     length encapped = ENCAPPED_BYTES \<and> cr_is_key C encapped \<and> length ciphertext = length p + 16 \<and>
     cr_hpke_open C (cr_public C a) b encapped info ciphertext = Some p) \<and>
   (\<forall>a. cr_is_key C (cr_public C a))"

definition spake_ok :: "crypto \<Rightarrow> bool" where
  "spake_ok C \<longleftrightarrow> (\<forall>r s password ida idb sa ma sb mb.
     cr_spake_a C r password ida idb = (sa, ma) \<longrightarrow> cr_spake_b C s password ida idb = (sb, mb) \<longrightarrow>
     cr_spake_finish C sa mb \<noteq> None \<and> cr_spake_finish C sa mb = cr_spake_finish C sb ma)"

text \<open>Libraries that do no harm and no good, to show that the promises can be kept.\<close>

definition plain_crypto :: crypto where
  "plain_crypto = \<lparr> cr_verify = (\<lambda>_ _ _. True), cr_is_key = (\<lambda>k. length k = 32), cr_public = (\<lambda>k. take 32 (k @ replicate 32 0)),
     cr_hpke_seal = (\<lambda>_ _ _ _ p. Some (replicate 32 0, p @ replicate 16 0)),
     cr_hpke_open = (\<lambda>_ _ _ _ c. Some (take (length c - 16) c)),
     cr_hkdf = (\<lambda>_ ikm info n. take n (ikm @ info @ replicate n 0)),
     cr_gcm_seal = (\<lambda>_ _ _ p. Some (p, replicate 16 0)), cr_gcm_open = (\<lambda>_ _ _ b _. Some b),
     cr_sha256 = (\<lambda>bs. take 32 (bs @ replicate 32 0)), cr_sha512 = (\<lambda>bs. take 64 (bs @ replicate 64 0)),
     cr_hmac = (\<lambda>k bs. take 32 (k @ bs @ replicate 32 0)),
     cr_spake_a = (\<lambda>_ pw _ _. (pw, [0])), cr_spake_b = (\<lambda>_ pw _ _. (pw, [1])), cr_spake_finish = (\<lambda>s _. Some s) \<rparr>"

lemma plain_crypto_ok: "gcm_ok plain_crypto" "hpke_ok plain_crypto" "spake_ok plain_crypto"
  by (auto simp: gcm_ok_def hpke_ok_def spake_ok_def plain_crypto_def TAG_BYTES_def ENCAPPED_BYTES_def)

subsection \<open>Media round trip\<close>

text \<open>
  C35. Sealed media opens to what was sealed: a frame body of at most \<open>BODY_BYTES\<close> becomes a datagram
  that fits the guaranteed payload size and opens, under the same key, to its header and body;
  longer bodies are refused. This needs AES-GCM to open what it sealed, with 16-byte tags, and a
  header without reserved flags.
\<close>

theorem media_roundtrip:
  assumes "gcm_ok C" "\<not> has_reserved (h_flags h)"
  shows "case seal C key h parts of
      Inr d \<Rightarrow> open_media C key d = Inr (h, concat parts) \<and> length d \<le> DATAGRAM_PAYLOAD_FLOOR \<and> take HEADER_BYTES d = encode_header h
    | Inl e \<Rightarrow> e = TooLong (length (concat parts)) \<and> length (concat parts) > BODY_BYTES \<or>
        e = MediaSeal \<and> cr_gcm_seal C key (nonce h) (encode_header h) (concat parts) = None"
proof (cases "length (concat parts) > BODY_BYTES")
  case True
  then show ?thesis by (simp add: seal_def length_concat)
next
  case False
  show ?thesis
  proof (cases "cr_gcm_seal C key (nonce h) (encode_header h) (concat parts)")
    case None
    then show ?thesis using False by (simp add: seal_def length_concat)
  next
    case (Some r)
    then obtain body tag where r: "cr_gcm_seal C key (nonce h) (encode_header h) (concat parts) = Some (body, tag)" by (cases r) simp
    then have ok: "length body = length (concat parts)" "length tag = TAG_BYTES"
        "cr_gcm_open C key (nonce h) (encode_header h) body tag = Some (concat parts)"
      using assms(1) by (auto simp: gcm_ok_def)
    let ?d = "encode_header h @ body @ tag"
    have "parse_strict ?d = Inr h" using parse_encode [of h "body @ tag"] assms(2) by (simp add: parse_strict_def)
    moreover have "length ?d = HEADER_BYTES + length body + TAG_BYTES" using ok(2) by (simp add: length_encode_header)
    ultimately have "open_media C key ?d = Inr (h, concat parts)"
      using ok by (simp add: open_media_def Let_def length_encode_header)
    moreover have "length ?d \<le> DATAGRAM_PAYLOAD_FLOOR"
      using False ok by (simp add: length_encode_header BODY_BYTES_def HEADER_BYTES_def TAG_BYTES_def DATAGRAM_PAYLOAD_FLOOR_def)
    ultimately show ?thesis using False r by (simp add: seal_def length_concat length_encode_header)
  qed
qed

theorem media_roundtrip_witness:
  "\<exists>d. seal plain_crypto [1] \<lparr> h_media_id = 3, h_epoch = 2, h_seq = 1, h_flags = 6 \<rparr> [[7], [8, 9]] = Inr d \<and>
     open_media plain_crypto [1] d = Inr (\<lparr> h_media_id = 3, h_epoch = 2, h_seq = 1, h_flags = 6 \<rparr>, [7, 8, 9])"
proof -
  let ?h = "\<lparr> h_media_id = 3, h_epoch = 2, h_seq = 1, h_flags = 6 \<rparr>"
  have "\<not> has_reserved (h_flags ?h)" by (simp add: has_reserved_def DEFINED_def)
  from media_roundtrip [OF plain_crypto_ok(1) this, of "[[7], [8, 9]]" "[1]"]
  show ?thesis by (auto simp: seal_def plain_crypto_def BODY_BYTES_def HEADER_BYTES_def TAG_BYTES_def DATAGRAM_PAYLOAD_FLOOR_def)
qed

subsection \<open>What messages are bound to\<close>

lemma length_prefixed_inj:
  assumes "length_prefixed a @ x = length_prefixed b @ y" "length a < 2 ^ 32" "length b < 2 ^ 32"
  shows "a = b \<and> x = y"
proof -
  have split: "to_be_bytes (of_nat (length a)) = to_be_bytes (of_nat (length b))" "a @ x = b @ y"
    using assms(1) by (simp_all add: length_prefixed_def)
  then have "of_nat (length a) = (of_nat (length b) :: u32)" by (simp add: to_be_bytes_inj)
  then have "unat (of_nat (length a) :: u32) = unat (of_nat (length b) :: u32)" by simp
  then have "length a = length b" using assms(2,3) by (simp add: unat_of_nat)
  then show ?thesis using split(2) by simp
qed

lemma prefixed_parts_inj:
  assumes "concat (map length_prefixed xs) = concat (map length_prefixed ys)" "length xs = length ys"
    "\<forall>p \<in> set xs \<union> set ys. length p < 2 ^ 32"
  shows "xs = ys"
  using assms
proof (induction xs arbitrary: ys)
  case (Cons x xs)
  then obtain y ys' where ys: "ys = y # ys'" by (cases ys) auto
  have "x = y \<and> concat (map length_prefixed xs) = concat (map length_prefixed ys')"
    using Cons.prems by (intro length_prefixed_inj) (simp_all add: ys)
  then show ?case using Cons.IH [of ys'] Cons.prems ys by simp
qed simp

text \<open>
  C36. Everything signed or sealed with a context says what it is for. The login message, the message
  that vouches for an encryption key, the enrollment transcript and the context of a wrapped
  sender secret each determine all their fields, and no two of them, of different kinds, are ever
  the same bytes (nonces, keys and hashes being 32 bytes and parts shorter than \<open>2 ^ 32\<close>).
\<close>

theorem signed_messages_bind_their_fields:
  assumes lengths: "length sn = 32" "length sn' = 32" "length cn = 32" "length cn' = 32" "length fp = 32" "length fp' = 32"
    and servers: "length (wc_server c) = 32" "length (wc_server c') = 32"
    and parts: "\<forall>p \<in> set (transcript_parts t) \<union> set (transcript_parts t'). length p < 2 ^ 32"
  shows "(auth_message sn cn ex = auth_message sn' cn' ex' \<longleftrightarrow> sn = sn' \<and> cn = cn' \<and> ex = ex') \<and>
    (encryption_key_message fp u na k = encryption_key_message fp' u' na' k' \<longleftrightarrow> fp = fp' \<and> u = u' \<and> na = na' \<and> k = k') \<and>
    (transcript_bytes t = transcript_bytes t' \<longleftrightarrow> transcript_parts t = transcript_parts t') \<and>
    (wrap_info c = wrap_info c' \<longleftrightarrow> c = c') \<and>
    distinct [auth_message sn cn ex, encryption_key_message fp u na k, transcript_bytes t, wrap_info c]"
proof (intro conjI)
  show "auth_message sn cn ex = auth_message sn' cn' ex' \<longleftrightarrow> sn = sn' \<and> cn = cn' \<and> ex = ex'"
    using lengths by (simp add: auth_message_def)
  show "encryption_key_message fp u na k = encryption_key_message fp' u' na' k' \<longleftrightarrow> fp = fp' \<and> u = u' \<and> na = na' \<and> k = k'"
    using lengths by (simp add: encryption_key_message_def)
  show "transcript_bytes t = transcript_bytes t' \<longleftrightarrow> transcript_parts t = transcript_parts t'"
    using prefixed_parts_inj [OF _ _ parts] by (auto simp: transcript_bytes_def) (simp add: transcript_parts_def)
  show "wrap_info c = wrap_info c' \<longleftrightarrow> c = c'"
    using servers by (cases c; cases c') (simp add: wrap_info_def to_be_bytes_inj)
  show "distinct [auth_message sn cn ex, encryption_key_message fp u na k, transcript_bytes t, wrap_info c]"
    by (simp add: auth_message_def encryption_key_message_def transcript_bytes_def wrap_info_def ascii_bytes_def)
qed

theorem signed_messages_bind_their_fields_witness:
  "wrap_info \<lparr> wc_server = replicate 32 5, wc_room = 1, wc_epoch = 2, wc_from = 3, wc_to = 4 \<rparr> \<noteq>
   wrap_info \<lparr> wc_server = replicate 32 5, wc_room = 1, wc_epoch = 2, wc_from = 4, wc_to = 3 \<rparr>"
proof -
  let ?c = "\<lparr> wc_server = replicate 32 5, wc_room = 1, wc_epoch = 2, wc_from = 3, wc_to = 4 \<rparr>"
  let ?d = "\<lparr> wc_server = replicate 32 5, wc_room = 1, wc_epoch = 2, wc_from = 4, wc_to = 3 \<rparr>"
  let ?z = "replicate 32 0 :: bytes"
  let ?t = "\<lparr> tr_server_nonce = ?z, tr_client_nonce = ?z, tr_code_id = [], tr_pubkey = ?z, tr_spki_hash = ?z,
    tr_exporter = ?z, tr_pake_a = [], tr_pake_b = [] \<rparr>"
  have "wrap_info ?c = wrap_info ?d \<longleftrightarrow> ?c = ?d"
    using signed_messages_bind_their_fields [of ?z ?z ?z ?z ?z ?z ?c ?d ?t ?t]
    by (simp add: transcript_parts_def as_bytes_def)
  then show ?thesis by simp
qed

subsection \<open>Enrollment\<close>

text \<open>
  C37. An honest enrollment confirms on both sides: when client and server start from the same invite
  code and agree on the transcript, the server answers, the client accepts the server's
  confirmation, and the server accepts the client's. And a confirmation is bound to the transcript:
  the client accepts no other answer for it, nor the server.
\<close>

theorem enrollment_confirms:
  assumes "spake_ok C" and start: "client_start C r code_id secret = (state, pake_a)"
  shows "\<exists>p. server_respond C s code_id secret pake_a = Inr p \<and>
    (\<forall>t. tr_pake_b t = sp_pake_b p \<longrightarrow>
      (\<exists>confirm_a. client_finish C state t (sc_confirm_b (server_confirm_of C p t)) = Inr confirm_a \<and>
        (\<forall>x. check_confirm_a C (server_confirm_of C p t) x = Inr () \<longleftrightarrow> x = confirm_a) \<and>
        (\<forall>b. b \<noteq> sc_confirm_b (server_confirm_of C p t) \<longrightarrow> client_finish C state t b = Inl Confirmation)))"
proof -
  let ?pw = "as_bytes secret" and ?ia = "ascii_bytes ''throcc/client/'' @ as_bytes code_id"
    and ?ib = "ascii_bytes ''throcc/server/'' @ as_bytes code_id"
  obtain sb mb where b: "cr_spake_b C s ?pw ?ia ?ib = (sb, mb)" by (rule prod.exhaust)
  have a: "cr_spake_a C r ?pw ?ia ?ib = (state, pake_a)" using start by (simp add: client_start_def spake2_start_def)
  have "cr_spake_finish C state mb \<noteq> None \<and> cr_spake_finish C state mb = cr_spake_finish C sb pake_a"
    using assms(1) a b unfolding spake_ok_def by blast
  then obtain key where key: "cr_spake_finish C state mb = Some key" "cr_spake_finish C sb pake_a = Some key"
    by (cases "cr_spake_finish C sb pake_a") auto
  then have "server_respond C s code_id secret pake_a = Inr \<lparr> sp_key = key, sp_pake_b = mb \<rparr>"
    using b by (simp add: server_respond_def spake2_start_def)
  then show ?thesis
    using key by (auto simp: client_finish_def server_confirm_of_def check_confirm_a_def verify_mac_def mac_def Let_def split_beta)
qed

theorem enrollment_confirms_witness:
  "\<exists>p. server_respond plain_crypto [] [75] [55, 81] [0] = Inr p \<and> sp_pake_b p = [1]"
proof -
  have "client_start plain_crypto [] [75] [55, 81] = (as_bytes [55, 81], [0])"
    by (simp add: client_start_def spake2_start_def plain_crypto_def)
  from enrollment_confirms [OF plain_crypto_ok(3) this, of "[]"] show ?thesis
    by (auto simp: server_respond_def spake2_start_def plain_crypto_def)
qed

subsection \<open>Safety numbers\<close>

lemma string_le_antisym: "string_le a b \<Longrightarrow> string_le b a \<Longrightarrow> a = b"
proof (induction a b rule: string_le.induct)
  case (1 ys)
  then show ?case by (cases ys) simp_all
qed auto

lemma string_le_total: "string_le a b \<or> string_le b a"
  by (induction a b rule: string_le.induct) (auto simp: not_less le_less)

lemma length_chunks5: "length xs = 5 * n \<Longrightarrow> length (chunks5 xs) = n"
proof (induction n arbitrary: xs)
  case (Suc n)
  then obtain x ys where "xs = x # ys" by (cases xs) auto
  then show ?case using Suc by simp
qed simp

lemma half_digits:
  assumes "\<And>bs. length (cr_sha512 C bs) = 64"
  shows "length (half C key) = 30" "set (half C key) \<subseteq> set ''0123456789''"
proof -
  have digit: "char_of (48 + d mod 10) \<in> set ''0123456789''" for d :: nat
  proof -
    have "list_all (\<lambda>i. char_of (48 + i) \<in> set ''0123456789'') [0 ..< 10]" by code_simp
    then show ?thesis by (simp only: list_all_iff set_upt) (metis atLeastLessThan_iff le0 mod_less_divisor zero_less_numeral)
  qed
  then have digits: "set (five_digits n) \<subseteq> set ''0123456789''" for n
    unfolding five_digits_def by (simp only: list.map set_simps) (use digit in blast)
  have len: "length (rehash C key n h) = 64" if "length h = 64" for n h
    using that assms by (induction n arbitrary: h) simp_all
  let ?h = "rehash C key ITERATIONS (cr_sha512 C (VERSION @ key @ key))"
  have "length (chunks5 (take 30 ?h)) = 6" using len [OF assms] by (intro length_chunks5) simp
  moreover have "length (five_digits n) = 5" for n by (simp add: five_digits_def)
  ultimately show "length (half C key) = 30"
    by (simp add: half_def Let_def length_concat comp_def sum_list_triv)
  show "set (half C key) \<subseteq> set ''0123456789''"
    using digits by (fastforce simp: half_def Let_def)
qed

text \<open>
  Two people see the same safety number, whichever of them looks, and it has 60 digits.
\<close>

theorem safety_number_symmetric:
  assumes "\<And>bs. length (cr_sha512 C bs) = 64"
  shows "safety_number C a b = safety_number C b a \<and> length (safety_number C a b) = 60 \<and>
    set (safety_number C a b) \<subseteq> set ''0123456789''"
proof -
  have "safety_number C a b = safety_number C b a"
    using string_le_antisym [of "half C a" "half C b"] string_le_total [of "half C a" "half C b"]
    by (auto simp: safety_number_def Let_def)
  moreover have "length (safety_number C a b) = 60" using half_digits(1) [OF assms] by (simp add: safety_number_def Let_def)
  moreover have "set (safety_number C a b) \<subseteq> set ''0123456789''"
    using half_digits(2) [OF assms, of a] half_digits(2) [OF assms, of b] by (auto simp: safety_number_def Let_def)
  ultimately show ?thesis by blast
qed

theorem safety_number_symmetric_witness: "safety_number plain_crypto [1] [2] = safety_number plain_crypto [2] [1]"
  using safety_number_symmetric [of plain_crypto "[1]" "[2]"] by (simp add: plain_crypto_def)

end
