(* ===== verification/Server_File.thy ===== *)
theory Server_File
  imports Signed
begin

text \<open>
  What the client keeps per server, in one file: the pinned servers of \<open>known_servers.rs\<close>, the looks of
  \<open>server_look.rs\<close> and, in the theory of the floors, the epochs of \<open>floors.rs\<close>. The file is the value that
  \<open>servers.rs\<close> reads and writes through \<open>json_file.rs\<close>, whose writers take turns. Writing it may
  fail, which an argument says, and a failed write leaves it as it was; a load that fails gives nothing.
\<close>

subsection \<open>The file\<close>

record kept_server =
  ks_name :: "ustring option"
  ks_avatar :: "hash option"
  ks_epochs :: "(user_id, (room_id, epoch) fmap) fmap"

definition kept_default :: kept_server where
  "kept_default = \<lparr> ks_name = None, ks_avatar = None, ks_epochs = fmempty \<rparr>"

record servers =
  sv_known :: "(ustring, bytes) fmap"
  sv_servers :: "(bytes, kept_server) fmap"

definition servers_take :: "servers \<Rightarrow> fingerprint \<Rightarrow> kept_server" where
  "servers_take s server = fmget (sv_servers s) server kept_default"

definition server_mut :: "fingerprint \<Rightarrow> (kept_server \<Rightarrow> kept_server) \<Rightarrow> servers \<Rightarrow> servers" where
  "server_mut server change s =
     s\<lparr> sv_servers := fmupd server (change (fmget (sv_servers s) server kept_default)) (sv_servers s) \<rparr>"

text \<open>\<open>Servers::update\<close>: whether it worked, and the file after it.\<close>

definition servers_update :: "bool \<Rightarrow> (servers \<Rightarrow> servers) \<Rightarrow> servers \<Rightarrow> bool \<times> servers" where
  "servers_update works change file = (if works then (True, change file) else (False, file))"

subsection \<open>Pinned servers\<close>

record known_servers =
  kn_pins :: "(ustring, fingerprint) fmap"

definition known_load :: "servers \<Rightarrow> known_servers" where
  "known_load file = \<lparr> kn_pins = sv_known file \<rparr>"

definition known_get :: "known_servers \<Rightarrow> ustring \<Rightarrow> fingerprint option" where
  "known_get k address = fmlookup (kn_pins k) address"

text \<open>The pins in memory change before the file is written, and stay changed when that fails.\<close>

definition known_trust ::
  "bool \<Rightarrow> ustring \<Rightarrow> fingerprint \<Rightarrow> known_servers \<Rightarrow> servers \<Rightarrow> bool \<times> known_servers \<times> servers" where
  "known_trust works address fingerprint k file =
     (let (ok, file) = servers_update works (\<lambda>s. s\<lparr> sv_known := fmupd address fingerprint (sv_known s) \<rparr>) file
      in (ok, k\<lparr> kn_pins := fmupd address fingerprint (kn_pins k) \<rparr>, file))"

definition known_forget :: "bool \<Rightarrow> ustring \<Rightarrow> known_servers \<Rightarrow> servers \<Rightarrow> bool \<times> known_servers \<times> servers" where
  "known_forget works address k file =
     (let (ok, file) = servers_update works (\<lambda>s. s\<lparr> sv_known := fmdrop address (sv_known s) \<rparr>) file
      in (ok, k\<lparr> kn_pins := fmdrop address (kn_pins k) \<rparr>, file))"

definition known_forget_all :: "bool \<Rightarrow> known_servers \<Rightarrow> servers \<Rightarrow> bool \<times> known_servers \<times> servers" where
  "known_forget_all works k file =
     (let (ok, file) = servers_update works (\<lambda>s. s\<lparr> sv_known := fmempty \<rparr>) file
      in (ok, k\<lparr> kn_pins := fmempty \<rparr>, file))"

text \<open>What is kept for the key goes unless another address is pinned to it.\<close>

definition drop_server :: "ustring \<Rightarrow> servers \<Rightarrow> servers" where
  "drop_server address s =
     (case fmlookup (sv_known s) address of
        None \<Rightarrow> s
      | Some key \<Rightarrow>
          let s = s\<lparr> sv_known := fmdrop address (sv_known s) \<rparr>
          in if key \<in> fmran' (sv_known s) then s else s\<lparr> sv_servers := fmdrop key (sv_servers s) \<rparr>)"

definition known_leave :: "bool \<Rightarrow> ustring \<Rightarrow> known_servers \<Rightarrow> servers \<Rightarrow> bool \<times> known_servers \<times> servers" where
  "known_leave works address k file =
     (let (ok, file) = servers_update works (drop_server address) file
      in (ok, k\<lparr> kn_pins := fmdrop address (kn_pins k) \<rparr>, file))"

subsection \<open>Looks\<close>

record server_look =
  lk_name :: "ustring option"
  lk_avatar :: "hash option"

definition look_load :: "servers \<Rightarrow> fingerprint \<Rightarrow> server_look" where
  "look_load file server = (let kept = servers_take file server in \<lparr> lk_name = ks_name kept, lk_avatar = ks_avatar kept \<rparr>)"

definition look_save :: "bool \<Rightarrow> server_look \<Rightarrow> fingerprint \<Rightarrow> servers \<Rightarrow> bool \<times> servers" where
  "look_save works look server file =
     servers_update works (server_mut server (\<lambda>s. s\<lparr> ks_name := lk_name look, ks_avatar := lk_avatar look \<rparr>)) file"

subsection \<open>What the writers leave alone\<close>

lemma servers_take_mut: "servers_take (server_mut server change file) s =
    (if s = server then change (servers_take file server) else servers_take file s)"
  by (simp add: servers_take_def server_mut_def fmget_def)

lemma known_keeps_servers:
  "known_trust works address key k file = (ok, k', file') \<Longrightarrow> servers_take file' s = servers_take file s"
  "known_forget works address k file = (ok, k', file') \<Longrightarrow> servers_take file' s = servers_take file s"
  "known_forget_all works k file = (ok, k', file') \<Longrightarrow> servers_take file' s = servers_take file s"
  by (auto simp: known_trust_def known_forget_def known_forget_all_def servers_update_def servers_take_def split: if_splits)

lemma known_leave_keeps_servers:
  assumes "known_leave works address k file = (ok, k', file')" "fmlookup (sv_known file) address \<noteq> Some s"
  shows "servers_take file' s = servers_take file s"
  using assms
  by (auto simp: known_leave_def servers_update_def drop_server_def servers_take_def fmget_def Let_def
      split: if_splits option.splits)

lemma look_keeps_epochs:
  assumes "look_save works look server file = (ok, file')"
  shows "ks_epochs (servers_take file' s) = ks_epochs (servers_take file s)"
  using assms by (auto simp: look_save_def servers_update_def servers_take_mut split: if_splits)

lemma look_saved: "look_save True look server file = (ok, file') \<Longrightarrow> look_load file' server = look"
  by (auto simp: look_save_def servers_update_def look_load_def servers_take_mut Let_def)

lemma known_leave_drops:
  assumes "known_leave True address k file = (ok, k', file')" "fmlookup (sv_known file) address = Some key"
    "\<And>other. other \<noteq> address \<Longrightarrow> fmlookup (sv_known file) other \<noteq> Some key"
  shows "fmlookup (sv_known file') address = None" "servers_take file' key = kept_default"
proof -
  have "key \<notin> fmran' (fmdrop address (sv_known file))" using assms(3) by (auto simp: fmlookup_ran'_iff split: if_splits)
  then show "fmlookup (sv_known file') address = None" "servers_take file' key = kept_default"
    using assms(1,2) by (auto simp: known_leave_def servers_update_def drop_server_def servers_take_def fmget_def Let_def)
qed

end
