(* ===== verification/Floors.thy ===== *)
theory Floors
  imports Server_File
begin

text \<open>
  The epoch floors of the client, \<open>throcc-client-core/src/floors.rs\<close>: the newest epoch each of our
  users took part in, per room, shared by the key managers of a server and kept in its file. A save
  takes its copy and writes it in one step; the code releases its lock in between, where a raise only
  marks the floors unsaved again. The runs have every writer of the file.
\<close>

subsection \<open>Floors\<close>

record floors =
  fl_kept_in :: "fingerprint option"
  fl_at :: "(user_id \<times> room_id, epoch) fmap"
  fl_unsaved :: bool
  fl_finished :: bool

definition floors_default :: floors where
  "floors_default = \<lparr> fl_kept_in = None, fl_at = fmempty, fl_unsaved = False, fl_finished = False \<rparr>"

definition user_floors :: "user_id \<Rightarrow> (room_id, epoch) fmap \<Rightarrow> ((user_id \<times> room_id) \<times> epoch) list" where
  "user_floors user rooms = map (\<lambda>room. ((user, room), the (fmlookup rooms room))) (fmkeys rooms)"

definition all_floors :: "(user_id, (room_id, epoch) fmap) fmap \<Rightarrow> ((user_id \<times> room_id) \<times> epoch) list" where
  "all_floors epochs = concat (map (\<lambda>user. user_floors user (the (fmlookup epochs user))) (fmkeys epochs))"

definition floors_load :: "servers \<Rightarrow> fingerprint \<Rightarrow> floors" where
  "floors_load file server =
     floors_default\<lparr> fl_kept_in := Some server,
       fl_at := fmap_of_list (rev (all_floors (ks_epochs (servers_take file server)))) \<rparr>"

definition floors_get :: "floors \<Rightarrow> user_id \<Rightarrow> room_id \<Rightarrow> epoch option" where
  "floors_get f user room = fmlookup (fl_at f) (user, room)"

definition floors_raise :: "user_id \<Rightarrow> room_id \<Rightarrow> epoch \<Rightarrow> floors \<Rightarrow> floors" where
  "floors_raise user room epoch f =
     (if (case fmlookup (fl_at f) (user, room) of None \<Rightarrow> True | Some old \<Rightarrow> old < epoch)
      then f\<lparr> fl_at := fmupd (user, room) epoch (fl_at f), fl_unsaved := True \<rparr>
      else f)"

text \<open>One kept floor rises: the entry of the user and of the room are made where they are missing.\<close>

definition keep_floor ::
  "(user_id \<times> room_id) \<times> epoch \<Rightarrow> (user_id, (room_id, epoch) fmap) fmap \<Rightarrow> (user_id, (room_id, epoch) fmap) fmap" where
  "keep_floor entry kept =
     (case entry of ((user, room), epoch) \<Rightarrow>
        let rooms = fmget kept user fmempty; old = fmget rooms room epoch
        in fmupd user (fmupd room (max old epoch) rooms) kept)"

text \<open>The order in which the hash map of the floors is visited is an argument.\<close>

definition merge_floors ::
  "((user_id \<times> room_id) \<times> epoch) list \<Rightarrow> (user_id, (room_id, epoch) fmap) fmap \<Rightarrow> (user_id, (room_id, epoch) fmap) fmap" where
  "merge_floors entries kept = fold keep_floor entries kept"

definition floors_save ::
  "bool \<Rightarrow> (user_id \<times> room_id) list \<Rightarrow> floors \<Rightarrow> servers \<Rightarrow> bool \<times> floors \<times> servers" where
  "floors_save works order f file =
     (case fl_kept_in f of
        None \<Rightarrow> (True, f, file)
      | Some server \<Rightarrow>
          if \<not> fl_unsaved f \<or> fl_finished f then (True, f, file)
          else
            let f = f\<lparr> fl_unsaved := False \<rparr>;
                entries = map (\<lambda>k. (k, the (fmlookup (fl_at f) k))) order;
                (saved, file) = servers_update works
                  (server_mut server (\<lambda>s. s\<lparr> ks_epochs := merge_floors entries (ks_epochs s) \<rparr>)) file;
                f = (if saved then f else f\<lparr> fl_unsaved := True \<rparr>)
            in (saved, f, file))"

definition floors_save_last ::
  "bool \<Rightarrow> (user_id \<times> room_id) list \<Rightarrow> floors \<Rightarrow> servers \<Rightarrow> bool \<times> floors \<times> servers" where
  "floors_save_last works order f file =
     (let (saved, f, file) = floors_save works order f file in (saved, f\<lparr> fl_finished := True \<rparr>, file))"

definition floors_forget :: "bool \<Rightarrow> fingerprint \<Rightarrow> user_id \<Rightarrow> servers \<Rightarrow> bool \<times> servers" where
  "floors_forget works server user file =
     servers_update works (server_mut server (\<lambda>s. s\<lparr> ks_epochs := fmdrop user (ks_epochs s) \<rparr>)) file"

subsection \<open>What is kept\<close>

text \<open>The floor of the file for a user and room, and an order of epochs in which no floor is least.\<close>

definition kept_floor :: "servers \<Rightarrow> fingerprint \<Rightarrow> user_id \<Rightarrow> room_id \<Rightarrow> epoch option" where
  "kept_floor file server user room =
     (case fmlookup (ks_epochs (servers_take file server)) user of None \<Rightarrow> None | Some rooms \<Rightarrow> fmlookup rooms room)"

fun floor_le :: "epoch option \<Rightarrow> epoch option \<Rightarrow> bool" where
  "floor_le None y = True"
| "floor_le (Some a) None = False"
| "floor_le (Some a) (Some b) = (a \<le> b)"

lemma floor_le_refl [simp]: "floor_le x x"
  by (cases x) simp_all

lemma floor_le_trans: "floor_le x y \<Longrightarrow> floor_le y z \<Longrightarrow> floor_le x z"
  by (cases x; cases y; cases z) simp_all

lemma floor_le_Some: "floor_le (Some a) y \<longleftrightarrow> (\<exists>b. y = Some b \<and> a \<le> b)"
  by (cases y) simp_all

definition epochs_at :: "(user_id, (room_id, epoch) fmap) fmap \<Rightarrow> user_id \<times> room_id \<Rightarrow> epoch option" where
  "epochs_at kept k = (case fmlookup kept (fst k) of None \<Rightarrow> None | Some rooms \<Rightarrow> fmlookup rooms (snd k))"

lemma kept_floor_epochs: "kept_floor file server user room = epochs_at (ks_epochs (servers_take file server)) (user, room)"
  by (simp add: kept_floor_def epochs_at_def cong: option.case_cong)

lemma map_of_user_floors:
  "map_of (user_floors user rooms) (u, r) = (if u = user then fmlookup rooms r else None)"
proof -
  have "map_of (map (\<lambda>room. ((user, room), the (fmlookup rooms room))) rs) (u, r)
      = (if u = user \<and> r \<in> set rs then Some (the (fmlookup rooms r)) else None)" for rs
    by (induction rs) auto
  then show ?thesis by (auto simp: user_floors_def fmlookup_dom'_iff)
qed

lemma distinct_all_floors: "distinct (map fst (all_floors kept))"
proof -
  have "distinct (map fst (concat (map (\<lambda>user. user_floors user (the (fmlookup kept user))) us)))" if "distinct us" for us
    using that
    by (induction us) (auto simp: user_floors_def distinct_map inj_on_def comp_def)
  then show ?thesis by (simp add: all_floors_def)
qed

lemma map_of_all_floors: "map_of (all_floors kept) k = epochs_at kept k"
proof -
  obtain u r where k: "k = (u, r)" by (cases k)
  have "map_of (concat (map (\<lambda>user. user_floors user (the (fmlookup kept user))) us)) (u, r)
      = (if u \<in> set us then fmlookup (the (fmlookup kept u)) r else None)" for us
    by (induction us) (auto simp: map_of_user_floors map_add_def split: option.splits)
  then show ?thesis by (auto simp: k all_floors_def epochs_at_def fmlookup_dom'_iff split: option.splits)
qed

lemma floors_load_get: "floors_get (floors_load file server) user room = kept_floor file server user room"
proof -
  have "map_of (rev (all_floors m)) = map_of (all_floors m)" for m
    using distinct_all_floors [of m] by (subst map_of_inject_set) (simp_all add: rev_map [symmetric])
  then show ?thesis
    by (simp add: floors_load_def floors_get_def floors_default_def fmlookup_of_list map_of_all_floors kept_floor_epochs)
qed

lemma floors_raise_get:
  "floors_get (floors_raise user room epoch f) u r =
     (if (u, r) = (user, room) then (case floors_get f u r of None \<Rightarrow> Some epoch | Some old \<Rightarrow> Some (max old epoch))
      else floors_get f u r)"
  by (auto simp: floors_raise_def floors_get_def max_def split: option.splits)

lemma floors_raise_le: "floor_le (floors_get f u r) (floors_get (floors_raise user room epoch f) u r)"
  by (auto simp: floors_raise_get split: option.splits)

lemma epochs_at_keep:
  "epochs_at (keep_floor (k, e) kept) k' =
     (if k' = k then Some (case epochs_at kept k of None \<Rightarrow> e | Some old \<Rightarrow> max old e) else epochs_at kept k')"
  by (cases k; cases k') (auto simp: keep_floor_def epochs_at_def fmget_def Let_def split: option.splits)

lemma epochs_at_merge:
  assumes "distinct (map fst entries)"
  shows "epochs_at (merge_floors entries kept) k =
     (case map_of entries k of None \<Rightarrow> epochs_at kept k
      | Some e \<Rightarrow> Some (case epochs_at kept k of None \<Rightarrow> e | Some old \<Rightarrow> max old e))"
  using assms
proof (induction entries arbitrary: kept)
  case (Cons entry entries)
  obtain k1 e1 where entry: "entry = (k1, e1)" by (cases entry)
  then have "map_of entries k1 = None" using Cons.prems by (simp add: map_of_eq_None_iff)
  then show ?case using Cons entry by (auto simp: merge_floors_def epochs_at_keep split: option.splits)
qed (simp add: merge_floors_def)

lemma save_effect:
  assumes saved: "floors_save works order f file = (ok, f', file')"
    and order: "distinct order" "set order = fmdom' (fl_at f)"
  shows "fl_at f' = fl_at f" and "fl_kept_in f' = fl_kept_in f"
    and "floor_le (kept_floor file s u r) (kept_floor file' s u r)"
    and "fl_kept_in f \<noteq> Some s \<Longrightarrow> kept_floor file' s u r = kept_floor file s u r"
    and "\<not> ok \<Longrightarrow> file' = file \<and> fl_unsaved f'"
    and "fl_kept_in f = Some s \<Longrightarrow> fl_unsaved f \<Longrightarrow> \<not> fl_unsaved f' \<Longrightarrow> floor_le (floors_get f u r) (kept_floor file' s u r)"
    and "fl_kept_in f \<noteq> None \<Longrightarrow> ok \<Longrightarrow> \<not> fl_finished f \<Longrightarrow> \<not> fl_unsaved f'"
    and "\<not> fl_unsaved f \<Longrightarrow> \<not> fl_unsaved f' \<and> file' = file"
proof -
  let ?entries = "map (\<lambda>k. (k, the (fmlookup (fl_at f) k))) order"
  have entries: "map_of ?entries k = fmlookup (fl_at f) k" for k
    using order(2) by (auto simp: map_of_map_restrict restrict_map_def fmlookup_dom'_iff)
  have distinct: "distinct (map fst ?entries)" using order(1) by (simp add: comp_def)
  have merged: "floor_le (epochs_at m k) (epochs_at (merge_floors ?entries m) k)"
      "floor_le (fmlookup (fl_at f) k) (epochs_at (merge_floors ?entries m) k)" for m k
    by (auto simp: epochs_at_merge [OF distinct] entries split: option.splits)
  note unfold = floors_save_def servers_update_def Let_def kept_floor_epochs servers_take_mut floors_get_def
  show "fl_at f' = fl_at f" "fl_kept_in f' = fl_kept_in f"
    using saved by (auto simp: unfold split: if_splits option.splits)
  show "floor_le (kept_floor file s u r) (kept_floor file' s u r)"
    using saved merged(1) by (auto simp: unfold split: if_splits option.splits)
  show "kept_floor file' s u r = kept_floor file s u r" if "fl_kept_in f \<noteq> Some s"
    using saved that by (auto simp: unfold split: if_splits option.splits)
  show "file' = file \<and> fl_unsaved f'" if "\<not> ok"
    using saved that by (auto simp: unfold split: if_splits option.splits)
  show "floor_le (floors_get f u r) (kept_floor file' s u r)" if "fl_kept_in f = Some s" "fl_unsaved f" "\<not> fl_unsaved f'"
    using saved merged(2) that by (auto simp: unfold split: if_splits option.splits)
  show "\<not> fl_unsaved f'" if "fl_kept_in f \<noteq> None" "ok" "\<not> fl_finished f"
    using saved that by (auto simp: unfold split: if_splits option.splits)
  show "\<not> fl_unsaved f' \<and> file' = file" if "\<not> fl_unsaved f"
    using saved that by (auto simp: unfold split: if_splits option.splits)
qed

subsection \<open>Runs\<close>

text \<open>
  What happens to the floors of a running client and to its file: raises, saves and last saves, and
  whatever any client does to the same file, in any order and working or not. Two operations drop kept
  floors: forgetting a user, as for a new account under an id of an earlier one, and leaving a server.
  A run spares a set of servers and users that neither happens to.
\<close>

definition visits :: "(user_id \<times> room_id) list \<Rightarrow> floors \<Rightarrow> bool" where
  "visits order f \<longleftrightarrow> distinct order \<and> set order = fmdom' (fl_at f)"

inductive floors_step :: "(fingerprint \<times> user_id) set \<Rightarrow> floors \<times> servers \<Rightarrow> floors \<times> servers \<Rightarrow> bool" for spared where
  Raise: "floors_step spared (f, file) (floors_raise user room epoch f, file)"
| Save: "visits order f \<Longrightarrow> floors_save works order f file = (ok, f', file') \<Longrightarrow> floors_step spared (f, file) (f', file')"
| SaveLast: "visits order f \<Longrightarrow> floors_save_last works order f file = (ok, f', file') \<Longrightarrow> floors_step spared (f, file) (f', file')"
| Other: "visits order g \<Longrightarrow> floors_save works order g file = (ok, g', file') \<Longrightarrow> floors_step spared (f, file) (f, file')"
| Forget: "(server, user) \<notin> spared \<Longrightarrow> floors_forget works server user file = (ok, file') \<Longrightarrow> floors_step spared (f, file) (f, file')"
| Leave: "(\<And>key u. fmlookup (sv_known file) address = Some key \<Longrightarrow> (key, u) \<notin> spared) \<Longrightarrow>
    known_leave works address k file = (ok, k', file') \<Longrightarrow> floors_step spared (f, file) (f, file')"
| Trust: "known_trust works address key k file = (ok, k', file') \<Longrightarrow> floors_step spared (f, file) (f, file')"
| Unlist: "known_forget works address k file = (ok, k', file') \<Longrightarrow> floors_step spared (f, file) (f, file')"
| UnlistAll: "known_forget_all works k file = (ok, k', file') \<Longrightarrow> floors_step spared (f, file) (f, file')"
| Look: "look_save works look server file = (ok, file') \<Longrightarrow> floors_step spared (f, file) (f, file')"

text \<open>The file of every step but our own saves only changes kept floors upwards, or those not spared.\<close>

definition file_rises :: "(fingerprint \<times> user_id) set \<Rightarrow> servers \<Rightarrow> servers \<Rightarrow> bool" where
  "file_rises spared file file' \<longleftrightarrow>
     (\<forall>s u r. (s, u) \<in> spared \<longrightarrow> floor_le (kept_floor file s u r) (kept_floor file' s u r))"

lemma file_rises_refl [simp]: "file_rises spared file file"
  by (simp add: file_rises_def)

lemma file_rises_trans: "file_rises spared a b \<Longrightarrow> file_rises spared b c \<Longrightarrow> file_rises spared a c"
  unfolding file_rises_def by (meson floor_le_trans)

lemma file_rises_same:
  "(\<And>s u. (s, u) \<in> spared \<Longrightarrow> ks_epochs (servers_take file' s) = ks_epochs (servers_take file s)) \<Longrightarrow> file_rises spared file file'"
  by (simp add: file_rises_def kept_floor_def)

lemma floors_forget_get:
  assumes "floors_forget works server user file = (ok, file')"
  shows "ok = works" "kept_floor file' s u r = (if works \<and> s = server \<and> u = user then None else kept_floor file s u r)"
  using assms by (auto simp: floors_forget_def servers_update_def kept_floor_def servers_take_mut split: if_splits)

lemma floors_step_cases:
  assumes "floors_step spared (f, file) (f', file')"
  obtains (Ours) order works ok g where "visits order f" "floors_save works order f file = (ok, g, file')"
      "fl_at f' = fl_at g" "fl_kept_in f' = fl_kept_in g" "fl_unsaved f' = fl_unsaved g"
    | (Rose) user room epoch where "f' = floors_raise user room epoch f" "file' = file"
    | (Theirs) "f' = f" "file_rises spared file file'"
  using assms
proof cases
  case (Raise user room epoch)
  then show ?thesis using Rose by blast
next
  case (Save order works ok)
  then show ?thesis using Ours by blast
next
  case (SaveLast order works ok)
  obtain g where "floors_save works order f file = (ok, g, file')" "f' = g\<lparr> fl_finished := True \<rparr>"
    using SaveLast(2) by (cases "floors_save works order f file") (auto simp: floors_save_last_def)
  then show ?thesis using Ours [OF SaveLast(1)] by simp
next
  case (Other order g works ok g')
  then show ?thesis using Theirs save_effect(3) [OF Other(3)] by (simp add: file_rises_def visits_def)
next
  case (Forget server user works ok)
  then show ?thesis using Theirs floors_forget_get(2) [OF Forget(3)] by (auto simp: file_rises_def)
next
  case (Leave address works k ok k')
  have "servers_take file' s = servers_take file s" if "(s, u) \<in> spared" for s u
    using that Leave(2) by (intro known_leave_keeps_servers [OF Leave(3)]) blast
  then show ?thesis using Leave(1) by (intro Theirs file_rises_same) auto
next
  case (Trust works address key k ok k')
  then show ?thesis using known_keeps_servers(1) by (intro Theirs file_rises_same) auto
next
  case (Unlist works address k ok k')
  then show ?thesis using known_keeps_servers(2) by (intro Theirs file_rises_same) auto
next
  case (UnlistAll works k ok k')
  then show ?thesis using known_keeps_servers(3) by (intro Theirs file_rises_same) auto
next
  case (Look works look server ok)
  then show ?thesis using look_keeps_epochs by (intro Theirs file_rises_same) auto
qed

definition floors_kept :: "(fingerprint \<times> user_id) set \<Rightarrow> fingerprint \<Rightarrow> floors \<times> servers \<Rightarrow> bool" where
  "floors_kept spared server = (\<lambda>(f, file). fl_kept_in f = Some server \<and>
     (fl_unsaved f \<or> (\<forall>u r. (server, u) \<in> spared \<longrightarrow> floor_le (floors_get f u r) (kept_floor file server u r))))"

lemma floors_step_ok:
  assumes step: "floors_step spared (f, file) (f', file')" and kept: "floors_kept spared server (f, file)"
  shows "floors_kept spared server (f', file') \<and> floor_le (floors_get f u r) (floors_get f' u r) \<and> file_rises spared file file'"
  using step
proof (cases rule: floors_step_cases)
  case (Ours order works ok g)
  note effect = save_effect [OF Ours(2)]
  have order: "distinct order" "set order = fmdom' (fl_at f)" using Ours(1) by (simp_all add: visits_def)
  have "floors_kept spared server (g, file')"
    using kept effect(1-3,6,8) [OF order]
    by (cases "fl_unsaved f"; cases "fl_unsaved g") (auto simp: floors_kept_def floors_get_def intro: floor_le_trans)
  then show ?thesis using Ours(3-5) effect(1,3) [OF order] by (simp add: floors_kept_def floors_get_def file_rises_def)
next
  case (Rose user room epoch)
  then show ?thesis using kept floors_raise_le by (auto simp: floors_kept_def floors_raise_def)
next
  case Theirs
  then show ?thesis using kept by (auto simp: floors_kept_def file_rises_def) (meson floor_le_trans)
qed

lemma floors_run:
  assumes "(floors_step spared)\<^sup>*\<^sup>* (f, file) (f', file')" "floors_kept spared server (f, file)"
  shows "floors_kept spared server (f', file') \<and> floor_le (floors_get f u r) (floors_get f' u r) \<and> file_rises spared file file'"
  using assms
proof (induction rule: rtranclp_induct2)
  case (step f1 file1 f2 file2)
  then show ?case using floors_step_ok [OF step.hyps(2)] by (blast intro: floor_le_trans file_rises_trans)
qed simp

lemma floors_load_kept: "floors_kept spared server (floors_load file server, file)"
  by (simp add: floors_kept_def floors_load_get) (simp add: floors_load_def)

text \<open>
  C30. Floors outlive the program. From a load on, whatever is raised and saved, by this client and by
  others of the same file, whatever else is written to it, and whether a write works or not: where
  neither the user is forgotten nor the server left, a floor once raised never falls, in memory or in
  the file; and once a save reports success that is not after the client's last one, every client that
  loads the file later finds the floors raised before it at least that high. Forgetting the user drops
  exactly their floors of that server from the file, if its write works.
\<close>

theorem floors_survive:
  assumes spared: "(server, user) \<in> spared"
    and run: "(floors_step spared)\<^sup>*\<^sup>* (floors_load file server, file) (f, file1)"
    and raised: "(floors_step spared)\<^sup>*\<^sup>* (floors_raise user room epoch f, file1) (f2, file2)"
    and saved: "visits order f2" "floors_save works order f2 file2 = (True, f3, file3)" "\<not> fl_finished f2"
    and later: "(floors_step spared)\<^sup>*\<^sup>* (f3, file3) (f4, file4)"
    and forgot: "floors_forget works' server user file4 = (gone, file5)"
  shows "floor_le (Some epoch) (floors_get f4 user room) \<and>
    floor_le (Some epoch) (floors_get (floors_load file4 server) user room) \<and>
    (\<forall>r. floor_le (kept_floor file server user r) (floors_get (floors_load file4 server) user r)) \<and>
    (\<forall>s u r. floors_get (floors_load file5 s) u r =
       (if gone \<and> (s, u) = (server, user) then None else floors_get (floors_load file4 s) u r))"
proof -
  note run1 = floors_run [OF run floors_load_kept]
  then have kept1: "floors_kept spared server (floors_raise user room epoch f, file1)"
    by (auto simp: floors_kept_def floors_raise_def)
  note run2 = floors_run [OF raised kept1]
  have step3: "floors_step spared (f2, file2) (f3, file3)" using saved(1,2) by (rule floors_step.Save)
  have kept2: "floors_kept spared server (f2, file2)" using run2 by blast
  note run3 = floors_step_ok [OF step3 kept2]
  have kept3: "floors_kept spared server (f3, file3)" using run3 by blast
  note run4 = floors_run [OF later kept3]
  have "\<not> fl_unsaved f3" using save_effect(7) [OF saved(2)] saved(1,3) kept2 by (simp add: visits_def floors_kept_def)
  then have file3: "floor_le (floors_get f3 user room) (kept_floor file3 server user room)"
    using kept3 spared by (simp add: floors_kept_def)
  have at_raise: "floor_le (Some epoch) (floors_get (floors_raise user room epoch f) user room)"
    by (auto simp: floors_raise_get split: option.splits)
  have "floor_le (Some epoch) (floors_get f3 user room)" using at_raise run2 run3 floor_le_trans by meson
  moreover have "file_rises spared file file4" "file_rises spared file3 file4"
    using run1 run2 run3 run4 file_rises_trans by meson+
  ultimately show ?thesis
    using file3 run4 spared floors_forget_get [OF forgot] unfolding floors_load_get file_rises_def
    by (auto intro: floor_le_trans)
qed

theorem floors_survive_witness:
  "\<exists>f3 file3. floors_save True [(4, 1)] (floors_raise 4 1 9 (floors_load \<lparr> sv_known = fmempty, sv_servers = fmempty \<rparr> [7]))
       \<lparr> sv_known = fmempty, sv_servers = fmempty \<rparr> = (True, f3, file3) \<and>
     floor_le (Some 9) (floors_get (floors_load file3 [7]) 4 1) \<and>
     floors_get (floors_load (snd (floors_forget True [7] 4 file3)) [7]) 4 1 = None"
proof -
  let ?file = "\<lparr> sv_known = fmempty, sv_servers = fmempty \<rparr>"
  let ?f = "floors_raise 4 1 9 (floors_load ?file [7])"
  have f: "?f = \<lparr> fl_kept_in = Some [7], fl_at = fmupd (4, 1) 9 fmempty, fl_unsaved = True, fl_finished = False \<rparr>"
    by (simp add: floors_raise_def floors_load_def floors_default_def servers_take_def fmget_def kept_default_def all_floors_def)
  obtain ok f3 file3 where saved: "floors_save True [(4, 1)] ?f ?file = (ok, f3, file3)" by (metis prod_cases3)
  then have ok: ok by (simp add: f floors_save_def servers_update_def Let_def)
  have visits: "visits [(4, 1)] ?f" "\<not> fl_finished ?f" by (auto simp: visits_def f)
  obtain file5 where forgot: "floors_forget True [7] 4 file3 = (True, file5)" by (simp add: floors_forget_def servers_update_def)
  from floors_survive [OF _ rtranclp.rtrancl_refl rtranclp.rtrancl_refl visits(1) _ visits(2) rtranclp.rtrancl_refl forgot,
      of "{([7], 4)}" True] saved ok forgot
  show ?thesis by auto
qed

end
