(* ===== verification/Keys.thy ===== *)
theory Keys
  imports Crypto Floors
begin

text \<open>
  The sender keys of a client, \<open>throcc-client-core/src/keys.rs\<close>: the secret it wraps to every peer
  it trusts in its room, and the secrets it has received. One lock guards a key manager, so
  every method runs alone on its state. The manager owns its floors here; in the program its
  successors share them, which only raises them further.
\<close>

subsection \<open>State\<close>

definition OLD_KEY_GRACE :: duration where "OLD_KEY_GRACE = from_secs 2"
definition RETIRED_ENCRYPTION_KEPT :: duration where "RETIRED_ENCRYPTION_KEPT = OLD_KEY_GRACE * 5"
definition MAX_EARLY :: nat where "MAX_EARLY = 2 * MAX_ROOM_MEMBERS"
definition WRAPPED_BYTES :: nat where "WRAPPED_BYTES = 32 + 32 + 16"

datatype key_notice = BadEncryptionKey user_id | ClashingTracks | TooManyPeers | OldEpoch

datatype key_error = Stale | KeyLength | Unwrap hpke_error

record key_peer =
  kp_identity_key :: public_key
  kp_encryption_key :: public_key
  kp_tracks :: tracks

record received =
  rc_secret :: bytes
  rc_retire_at :: "instant option"

record key_manager =
  km_me :: user_id
  km_encryption :: key_pair
  km_retired_encryption :: "(key_pair \<times> instant) option"
  km_server :: fingerprint
  km_present :: "(user_id, room_id) fmap"
  km_room_peers :: "peer list"
  km_room :: "room_id option"
  km_epoch :: epoch
  km_epoch_since :: instant
  km_floors :: floors
  km_floor :: "epoch option"
  km_my_tracks :: "tracks option"
  km_peers :: "(user_id, key_peer) fmap"
  km_owners :: "(media_id, user_id) fmap"
  km_my_secret :: "bytes option"
  km_wrapped_to :: "(user_id \<times> public_key) fset"
  km_unwrappable :: "(user_id, public_key) fmap"
  km_checked :: "(user_id, public_key \<times> signed_encryption_key \<times> bool) fmap"
  km_send_keys :: "(media_id, track_key) fmap"
  km_received :: "(user_id \<times> epoch, received) fmap"
  km_recv_keys :: "(media_id \<times> epoch, user_id \<times> track_key) fmap"
  km_early :: "(user_id \<times> epoch, instant \<times> bytes) fmap"
  km_stashed :: "(room_id \<times> epoch \<times> peer list) option"
  km_generation :: u64

definition new_keys :: "user_id \<Rightarrow> key_pair \<Rightarrow> fingerprint \<Rightarrow> floors \<Rightarrow> instant \<Rightarrow> key_manager" where
  "new_keys me encryption server fl now =
     \<lparr> km_me = me, km_encryption = encryption, km_retired_encryption = None, km_server = server,
       km_present = fmempty, km_room_peers = [], km_room = None, km_epoch = 0, km_epoch_since = now,
       km_floors = fl, km_floor = None, km_my_tracks = None, km_peers = fmempty, km_owners = fmempty,
       km_my_secret = None, km_wrapped_to = {||}, km_unwrappable = fmempty, km_checked = fmempty,
       km_send_keys = fmempty, km_received = fmempty, km_recv_keys = fmempty, km_early = fmempty,
       km_stashed = None, km_generation = 0 \<rparr>"

text \<open>
  What an operation draws from outside: the libraries, the wall clock (which may be before 1970), the
  random bytes of a new secret and of each wrapping, and the order in which it visits the hash
  map of early keys. One operation starts an epoch of a given number at most once.
\<close>

record key_env =
  ke_crypto :: crypto
  ke_unix :: "u64 option"
  ke_secret :: "epoch \<Rightarrow> bytes"
  ke_seed :: "epoch \<Rightarrow> user_id \<Rightarrow> bytes"
  ke_order :: "(user_id \<times> epoch, instant \<times> bytes) fmap \<Rightarrow> (user_id \<times> epoch) list"

subsection \<open>Presence\<close>

definition set_presence :: "user_id \<Rightarrow> room_id option \<Rightarrow> key_manager \<Rightarrow> bool \<times> key_manager" where
  "set_presence user room k =
     (let shown = (\<lambda>(earlier :: room_id option) k. (user \<noteq> km_me k \<and> km_room k \<noteq> None \<and>
        (earlier = km_room k) \<noteq> (room = km_room k), k)) in
      case room of
        Some r \<Rightarrow>
          if fmsize (km_present k) \<ge> MAX_SIGNED_IN \<and> fmlookup (km_present k) user = None then (False, k)
          else shown (fmlookup (km_present k) user) (k\<lparr> km_present := fmupd user r (km_present k) \<rparr>)
      | None \<Rightarrow> shown (fmlookup (km_present k) user) (k\<lparr> km_present := fmdrop user (km_present k) \<rparr>))"

definition trusted_room_peers :: "key_manager \<Rightarrow> peer list" where
  "trusted_room_peers k = filter (\<lambda>p. fmlookup (km_peers k) (pe_user p) \<noteq> None) (km_room_peers k)"

definition replace_encryption :: "key_pair \<Rightarrow> instant \<Rightarrow> key_manager \<Rightarrow> key_manager" where
  "replace_encryption encryption now k =
     k\<lparr> km_encryption := encryption, km_retired_encryption := Some (km_encryption k, now + RETIRED_ENCRYPTION_KEPT) \<rparr>"

subsection \<open>Trust\<close>

definition clashing_tracks :: "peer list \<Rightarrow> key_manager \<Rightarrow> bool" where
  "clashing_tracks peers k =
     (let others = filter (\<lambda>p. pe_user p \<noteq> km_me k) peers;
          theirs = concat (map (\<lambda>p. track_ids (pe_tracks p)) others);
          mine = (case km_my_tracks k of None \<Rightarrow> [] | Some t \<Rightarrow> track_ids t)
      in \<not> distinct (map pe_user others) \<or> \<not> distinct (mine @ theirs))"

definition signed_by_identity :: "crypto \<Rightarrow> peer \<Rightarrow> key_manager \<Rightarrow> bool \<times> key_manager" where
  "signed_by_identity C p k =
     (let signed = pe_encryption_key p;
          check =
            (let message = encryption_key_message (km_server k) (pe_user p) (ek_not_after signed) (ek_key signed);
                 holds = cr_verify C (pe_identity_key p) message (ek_sig signed)
             in (holds, k\<lparr> km_checked := fmupd (pe_user p) (pe_identity_key p, signed, holds) (km_checked k) \<rparr>))
      in case fmlookup (km_checked k) (pe_user p) of
           Some (identity_key, encryption_key, holds) \<Rightarrow>
             if (identity_key, encryption_key) = (pe_identity_key p, signed) then (holds, k) else check
         | None \<Rightarrow> check)"

definition key_peer_of :: "peer \<Rightarrow> key_peer" where
  "key_peer_of p =
     \<lparr> kp_identity_key = pe_identity_key p, kp_encryption_key = ek_key (pe_encryption_key p), kp_tracks = pe_tracks p \<rparr>"

text \<open>The loop over the peers shown in the room.\<close>

fun trust_each ::
  "key_env \<Rightarrow> peer list \<Rightarrow> (user_id, key_peer) fmap \<Rightarrow> key_notice list \<Rightarrow> key_manager \<Rightarrow>
   ((user_id, key_peer) fmap \<times> key_notice list) \<times> key_manager" where
  "trust_each E [] trusted notices k = ((trusted, notices), k)"
| "trust_each E (p # ps) trusted notices k =
     (let signed = pe_encryption_key p; unix_now = (case ke_unix E of None \<Rightarrow> 0 | Some t \<Rightarrow> t);
          (good, k) = (if ek_not_after signed \<le> unix_now then (False, k) else signed_by_identity (ke_crypto E) p k)
      in if \<not> good then trust_each E ps trusted (notices @ [BadEncryptionKey (pe_user p)]) k
         else if fmlookup (km_unwrappable k) (pe_user p) = Some (ek_key signed) then trust_each E ps trusted notices k
         else trust_each E ps (fmupd (pe_user p) (key_peer_of p) trusted) notices k)"

definition trusted_peers ::
  "key_env \<Rightarrow> room_id \<Rightarrow> peer list \<Rightarrow> key_manager \<Rightarrow> ((user_id, key_peer) fmap \<times> key_notice list) \<times> key_manager" where
  "trusted_peers E room peers k =
     (let listed = (\<lambda>user. user \<in> set (map pe_user peers));
          k = k\<lparr> km_checked := fmretain (\<lambda>user _. listed user) (km_checked k),
                 km_unwrappable := fmretain (\<lambda>user _. listed user) (km_unwrappable k) \<rparr>;
          shown = filter (\<lambda>p. pe_user p \<noteq> km_me k \<and> fmlookup (km_present k) (pe_user p) = Some room) peers
      in trust_each E shown fmempty [] k)"

subsection \<open>Epochs and secrets\<close>

definition retire_received :: "instant \<Rightarrow> (user_id \<Rightarrow> epoch \<Rightarrow> bool) \<Rightarrow> key_manager \<Rightarrow> key_manager" where
  "retire_received now which k =
     k\<lparr> km_received := fmmap_keys (\<lambda>(from, epoch) r.
          if which from epoch \<and> rc_retire_at r = None then r\<lparr> rc_retire_at := Some (now + OLD_KEY_GRACE) \<rparr> else r)
        (km_received k) \<rparr>"

definition my_track_ids :: "key_manager \<Rightarrow> media_id list" where
  "my_track_ids k = (case km_my_tracks k of None \<Rightarrow> [] | Some t \<Rightarrow> track_ids t)"

definition start_epoch :: "key_env \<Rightarrow> epoch \<Rightarrow> instant \<Rightarrow> key_manager \<Rightarrow> key_manager" where
  "start_epoch E epoch now k =
     (let k = (if epoch \<noteq> km_epoch k
               then let k = (retire_received now (\<lambda>_ old. old < epoch) k)\<lparr> km_epoch := epoch, km_epoch_since := now \<rparr>
                    in case km_room k of
                         Some room \<Rightarrow> k\<lparr> km_floors := floors_raise (km_me k) room epoch (km_floors k) \<rparr>
                       | None \<Rightarrow> k
               else k);
          secret = ke_secret E epoch
      in k\<lparr> km_send_keys := fmap_of_list (rev (map (\<lambda>m. (m, derive (ke_crypto E) secret m)) (my_track_ids k))),
            km_my_secret := Some secret, km_wrapped_to := {||} \<rparr>)"

definition key_context :: "key_manager \<Rightarrow> room_id \<Rightarrow> epoch \<Rightarrow> user_id \<Rightarrow> user_id \<Rightarrow> wrap_context" where
  "key_context k room epoch from to =
     \<lparr> wc_server = km_server k, wc_room = room, wc_epoch = epoch, wc_from = from, wc_to = to \<rparr>"

definition below_floor :: "key_manager \<Rightarrow> epoch \<Rightarrow> bool" where
  "below_floor k epoch \<longleftrightarrow>
     (case km_floor k of None \<Rightarrow> False | Some lowest \<Rightarrow> epoch \<le> lowest) \<or>
     (if epoch = - 1 then - 1 else epoch + 1) < km_epoch k"

text \<open>The loop that wraps the secret: what was wrapped, and whose key was refused.\<close>

fun wrap_each ::
  "key_env \<Rightarrow> room_id \<Rightarrow> bytes \<Rightarrow> key_manager \<Rightarrow> (user_id \<times> key_peer) list \<Rightarrow>
   (user_id \<times> bytes) list \<times> (user_id \<times> public_key) list" where
  "wrap_each E room secret k [] = ([], [])"
| "wrap_each E room secret k ((user, p) # ps) =
     (let (wrapped, refused) = wrap_each E room secret k ps in
      if (user, kp_encryption_key p) |\<in>| km_wrapped_to k then (wrapped, refused)
      else case wrap (ke_crypto E) (ke_seed E (km_epoch k) user) (km_encryption k) (kp_encryption_key p)
                  (key_context k room (km_epoch k) (km_me k) user) secret of
             Inr blob \<Rightarrow> ((user, blob) # wrapped, refused)
           | Inl _ \<Rightarrow> (wrapped, (user, kp_encryption_key p) # refused))"

definition peers_list :: "key_manager \<Rightarrow> (user_id \<times> key_peer) list" where
  "peers_list k = map (\<lambda>user. (user, the (fmlookup (km_peers k) user))) (fmkeys (km_peers k))"

definition leave_out :: "user_id \<times> public_key \<Rightarrow> key_manager \<Rightarrow> key_manager" where
  "leave_out r k =
     k\<lparr> km_unwrappable := fmupd (fst r) (snd r) (km_unwrappable k), km_peers := fmdrop (fst r) (km_peers k),
        km_owners := fmretain (\<lambda>_ owner. owner \<noteq> fst r) (km_owners k) \<rparr>"

definition wrap_for_new_peers ::
  "key_env \<Rightarrow> room_id \<Rightarrow> key_manager \<Rightarrow> (request option \<times> user_id list) \<times> key_manager" where
  "wrap_for_new_peers E room k =
     (case km_my_secret k of
        None \<Rightarrow> ((None, []), k)
      | Some secret \<Rightarrow>
          let (wrapped, refused) = wrap_each E room secret k (peers_list k);
              k = fold leave_out refused k;
              added = List.map_filter (\<lambda>(user, _). map_option (\<lambda>p. (user, kp_encryption_key p)) (fmlookup (km_peers k) user)) wrapped;
              k = k\<lparr> km_wrapped_to := km_wrapped_to k |\<union>| fset_of_list added \<rparr>;
              request = (if wrapped = [] then None else Some (PublishSenderKey (km_epoch k) wrapped))
          in ((request, map fst refused), k))"

subsection \<open>Received secrets\<close>

definition sender_key_at ::
  "crypto \<Rightarrow> user_id \<Rightarrow> epoch \<Rightarrow> bytes \<Rightarrow> instant \<Rightarrow> instant \<Rightarrow> (key_manager, key_error, unit) se" where
  "sender_key_at C from epoch wrapped arrived now k =
     (if below_floor k epoch then (Inl Stale, k)
      else
        let early =
              (Inr (), if fmsize (km_early k) < MAX_EARLY \<or> fmlookup (km_early k) (from, epoch) \<noteq> None
                       then k\<lparr> km_early := fmupd (from, epoch) (arrived, wrapped) (km_early k) \<rparr> else k)
        in case km_room k of
             None \<Rightarrow> early
           | Some room \<Rightarrow>
               (case fmlookup (km_peers k) from of
                  None \<Rightarrow> early
                | Some p \<Rightarrow>
                    if \<not> epoch \<le> km_epoch k then early
                    else
                      let ends = km_epoch_since k + OLD_KEY_GRACE in
                      if epoch < km_epoch k \<and> now \<ge> ends then (Inl Stale, k)
                      else
                        let retire_at = (if epoch < km_epoch k then Some ends else None);
                            context = key_context k room epoch from (km_me k);
                            opened =
                              (case unwrap C (km_encryption k) (kp_encryption_key p) context wrapped of
                                 Inr secret \<Rightarrow> Inr secret
                               | Inl e \<Rightarrow>
                                   (case km_retired_encryption k of
                                      Some (retired, _) \<Rightarrow> unwrap C retired (kp_encryption_key p) context wrapped
                                    | None \<Rightarrow> Inl e))
                        in case opened of
                             Inl e \<Rightarrow> (Inl (Unwrap e), k)
                           | Inr secret \<Rightarrow>
                               let k = retire_received now (\<lambda>user old. user = from \<and> old < epoch) k;
                                   k = k\<lparr> km_received := fmupd (from, epoch) \<lparr> rc_secret = secret, rc_retire_at = retire_at \<rparr> (km_received k) \<rparr>;
                                   k = k\<lparr> km_recv_keys := fmretain (\<lambda>(_, e) (owner, _). \<not> (owner = from \<and> e = epoch)) (km_recv_keys k) \<rparr>
                               in (Inr (), k\<lparr> km_generation := km_generation k + 1 \<rparr>)))"

definition sender_key :: "crypto \<Rightarrow> user_id \<Rightarrow> epoch \<Rightarrow> bytes \<Rightarrow> instant \<Rightarrow> (key_manager, key_error, unit) se" where
  "sender_key C from epoch wrapped now k =
     (if length wrapped \<noteq> WRAPPED_BYTES then (Inl KeyLength, k)
      else sender_key_at C from epoch wrapped now now k)"

text \<open>The early keys are taken out and looked at again; those that still wait go back in.\<close>

fun retry_early ::
  "crypto \<Rightarrow> instant \<Rightarrow> ((user_id \<times> epoch) \<times> instant \<times> bytes) list \<Rightarrow> key_manager \<Rightarrow> key_manager" where
  "retry_early C now [] k = k"
| "retry_early C now (((from, epoch), (arrived, wrapped)) # es) k =
     retry_early C now es
       (if duration_since now arrived < OLD_KEY_GRACE then snd (sender_key_at C from epoch wrapped arrived now k) else k)"

definition take_early :: "key_env \<Rightarrow> instant \<Rightarrow> key_manager \<Rightarrow> key_manager" where
  "take_early E now k =
     (let early = km_early k in
      retry_early (ke_crypto E) now (map (\<lambda>e. (e, the (fmlookup early e))) (ke_order E early)) (k\<lparr> km_early := fmempty \<rparr>))"

subsection \<open>Room states and placements\<close>

definition owners_of :: "(user_id \<times> key_peer) list \<Rightarrow> (media_id, user_id) fmap" where
  "owners_of ps = fmap_of_list (rev (concat (map (\<lambda>(user, p). map (\<lambda>m. (m, user)) (track_ids (kp_tracks p))) ps)))"

definition peer_keys :: "key_manager \<Rightarrow> (user_id \<times> public_key) fset" where
  "peer_keys k = fset_of_list (map (\<lambda>(user, p). (user, kp_encryption_key p)) (peers_list k))"

definition invalid_state :: "peer list \<Rightarrow> key_manager \<Rightarrow> key_notice option" where
  "invalid_state peers k =
     (if length peers > MAX_ROOM_MEMBERS then Some TooManyPeers
      else if clashing_tracks peers k then Some ClashingTracks else None)"

definition judge_peers ::
  "key_env \<Rightarrow> room_id \<Rightarrow> peer list \<Rightarrow> key_manager \<Rightarrow> ((user_id, key_peer) fmap \<times> key_notice list) \<times> key_manager" where
  "judge_peers E room peers k =
     (case invalid_state peers k of
        Some notice \<Rightarrow> ((fmempty, if km_room_peers k = peers then [] else [notice]), k)
      | None \<Rightarrow> trusted_peers E room peers k)"

definition departed :: "(user_id, key_peer) fmap \<Rightarrow> key_manager \<Rightarrow> user_id \<Rightarrow> bool" where
  "departed trusted k user \<longleftrightarrow>
     (case fmlookup (km_peers k) user of
        None \<Rightarrow> False
      | Some old \<Rightarrow> (case fmlookup trusted user of None \<Rightarrow> True | Some new \<Rightarrow> kp_identity_key new \<noteq> kp_identity_key old))"

definition install_peers :: "peer list \<Rightarrow> (user_id, key_peer) fmap \<Rightarrow> instant \<Rightarrow> key_manager \<Rightarrow> key_manager" where
  "install_peers peers trusted now k =
     (let k = k\<lparr> km_room_peers := peers \<rparr>;
          k = (retire_received now (\<lambda>from _. departed trusted k from) k)\<lparr> km_peers := trusted \<rparr>
      in k\<lparr> km_owners := owners_of (peers_list k) \<rparr>)"

definition peers_changed ::
  "key_env \<Rightarrow> room_id \<Rightarrow> epoch \<Rightarrow> peer list \<Rightarrow> instant \<Rightarrow> key_manager \<Rightarrow> (request option \<times> key_notice list) \<times> key_manager" where
  "peers_changed E room epoch peers now k =
     (if Some room \<noteq> km_room k
      then ((None, []),
            if (case km_stashed k of None \<Rightarrow> True | Some (r, e, _) \<Rightarrow> r \<noteq> room \<or> e < epoch)
            then k\<lparr> km_stashed := Some (room, epoch, peers) \<rparr> else k)
      else if epoch < km_epoch k then ((None, []), k)
      else
        let ((trusted, notices), k) = judge_peers E room peers k;
            k = install_peers peers trusted now k;
            k = (if epoch \<noteq> km_epoch k \<or> km_my_secret k = None \<or> peer_keys k \<noteq> km_wrapped_to k
                 then start_epoch E epoch now k else k);
            ((request, unwrappable), k) = wrap_for_new_peers E room k;
            k = take_early E now k
        in ((request, notices @ map BadEncryptionKey unwrappable), k\<lparr> km_generation := km_generation k + 1 \<rparr>))"

definition reapply_peers :: "key_env \<Rightarrow> instant \<Rightarrow> key_manager \<Rightarrow> (request option \<times> key_notice list) \<times> key_manager" where
  "reapply_peers E now k =
     (case km_room k of
        None \<Rightarrow> ((None, []), k)
      | Some room \<Rightarrow> peers_changed E room (km_epoch k) (km_room_peers k) now k)"

definition change_room :: "room_id option \<Rightarrow> key_manager \<Rightarrow> key_manager" where
  "change_room room k =
     k\<lparr> km_received := fmempty, km_recv_keys := fmempty, km_peers := fmempty, km_owners := fmempty,
        km_room_peers := [], km_unwrappable := fmempty, km_epoch := 0,
        km_floor := (case room of None \<Rightarrow> None | Some r \<Rightarrow> floors_get (km_floors k) (km_me k) r) \<rparr>"

definition option_to_list :: "'a option \<Rightarrow> 'a list" where
  "option_to_list x = (case x of None \<Rightarrow> [] | Some y \<Rightarrow> [y])"

definition apply_placement ::
  "key_env \<Rightarrow> room_id option \<Rightarrow> epoch \<Rightarrow> tracks option \<Rightarrow> peer list \<Rightarrow> instant \<Rightarrow> key_manager \<Rightarrow>
   (request list \<times> key_notice list) \<times> key_manager" where
  "apply_placement E room epoch tracks peers now k =
     (if room \<noteq> None \<and> room = km_room k \<and> epoch < km_epoch k then (([], []), k)
      else
        let k = (if room \<noteq> km_room k then change_room room k else k);
            notices = (if room \<noteq> None \<and> below_floor k epoch then [OldEpoch] else []);
            k = k\<lparr> km_room := room, km_my_tracks := tracks, km_my_secret := None, km_send_keys := fmempty, km_wrapped_to := {||} \<rparr>
        in case room of
             None \<Rightarrow> (([], notices), k\<lparr> km_stashed := None \<rparr>)
           | Some r \<Rightarrow>
               let ((first, more), k) = peers_changed E r epoch peers now k;
                   notices = notices @ more; requests = option_to_list first;
                   stashed = km_stashed k; k = k\<lparr> km_stashed := None \<rparr>
               in case stashed of
                    Some (stashed_room, stashed_epoch, stashed_peers) \<Rightarrow>
                      if stashed_room = r \<and> stashed_epoch > epoch
                      then let ((later, more), k) = peers_changed E r stashed_epoch stashed_peers now k
                           in ((requests @ option_to_list later, notices @ more), k)
                      else ((requests, notices), k)
                  | None \<Rightarrow> ((requests, notices), k))"

subsection \<open>Keys for media\<close>

definition send_key :: "key_manager \<Rightarrow> media_id \<Rightarrow> (epoch \<times> track_key) option" where
  "send_key k m = (case fmlookup (km_send_keys k) m of None \<Rightarrow> None | Some key \<Rightarrow> Some (km_epoch k, key))"

definition owner :: "key_manager \<Rightarrow> media_id \<Rightarrow> user_id option" where
  "owner k m = fmlookup (km_owners k) m"

definition peer_tracks :: "key_manager \<Rightarrow> user_id \<Rightarrow> tracks option" where
  "peer_tracks k user = map_option kp_tracks (fmlookup (km_peers k) user)"

definition recv_key :: "crypto \<Rightarrow> media_id \<Rightarrow> epoch \<Rightarrow> key_manager \<Rightarrow> track_key option \<times> key_manager" where
  "recv_key C m epoch k =
     (if below_floor k epoch then (None, k)
      else case owner k m of
        None \<Rightarrow> (None, k)
      | Some from \<Rightarrow>
          let fresh =
            (case fmlookup (km_received k) (from, epoch) of
               None \<Rightarrow> (None, k)
             | Some r \<Rightarrow>
                 let key = derive C (rc_secret r) m
                 in (Some key, k\<lparr> km_recv_keys := fmupd (m, epoch) (from, key) (km_recv_keys k) \<rparr>))
          in case fmlookup (km_recv_keys k) (m, epoch) of
               Some (cached_for, key) \<Rightarrow> if cached_for = from then (Some key, k) else fresh
             | None \<Rightarrow> fresh)"

definition tick :: "instant \<Rightarrow> key_manager \<Rightarrow> key_manager" where
  "tick now k =
     (let k = (case km_retired_encryption k of
                 Some (_, until) \<Rightarrow> if until \<le> now then k\<lparr> km_retired_encryption := None \<rparr> else k
               | None \<Rightarrow> k);
          k = k\<lparr> km_received := fmretain (\<lambda>_ r. case rc_retire_at r of None \<Rightarrow> True | Some t \<Rightarrow> t > now) (km_received k) \<rparr>;
          k = k\<lparr> km_recv_keys := fmretain (\<lambda>(_, e) (from, _). fmlookup (km_received k) (from, e) \<noteq> None) (km_recv_keys k) \<rparr>
      in k\<lparr> km_early := fmretain (\<lambda>_ (arrived, _). duration_since now arrived < OLD_KEY_GRACE) (km_early k) \<rparr>)"

end
