(* ===== verification/Keys_Trust.thy ===== *)
theory Keys_Trust
  imports Keys
begin

text \<open>
  Whom a client trusts. The cache of checked signatures never changes an answer: the peers a room
  state makes trusted are those a plain filter over it picks.
\<close>

definition vouched :: "crypto \<Rightarrow> fingerprint \<Rightarrow> user_id \<Rightarrow> public_key \<Rightarrow> signed_encryption_key \<Rightarrow> bool" where
  "vouched C server user identity_key sk \<longleftrightarrow>
     cr_verify C identity_key (encryption_key_message server user (ek_not_after sk) (ek_key sk)) (ek_sig sk)"

definition cache_ok :: "crypto \<Rightarrow> key_manager \<Rightarrow> bool" where
  "cache_ok C k \<longleftrightarrow> (\<forall>user identity_key sk holds. fmlookup (km_checked k) user = Some (identity_key, sk, holds) \<longrightarrow>
     holds = vouched C (km_server k) user identity_key sk)"

definition unix_of :: "key_env \<Rightarrow> u64" where
  "unix_of E = (case ke_unix E of None \<Rightarrow> 0 | Some t \<Rightarrow> t)"

text \<open>A current key, vouched for by the identity the peer presents.\<close>

definition valid_peer :: "key_env \<Rightarrow> key_manager \<Rightarrow> peer \<Rightarrow> bool" where
  "valid_peer E k p \<longleftrightarrow> unix_of E < ek_not_after (pe_encryption_key p) \<and>
     vouched (ke_crypto E) (km_server k) (pe_user p) (pe_identity_key p) (pe_encryption_key p)"

definition trustworthy :: "key_env \<Rightarrow> room_id \<Rightarrow> peer list \<Rightarrow> key_manager \<Rightarrow> peer \<Rightarrow> bool" where
  "trustworthy E room peers k p \<longleftrightarrow> p \<in> set peers \<and> pe_user p \<noteq> km_me k \<and> fmlookup (km_present k) (pe_user p) = Some room \<and>
     valid_peer E k p \<and> fmlookup (km_unwrappable k) (pe_user p) \<noteq> Some (ek_key (pe_encryption_key p))"

lemma signed_by_identity_ok:
  assumes "cache_ok C k" "signed_by_identity C p k = (good, k')"
  shows "good = vouched C (km_server k) (pe_user p) (pe_identity_key p) (pe_encryption_key p)"
    and "cache_ok C k'" and "k' = k\<lparr> km_checked := km_checked k' \<rparr>"
  using assms
  by (auto simp: signed_by_identity_def Let_def cache_ok_def vouched_def split: option.splits if_splits prod.splits)

lemma trust_each_result:
  assumes "cache_ok (ke_crypto E) k" "trust_each E ps trusted notices k = (r, k')"
  shows "r = (fold (\<lambda>p t. if valid_peer E k p \<and> fmlookup (km_unwrappable k) (pe_user p) \<noteq> Some (ek_key (pe_encryption_key p))
                     then fmupd (pe_user p) (key_peer_of p) t else t) ps trusted,
              notices @ map (\<lambda>p. BadEncryptionKey (pe_user p)) (filter (\<lambda>p. \<not> valid_peer E k p) ps)) \<and>
    cache_ok (ke_crypto E) k' \<and> k' = k\<lparr> km_checked := km_checked k' \<rparr>"
  using assms
proof (induction ps arbitrary: trusted notices k)
  case (Cons p ps)
  let ?late = "ek_not_after (pe_encryption_key p) \<le> unix_of E"
  obtain good k1 where first: "(if ?late then (False, k) else signed_by_identity (ke_crypto E) p k) = (good, k1)"
    by (cases "if ?late then (False, k) else signed_by_identity (ke_crypto E) p k")
  have k1: "cache_ok (ke_crypto E) k1" "k1 = k\<lparr> km_checked := km_checked k1 \<rparr>" and good: "good = valid_peer E k p"
    using first signed_by_identity_ok [OF Cons.prems(1)] Cons.prems(1)
    by (auto simp: valid_peer_def not_le split: if_splits)
  have same: "valid_peer E k1 q = valid_peer E k q" "km_unwrappable k1 = km_unwrappable k" for q
    by (subst k1(2), simp add: valid_peer_def)+
  have trans: "k' = k\<lparr> km_checked := km_checked k' \<rparr>" if "k' = k1\<lparr> km_checked := km_checked k' \<rparr>"
    by (subst that, subst k1(2)) simp
  let ?skip = "fmlookup (km_unwrappable k) (pe_user p) = Some (ek_key (pe_encryption_key p))"
  have run: "trust_each E (p # ps) trusted notices k =
      (if \<not> good then trust_each E ps trusted (notices @ [BadEncryptionKey (pe_user p)]) k1
       else if ?skip then trust_each E ps trusted notices k1
       else trust_each E ps (fmupd (pe_user p) (key_peer_of p) trusted) notices k1)"
    using first by (simp add: unix_of_def [symmetric] Let_def same split: prod.splits)
  consider (bad) "\<not> good" | (skip) good ?skip | (take) good "\<not> ?skip" by blast
  then show ?case
  proof cases
    case bad
    then have step: "trust_each E ps trusted (notices @ [BadEncryptionKey (pe_user p)]) k1 = (r, k')" using Cons.prems(2) run by simp
    then show ?thesis using Cons.IH [OF k1(1) step, unfolded same] trans bad good by simp
  next
    case skip
    then have step: "trust_each E ps trusted notices k1 = (r, k')" using Cons.prems(2) run by simp
    then show ?thesis using Cons.IH [OF k1(1) step, unfolded same] trans skip good by simp
  next
    case take
    then have step: "trust_each E ps (fmupd (pe_user p) (key_peer_of p) trusted) notices k1 = (r, k')" using Cons.prems(2) run by simp
    then show ?thesis using Cons.IH [OF k1(1) step, unfolded same] trans take good by simp
  qed
qed simp

lemma fold_distinct_lookup:
  assumes "distinct (map f ps)"
  shows "fmlookup (fold (\<lambda>p t. if good p then fmupd (f p) (g p) t else t) ps m) u =
     (case find (\<lambda>p. f p = u \<and> good p) ps of None \<Rightarrow> fmlookup m u | Some p \<Rightarrow> Some (g p))"
  using assms
proof (induction ps arbitrary: m)
  case (Cons p ps)
  have "find (\<lambda>q. f q = f p \<and> good q) ps = None" using Cons.prems by (auto simp: find_None_iff rev_image_eqI)
  then show ?case using Cons by (auto split: option.splits)
qed simp

lemma find_unique: "(\<exists>p. find P xs = Some p \<and> Q p) \<longleftrightarrow> (\<exists>p \<in> set xs. P p \<and> Q p)"
  if "\<And>p q. p \<in> set xs \<Longrightarrow> q \<in> set xs \<Longrightarrow> P p \<Longrightarrow> P q \<Longrightarrow> p = q"
  using that by (induction xs) auto

lemma trusted_peers_result:
  assumes cache: "cache_ok (ke_crypto E) k" and users: "distinct (map pe_user (filter (\<lambda>p. pe_user p \<noteq> km_me k) peers))"
    and result: "trusted_peers E room peers k = ((trusted, notices), k')"
  shows "fmlookup trusted u = Some kp \<longleftrightarrow> (\<exists>p. trustworthy E room peers k p \<and> u = pe_user p \<and> kp = key_peer_of p)"
    and "cache_ok (ke_crypto E) k'"
    and "k' = k\<lparr> km_checked := km_checked k', km_unwrappable := km_unwrappable k' \<rparr>"
    and "fmlookup (km_unwrappable k') u = (if u \<in> pe_user ` set peers then fmlookup (km_unwrappable k) u else None)"
    and "notices = map (\<lambda>p. BadEncryptionKey (pe_user p))
      (filter (\<lambda>p. pe_user p \<noteq> km_me k \<and> fmlookup (km_present k) (pe_user p) = Some room \<and> \<not> valid_peer E k p) peers)"
proof -
  define k0 where "k0 = k\<lparr> km_checked := fmretain (\<lambda>user _. user \<in> set (map pe_user peers)) (km_checked k),
                 km_unwrappable := fmretain (\<lambda>user _. user \<in> set (map pe_user peers)) (km_unwrappable k) \<rparr>"
  let ?shown = "filter (\<lambda>p. pe_user p \<noteq> km_me k \<and> fmlookup (km_present k) (pe_user p) = Some room) peers"
  let ?good = "\<lambda>p. valid_peer E k p \<and> fmlookup (km_unwrappable k0) (pe_user p) \<noteq> Some (ek_key (pe_encryption_key p))"
  have run: "trust_each E ?shown fmempty [] k0 = ((trusted, notices), k')"
    using result by (simp add: trusted_peers_def k0_def Let_def)
  have cache0: "cache_ok (ke_crypto E) k0" using cache by (auto simp: cache_ok_def k0_def split: option.splits if_splits)
  have valid0: "valid_peer E k0 p = valid_peer E k p" for p by (simp add: valid_peer_def k0_def)
  note each = trust_each_result [OF cache0 run, unfolded valid0]
  have distinct: "distinct (map pe_user ?shown)" 
    using distinct_map_filter [OF users, of "\<lambda>p. fmlookup (km_present k) (pe_user p) = Some room"] by (simp add: conj_ac)
  have uniq: "p = q" if "p \<in> set ?shown" "q \<in> set ?shown" "pe_user p = pe_user q" for p q
    using distinct that by (auto simp: distinct_map dest: inj_onD)
  have lookup: "fmlookup trusted u = (case find (\<lambda>p. pe_user p = u \<and> ?good p) ?shown of None \<Rightarrow> None | Some p \<Rightarrow> Some (key_peer_of p))" for u
    using conjunct1 [OF each] fold_distinct_lookup [OF distinct, of ?good key_peer_of fmempty u]
    by (simp cong: option.case_cong)
  have unwrap0: "fmlookup (km_unwrappable k0) (pe_user p) = fmlookup (km_unwrappable k) (pe_user p)" if "p \<in> set peers" for p
    using that by (auto simp: k0_def split: option.splits)
  show "fmlookup trusted u = Some kp \<longleftrightarrow> (\<exists>p. trustworthy E room peers k p \<and> u = pe_user p \<and> kp = key_peer_of p)"
  proof -
    have "fmlookup trusted u = Some kp \<longleftrightarrow> (\<exists>p. find (\<lambda>p. pe_user p = u \<and> ?good p) ?shown = Some p \<and> kp = key_peer_of p)"
      unfolding lookup by (auto split: option.splits)
    also have "\<dots> \<longleftrightarrow> (\<exists>p \<in> set ?shown. (pe_user p = u \<and> ?good p) \<and> kp = key_peer_of p)"
      by (rule find_unique) (use uniq in blast)
    also have "\<dots> \<longleftrightarrow> (\<exists>p. trustworthy E room peers k p \<and> u = pe_user p \<and> kp = key_peer_of p)"
      using unwrap0 by (auto simp: trustworthy_def)
    finally show ?thesis .
  qed
  show "cache_ok (ke_crypto E) k'" using each by blast
  have eq: "k' = k0\<lparr> km_checked := km_checked k' \<rparr>" using each by blast
  have unwrap: "km_unwrappable k' = km_unwrappable k0" by (subst eq) simp
  show "fmlookup (km_unwrappable k') u = (if u \<in> pe_user ` set peers then fmlookup (km_unwrappable k) u else None)"
    unfolding unwrap by (simp add: k0_def split: option.splits)
  have "k0\<lparr> km_checked := c \<rparr> = k\<lparr> km_checked := c, km_unwrappable := km_unwrappable k0 \<rparr>" for c by (simp add: k0_def)
  then show "k' = k\<lparr> km_checked := km_checked k', km_unwrappable := km_unwrappable k' \<rparr>"
    using eq unwrap by metis
  show "notices = map (\<lambda>p. BadEncryptionKey (pe_user p))
      (filter (\<lambda>p. pe_user p \<noteq> km_me k \<and> fmlookup (km_present k) (pe_user p) = Some room \<and> \<not> valid_peer E k p) peers)"
    using each by (simp add: conj_ac)
qed

end
