(* ===== verification/Keys_Wrap.thy ===== *)
theory Keys_Wrap
  imports Keys_Trust
begin

text \<open>
  Wrapping a secret: a new secret goes to every trusted peer whose key HPKE accepts and the others are
  left out; a secret that all of them already have goes to nobody again.
\<close>

definition wrap_to :: "key_env \<Rightarrow> room_id \<Rightarrow> bytes \<Rightarrow> key_manager \<Rightarrow> user_id \<Rightarrow> key_peer \<Rightarrow> hpke_error + bytes" where
  "wrap_to E room secret k user p =
     wrap (ke_crypto E) (ke_seed E (km_epoch k) user) (km_encryption k) (kp_encryption_key p)
       (key_context k room (km_epoch k) (km_me k) user) secret"

definition accepted :: "key_env \<Rightarrow> room_id \<Rightarrow> bytes \<Rightarrow> key_manager \<Rightarrow> user_id \<Rightarrow> bool" where
  "accepted E room secret k user \<longleftrightarrow>
     (case fmlookup (km_peers k) user of None \<Rightarrow> False | Some p \<Rightarrow> \<not> isl (wrap_to E room secret k user p))"

lemma peers_list_iff: "(u, p) \<in> set (peers_list k) \<longleftrightarrow> fmlookup (km_peers k) u = Some p"
  by (auto simp: peers_list_def fmlookup_dom'_iff)

lemma peers_list_fst [simp]: "map fst (peers_list k) = fmkeys (km_peers k)"
  by (simp add: peers_list_def comp_def)

lemma fst_peers_list: "fst ` set (peers_list k) = fmdom' (km_peers k)"
  by (metis list.set_map peers_list_fst set_fmkeys)

lemma peer_keys_iff: "(u, key) |\<in>| peer_keys k \<longleftrightarrow> (\<exists>p. fmlookup (km_peers k) u = Some p \<and> kp_encryption_key p = key)"
proof -
  have "(u, key) |\<in>| peer_keys k \<longleftrightarrow> (\<exists>(v, p) \<in> set (peers_list k). v = u \<and> kp_encryption_key p = key)"
    by (auto simp: peer_keys_def fset_of_list_elem)
  then show ?thesis using peers_list_iff by fastforce
qed

lemma peer_keys_empty: "peer_keys k = {||} \<longleftrightarrow> km_peers k = fmempty"
proof
  assume empty: "peer_keys k = {||}"
  have "fmlookup (km_peers k) u = None" for u
    using peer_keys_iff [of u _ k] by (cases "fmlookup (km_peers k) u") (auto simp: empty)
  then show "km_peers k = fmempty" by (intro fmap_ext) simp
qed (simp add: peer_keys_def peers_list_def)

lemma peer_keys_cong: "km_peers k = km_peers k' \<Longrightarrow> peer_keys k = peer_keys k'"
  by (simp add: peer_keys_def peers_list_def)

lemma fmkeys_filter: "fmkeys (fmfilter P m) = filter P (fmkeys m)"
  by (rule sorted_distinct_set_unique) (auto simp: sorted_wrt_filter sorted_filter [of "\<lambda>x. x", simplified] fmlookup_dom'_iff)

lemma fmkeys_Nil [simp]: "fmkeys m = [] \<longleftrightarrow> m = fmempty"
proof
  assume "fmkeys m = []"
  then have "fmdom' m = {}" using set_fmkeys [of m] by simp
  then have "fmlookup m x = None" for x by (auto simp: fmdom'_notD)
  then show "m = fmempty" by (intro fmap_ext) simp
qed simp

lemma wrap_each_result:
  "wrap_each E room secret k ps =
     (List.map_filter (\<lambda>(u, p). case wrap_to E room secret k u p of Inr b \<Rightarrow> Some (u, b) | Inl _ \<Rightarrow> None)
        (filter (\<lambda>(u, p). (u, kp_encryption_key p) |\<notin>| km_wrapped_to k) ps),
      List.map_filter (\<lambda>(u, p). case wrap_to E room secret k u p of Inr b \<Rightarrow> None | Inl _ \<Rightarrow> Some (u, kp_encryption_key p))
        (filter (\<lambda>(u, p). (u, kp_encryption_key p) |\<notin>| km_wrapped_to k) ps))"
  by (induction ps) (auto simp: wrap_to_def List.map_filter_simps split: sum.splits)

lemma leave_out_fold:
  "fold leave_out rs k = k\<lparr> km_unwrappable := fold (\<lambda>r. fmupd (fst r) (snd r)) rs (km_unwrappable k),
     km_peers := fmfilter (\<lambda>u. u \<notin> fst ` set rs) (km_peers k),
     km_owners := fmretain (\<lambda>_ u. u \<notin> fst ` set rs) (km_owners k) \<rparr>"
proof (induction rs arbitrary: k)
  case Nil
  have "fmfilter (\<lambda>u. True) m = m" "fmretain (\<lambda>_ _. True) m' = m'" for m :: "(user_id, key_peer) fmap" and m' :: "(media_id, user_id) fmap"
    by (auto intro!: fmap_ext split: option.splits)
  then show ?case by simp
next
  case (Cons r rs)
  have "fmfilter (\<lambda>u. u \<notin> fst ` set rs) (fmdrop (fst r) m) = fmfilter (\<lambda>u. u \<notin> fst ` set (r # rs)) m" for m :: "(user_id, key_peer) fmap"
    by (auto intro!: fmap_ext)
  moreover have "fmretain (\<lambda>_ u. u \<notin> fst ` set rs) (fmretain (\<lambda>_ u. u \<noteq> fst r) m) = fmretain (\<lambda>_ u. u \<notin> fst ` set (r # rs)) m"
    for m :: "(media_id, user_id) fmap"
    by (auto intro!: fmap_ext split: option.splits)
  ultimately show ?case by (simp add: Cons.IH leave_out_def [of r] cong del: fmfilter_cong)
qed

lemma map_filter_conv_map: "List.map_filter f xs = map (the \<circ> f) (filter (\<lambda>x. f x \<noteq> None) xs)"
  by (induction xs) (auto simp: List.map_filter_simps split: option.splits)

text \<open>A secret that was just drawn.\<close>

lemma wrap_fresh:
  assumes fresh: "km_wrapped_to k = {||}" "km_my_secret k = Some secret"
    and result: "wrap_for_new_peers E room k = ((request, unwrappable), k')"
  shows "\<exists>m. k' = k\<lparr> km_unwrappable := m, km_peers := fmfilter (accepted E room secret k) (km_peers k),
      km_owners := fmretain (\<lambda>_ u. u \<in> fmdom' (km_peers k) \<longrightarrow> accepted E room secret k u) (km_owners k),
      km_wrapped_to := peer_keys k' \<rparr>" (is ?state)
    and "request = (if km_peers k' = fmempty then None
      else Some (PublishSenderKey (km_epoch k) (map (\<lambda>u. (u, projr (wrap_to E room secret k u (the (fmlookup (km_peers k) u))))) (fmkeys (km_peers k')))))"
      (is ?request)
proof -
  let ?ok = "accepted E room secret k"
  let ?wrapped = "map (\<lambda>u. (u, projr (wrap_to E room secret k u (the (fmlookup (km_peers k) u))))) (filter ?ok (fmkeys (km_peers k)))"
  let ?refused = "map (\<lambda>u. (u, kp_encryption_key (the (fmlookup (km_peers k) u)))) (filter (\<lambda>u. \<not> ?ok u) (fmkeys (km_peers k)))"
  have known: "?ok u \<longleftrightarrow> (\<forall>e. wrap_to E room secret k u (the (fmlookup (km_peers k) u)) \<noteq> Inl e)" if "u \<in> set (fmkeys (km_peers k))" for u
    using that by (auto simp: accepted_def isl_def fmlookup_dom'_iff)
  have each: "wrap_each E room secret k (peers_list k) = (?wrapped, ?refused)"
  proof -
    have "List.map_filter (\<lambda>(u, p). case wrap_to E room secret k u p of Inr b \<Rightarrow> Some (u, b) | Inl _ \<Rightarrow> None) (peers_list k) = ?wrapped"
      using known
      by (auto simp: map_filter_conv_map peers_list_def filter_map comp_def simp del: set_fmkeys intro!: map_cong filter_cong split: sum.splits option.splits)
    moreover have "List.map_filter (\<lambda>(u, p). case wrap_to E room secret k u p of Inr b \<Rightarrow> None | Inl _ \<Rightarrow> Some (u, kp_encryption_key p)) (peers_list k) = ?refused"
      using known
      by (auto simp: map_filter_conv_map peers_list_def filter_map comp_def simp del: set_fmkeys intro!: map_cong filter_cong split: sum.splits option.splits)
        (metis sum.exhaust)
    ultimately show ?thesis by (simp add: wrap_each_result fresh(1) case_prod_unfold)
  qed
  have refused: "u \<in> fst ` set ?refused \<longleftrightarrow> u \<in> fmdom' (km_peers k) \<and> \<not> ?ok u" for u
    by (force simp: image_iff)
  let ?peers = "fmfilter ?ok (km_peers k)"
  define k1 where "k1 = fold leave_out ?refused k"
  have peers: "km_peers k1 = ?peers"
    unfolding k1_def leave_out_fold by (rule fmap_ext) (simp only: key_manager.simps fmlookup_filter refused, auto simp: fmlookup_dom'_iff)
  have wt: "km_wrapped_to k1 = {||}" and epoch: "km_epoch k1 = km_epoch k"
    unfolding k1_def leave_out_fold by (simp_all add: fresh(1))
  have keys: "fmkeys ?peers = filter ?ok (fmkeys (km_peers k))" by (rule fmkeys_filter)
  have "List.map_filter (\<lambda>(user, _). map_option (\<lambda>p. (user, kp_encryption_key p)) (fmlookup ?peers user)) ?wrapped =
      map (\<lambda>u. (u, kp_encryption_key (the (fmlookup ?peers u)))) (fmkeys ?peers)"
    unfolding keys by (auto simp: map_filter_conv_map filter_map comp_def fmlookup_dom'_iff accepted_def intro!: map_cong filter_cong split: option.splits)
  then have added: "km_wrapped_to k1 |\<union>| fset_of_list (List.map_filter (\<lambda>(user, _). map_option (\<lambda>p. (user, kp_encryption_key p)) (fmlookup (km_peers k1) user)) ?wrapped)
      = peer_keys k1"
    by (simp add: wt peers peer_keys_def peers_list_def comp_def)
  have final: "k' = k1\<lparr> km_wrapped_to := peer_keys k1 \<rparr> \<and> request = (if ?wrapped = [] then None else Some (PublishSenderKey (km_epoch k) ?wrapped))"
    using result unfolding wrap_for_new_peers_def Let_def fresh(2) option.case each prod.case k1_def [symmetric] added
    by (auto simp: epoch)
  have "peer_keys k' = peer_keys k1" by (rule peer_keys_cong) (simp add: final)
  moreover have "fmretain (\<lambda>_ u. u \<notin> fst ` set ?refused) (km_owners k) =
      fmretain (\<lambda>_ u. u \<in> fmdom' (km_peers k) \<longrightarrow> ?ok u) (km_owners k)"
    unfolding refused by (rule fmap_ext) (simp split: option.splits)
  ultimately show ?state
    using conjunct1 [OF final] peers unfolding k1_def leave_out_fold by (auto cong del: fmfilter_cong)
  have "?wrapped = [] \<longleftrightarrow> fmkeys ?peers = []" using keys by simp
  also have "\<dots> \<longleftrightarrow> ?peers = fmempty" by (rule fmkeys_Nil)
  finally show ?request using final keys by (simp add: peers)
qed

text \<open>A secret that every trusted peer already has.\<close>

lemma wrap_settled:
  assumes "km_my_secret k \<noteq> None" "km_wrapped_to k = peer_keys k"
  shows "wrap_for_new_peers E room k = ((None, []), k)"
proof -
  have "filter (\<lambda>(u, p). (u, kp_encryption_key p) |\<notin>| km_wrapped_to k) (peers_list k) = []"
    using assms(2) by (auto simp: filter_empty_conv peer_keys_iff peers_list_iff)
  then show ?thesis using assms(1)
    by (auto simp: wrap_for_new_peers_def wrap_each_result List.map_filter_simps)
qed

end
