(* ===== verification/Keys_Inv.thy ===== *)
theory Keys_Inv
  imports Keys_Wrap
begin

text \<open>
  The invariant of a key manager, kept by every method whatever the server sends: who is trusted was
  vouched for, tracks belong to trusted peers, the secret is shared with exactly the trusted
  peers, received secrets came sealed from a vouched key, and the cache of receive keys agrees
  with them.
\<close>

subsection \<open>The invariant\<close>

definition peers_ok :: "crypto \<Rightarrow> key_manager \<Rightarrow> bool" where
  "peers_ok C k \<longleftrightarrow> (\<forall>u p. fmlookup (km_peers k) u = Some p \<longrightarrow> u \<noteq> km_me k \<and>
     (\<exists>sk. vouched C (km_server k) u (kp_identity_key p) sk \<and> ek_key sk = kp_encryption_key p))"

definition owners_ok :: "key_manager \<Rightarrow> bool" where
  "owners_ok k \<longleftrightarrow> (\<forall>m u. fmlookup (km_owners k) m = Some u \<longleftrightarrow>
     (\<exists>p. fmlookup (km_peers k) u = Some p \<and> m \<in> set (track_ids (kp_tracks p))))"

text \<open>
  \<open>spoke C k u e secret identity_key\<close>: the secret came out of a blob sealed to us, for this server, our
  room, this epoch and from this user, by the holder of an encryption key that the identity vouches for.
\<close>

definition spoke :: "crypto \<Rightarrow> key_manager \<Rightarrow> user_id \<Rightarrow> epoch \<Rightarrow> bytes \<Rightarrow> public_key \<Rightarrow> bool" where
  "spoke C k u e secret identity_key \<longleftrightarrow> (\<exists>room pair sk wrapped. km_room k = Some room \<and>
     vouched C (km_server k) u identity_key sk \<and>
     unwrap C pair (ek_key sk) (key_context k room e u (km_me k)) wrapped = Inr secret)"

definition received_ok :: "crypto \<Rightarrow> key_manager \<Rightarrow> bool" where
  "received_ok C k \<longleftrightarrow> (\<forall>u e r. fmlookup (km_received k) (u, e) = Some r \<longrightarrow>
     e \<le> km_epoch k \<and> (\<forall>lowest. km_floor k = Some lowest \<longrightarrow> lowest < e) \<and> (e < km_epoch k \<longrightarrow> rc_retire_at r \<noteq> None) \<and>
     (\<exists>identity_key. spoke C k u e (rc_secret r) identity_key))"

definition recv_ok :: "crypto \<Rightarrow> key_manager \<Rightarrow> bool" where
  "recv_ok C k \<longleftrightarrow> (\<forall>m e u key. fmlookup (km_recv_keys k) (m, e) = Some (u, key) \<longrightarrow>
     (\<exists>r. fmlookup (km_received k) (u, e) = Some r \<and> key = derive C (rc_secret r) m))"

definition floor_ok :: "key_manager \<Rightarrow> bool" where
  "floor_ok k \<longleftrightarrow> (km_room k = None \<longrightarrow> km_epoch k = 0 \<and> km_peers k = fmempty \<and> km_my_secret k = None) \<and>
     (\<forall>room. km_room k = Some room \<longrightarrow>
       (km_epoch k \<noteq> 0 \<longrightarrow> floor_le (Some (km_epoch k)) (floors_get (km_floors k) (km_me k) room)) \<and>
       floor_le (km_floor k) (floors_get (km_floors k) (km_me k) room))"

definition sizes_ok :: "key_manager \<Rightarrow> bool" where
  "sizes_ok k \<longleftrightarrow> fmsize (km_early k) \<le> MAX_EARLY \<and> fmsize (km_present k) \<le> MAX_SIGNED_IN"

definition base_keys_ok :: "crypto \<Rightarrow> key_manager \<Rightarrow> bool" where
  "base_keys_ok C k \<longleftrightarrow> cache_ok C k \<and> peers_ok C k \<and> owners_ok k \<and> received_ok C k \<and> recv_ok C k \<and> floor_ok k \<and> sizes_ok k"

definition own_key :: "crypto \<Rightarrow> bytes option \<Rightarrow> media_id list \<Rightarrow> media_id \<Rightarrow> track_key option" where
  "own_key C secret ids m = (case secret of Some s \<Rightarrow> if m \<in> set ids then Some (derive C s m) else None | None \<Rightarrow> None)"

definition send_ok :: "crypto \<Rightarrow> key_manager \<Rightarrow> bool" where
  "send_ok C k \<longleftrightarrow> (\<forall>m. fmlookup (km_send_keys k) m = own_key C (km_my_secret k) (my_track_ids k) m)"

definition shared_ok :: "key_manager \<Rightarrow> bool" where
  "shared_ok k \<longleftrightarrow> km_wrapped_to k = (if km_my_secret k = None then {||} else peer_keys k)"

definition keys_ok :: "crypto \<Rightarrow> key_manager \<Rightarrow> bool" where
  "keys_ok C k \<longleftrightarrow> base_keys_ok C k \<and> send_ok C k \<and> shared_ok k"

lemmas keys_ok_defs = keys_ok_def base_keys_ok_def cache_ok_def peers_ok_def owners_ok_def received_ok_def recv_ok_def
  floor_ok_def sizes_ok_def send_ok_def shared_ok_def

text \<open>Secrets that have not begun to expire come from the identity that the peer presents now.\<close>

definition current_ok :: "crypto \<Rightarrow> key_manager \<Rightarrow> bool" where
  "current_ok C k \<longleftrightarrow> (\<forall>u e r. fmlookup (km_received k) (u, e) = Some r \<longrightarrow> rc_retire_at r = None \<longrightarrow>
     (\<exists>p. fmlookup (km_peers k) u = Some p \<and> spoke C k u e (rc_secret r) (kp_identity_key p)))"

lemma spoke_cong: "km_room k' = km_room k \<Longrightarrow> km_server k' = km_server k \<Longrightarrow> km_me k' = km_me k \<Longrightarrow> spoke C k' = spoke C k"
  by (simp add: spoke_def key_context_def fun_eq_iff)

subsection \<open>Receiving\<close>

text \<open>What receiving a secret touches.\<close>

definition quiet_part :: "key_manager \<Rightarrow> key_manager" where
  "quiet_part k = k\<lparr> km_received := fmempty, km_recv_keys := fmempty, km_early := fmempty, km_generation := 0 \<rparr>"

definition receiving_only :: "key_manager \<Rightarrow> key_manager \<Rightarrow> bool" where
  "receiving_only k k' \<longleftrightarrow> quiet_part k' = quiet_part k"

lemma receiving_only_refl [simp]: "receiving_only k k"
  by (simp add: receiving_only_def)

lemma receiving_only_trans: "receiving_only k k' \<Longrightarrow> receiving_only k' k'' \<Longrightarrow> receiving_only k k''"
  by (simp add: receiving_only_def)

lemma receiving_only_same:
  assumes "receiving_only k k'"
  shows "km_me k' = km_me k" "km_server k' = km_server k" "km_room k' = km_room k" "km_epoch k' = km_epoch k"
    "km_peers k' = km_peers k" "km_owners k' = km_owners k" "km_floor k' = km_floor k" "km_floors k' = km_floors k"
    "km_my_secret k' = km_my_secret k" "km_wrapped_to k' = km_wrapped_to k" "km_send_keys k' = km_send_keys k"
    "km_my_tracks k' = km_my_tracks k" "km_checked k' = km_checked k" "km_present k' = km_present k"
    "km_room_peers k' = km_room_peers k" "km_encryption k' = km_encryption k" "km_epoch_since k' = km_epoch_since k"
    "km_retired_encryption k' = km_retired_encryption k" "km_stashed k' = km_stashed k" "km_unwrappable k' = km_unwrappable k"
  using assms by (cases k; cases k'; simp add: receiving_only_def quiet_part_def)+

lemma retire_lookup:
  "fmlookup (km_received (retire_received now which k)) (u, e) =
     map_option (\<lambda>r. if which u e \<and> rc_retire_at r = None then r\<lparr> rc_retire_at := Some (now + OLD_KEY_GRACE) \<rparr> else r)
       (fmlookup (km_received k) (u, e))"
  by (cases "fmlookup (km_received k) (u, e)") (simp_all add: retire_received_def)

lemma retire_cases:
  assumes "fmlookup (km_received (retire_received now which k)) (u, e) = Some r"
  obtains r0 where "fmlookup (km_received k) (u, e) = Some r0" "rc_secret r = rc_secret r0"
    "rc_retire_at r = (if which u e \<and> rc_retire_at r0 = None then Some (now + OLD_KEY_GRACE) else rc_retire_at r0)"
  using assms by (cases "fmlookup (km_received k) (u, e)") (auto simp: retire_lookup split: if_splits)

lemma below_floorD: "\<not> below_floor k e \<Longrightarrow> km_floor k = Some lowest \<Longrightarrow> lowest < e"
  by (simp add: below_floor_def not_le)

text \<open>A secret is accepted only from a trusted peer, for an epoch that is neither stale nor ahead.\<close>

lemma sender_key_at_cases:
  assumes "sender_key_at C from e wrapped arrived now k = (res, k')"
  obtains (kept_out) "k' = k"
  | (early) "k' = k\<lparr> km_early := fmupd (from, e) (arrived, wrapped) (km_early k) \<rparr>" "res = Inr ()" "\<not> below_floor k e"
      "fmsize (km_early k) < MAX_EARLY \<or> fmlookup (km_early k) (from, e) \<noteq> None"
  | (accepted) room p pair secret where "km_room k = Some room" "fmlookup (km_peers k) from = Some p" "e \<le> km_epoch k" "\<not> below_floor k e" "res = Inr ()"
      "pair = km_encryption k \<or> (\<exists>until. km_retired_encryption k = Some (pair, until))"
      "unwrap C pair (kp_encryption_key p) (key_context k room e from (km_me k)) wrapped = Inr secret"
      "k' = (retire_received now (\<lambda>user old. user = from \<and> old < e) k)\<lparr>
         km_received := fmupd (from, e) \<lparr> rc_secret = secret,
             rc_retire_at = (if e < km_epoch k then Some (km_epoch_since k + OLD_KEY_GRACE) else None) \<rparr>
           (km_received (retire_received now (\<lambda>user old. user = from \<and> old < e) k)),
         km_recv_keys := fmretain (\<lambda>(_, e') (owner, _). \<not> (owner = from \<and> e' = e)) (km_recv_keys k),
         km_generation := km_generation k + 1 \<rparr>"
proof -
  have cut: thesis if "k' = k" using kept_out that .
  show thesis
  proof (cases "below_floor k e")
    case True
    then show ?thesis using assms cut by (simp add: sender_key_at_def)
  next
    case False
    have waits: thesis if "(Inr (), if fmsize (km_early k) < MAX_EARLY \<or> fmlookup (km_early k) (from, e) \<noteq> None
        then k\<lparr> km_early := fmupd (from, e) (arrived, wrapped) (km_early k) \<rparr> else k) = (res, k')"
    proof (cases "fmsize (km_early k) < MAX_EARLY \<or> fmlookup (km_early k) (from, e) \<noteq> None")
      case True
      show ?thesis by (rule early) (use that True False in simp_all)
    next
      case False
      show ?thesis by (rule cut) (use that False in simp)
    qed
    show ?thesis
    proof (cases "\<exists>room p. km_room k = Some room \<and> fmlookup (km_peers k) from = Some p \<and> e \<le> km_epoch k")
      case False
      then consider "km_room k = None" | room where "km_room k = Some room" "fmlookup (km_peers k) from = None"
        | room p where "km_room k = Some room" "fmlookup (km_peers k) from = Some p" "\<not> e \<le> km_epoch k"
        by (metis option.exhaust)
      then show ?thesis
      proof cases
        case 1
        then show ?thesis using assms \<open>\<not> below_floor k e\<close> by (intro waits) (simp add: sender_key_at_def)
      next
        case 2
        then show ?thesis using assms \<open>\<not> below_floor k e\<close> by (intro waits) (simp add: sender_key_at_def)
      next
        case 3
        then show ?thesis using assms \<open>\<not> below_floor k e\<close> by (intro waits) (simp add: sender_key_at_def)
      qed
    next
      case True
      then obtain room p where at: "km_room k = Some room" "fmlookup (km_peers k) from = Some p" "e \<le> km_epoch k" by blast
      let ?ctx = "key_context k room e from (km_me k)" and ?key = "kp_encryption_key p"
      let ?opened = "case unwrap C (km_encryption k) ?key ?ctx wrapped of Inr secret \<Rightarrow> Inr secret
          | Inl e \<Rightarrow> (case km_retired_encryption k of Some (retired, _) \<Rightarrow> unwrap C retired ?key ?ctx wrapped | None \<Rightarrow> Inl e)"
      let ?stale = "e < km_epoch k \<and> now \<ge> km_epoch_since k + OLD_KEY_GRACE"
      have run: "(if ?stale then (Inl Stale, k) else case ?opened of Inl e \<Rightarrow> (Inl (Unwrap e), k) | Inr secret \<Rightarrow> (Inr (), (retire_received now (\<lambda>user old. user = from \<and> old < e) k)\<lparr>
         km_received := fmupd (from, e) \<lparr> rc_secret = secret,
             rc_retire_at = (if e < km_epoch k then Some (km_epoch_since k + OLD_KEY_GRACE) else None) \<rparr>
           (km_received (retire_received now (\<lambda>user old. user = from \<and> old < e) k)),
         km_recv_keys := fmretain (\<lambda>(_, e') (owner, _). \<not> (owner = from \<and> e' = e)) (km_recv_keys k),
         km_generation := km_generation k + 1 \<rparr>)) = (res, k')"
        using assms \<open>\<not> below_floor k e\<close> at(3) unfolding sender_key_at_def Let_def at(1,2) option.case retire_received_def
        by (simp cong: if_cong sum.case_cong)
      show ?thesis
      proof (cases "?stale \<or> (\<exists>e. ?opened = Inl e)")
        case True
        then show ?thesis
        proof (elim disjE exE)
          assume ?stale
          show ?thesis by (rule cut) (use run in \<open>simp only: \<open>?stale\<close> if_True simp_thms prod.inject\<close>)
        next
          fix e'
          assume failed: "?opened = Inl e'"
          show ?thesis by (rule cut) (use run in \<open>simp only: failed sum.case prod.inject split: if_splits\<close>)
        qed
      next
        case False
        from False sum.exhaust [of ?opened] obtain secret where opened: "?opened = Inr secret" by blast
        then obtain pair where pair: "pair = km_encryption k \<or> (\<exists>until. km_retired_encryption k = Some (pair, until))"
          "unwrap C pair ?key ?ctx wrapped = Inr secret"
          by (cases "unwrap C (km_encryption k) ?key ?ctx wrapped"; cases "km_retired_encryption k") auto
        show ?thesis
          by (rule accepted [OF at \<open>\<not> below_floor k e\<close> _ pair]) (use run False in \<open>simp_all only: opened sum.case if_False prod.inject de_Morgan_disj\<close>)
      qed
    qed
  qed
qed

lemma retire_same [simp]:
  "km_room (retire_received now w k) = km_room k" "km_server (retire_received now w k) = km_server k" "km_me (retire_received now w k) = km_me k"
  "km_recv_keys (retire_received now w k) = km_recv_keys k" "km_early (retire_received now w k) = km_early k"
  "km_generation (retire_received now w k) = km_generation k" "km_epoch (retire_received now w k) = km_epoch k"
  "km_floor (retire_received now w k) = km_floor k" "km_peers (retire_received now w k) = km_peers k" "km_owners (retire_received now w k) = km_owners k"
  "km_floors (retire_received now w k) = km_floors k" "km_my_secret (retire_received now w k) = km_my_secret k"
  "km_present (retire_received now w k) = km_present k" "km_checked (retire_received now w k) = km_checked k"
  "km_wrapped_to (retire_received now w k) = km_wrapped_to k" "km_send_keys (retire_received now w k) = km_send_keys k"
  "km_my_tracks (retire_received now w k) = km_my_tracks k" "km_room_peers (retire_received now w k) = km_room_peers k"
  "km_unwrappable (retire_received now w k) = km_unwrappable k" "km_encryption (retire_received now w k) = km_encryption k"
  "km_epoch_since (retire_received now w k) = km_epoch_since k" "km_retired_encryption (retire_received now w k) = km_retired_encryption k"
  "km_stashed (retire_received now w k) = km_stashed k"
  by (simp_all add: retire_received_def)

lemma sender_key_at_only:
  assumes "sender_key_at C from e wrapped arrived now k = (res, k')"
  shows "receiving_only k k'"
  using assms
proof (cases rule: sender_key_at_cases)
  case (accepted room p pair secret)
  then show ?thesis by (simp add: receiving_only_def quiet_part_def retire_received_def)
qed (simp_all add: receiving_only_def quiet_part_def)

lemma spoke_now:
  assumes "peers_ok C k" "km_room k = Some room" "fmlookup (km_peers k) from = Some p"
    "unwrap C pair (kp_encryption_key p) (key_context k room e from (km_me k)) wrapped = Inr secret"
  shows "spoke C k from e secret (kp_identity_key p)"
  using assms unfolding peers_ok_def spoke_def by metis

lemma sender_key_at_received:
  assumes "sender_key_at C from e wrapped arrived now k = (res, k')" "peers_ok C k"
    and "fmlookup (km_received k') (u, e') = Some r"
  obtains (old) r0 where "fmlookup (km_received k) (u, e') = Some r0" "rc_secret r = rc_secret r0" "rc_retire_at r = None \<Longrightarrow> rc_retire_at r0 = None"
      "rc_retire_at r0 \<noteq> None \<Longrightarrow> rc_retire_at r \<noteq> None"
  | (new) p where "u = from" "e' = e" "e \<le> km_epoch k" "\<not> below_floor k e" "fmlookup (km_peers k) u = Some p"
      "spoke C k u e' (rc_secret r) (kp_identity_key p)" "e < km_epoch k \<Longrightarrow> rc_retire_at r \<noteq> None"
  using assms(1)
proof (cases rule: sender_key_at_cases)
  case kept_out
  then show ?thesis by (intro old [of r]) (use assms(3) in simp_all)
next
  case early
  show ?thesis by (rule old [of r]) (use assms(3) in \<open>simp_all add: early(1)\<close>)
next
  case (accepted room p pair secret)
  show ?thesis
  proof (cases "u = from \<and> e' = e")
    case True
    then have "r = \<lparr> rc_secret = secret, rc_retire_at = (if e < km_epoch k then Some (km_epoch_since k + OLD_KEY_GRACE) else None) \<rparr>"
      using assms(3) unfolding accepted(8) by simp
    then show ?thesis by (intro new [of p]) (use True accepted(2,3,4) spoke_now [OF assms(2) accepted(1,2,7)] in simp_all)
  next
    case False
    then have "fmlookup (km_received (retire_received now (\<lambda>user old. user = from \<and> old < e) k)) (u, e') = Some r"
      using assms(3) unfolding accepted(8) by auto
    then show ?thesis
    proof (rule retire_cases)
      fix r0
      assume "fmlookup (km_received k) (u, e') = Some r0" "rc_secret r = rc_secret r0"
        "rc_retire_at r = (if (u = from \<and> e' < e) \<and> rc_retire_at r0 = None then Some (now + OLD_KEY_GRACE) else rc_retire_at r0)"
      then show ?thesis by (intro old [of r0]) (simp_all split: if_splits)
    qed
  qed
qed

lemma sender_key_at_recv:
  assumes "sender_key_at C from e wrapped arrived now k = (res, k')" "recv_ok C k"
  shows "recv_ok C k'"
  using assms(1)
proof (cases rule: sender_key_at_cases)
  case (accepted room p pair secret)
  show ?thesis unfolding recv_ok_def
  proof (intro allI impI)
    fix m e' u key
    assume "fmlookup (km_recv_keys k') (m, e') = Some (u, key)"
    then have kept: "fmlookup (km_recv_keys k) (m, e') = Some (u, key)" "(from, e) \<noteq> (u, e')"
      unfolding accepted(8) by (auto split: option.splits if_splits)
    then obtain r where "fmlookup (km_received k) (u, e') = Some r" "key = derive C (rc_secret r) m"
      using assms(2) unfolding recv_ok_def by blast
    then show "\<exists>r. fmlookup (km_received k') (u, e') = Some r \<and> key = derive C (rc_secret r) m"
      using kept(2) unfolding accepted(8) by (auto simp: retire_lookup)
  qed
qed (use assms(2) in \<open>simp_all add: recv_ok_def\<close>)

lemma sender_key_at_base:
  assumes run: "sender_key_at C from e wrapped arrived now k = (res, k')" and ok: "base_keys_ok C k"
  shows "base_keys_ok C k'"
proof -
  note only = sender_key_at_only [OF run]
  note same = receiving_only_same [OF only]
  have peers: "peers_ok C k" and recv: "recv_ok C k" and received: "received_ok C k" using ok by (simp_all add: base_keys_ok_def)
  have spoke: "spoke C k' = spoke C k" by (rule spoke_cong) (simp_all add: same)
  have "received_ok C k'" unfolding received_ok_def spoke same
  proof (intro allI impI)
    fix u e' r
    assume r: "fmlookup (km_received k') (u, e') = Some r"
    show "e' \<le> km_epoch k \<and> (\<forall>lowest. km_floor k = Some lowest \<longrightarrow> lowest < e') \<and> (e' < km_epoch k \<longrightarrow> rc_retire_at r \<noteq> None) \<and>
        (\<exists>identity_key. spoke C k u e' (rc_secret r) identity_key)"
    proof (rule sender_key_at_received [OF run peers r])
      fix r0
      assume "fmlookup (km_received k) (u, e') = Some r0" "rc_secret r = rc_secret r0" "rc_retire_at r0 \<noteq> None \<Longrightarrow> rc_retire_at r \<noteq> None"
      then show ?thesis using received unfolding received_ok_def by metis
    next
      fix p
      assume "e' = e" "e \<le> km_epoch k" "\<not> below_floor k e" "spoke C k u e' (rc_secret r) (kp_identity_key p)" "e < km_epoch k \<Longrightarrow> rc_retire_at r \<noteq> None"
      then show ?thesis using below_floorD [of k e] by blast
    qed
  qed
  moreover have "fmsize (km_early k') \<le> MAX_EARLY"
    using run ok by (cases rule: sender_key_at_cases) (auto simp: base_keys_ok_def sizes_ok_def fmsize_upd)
  ultimately show ?thesis
    using ok sender_key_at_recv [OF run recv]
    by (simp add: base_keys_ok_def cache_ok_def peers_ok_def owners_ok_def floor_ok_def sizes_ok_def same)
qed

lemma sender_key_at_current:
  assumes run: "sender_key_at C from e wrapped arrived now k = (res, k')" and ok: "peers_ok C k" "current_ok C k"
  shows "current_ok C k'"
proof -
  note same = receiving_only_same [OF sender_key_at_only [OF run]]
  have spoke: "spoke C k' = spoke C k" by (rule spoke_cong) (simp_all add: same)
  show ?thesis unfolding current_ok_def spoke same
  proof (intro allI impI)
    fix u e' r
    assume r: "fmlookup (km_received k') (u, e') = Some r" "rc_retire_at r = None"
    then show "\<exists>p. fmlookup (km_peers k) u = Some p \<and> spoke C k u e' (rc_secret r) (kp_identity_key p)"
      using sender_key_at_received [OF run ok(1) r(1)] ok(2) unfolding current_ok_def by metis
  qed
qed

subsection \<open>Early keys\<close>

lemma retry_early_ok:
  assumes "base_keys_ok C k"
  shows "base_keys_ok C (retry_early C now es k) \<and> receiving_only k (retry_early C now es k) \<and>
    (current_ok C k \<longrightarrow> current_ok C (retry_early C now es k))"
  using assms
proof (induction C now es k rule: retry_early.induct)
  case (1 C now k)
  then show ?case by simp
next
  case (2 C now u e arrived wrapped es k)
  let ?k = "if duration_since now arrived < OLD_KEY_GRACE then snd (sender_key_at C u e wrapped arrived now k) else k"
  obtain res k1 where run: "sender_key_at C u e wrapped arrived now k = (res, k1)" by fastforce
  have "base_keys_ok C ?k" "receiving_only k ?k" "current_ok C k \<Longrightarrow> current_ok C ?k"
    using sender_key_at_base [OF run "2.prems"] sender_key_at_only [OF run] sender_key_at_current [OF run] "2.prems"
    by (auto simp: run base_keys_ok_def)
  then show ?case using "2.IH" by (simp only: retry_early.simps) (meson receiving_only_trans)
qed

lemma take_early_ok:
  assumes "base_keys_ok (ke_crypto E) k"
  shows "base_keys_ok (ke_crypto E) (take_early E now k)" "receiving_only k (take_early E now k)"
    "current_ok (ke_crypto E) k \<Longrightarrow> current_ok (ke_crypto E) (take_early E now k)"
proof -
  let ?k = "k\<lparr> km_early := fmempty \<rparr>"
  have spoke: "spoke C ?k = spoke C k" for C by (rule spoke_cong) simp_all
  have ok: "base_keys_ok (ke_crypto E) ?k" using assms
    by (simp add: base_keys_ok_def cache_ok_def peers_ok_def owners_ok_def received_ok_def recv_ok_def floor_ok_def sizes_ok_def spoke)
  have current: "current_ok (ke_crypto E) ?k" if "current_ok (ke_crypto E) k" using that by (simp add: current_ok_def spoke)
  have only: "receiving_only k ?k" by (simp add: receiving_only_def quiet_part_def)
  show "base_keys_ok (ke_crypto E) (take_early E now k)" "receiving_only k (take_early E now k)"
    "current_ok (ke_crypto E) k \<Longrightarrow> current_ok (ke_crypto E) (take_early E now k)"
    using retry_early_ok [OF ok] current receiving_only_trans [OF only] by (simp_all add: take_early_def Let_def)
qed

end
