(* ===== verification/Keys_Keep.thy ===== *)
theory Keys_Keep
  imports Keys_Inv
begin

text \<open>
  Applying a room state keeps the invariant of the key manager: each phase of \<open>peers_changed\<close> in turn,
  and what it publishes.
\<close>

subsection \<open>Judging the peers\<close>

lemma map_of_functional:
  assumes "\<And>a b c. (a, b) \<in> set l \<Longrightarrow> (a, c) \<in> set l \<Longrightarrow> b = c"
  shows "map_of l a = Some b \<longleftrightarrow> (a, b) \<in> set l"
proof
  assume "(a, b) \<in> set l"
  then obtain c where "map_of l a = Some c" using weak_map_of_SomeI by fast
  then show "map_of l a = Some b" using assms \<open>(a, b) \<in> set l\<close> map_of_SomeD by metis
qed (rule map_of_SomeD)

lemma distinct_concat_unique:
  "distinct (concat (map f xs)) \<Longrightarrow> x \<in> set xs \<Longrightarrow> y \<in> set xs \<Longrightarrow> m \<in> set (f x) \<Longrightarrow> m \<in> set (f y) \<Longrightarrow> x = y"
  by (induction xs) auto

lemma owners_of_lookup:
  assumes "\<And>u p v q m. (u, p) \<in> set ps \<Longrightarrow> (v, q) \<in> set ps \<Longrightarrow> m \<in> set (track_ids (kp_tracks p)) \<Longrightarrow>
    m \<in> set (track_ids (kp_tracks q)) \<Longrightarrow> u = v"
  shows "fmlookup (owners_of ps) m = Some u \<longleftrightarrow> (\<exists>p. (u, p) \<in> set ps \<and> m \<in> set (track_ids (kp_tracks p)))"
proof -
  let ?l = "rev (concat (map (\<lambda>(user, p). map (\<lambda>m. (m, user)) (track_ids (kp_tracks p))) ps))"
  have in_l: "(m, u) \<in> set ?l \<longleftrightarrow> (\<exists>p. (u, p) \<in> set ps \<and> m \<in> set (track_ids (kp_tracks p)))" for m u by force
  have "map_of ?l m = Some u \<longleftrightarrow> (m, u) \<in> set ?l" by (rule map_of_functional) (unfold in_l, use assms in blast)
  then show ?thesis unfolding in_l by (simp add: owners_of_def fmlookup_of_list)
qed

lemma judge_peers_result:
  assumes ok: "cache_ok (ke_crypto E) k" and judged: "judge_peers E room peers k = ((trusted, notices), k')"
  shows "cache_ok (ke_crypto E) k'"
    and "k' = k\<lparr> km_checked := km_checked k', km_unwrappable := km_unwrappable k' \<rparr>"
    and "fmlookup trusted u = Some kp \<longleftrightarrow> invalid_state peers k = None \<and> (\<exists>p. trustworthy E room peers k p \<and> u = pe_user p \<and> kp = key_peer_of p)"
    and "fmlookup trusted u = Some p1 \<Longrightarrow> fmlookup trusted v = Some p2 \<Longrightarrow> m \<in> set (track_ids (kp_tracks p1)) \<Longrightarrow> m \<in> set (track_ids (kp_tracks p2)) \<Longrightarrow> u = v"
proof -
  show "cache_ok (ke_crypto E) k'" "k' = k\<lparr> km_checked := km_checked k', km_unwrappable := km_unwrappable k' \<rparr>"
    and lookup: "fmlookup trusted u = Some kp \<longleftrightarrow> invalid_state peers k = None \<and> (\<exists>p. trustworthy E room peers k p \<and> u = pe_user p \<and> kp = key_peer_of p)" for u kp
  proof -
    consider (bad) n where "invalid_state peers k = Some n" | (good) "invalid_state peers k = None" by blast
    then have "cache_ok (ke_crypto E) k' \<and> k' = k\<lparr> km_checked := km_checked k', km_unwrappable := km_unwrappable k' \<rparr> \<and>
      (\<forall>u kp. fmlookup trusted u = Some kp \<longleftrightarrow> invalid_state peers k = None \<and> (\<exists>p. trustworthy E room peers k p \<and> u = pe_user p \<and> kp = key_peer_of p))"
    proof cases
      case bad
      then show ?thesis using judged ok by (auto simp: judge_peers_def)
    next
      case good
      then have run: "trusted_peers E room peers k = ((trusted, notices), k')" using judged by (simp add: judge_peers_def)
      have "distinct (map pe_user (filter (\<lambda>p. pe_user p \<noteq> km_me k) peers))"
        using good by (auto simp: invalid_state_def clashing_tracks_def Let_def split: if_splits)
      from trusted_peers_result [OF ok this run] good show ?thesis by simp
    qed
    then show "cache_ok (ke_crypto E) k'" "k' = k\<lparr> km_checked := km_checked k', km_unwrappable := km_unwrappable k' \<rparr>"
      "fmlookup trusted u = Some kp \<longleftrightarrow> invalid_state peers k = None \<and> (\<exists>p. trustworthy E room peers k p \<and> u = pe_user p \<and> kp = key_peer_of p)" for u kp
      by blast+
  qed
  assume two: "fmlookup trusted u = Some p1" "fmlookup trusted v = Some p2" and m: "m \<in> set (track_ids (kp_tracks p1))" "m \<in> set (track_ids (kp_tracks p2))"
  then obtain q1 q2 where q: "trustworthy E room peers k q1" "trustworthy E room peers k q2" "u = pe_user q1" "v = pe_user q2"
      "p1 = key_peer_of q1" "p2 = key_peer_of q2" and valid: "invalid_state peers k = None"
    using lookup by blast
  let ?others = "filter (\<lambda>p. pe_user p \<noteq> km_me k) peers"
  have "distinct (concat (map (\<lambda>p. track_ids (pe_tracks p)) ?others))"
    using valid by (auto simp: invalid_state_def clashing_tracks_def Let_def split: if_splits option.splits)
  then have "q1 = q2" by (rule distinct_concat_unique [where m = m]) (use q m in \<open>simp_all add: trustworthy_def key_peer_of_def\<close>)
  then show "u = v" using q by simp
qed

subsection \<open>The phases\<close>

lemma spoke_update:
  "spoke C (k\<lparr> km_checked := a, km_unwrappable := b \<rparr>) = spoke C k" "spoke C (k\<lparr> km_generation := g \<rparr>) = spoke C k"
  "spoke C (k\<lparr> km_stashed := st \<rparr>) = spoke C k"
  by (rule spoke_cong; simp)+

lemma judged_base:
  assumes "base_keys_ok C k" "cache_ok C k'" "k' = k\<lparr> km_checked := km_checked k', km_unwrappable := km_unwrappable k' \<rparr>"
  shows "base_keys_ok C k'" and "current_ok C k \<Longrightarrow> current_ok C k'"
proof -
  have "base_keys_ok C (k\<lparr> km_checked := c, km_unwrappable := w \<rparr>)" if "cache_ok C (k\<lparr> km_checked := c, km_unwrappable := w \<rparr>)" for c w
    using assms(1) that by (simp add: base_keys_ok_def peers_ok_def owners_ok_def received_ok_def recv_ok_def floor_ok_def sizes_ok_def spoke_update)
  then show "base_keys_ok C k'" using assms(2,3) by metis
  have "current_ok C (k\<lparr> km_checked := c, km_unwrappable := w \<rparr>)" if "current_ok C k" for c w
    using that by (simp add: current_ok_def spoke_update)
  then show "current_ok C k'" if "current_ok C k" using assms(3) that by metis
qed

lemma install_base:
  assumes ok: "base_keys_ok C k" and room: "km_room k \<noteq> None"
    and vouched: "\<And>u p. fmlookup trusted u = Some p \<Longrightarrow> u \<noteq> km_me k \<and>
      (\<exists>sk. vouched C (km_server k) u (kp_identity_key p) sk \<and> ek_key sk = kp_encryption_key p)"
    and tracks: "\<And>u p v q m. fmlookup trusted u = Some p \<Longrightarrow> fmlookup trusted v = Some q \<Longrightarrow> m \<in> set (track_ids (kp_tracks p)) \<Longrightarrow>
      m \<in> set (track_ids (kp_tracks q)) \<Longrightarrow> u = v"
  shows "base_keys_ok C (install_peers peers trusted now k)"
    and "current_ok C k \<Longrightarrow> current_ok C (install_peers peers trusted now k)"
    and "km_peers (install_peers peers trusted now k) = trusted"
proof -
  let ?k = "install_peers peers trusted now k"
  let ?r = "retire_received now (\<lambda>from _. departed trusted k from) k"
  have fields: "km_me ?k = km_me k" "km_server ?k = km_server k" "km_room ?k = km_room k" "km_epoch ?k = km_epoch k"
      "km_floor ?k = km_floor k" "km_floors ?k = km_floors k" "km_checked ?k = km_checked k" "km_present ?k = km_present k"
      "km_recv_keys ?k = km_recv_keys k" "km_early ?k = km_early k" "km_my_secret ?k = km_my_secret k" "km_peers ?k = trusted"
    by (simp_all add: install_peers_def Let_def)
  have received: "km_received ?k = km_received ?r" by (simp add: install_peers_def Let_def retire_received_def departed_def)
  have spoke: "spoke C ?k = spoke C k" by (rule spoke_cong) (simp_all add: fields)
  have owners: "owners_ok ?k"
    unfolding owners_ok_def
  proof (intro allI)
    fix m u
    have "km_owners ?k = owners_of (peers_list ?k)" by (simp add: install_peers_def Let_def peers_list_def)
    then show "fmlookup (km_owners ?k) m = Some u \<longleftrightarrow> (\<exists>p. fmlookup (km_peers ?k) u = Some p \<and> m \<in> set (track_ids (kp_tracks p)))"
      using owners_of_lookup [of "peers_list ?k" m u] tracks by (simp add: peers_list_iff fields(12))
  qed
  have "received_ok C ?k"
    unfolding received_ok_def spoke fields received
  proof (intro allI impI)
    fix u e r
    assume "fmlookup (km_received ?r) (u, e) = Some r"
    then obtain r0 where "fmlookup (km_received k) (u, e) = Some r0" "rc_secret r = rc_secret r0" "rc_retire_at r0 \<noteq> None \<longrightarrow> rc_retire_at r \<noteq> None"
      by (rule retire_cases) (auto split: if_splits)
    then show "e \<le> km_epoch k \<and> (\<forall>lowest. km_floor k = Some lowest \<longrightarrow> lowest < e) \<and> (e < km_epoch k \<longrightarrow> rc_retire_at r \<noteq> None) \<and>
        (\<exists>identity_key. spoke C k u e (rc_secret r) identity_key)"
      using ok unfolding base_keys_ok_def received_ok_def by metis
  qed
  moreover have "recv_ok C ?k"
    using ok unfolding base_keys_ok_def recv_ok_def received fields by (fastforce simp: retire_lookup)
  ultimately show "base_keys_ok C ?k"
    using ok owners vouched room by (auto simp: base_keys_ok_def cache_ok_def peers_ok_def floor_ok_def sizes_ok_def fields)
  show "km_peers ?k = trusted" by (rule fields)
  show "current_ok C ?k" if current: "current_ok C k"
    unfolding current_ok_def spoke fields received
  proof (intro allI impI)
    fix u e r
    assume r: "fmlookup (km_received ?r) (u, e) = Some r" "rc_retire_at r = None"
    then obtain r0 where r0: "fmlookup (km_received k) (u, e) = Some r0" "rc_secret r = rc_secret r0" "rc_retire_at r0 = None" "\<not> departed trusted k u"
      by (elim retire_cases) (auto split: if_splits)
    then obtain p where "fmlookup (km_peers k) u = Some p" "spoke C k u e (rc_secret r) (kp_identity_key p)"
      using current unfolding current_ok_def by fastforce
    then show "\<exists>p. fmlookup trusted u = Some p \<and> spoke C k u e (rc_secret r) (kp_identity_key p)"
      using r0(4) by (auto simp: departed_def split: option.splits)
  qed
qed

text \<open>A new secret, for a new epoch or in the same one.\<close>

lemma start_epoch_fields:
  "km_me (start_epoch E e now k) = km_me k" "km_server (start_epoch E e now k) = km_server k" "km_room (start_epoch E e now k) = km_room k"
  "km_epoch (start_epoch E e now k) = e" "km_floor (start_epoch E e now k) = km_floor k"
  "km_floors (start_epoch E e now k) = (case km_room k of Some room \<Rightarrow> if e \<noteq> km_epoch k then floors_raise (km_me k) room e (km_floors k) else km_floors k
     | None \<Rightarrow> km_floors k)"
  "km_checked (start_epoch E e now k) = km_checked k" "km_present (start_epoch E e now k) = km_present k"
  "km_recv_keys (start_epoch E e now k) = km_recv_keys k" "km_early (start_epoch E e now k) = km_early k"
  "km_peers (start_epoch E e now k) = km_peers k" "km_owners (start_epoch E e now k) = km_owners k"
  "km_my_secret (start_epoch E e now k) = Some (ke_secret E e)" "km_wrapped_to (start_epoch E e now k) = {||}"
  "km_my_tracks (start_epoch E e now k) = km_my_tracks k" "km_room_peers (start_epoch E e now k) = km_room_peers k"
  "km_encryption (start_epoch E e now k) = km_encryption k"
  "km_received (start_epoch E e now k) =
     (if e \<noteq> km_epoch k then km_received (retire_received now (\<lambda>_ old. old < e) k) else km_received k)"
  "fmlookup (km_send_keys (start_epoch E e now k)) m =
     (if m \<in> set (my_track_ids k) then Some (derive (ke_crypto E) (ke_secret E e) m) else None)"
proof -
  have keys: "map_of (rev (map (\<lambda>m. (m, f m)) ids)) m = (if m \<in> set ids then Some (f m) else None)" for f :: "media_id \<Rightarrow> track_key" and ids
    by (simp add: rev_map map_of_map_restrict)
  show "fmlookup (km_send_keys (start_epoch E e now k)) m =
     (if m \<in> set (my_track_ids k) then Some (derive (ke_crypto E) (ke_secret E e) m) else None)"
    by (cases "km_room k"; cases "e = km_epoch k"; simp add: start_epoch_def Let_def fmlookup_of_list keys my_track_ids_def)
qed (cases "km_room k"; cases "e = km_epoch k"; simp add: start_epoch_def Let_def)+

lemma start_epoch_base:
  assumes ok: "base_keys_ok C k" and room: "km_room k \<noteq> None" and later: "km_epoch k \<le> e"
  shows "base_keys_ok C (start_epoch E e now k)"
    and "current_ok C k \<Longrightarrow> current_ok C (start_epoch E e now k)"
proof -
  let ?k = "start_epoch E e now k"
  note fields = start_epoch_fields [of E e now k]
  have spoke: "spoke C ?k = spoke C k" by (rule spoke_cong) (simp_all add: fields)
  have old: "\<exists>r0. fmlookup (km_received k) (u, e') = Some r0 \<and> rc_secret r = rc_secret r0 \<and>
      (rc_retire_at r0 \<noteq> None \<or> (e \<noteq> km_epoch k \<and> e' < e) \<longrightarrow> rc_retire_at r \<noteq> None)"
    if "fmlookup (km_received ?k) (u, e') = Some r" for u e' r
    using that by (cases "fmlookup (km_received k) (u, e')") (auto simp: fields retire_lookup split: if_splits)
  have "received_ok C ?k"
    unfolding received_ok_def spoke fields(4,5)
  proof (intro allI impI)
    fix u e' r
    assume "fmlookup (km_received ?k) (u, e') = Some r"
    from old [OF this] obtain r0 where r0: "fmlookup (km_received k) (u, e') = Some r0" "rc_secret r = rc_secret r0"
      "rc_retire_at r0 \<noteq> None \<or> (e \<noteq> km_epoch k \<and> e' < e) \<longrightarrow> rc_retire_at r \<noteq> None" by blast
    then have "e' \<le> km_epoch k" "\<forall>lowest. km_floor k = Some lowest \<longrightarrow> lowest < e'" "e' < km_epoch k \<longrightarrow> rc_retire_at r0 \<noteq> None"
      "\<exists>identity_key. spoke C k u e' (rc_secret r) identity_key"
      using ok unfolding base_keys_ok_def received_ok_def by auto
    then show "e' \<le> e \<and> (\<forall>lowest. km_floor k = Some lowest \<longrightarrow> lowest < e') \<and> (e' < e \<longrightarrow> rc_retire_at r \<noteq> None) \<and>
        (\<exists>identity_key. spoke C k u e' (rc_secret r) identity_key)"
      using later r0(3) by auto
  qed
  moreover have "recv_ok C ?k"
    using ok unfolding base_keys_ok_def recv_ok_def fields(9,18) by (fastforce simp: retire_lookup)
  moreover have "floor_ok ?k"
    using ok room later unfolding base_keys_ok_def floor_ok_def fields
    by (auto simp: floors_raise_get intro: floor_le_trans split: option.splits)
  ultimately show "base_keys_ok C ?k"
    using ok by (simp add: base_keys_ok_def cache_ok_def peers_ok_def owners_ok_def sizes_ok_def fields)
  show "current_ok C ?k" if current: "current_ok C k"
    unfolding current_ok_def spoke fields(11)
  proof (intro allI impI)
    fix u e' r
    assume r: "fmlookup (km_received ?k) (u, e') = Some r" "rc_retire_at r = None"
    from old [OF r(1)] r(2) obtain r0 where "fmlookup (km_received k) (u, e') = Some r0" "rc_secret r = rc_secret r0" "rc_retire_at r0 = None" by auto
    then show "\<exists>p. fmlookup (km_peers k) u = Some p \<and> spoke C k u e' (rc_secret r) (kp_identity_key p)"
      using current by (auto simp: current_ok_def)
  qed
qed

text \<open>Leaving out peers whose key is refused.\<close>

lemma wrap_base:
  assumes ok: "base_keys_ok C k"
    and k': "k' = k\<lparr> km_unwrappable := m, km_peers := fmfilter ok (km_peers k),
      km_owners := fmretain (\<lambda>_ u. u \<in> fmdom' (km_peers k) \<longrightarrow> ok u) (km_owners k), km_wrapped_to := w \<rparr>"
  shows "base_keys_ok C k'"
    and "\<forall>u \<in> fmdom' (km_peers k). ok u \<Longrightarrow> current_ok C k \<Longrightarrow> current_ok C k'"
proof -
  have spoke: "spoke C k' = spoke C k" by (rule spoke_cong) (simp_all add: k')
  have "fmlookup (km_owners k') m = Some u \<longleftrightarrow> fmlookup (km_owners k) m = Some u \<and> (u \<in> fmdom' (km_peers k) \<longrightarrow> ok u)" for m u
    by (auto simp: k' split: option.splits)
  moreover have "fmlookup (km_peers k') u = Some p \<longleftrightarrow> fmlookup (km_peers k) u = Some p \<and> ok u" for u p by (simp add: k')
  ultimately have "owners_ok k'" using ok unfolding base_keys_ok_def owners_ok_def by (auto simp: fmlookup_dom'_iff)
  moreover have "fmfilter ok fmempty = fmempty" by (rule fmap_ext) simp
  ultimately show "base_keys_ok C k'"
    using ok by (simp add: base_keys_ok_def cache_ok_def peers_ok_def received_ok_def recv_ok_def floor_ok_def sizes_ok_def spoke)
      (auto simp: k' received_ok_def recv_ok_def intro!: fmap_ext)
  show "current_ok C k'" if "\<forall>u \<in> fmdom' (km_peers k). ok u" "current_ok C k"
    using that unfolding current_ok_def spoke by (fastforce simp: k' fmlookup_dom'_iff)
qed

end
