(* ===== verification/Keys_Steps.thy ===== *)
theory Keys_Steps
  imports Keys_Keep
begin

text \<open>
  Every method of the key manager keeps its invariant, and what each application of a room state
  publishes.
\<close>

subsection \<open>Applying a room state\<close>

definition published :: "key_env \<Rightarrow> room_id \<Rightarrow> key_manager \<Rightarrow> key_manager \<Rightarrow> request option \<Rightarrow> bool" where
  "published E room k k' request \<longleftrightarrow>
     (case request of
        None \<Rightarrow> km_peers k' = fmempty \<and> km_my_secret k' = Some (ke_secret E (km_epoch k')) \<or>
          km_my_secret k' = km_my_secret k \<and> km_my_secret k \<noteq> None \<and> km_epoch k' = km_epoch k \<and> km_wrapped_to k' = km_wrapped_to k
      | Some r \<Rightarrow> km_my_secret k' = Some (ke_secret E (km_epoch k')) \<and>
          (\<exists>wrapped. r = PublishSenderKey (km_epoch k') wrapped \<and> wrapped \<noteq> [] \<and> map fst wrapped = fmkeys (km_peers k') \<and>
             (\<forall>(u, blob) \<in> set wrapped. \<exists>p. fmlookup (km_peers k') u = Some p \<and>
                wrap_to E room (ke_secret E (km_epoch k')) k' u p = Inr blob)))"

definition sane_keys :: "crypto \<Rightarrow> bool" where
  "sane_keys C \<longleftrightarrow> (\<forall>server user identity_key sk seed pair info secret. vouched C server user identity_key sk \<longrightarrow>
     \<not> isl (wrap C seed pair (ek_key sk) info secret))"

text \<open>The part of the state that applying a room state leaves alone.\<close>

definition settings :: "key_manager \<Rightarrow> user_id \<times> fingerprint \<times> room_id option \<times> (user_id, room_id) fmap \<times> epoch option \<times> tracks option \<times> key_pair" where
  "settings k = (km_me k, km_server k, km_room k, km_present k, km_floor k, km_my_tracks k, km_encryption k)"

lemma wrap_to_cong:
  assumes "settings k' = settings k" "km_epoch k' = km_epoch k"
  shows "wrap_to E room s k' u p = wrap_to E room s k u p"
  using assms by (simp add: wrap_to_def key_context_def settings_def)

lemma wrap_phase:
  assumes base: "base_keys_ok (ke_crypto E) k" and send: "send_ok (ke_crypto E) k" and secret: "km_my_secret k \<noteq> None"
    and fresh: "km_wrapped_to k = {||} \<and> km_my_secret k = Some (ke_secret E (km_epoch k)) \<or> km_wrapped_to k = peer_keys k"
    and run: "wrap_for_new_peers E room k = ((request, refused), k')"
  shows "keys_ok (ke_crypto E) k'" and "settings k' = settings k" and "km_epoch k' = km_epoch k" and "km_my_secret k' = km_my_secret k"
    and "km_floors k' = km_floors k" and "km_stashed k' = km_stashed k"
    and "fmlookup (km_peers k') u = Some p \<Longrightarrow> fmlookup (km_peers k) u = Some p"
    and "sane_keys (ke_crypto E) \<Longrightarrow> current_ok (ke_crypto E) k \<Longrightarrow> current_ok (ke_crypto E) k'"
    and "request = None \<Longrightarrow> km_peers k' = fmempty \<or> k' = k \<and> km_wrapped_to k = peer_keys k"
    and "request \<noteq> None \<Longrightarrow> published E room k k' request"
proof -
  have "keys_ok (ke_crypto E) k' \<and> settings k' = settings k \<and> km_epoch k' = km_epoch k \<and> km_my_secret k' = km_my_secret k \<and>
    km_floors k' = km_floors k \<and> km_stashed k' = km_stashed k \<and>
    (\<forall>u p. fmlookup (km_peers k') u = Some p \<longrightarrow> fmlookup (km_peers k) u = Some p) \<and>
    (sane_keys (ke_crypto E) \<longrightarrow> current_ok (ke_crypto E) k \<longrightarrow> current_ok (ke_crypto E) k') \<and>
    (request = None \<longrightarrow> km_peers k' = fmempty \<or> k' = k \<and> km_wrapped_to k = peer_keys k) \<and> (request \<noteq> None \<longrightarrow> published E room k k' request)"
    (is "?all")
  proof (cases "km_wrapped_to k = peer_keys k")
    case True
    then have "k' = k" "request = None" using wrap_settled [OF secret True, of E room] run by simp_all
    then show ?thesis using base send secret True by (auto simp: keys_ok_def shared_ok_def)
  next
    case False
    define s where "s = ke_secret E (km_epoch k)"
    have empty: "km_wrapped_to k = {||}" "km_my_secret k = Some s" using fresh False by (simp_all add: s_def)
    note result = wrap_fresh [OF empty run]
    obtain m where k': "k' = k\<lparr> km_unwrappable := m, km_peers := fmfilter (accepted E room s k) (km_peers k),
      km_owners := fmretain (\<lambda>_ u. u \<in> fmdom' (km_peers k) \<longrightarrow> accepted E room s k u) (km_owners k), km_wrapped_to := peer_keys k' \<rparr>"
      using result(1) by blast
    have fields: "km_peers k' = fmfilter (accepted E room s k) (km_peers k)" "km_my_secret k' = Some s" "km_wrapped_to k' = peer_keys k'"
      "settings k' = settings k" "km_epoch k' = km_epoch k" "km_floors k' = km_floors k" "km_stashed k' = km_stashed k"
      "km_send_keys k' = km_send_keys k" "km_my_tracks k' = km_my_tracks k"
      by (subst k', simp add: settings_def empty(2))+
    have all: "\<forall>u \<in> fmdom' (km_peers k). accepted E room s k u" if "sane_keys (ke_crypto E)"
      using that base unfolding sane_keys_def base_keys_ok_def peers_ok_def accepted_def wrap_to_def
      by (fastforce simp: fmlookup_dom'_iff)
    have "keys_ok (ke_crypto E) k'"
      using wrap_base(1) [OF base k'] send fields empty by (simp add: keys_ok_def send_ok_def shared_ok_def my_track_ids_def)
    moreover have "published E room k k' request" if "request \<noteq> None"
    proof -
      let ?blob = "\<lambda>u. projr (wrap_to E room s k u (the (fmlookup (km_peers k) u)))"
      have req: "request = Some (PublishSenderKey (km_epoch k') (map (\<lambda>u. (u, ?blob u)) (fmkeys (km_peers k'))))" "km_peers k' \<noteq> fmempty"
        using that result(2) fields(5) by (auto split: if_splits)
      have "\<exists>p. fmlookup (km_peers k') u = Some p \<and> wrap_to E room s k' u p = Inr (?blob u)" if "u \<in> fmdom' (km_peers k')" for u
        using that unfolding fields(1) by (auto simp: fmlookup_dom'_iff accepted_def wrap_to_cong [OF fields(4,5)] split: option.splits)
      then show ?thesis using req fields(2,5) by (auto simp: published_def s_def comp_def)
    qed
    moreover have "request = None \<longrightarrow> km_peers k' = fmempty" using result(2) by (auto split: if_splits)
    ultimately show ?thesis using wrap_base(2) [OF base k'] all fields empty by simp
  qed
  then show "keys_ok (ke_crypto E) k'" and "settings k' = settings k" and "km_epoch k' = km_epoch k" and "km_my_secret k' = km_my_secret k"
    and "km_floors k' = km_floors k" and "km_stashed k' = km_stashed k"
    and "fmlookup (km_peers k') u = Some p \<Longrightarrow> fmlookup (km_peers k) u = Some p"
    and "sane_keys (ke_crypto E) \<Longrightarrow> current_ok (ke_crypto E) k \<Longrightarrow> current_ok (ke_crypto E) k'"
    and "request = None \<Longrightarrow> km_peers k' = fmempty \<or> k' = k \<and> km_wrapped_to k = peer_keys k"
    and "request \<noteq> None \<Longrightarrow> published E room k k' request"
    by blast+
qed

text \<open>What happens before the secret is wrapped.\<close>

lemma ready_phase:
  assumes ok: "keys_ok (ke_crypto E) k" and at: "km_room k = Some room" "\<not> epoch < km_epoch k"
    and judged: "judge_peers E room peers k = ((trusted, notices), k1)"
    and k2: "k2 = install_peers peers trusted now k1"
    and k3: "k3 = (if epoch \<noteq> km_epoch k2 \<or> km_my_secret k2 = None \<or> peer_keys k2 \<noteq> km_wrapped_to k2 then start_epoch E epoch now k2 else k2)"
  shows "base_keys_ok (ke_crypto E) k3" and "send_ok (ke_crypto E) k3" and "km_my_secret k3 \<noteq> None"
    and "km_wrapped_to k3 = {||} \<and> km_my_secret k3 = Some (ke_secret E (km_epoch k3)) \<or>
      km_wrapped_to k3 = peer_keys k3 \<and> km_my_secret k3 = km_my_secret k \<and> km_epoch k = epoch \<and> km_wrapped_to k3 = km_wrapped_to k"
    and "settings k3 = settings k" and "km_epoch k3 = epoch" and "km_peers k3 = trusted" and "km_stashed k3 = km_stashed k"
    and "floor_le (floors_get (km_floors k) u r) (floors_get (km_floors k3) u r)"
    and "current_ok (ke_crypto E) k \<Longrightarrow> current_ok (ke_crypto E) k3"
proof -
  let ?C = "ke_crypto E"
  have base: "base_keys_ok ?C k" and cache: "cache_ok ?C k" using ok by (simp_all add: keys_ok_def base_keys_ok_def)
  note judge = judge_peers_result [OF cache judged]
  note base1 = judged_base [OF base judge(1,2)]
  have same1: "settings k1 = settings k" "km_epoch k1 = km_epoch k" "km_my_secret k1 = km_my_secret k" "km_wrapped_to k1 = km_wrapped_to k"
      "km_send_keys k1 = km_send_keys k" "km_floors k1 = km_floors k" "km_stashed k1 = km_stashed k"
    by (subst judge(2), simp add: settings_def)+
  then have fixed1: "km_me k1 = km_me k" "km_server k1 = km_server k" "km_room k1 = Some room" "km_my_tracks k1 = km_my_tracks k"
    using at by (simp_all add: settings_def)
  have vouched: "u \<noteq> km_me k1 \<and> (\<exists>sk. vouched ?C (km_server k1) u (kp_identity_key p) sk \<and> ek_key sk = kp_encryption_key p)"
    if "fmlookup trusted u = Some p" for u p
    using that judge(3) [of u p] by (auto simp: fixed1 trustworthy_def valid_peer_def key_peer_of_def)
  have room1: "km_room k1 \<noteq> None" using fixed1 by simp
  have base2: "base_keys_ok ?C k2" "current_ok ?C k1 \<Longrightarrow> current_ok ?C k2" "km_peers k2 = trusted"
    unfolding k2 by (rule install_base [OF base1(1) room1]; use vouched judge(4) in blast)+
  have same2: "settings k2 = settings k" "km_epoch k2 = km_epoch k" "km_my_secret k2 = km_my_secret k" "km_wrapped_to k2 = km_wrapped_to k"
      "km_send_keys k2 = km_send_keys k" "km_floors k2 = km_floors k" "km_stashed k2 = km_stashed k"
    using same1 by (simp_all add: k2 install_peers_def Let_def settings_def)
  have room2: "km_room k2 \<noteq> None" "km_epoch k2 \<le> epoch" using same2(1,2) at by (simp_all add: settings_def)
  have start: "settings (start_epoch E epoch now k2) = settings k2" "km_stashed (start_epoch E epoch now k2) = km_stashed k2"
    "km_stashed (start_epoch E epoch now k2) = km_stashed k2"
    by (simp add: settings_def start_epoch_fields, (cases "km_room k2"; cases "epoch = km_epoch k2"; simp add: start_epoch_def Let_def)+)
  have ids: "my_track_ids k2 = my_track_ids k" using same2(1) by (simp add: my_track_ids_def settings_def)
  have ids3: "my_track_ids (start_epoch E epoch now k2) = my_track_ids k" using start(1) ids by (simp add: my_track_ids_def settings_def)
  have "send_ok ?C k2" using ok same2(3,5) by (simp add: keys_ok_def send_ok_def ids)
  moreover have "send_ok ?C (start_epoch E epoch now k2)" by (simp add: send_ok_def start_epoch_fields ids3 ids own_key_def)
  ultimately show "send_ok ?C k3" by (simp add: k3)
  show "base_keys_ok ?C k3" using start_epoch_base(1) [OF base2(1) room2] base2(1) by (simp add: k3)
  show "current_ok ?C k3" if "current_ok ?C k"
    using start_epoch_base(2) [OF base2(1) room2] base2(2) [OF base1(2) [OF that]] by (simp add: k3)
  show "km_my_secret k3 \<noteq> None" "settings k3 = settings k" "km_stashed k3 = km_stashed k" "km_peers k3 = trusted" "km_epoch k3 = epoch"
    using start same2 base2(3) by (auto simp: k3 start_epoch_fields)
  show "floor_le (floors_get (km_floors k) u r) (floors_get (km_floors k3) u r)"
    using same2(6) by (auto simp: k3 start_epoch_fields floors_raise_le split: option.splits)
  show "km_wrapped_to k3 = {||} \<and> km_my_secret k3 = Some (ke_secret E (km_epoch k3)) \<or>
      km_wrapped_to k3 = peer_keys k3 \<and> km_my_secret k3 = km_my_secret k \<and> km_epoch k = epoch \<and> km_wrapped_to k3 = km_wrapped_to k"
    using same2 by (auto simp: k3 start_epoch_fields)
qed

text \<open>A room state for our room that is not older than our epoch.\<close>

lemma receiving_only_keys:
  assumes "receiving_only k k'" "base_keys_ok C k'" "keys_ok C k"
  shows "keys_ok C k'"
proof -
  note same = receiving_only_same [OF assms(1)]
  have "my_track_ids k' = my_track_ids k" by (simp add: my_track_ids_def same(12))
  moreover have "peer_keys k' = peer_keys k" by (rule peer_keys_cong) (rule same)
  ultimately show ?thesis using assms(2,3) by (simp add: keys_ok_def send_ok_def shared_ok_def same)
qed

lemma peers_changed_active:
  assumes ok: "keys_ok (ke_crypto E) k" and at: "km_room k = Some room" "\<not> epoch < km_epoch k"
    and run: "peers_changed E room epoch peers now k = ((request, notices), k')"
  shows "keys_ok (ke_crypto E) k'" and "settings k' = settings k" and "km_epoch k' = epoch" and "km_stashed k' = km_stashed k"
    and "fmlookup (km_peers k') u = Some kp \<Longrightarrow> invalid_state peers k = None \<and> (\<exists>p. trustworthy E room peers k p \<and> u = pe_user p \<and> kp = key_peer_of p)"
    and "floor_le (floors_get (km_floors k) u r) (floors_get (km_floors k') u r)"
    and "sane_keys (ke_crypto E) \<Longrightarrow> current_ok (ke_crypto E) k \<Longrightarrow> current_ok (ke_crypto E) k'"
    and "published E room k k' request" and "km_my_secret k' \<noteq> None"
proof -
  let ?C = "ke_crypto E"
  obtain trusted n1 k1 where judged: "judge_peers E room peers k = ((trusted, n1), k1)" by (metis surj_pair)
  define k2 where "k2 = install_peers peers trusted now k1"
  define k3 where "k3 = (if epoch \<noteq> km_epoch k2 \<or> km_my_secret k2 = None \<or> peer_keys k2 \<noteq> km_wrapped_to k2 then start_epoch E epoch now k2 else k2)"
  obtain req refused k4 where wrapped: "wrap_for_new_peers E room k3 = ((req, refused), k4)" by (metis surj_pair)
  define k5 where "k5 = take_early E now k4"
  have req: "request = req" and k': "k' = k5\<lparr> km_generation := km_generation k5 + 1 \<rparr>"
    using run at unfolding peers_changed_def Let_def judged prod.case k2_def [symmetric] k3_def [symmetric] wrapped k5_def [symmetric]
    by simp_all
  note ready = ready_phase [OF ok at judged k2_def k3_def]
  have fresh: "km_wrapped_to k3 = {||} \<and> km_my_secret k3 = Some (ke_secret E (km_epoch k3)) \<or> km_wrapped_to k3 = peer_keys k3" using ready(4) by blast
  note wrap = wrap_phase [OF ready(1-3) fresh wrapped]
  have base4: "base_keys_ok ?C k4" using wrap(1) by (simp add: keys_ok_def)
  note early = take_early_ok [OF base4, of now, folded k5_def]
  have only: "receiving_only k4 k'" using early(2) by (simp add: k' receiving_only_def quiet_part_def)
  note same = receiving_only_same [OF only]
  have spoke: "spoke ?C k' = spoke ?C k5" by (rule spoke_cong) (simp_all add: k')
  have "base_keys_ok ?C k'"
    using early(1) by (simp add: k' base_keys_ok_def cache_ok_def peers_ok_def owners_ok_def received_ok_def recv_ok_def floor_ok_def sizes_ok_def spoke_update)
  then show "keys_ok ?C k'" by (rule receiving_only_keys [OF only _ wrap(1)])
  show settings: "settings k' = settings k" using wrap(2) ready(5) by (simp add: settings_def same)
  show "km_epoch k' = epoch" "km_stashed k' = km_stashed k" using wrap(3,6) ready(6,8) by (simp_all add: same)
  show "km_my_secret k' \<noteq> None" using wrap(4) ready(3) by (simp add: same)
  show "floor_le (floors_get (km_floors k) u r) (floors_get (km_floors k') u r)" using wrap(5) ready(9) by (simp add: same)
  show "current_ok ?C k'" if "sane_keys ?C" "current_ok ?C k"
    using early(3) wrap(8) ready(10) that by (simp add: current_ok_def k' spoke_update)
  show "invalid_state peers k = None \<and> (\<exists>p. trustworthy E room peers k p \<and> u = pe_user p \<and> kp = key_peer_of p)"
    if "fmlookup (km_peers k') u = Some kp"
  proof -
    have "fmlookup trusted u = Some kp" using that wrap(7) ready(7) by (simp add: same)
    then show ?thesis using judge_peers_result(3) [OF _ judged] ok by (simp add: keys_ok_def base_keys_ok_def)
  qed
  show "published E room k k' request"
  proof (cases req)
    case None
    show ?thesis
    proof (cases "km_wrapped_to k3 = {||} \<and> km_my_secret k3 = Some (ke_secret E (km_epoch k3))")
      case True
      then have "km_peers k4 = fmempty" using wrap(9) [OF None] by (auto simp: peer_keys_empty [symmetric])
      then show ?thesis using True wrap(3,4) by (simp add: published_def req None same)
    next
      case False
      with ready(4) have settled: "km_wrapped_to k3 = peer_keys k3" "km_my_secret k3 = km_my_secret k" "km_epoch k = epoch" "km_wrapped_to k3 = km_wrapped_to k"
        by blast+
      then have "k4 = k3" using wrap_settled [OF ready(3) settled(1), of E room] wrapped by simp
      then show ?thesis using settled(2-4) ready(3,6) by (simp add: published_def req None same)
    qed
  next
    case (Some r)
    have cong: "wrap_to E room s k' v p = wrap_to E room s k4 v p" for s v p
      by (rule wrap_to_cong) (simp_all add: settings_def same)
    from wrap(10) Some show ?thesis by (auto simp: published_def req same cong)
  qed
qed

end
