(* ===== verification/Engine_Keys.thy ===== *)
theory Engine_Keys
  imports Keys_Steps
begin

text \<open>
  The media engine's use of its key manager, \<open>throcc-client-core/src/media/engine.rs\<close>: placements, the
  events of the control stream and presences, each applied under the manager's lock. The step
  relation lets the server send anything in any order; its invariant is the manager's.
\<close>

subsection \<open>The operations\<close>

definition engine_set_presence ::
  "key_env \<Rightarrow> user_id \<Rightarrow> room_id option \<Rightarrow> instant \<Rightarrow> key_manager \<Rightarrow> (request option \<times> key_notice list) \<times> key_manager" where
  "engine_set_presence E user room now k =
     (let (changed, k) = set_presence user room k in if changed then reapply_peers E now k else ((None, []), k))"

definition engine_event :: "key_env \<Rightarrow> event \<Rightarrow> instant \<Rightarrow> key_manager \<Rightarrow> (request option \<times> key_notice list) \<times> key_manager" where
  "engine_event E ev now k =
     (case ev of
        PeersChanged room epoch peers \<Rightarrow> peers_changed E room epoch peers now k
      | SenderKeyPublished from epoch wrapped \<Rightarrow> ((None, []), snd (sender_key (ke_crypto E) from epoch wrapped now k))
      | PresenceChanged p \<Rightarrow> engine_set_presence E (pr_user p) (pr_room p) now k
      | PresenceEnded user \<Rightarrow> engine_set_presence E user None now k
      | _ \<Rightarrow> ((None, []), k))"

inductive key_step :: "key_env \<Rightarrow> key_manager \<Rightarrow> request list \<Rightarrow> key_manager \<Rightarrow> bool" for E where
  Ev: "engine_event E ev now k = ((request, notices), k') \<Longrightarrow> key_step E k (option_to_list request) k'"
| Place: "apply_placement E room epoch tracks peers now k = ((requests, notices), k') \<Longrightarrow> key_step E k requests k'"
| Renew: "key_step E k [] (replace_encryption pair now k)"
| Recv: "recv_key (ke_crypto E) m epoch k = (key, k') \<Longrightarrow> key_step E k [] k'"
| Tick: "key_step E k [] (tick now k)"

subsection \<open>The smaller methods\<close>

definition shown_ok :: "key_manager \<Rightarrow> bool" where
  "shown_ok k \<longleftrightarrow> (\<forall>u p. fmlookup (km_peers k) u = Some p \<longrightarrow> fmlookup (km_present k) u = km_room k)"

lemma tick_ok:
  assumes "keys_ok C k"
  shows "keys_ok C (tick now k)" and "current_ok C k \<Longrightarrow> current_ok C (tick now k)"
    and "settings (tick now k) = settings k" and "km_epoch (tick now k) = km_epoch k" and "km_peers (tick now k) = km_peers k"
    and "km_my_secret (tick now k) = km_my_secret k" and "km_wrapped_to (tick now k) = km_wrapped_to k" and "km_floors (tick now k) = km_floors k"
proof -
  let ?k = "tick now k"
  have fields: "km_me ?k = km_me k" "km_server ?k = km_server k" "km_room ?k = km_room k" "km_epoch ?k = km_epoch k"
    "km_peers ?k = km_peers k" "km_owners ?k = km_owners k" "km_floor ?k = km_floor k" "km_floors ?k = km_floors k"
    "km_my_secret ?k = km_my_secret k" "km_wrapped_to ?k = km_wrapped_to k" "km_send_keys ?k = km_send_keys k"
    "km_my_tracks ?k = km_my_tracks k" "km_checked ?k = km_checked k" "km_present ?k = km_present k" "km_encryption ?k = km_encryption k"
    by (simp_all add: tick_def Let_def split: option.splits)
  have received: "fmlookup (km_received ?k) x = Some r \<longleftrightarrow> fmlookup (km_received k) x = Some r \<and> (case rc_retire_at r of None \<Rightarrow> True | Some t \<Rightarrow> t > now)" for x r
    by (auto simp: tick_def Let_def split: option.splits if_splits)
  have recv: "fmlookup (km_recv_keys ?k) (m, e) = Some (u, key) \<longleftrightarrow> fmlookup (km_recv_keys k) (m, e) = Some (u, key) \<and> fmlookup (km_received ?k) (u, e) \<noteq> None" for m e u key
    by (auto simp: tick_def Let_def split: option.splits if_splits)
  have early: "fmsize (km_early ?k) \<le> fmsize (km_early k)"
    unfolding fmsize_eq_card by (rule card_mono) (auto simp: tick_def Let_def fmlookup_dom'_iff split: option.splits if_splits)
  have spoke: "spoke C ?k = spoke C k" by (rule spoke_cong) (simp_all add: fields)
  have "received_ok C ?k" using assms received unfolding keys_ok_def base_keys_ok_def received_ok_def spoke fields by blast
  moreover have "recv_ok C ?k"
    using assms received recv unfolding keys_ok_def base_keys_ok_def recv_ok_def by (metis not_None_eq option.inject)
  moreover have "my_track_ids ?k = my_track_ids k" "peer_keys ?k = peer_keys k"
    using peer_keys_cong [of ?k k] by (simp_all add: my_track_ids_def fields)
  ultimately show "keys_ok C ?k"
    using assms early unfolding keys_ok_def base_keys_ok_def cache_ok_def peers_ok_def owners_ok_def floor_ok_def sizes_ok_def send_ok_def shared_ok_def fields
    by simp
  show "current_ok C ?k" if "current_ok C k" using that received unfolding current_ok_def spoke fields by blast
qed (simp_all add: tick_def Let_def settings_def split: option.splits)

lemma recv_key_ok:
  assumes "keys_ok C k" "recv_key C m e k = (key, k')"
  shows "keys_ok C k'" and "current_ok C k \<Longrightarrow> current_ok C k'" and "receiving_only k k'"
    and "key = (if below_floor k e then None else case fmlookup (km_owners k) m of None \<Rightarrow> None
      | Some u \<Rightarrow> map_option (\<lambda>r. derive C (rc_secret r) m) (fmlookup (km_received k) (u, e)))"
proof -
  have cached: "\<exists>r. fmlookup (km_received k) (u, e) = Some r \<and> key = derive C (rc_secret r) m"
    if "fmlookup (km_recv_keys k) (m, e) = Some (u, key)" for m e u key
    using assms(1) that unfolding keys_ok_def base_keys_ok_def recv_ok_def by blast
  have result: "receiving_only k k' \<and> km_received k' = km_received k \<and> km_early k' = km_early k \<and> recv_ok C k' \<and>
    key = (if below_floor k e then None else case fmlookup (km_owners k) m of None \<Rightarrow> None
      | Some u \<Rightarrow> map_option (\<lambda>r. derive C (rc_secret r) m) (fmlookup (km_received k) (u, e)))"
  proof (cases "below_floor k e \<or> fmlookup (km_owners k) m = None")
    case True
    then show ?thesis using assms by (auto simp: recv_key_def owner_def keys_ok_def base_keys_ok_def)
  next
    case False
    then obtain u where u: "fmlookup (km_owners k) m = Some u" by blast
    have ok: "recv_ok C k" using assms(1) by (simp add: keys_ok_def base_keys_ok_def)
    show ?thesis
    proof (cases "\<exists>c. fmlookup (km_recv_keys k) (m, e) = Some (u, c)")
      case True
      then obtain c where c: "fmlookup (km_recv_keys k) (m, e) = Some (u, c)" by blast
      then show ?thesis using assms(2) False u cached [OF c] ok by (auto simp: recv_key_def owner_def Let_def)
    next
      case miss: False
      have fresh: "recv_key C m e k = (case fmlookup (km_received k) (u, e) of None \<Rightarrow> (None, k)
          | Some r \<Rightarrow> (Some (derive C (rc_secret r) m), k\<lparr> km_recv_keys := fmupd (m, e) (u, derive C (rc_secret r) m) (km_recv_keys k) \<rparr>))"
        using False u miss by (auto simp: recv_key_def owner_def Let_def split: option.splits prod.splits)
      show ?thesis
      proof (cases "fmlookup (km_received k) (u, e)")
        case None
        then show ?thesis using assms(2) fresh False u ok by auto
      next
        case (Some r)
        have "recv_ok C (k\<lparr> km_recv_keys := fmupd (m, e) (u, derive C (rc_secret r) m) (km_recv_keys k) \<rparr>)"
          using ok Some by (simp add: recv_ok_def)
        then show ?thesis using assms(2) fresh False u Some by (auto simp: receiving_only_def quiet_part_def)
      qed
    qed
  qed
  note same = receiving_only_same [OF conjunct1 [OF result]]
  have spoke: "spoke C k' = spoke C k" by (rule spoke_cong) (simp_all add: same)
  have "base_keys_ok C k'"
    using assms(1) result by (simp add: keys_ok_def base_keys_ok_def cache_ok_def peers_ok_def owners_ok_def received_ok_def floor_ok_def sizes_ok_def same spoke)
  then show "keys_ok C k'" using receiving_only_keys result assms(1) by blast
  show "current_ok C k'" if "current_ok C k" using that result by (simp add: current_ok_def same spoke)
  show "receiving_only k k'" "key = (if below_floor k e then None else case fmlookup (km_owners k) m of None \<Rightarrow> None
      | Some u \<Rightarrow> map_option (\<lambda>r. derive C (rc_secret r) m) (fmlookup (km_received k) (u, e)))"
    using result by blast+
qed

subsection \<open>What a step does\<close>

text \<open>
  A request is sound when it wraps the secret that the step drew for its epoch, to users shown in our
  room, each with a current encryption key that an identity vouches for as this server's user.
\<close>

definition sound_request :: "key_env \<Rightarrow> key_manager \<Rightarrow> request \<Rightarrow> bool" where
  "sound_request E k r \<longleftrightarrow> (\<exists>room e wrapped. km_room k = Some room \<and> r = PublishSenderKey e wrapped \<and> distinct (map fst wrapped) \<and>
     (\<forall>(u, blob) \<in> set wrapped. u \<noteq> km_me k \<and> fmlookup (km_present k) u = Some room \<and>
       (\<exists>identity_key sk. vouched (ke_crypto E) (km_server k) u identity_key sk \<and> unix_of E < ek_not_after sk \<and>
          wrap (ke_crypto E) (ke_seed E e u) (km_encryption k) (ek_key sk) (key_context k room e (km_me k) u) (ke_secret E e) = Inr blob)))"

lemma sound_request_cong: "settings k' = settings k \<Longrightarrow> sound_request E k' r = sound_request E k r"
  by (simp add: sound_request_def key_context_def settings_def)

text \<open>
  What becomes of our secret in a step: it stays, with its epoch and the same holders; or it is gone; or it
  was drawn in this step and the last request hands it to exactly the peers trusted now.
\<close>

definition rekeyed :: "key_env \<Rightarrow> key_manager \<Rightarrow> key_manager \<Rightarrow> request list \<Rightarrow> bool" where
  "rekeyed E k k' requests \<longleftrightarrow>
     km_my_secret k' = km_my_secret k \<and> km_epoch k' = km_epoch k \<and> km_wrapped_to k' = km_wrapped_to k \<and> requests = [] \<or>
     km_my_secret k' = None \<and> requests = [] \<or>
     km_my_secret k' = Some (ke_secret E (km_epoch k')) \<and>
       (km_peers k' = fmempty \<or>
        (\<exists>room wrapped. km_room k' = Some room \<and> requests \<noteq> [] \<and> last requests = PublishSenderKey (km_epoch k') wrapped \<and>
           map fst wrapped = fmkeys (km_peers k') \<and>
           (\<forall>(u, blob) \<in> set wrapped. \<exists>p. fmlookup (km_peers k') u = Some p \<and>
              wrap_to E room (ke_secret E (km_epoch k')) k' u p = Inr blob)))"

text \<open>The floor is read when the room changes and stands until it changes again.\<close>

definition floor_step :: "key_manager \<Rightarrow> key_manager \<Rightarrow> bool" where
  "floor_step k k' \<longleftrightarrow> km_room k' = km_room k \<and> km_floor k' = km_floor k \<or>
     km_floor k' = (case km_room k' of None \<Rightarrow> None | Some r \<Rightarrow> floors_get (km_floors k) (km_me k) r)"

definition step_ok :: "key_env \<Rightarrow> key_manager \<Rightarrow> key_manager \<Rightarrow> request list \<Rightarrow> bool" where
  "step_ok E k k' requests \<longleftrightarrow> keys_ok (ke_crypto E) k' \<and> shown_ok k' \<and>
     (sane_keys (ke_crypto E) \<longrightarrow> current_ok (ke_crypto E) k \<longrightarrow> current_ok (ke_crypto E) k') \<and>
     km_me k' = km_me k \<and> km_server k' = km_server k \<and>
     (\<forall>u r. floor_le (floors_get (km_floors k) u r) (floors_get (km_floors k') u r)) \<and>
     (\<forall>r \<in> set requests. sound_request E k' r) \<and> rekeyed E k k' requests \<and> floor_step k k'"

lemma unchanged_step:
  assumes "keys_ok (ke_crypto E) k'" "sane_keys (ke_crypto E) \<longrightarrow> current_ok (ke_crypto E) k \<longrightarrow> current_ok (ke_crypto E) k'" "shown_ok k'"
    "km_me k' = km_me k" "km_server k' = km_server k" "km_floors k' = km_floors k"
    "km_my_secret k' = km_my_secret k" "km_epoch k' = km_epoch k" "km_wrapped_to k' = km_wrapped_to k"
    "km_room k' = km_room k" "km_floor k' = km_floor k"
  shows "step_ok E k k' []"
  using assms by (simp add: step_ok_def rekeyed_def floor_step_def)

lemma published_sound:
  assumes "published E room k k' (Some r)" "km_room k' = Some room"
    and trusted: "\<And>u kp. fmlookup (km_peers k') u = Some kp \<Longrightarrow> \<exists>p. trustworthy E room peers k p \<and> u = pe_user p \<and> kp = key_peer_of p"
    and same: "settings k' = settings k"
  shows "sound_request E k' r"
proof -
  obtain wrapped where r: "r = PublishSenderKey (km_epoch k') wrapped" and users: "map fst wrapped = fmkeys (km_peers k')"
    and blobs: "\<And>u blob. (u, blob) \<in> set wrapped \<Longrightarrow> \<exists>p. fmlookup (km_peers k') u = Some p \<and> wrap_to E room (ke_secret E (km_epoch k')) k' u p = Inr blob"
    using assms(1) unfolding published_def option.case by fast
  have "distinct (map fst wrapped)" unfolding users by simp
  moreover have "u \<noteq> km_me k' \<and> fmlookup (km_present k') u = Some room \<and>
       (\<exists>identity_key sk. vouched (ke_crypto E) (km_server k') u identity_key sk \<and> unix_of E < ek_not_after sk \<and>
          wrap (ke_crypto E) (ke_seed E (km_epoch k') u) (km_encryption k') (ek_key sk) (key_context k' room (km_epoch k') (km_me k') u)
            (ke_secret E (km_epoch k')) = Inr blob)" if "(u, blob) \<in> set wrapped" for u blob
    using blobs [OF that] trusted same
    by (fastforce simp: trustworthy_def valid_peer_def key_peer_of_def wrap_to_def settings_def)
  ultimately show ?thesis unfolding sound_request_def using r assms(2) by blast
qed

lemma active_step:
  assumes ok: "keys_ok (ke_crypto E) k" and at: "km_room k = Some room" "\<not> epoch < km_epoch k"
    and run: "peers_changed E room epoch peers now k = ((request, notices), k')"
  shows "step_ok E k k' (option_to_list request)" and "settings k' = settings k" and "km_epoch k' = epoch" and "km_stashed k' = km_stashed k"
proof -
  note active = peers_changed_active [OF ok at run]
  show "settings k' = settings k" "km_epoch k' = epoch" "km_stashed k' = km_stashed k" by (rule active)+
  have room: "km_room k' = Some room" and fixed: "km_me k' = km_me k" "km_server k' = km_server k" "km_present k' = km_present k"
    using active(2) at by (simp_all add: settings_def)
  have trusted: "\<exists>p. trustworthy E room peers k p \<and> u = pe_user p \<and> kp = key_peer_of p" if "fmlookup (km_peers k') u = Some kp" for u kp
    using active(5) [OF that] by blast
  have shown: "shown_ok k'" using trusted by (auto simp: shown_ok_def room fixed trustworthy_def dest!: spec)
  have sound: "\<forall>r \<in> set (option_to_list request). sound_request E k' r"
    using published_sound [OF _ room trusted active(2)] active(8) by (cases request) (simp_all add: option_to_list_def)
  have "rekeyed E k k' (option_to_list request)"
    using active(8) room by (cases request) (auto simp: published_def rekeyed_def option_to_list_def)
  then show "step_ok E k k' (option_to_list request)"
    using active(1,2,6,7) shown sound fixed by (simp add: step_ok_def floor_step_def settings_def)
qed

lemma stash_ok:
  "keys_ok C (k\<lparr> km_stashed := st \<rparr>) \<longleftrightarrow> keys_ok C k" "current_ok C (k\<lparr> km_stashed := st \<rparr>) \<longleftrightarrow> current_ok C k"
  "shown_ok (k\<lparr> km_stashed := st \<rparr>) \<longleftrightarrow> shown_ok k"
proof -
  have "my_track_ids (k\<lparr> km_stashed := st \<rparr>) = my_track_ids k" by (simp add: my_track_ids_def)
  moreover have "peer_keys (k\<lparr> km_stashed := st \<rparr>) = peer_keys k" by (rule peer_keys_cong) simp
  ultimately show "keys_ok C (k\<lparr> km_stashed := st \<rparr>) \<longleftrightarrow> keys_ok C k" by (simp add: keys_ok_defs spoke_update)
qed (simp_all add: current_ok_def spoke_update shown_ok_def)

lemma rekeyed_stash: "rekeyed E k (k'\<lparr> km_stashed := st \<rparr>) requests \<longleftrightarrow> rekeyed E k k' requests"
proof -
  have "wrap_to E room s (k'\<lparr> km_stashed := st \<rparr>) u p = wrap_to E room s k' u p" for room s u p
    by (rule wrap_to_cong) (simp_all add: settings_def)
  then show ?thesis by (simp add: rekeyed_def)
qed

lemma sound_stash: "sound_request E (k\<lparr> km_stashed := st \<rparr>) r \<longleftrightarrow> sound_request E k r"
  by (rule sound_request_cong) (simp add: settings_def)

lemma rekeyed_fresh: "rekeyed E k0 k' requests \<Longrightarrow> km_my_secret k0 = None \<Longrightarrow> km_my_secret k' \<noteq> None \<Longrightarrow> rekeyed E k k' requests"
  unfolding rekeyed_def by (elim disjE conjE) simp_all

lemma peers_changed_step:
  assumes ok: "keys_ok (ke_crypto E) k" "shown_ok k"
    and run: "peers_changed E room epoch peers now k = ((request, notices), k')"
  shows "step_ok E k k' (option_to_list request)"
proof (cases "km_room k = Some room \<and> \<not> epoch < km_epoch k")
  case True
  then show ?thesis using active_step(1) [OF ok(1) _ _ run] by blast
next
  case False
  then have "request = None" "k' = k \<or> (\<exists>st. k' = k\<lparr> km_stashed := st \<rparr>)"
    using run by (auto simp: peers_changed_def split: if_splits)
  then show ?thesis using ok by (auto simp: option_to_list_def stash_ok intro!: unchanged_step)
qed

lemma set_presence_keys:
  assumes "keys_ok C k" "set_presence user room k = (changed, k')"
  shows "keys_ok C k'" and "current_ok C k \<Longrightarrow> current_ok C k'" and "\<exists>m. k' = k\<lparr> km_present := m \<rparr>"
    and "\<not> changed \<Longrightarrow> shown_ok k \<Longrightarrow> shown_ok k'"
proof -
  have size: "fmsize (km_present k) \<le> MAX_SIGNED_IN" using assms(1) by (simp add: keys_ok_def base_keys_ok_def sizes_ok_def)
  have present: "\<exists>m. k' = k\<lparr> km_present := m \<rparr> \<and> fmsize m \<le> MAX_SIGNED_IN \<and> (\<forall>u. u \<noteq> user \<longrightarrow> fmlookup m u = fmlookup (km_present k) u) \<and>
      (\<not> changed \<longrightarrow> user = km_me k \<or> km_room k = None \<or> (fmlookup m user = km_room k \<longleftrightarrow> fmlookup (km_present k) user = km_room k))"
  proof (cases room)
    case None
    moreover have "fmsize (fmdrop user (km_present k)) \<le> MAX_SIGNED_IN" using size by (auto simp: fmsize_drop)
    ultimately show ?thesis using assms(2)
      by (auto simp: set_presence_def intro!: exI [of _ "fmdrop user (km_present k)"])
  next
    case (Some r)
    show ?thesis
    proof (cases "fmsize (km_present k) \<ge> MAX_SIGNED_IN \<and> fmlookup (km_present k) user = None")
      case True
      then show ?thesis using assms(2) size Some by (auto simp: set_presence_def intro!: exI [of _ "km_present k"])
    next
      case False
      then show ?thesis using assms(2) size Some
        by (auto simp: set_presence_def fmsize_upd Let_def intro!: exI [of _ "fmupd user r (km_present k)"])
    qed
  qed
  then obtain m where m: "k' = k\<lparr> km_present := m \<rparr>" "fmsize m \<le> MAX_SIGNED_IN" "\<forall>u. u \<noteq> user \<longrightarrow> fmlookup m u = fmlookup (km_present k) u"
    "\<not> changed \<longrightarrow> user = km_me k \<or> km_room k = None \<or> (fmlookup m user = km_room k \<longleftrightarrow> fmlookup (km_present k) user = km_room k)" by blast
  have spoke: "spoke C k' = spoke C k" by (rule spoke_cong) (simp_all add: m(1))
  have "my_track_ids k' = my_track_ids k" by (simp add: my_track_ids_def m(1))
  moreover have "peer_keys k' = peer_keys k" by (rule peer_keys_cong) (simp add: m(1))
  ultimately show "keys_ok C k'" using assms(1) m(2) unfolding keys_ok_defs spoke by (simp add: m(1))
  show "current_ok C k'" if "current_ok C k" using that unfolding current_ok_def spoke by (simp add: m(1))
  show "\<exists>m. k' = k\<lparr> km_present := m \<rparr>" using m(1) by blast
  show "shown_ok k'" if "\<not> changed" "shown_ok k"
    unfolding shown_ok_def
  proof (intro allI impI)
    fix u p
    assume p: "fmlookup (km_peers k') u = Some p"
    then have peer: "fmlookup (km_peers k) u = Some p" by (simp add: m(1))
    then have "u \<noteq> km_me k" "km_room k \<noteq> None" "fmlookup (km_present k) u = km_room k"
      using assms(1) that(2) unfolding keys_ok_def base_keys_ok_def peers_ok_def floor_ok_def shown_ok_def by auto
    then show "fmlookup (km_present k') u = km_room k'" using m(3,4) that(1) by (cases "u = user") (auto simp: m(1))
  qed
qed

lemma reapply_step:
  assumes "keys_ok (ke_crypto E) k" "reapply_peers E now k = ((request, notices), k')" "km_room k \<noteq> None"
  shows "step_ok E k k' (option_to_list request)"
  using assms active_step(1) [of E k _ "km_epoch k" "km_room_peers k" now request notices k'] by (auto simp: reapply_peers_def)

lemma presence_step:
  assumes ok: "keys_ok (ke_crypto E) k" "shown_ok k" and run: "engine_set_presence E user room now k = ((request, notices), k')"
  shows "step_ok E k k' (option_to_list request)"
proof -
  obtain changed k1 where set: "set_presence user room k = (changed, k1)" by fastforce
  note keys = set_presence_keys [OF ok(1) set]
  obtain m where m: "k1 = k\<lparr> km_present := m \<rparr>" using keys(3) by blast
  show ?thesis
  proof (cases changed)
    case True
    then have "km_room k1 \<noteq> None" using set by (auto simp: set_presence_def Let_def split: option.splits if_splits)
    moreover have "reapply_peers E now k1 = ((request, notices), k')" using run True set by (simp add: engine_set_presence_def)
    ultimately have "step_ok E k1 k' (option_to_list request)" using reapply_step keys(1) by blast
    then show ?thesis using keys(2)
      by (simp add: step_ok_def rekeyed_def floor_step_def m cong: option.case_cong)
  next
    case False
    then have "k' = k1" "request = None" using run set by (simp_all add: engine_set_presence_def)
    then show ?thesis using keys ok False by (simp add: option_to_list_def m unchanged_step)
  qed
qed

text \<open>Placements: the state from which the room state of a placement is applied.\<close>

definition placed_at :: "room_id option \<Rightarrow> tracks option \<Rightarrow> key_manager \<Rightarrow> key_manager" where
  "placed_at room tracks k = (if room \<noteq> km_room k then change_room room k else k)\<lparr> km_room := room, km_my_tracks := tracks,
     km_my_secret := None, km_send_keys := fmempty, km_wrapped_to := {||} \<rparr>"

lemma placed_at_ok:
  assumes ok: "keys_ok C k" "shown_ok k"
  shows "keys_ok C (placed_at room tracks k)" and "shown_ok (placed_at room tracks k)"
    and "current_ok C k \<Longrightarrow> current_ok C (placed_at room tracks k)"
    and "km_my_secret (placed_at room tracks k) = None"
proof -
  let ?k = "placed_at room tracks k"
  have send: "send_ok C ?k" "shared_ok ?k" by (simp_all add: placed_at_def send_ok_def shared_ok_def own_key_def)
  show "km_my_secret ?k = None" by (simp add: placed_at_def)
  show "keys_ok C ?k"
  proof (cases "room = km_room k")
    case True
    then have fields: "km_me ?k = km_me k" "km_server ?k = km_server k" "km_room ?k = km_room k" "km_epoch ?k = km_epoch k"
      "km_peers ?k = km_peers k" "km_owners ?k = km_owners k" "km_floor ?k = km_floor k" "km_floors ?k = km_floors k"
      "km_checked ?k = km_checked k" "km_present ?k = km_present k" "km_received ?k = km_received k" "km_recv_keys ?k = km_recv_keys k"
      "km_early ?k = km_early k" "km_my_secret ?k = None"
      by (simp_all add: placed_at_def)
    have spoke: "spoke C ?k = spoke C k" by (rule spoke_cong) (simp_all add: fields)
    show ?thesis using ok(1) send unfolding keys_ok_def base_keys_ok_def cache_ok_def peers_ok_def owners_ok_def received_ok_def recv_ok_def
        floor_ok_def sizes_ok_def spoke fields by simp
  next
    case False
    then have fields: "km_me ?k = km_me k" "km_server ?k = km_server k" "km_room ?k = room" "km_epoch ?k = 0"
      "km_peers ?k = fmempty" "km_owners ?k = fmempty" "km_floors ?k = km_floors k"
      "km_floor ?k = (case room of None \<Rightarrow> None | Some r \<Rightarrow> floors_get (km_floors k) (km_me k) r)"
      "km_checked ?k = km_checked k" "km_present ?k = km_present k" "km_received ?k = fmempty" "km_recv_keys ?k = fmempty"
      "km_early ?k = km_early k" "km_my_secret ?k = None"
      by (simp_all add: placed_at_def change_room_def)
    show ?thesis using ok(1) send unfolding keys_ok_def base_keys_ok_def cache_ok_def peers_ok_def owners_ok_def received_ok_def recv_ok_def
        floor_ok_def sizes_ok_def fields by simp
  qed
  show "shown_ok ?k" using ok(2) by (auto simp: shown_ok_def placed_at_def change_room_def)
  show "current_ok C ?k" if current: "current_ok C k"
  proof (cases "room = km_room k")
    case True
    then have spoke: "spoke C ?k = spoke C k" by (intro spoke_cong) (simp_all add: placed_at_def)
    show ?thesis using current True unfolding current_ok_def spoke by (simp add: placed_at_def)
  next
    case False
    then show ?thesis by (simp add: current_ok_def placed_at_def change_room_def)
  qed
qed

lemma placement_unfold:
  "apply_placement E room epoch tracks peers now k =
     (if room \<noteq> None \<and> room = km_room k \<and> epoch < km_epoch k then (([], []), k)
      else
        let notices = (if room \<noteq> None \<and> below_floor (if room \<noteq> km_room k then change_room room k else k) epoch then [OldEpoch] else []);
            k = placed_at room tracks k
        in case room of
             None \<Rightarrow> (([], notices), k\<lparr> km_stashed := None \<rparr>)
           | Some r \<Rightarrow>
               let ((first, more), k) = peers_changed E r epoch peers now k;
                   notices = notices @ more; requests = option_to_list first;
                   stashed = km_stashed k; k = k\<lparr> km_stashed := None \<rparr>
               in case stashed of
                    Some (stashed_room, stashed_epoch, stashed_peers) \<Rightarrow>
                      if stashed_room = r \<and> stashed_epoch > epoch
                      then let ((later, more), k) = peers_changed E r stashed_epoch stashed_peers now k
                           in ((requests @ option_to_list later, notices @ more), k)
                      else ((requests, notices), k)
                  | None \<Rightarrow> ((requests, notices), k))"
  unfolding apply_placement_def placed_at_def Let_def ..

lemma rekeyed_trans:
  assumes "rekeyed E k k1 xs" "rekeyed E k1 k2 ys" "km_my_secret k1 \<noteq> None" "km_epoch k2 \<noteq> km_epoch k1" "km_my_secret k2 \<noteq> None"
  shows "rekeyed E k k2 (xs @ ys)"
  using assms by (auto simp: rekeyed_def)

lemma placement_step:
  assumes ok: "keys_ok (ke_crypto E) k" "shown_ok k" and run: "apply_placement E room epoch tracks peers now k = ((requests, notices), k')"
  shows "step_ok E k k' requests"
proof (cases "room \<noteq> None \<and> room = km_room k \<and> epoch < km_epoch k")
  case True
  then have "apply_placement E room epoch tracks peers now k = (([], []), k)" unfolding placement_unfold by (rule if_P)
  then have "k' = k" "requests = []" using run by simp_all
  then show ?thesis using ok by (simp add: unchanged_step)
next
  case False
  define k0 where "k0 = placed_at room tracks k"
  note start = placed_at_ok [OF ok, of room tracks, folded k0_def]
  have fixed0: "km_me k0 = km_me k" "km_server k0 = km_server k" "km_floors k0 = km_floors k" "km_room k0 = room"
    by (simp_all add: k0_def placed_at_def change_room_def)
  have floor0: "floor_step k k'" if "km_room k' = km_room k0" "km_floor k' = km_floor k0" for k'
    using that by (simp add: floor_step_def k0_def placed_at_def change_room_def)
  show ?thesis
  proof (cases room)
    case None
    then have "k' = k0\<lparr> km_stashed := None \<rparr>" "requests = []"
      using run False by (simp_all add: placement_unfold Let_def k0_def)
    then show ?thesis using start floor0 by (simp add: step_ok_def rekeyed_def stash_ok fixed0)
  next
    case (Some r)
    obtain first more k1 where one: "peers_changed E r epoch peers now k0 = ((first, more), k1)" by (metis surj_pair)
    have "km_epoch k0 \<le> epoch" using False Some by (auto simp: k0_def placed_at_def change_room_def)
    then have at: "km_room k0 = Some r" "\<not> epoch < km_epoch k0" using fixed0(4) Some by simp_all
    note step1 = active_step [OF start(1) at one]
    have secret1: "km_my_secret k1 \<noteq> None" by (rule peers_changed_active(9) [OF start(1) at one])
    define k2 where "k2 = k1\<lparr> km_stashed := None \<rparr>"
    have step2: "step_ok E k k2 (option_to_list first)"
      using step1(1) start(3) rekeyed_fresh [OF _ start(4) secret1] floor0 step1(2)
      by (simp add: step_ok_def k2_def stash_ok rekeyed_stash sound_stash fixed0 settings_def)
    show ?thesis
    proof (cases "\<exists>e ps. km_stashed k1 = Some (r, e, ps) \<and> e > epoch")
      case False
      then have "k' = k2 \<and> requests = option_to_list first"
        using run \<open>\<not> (room \<noteq> None \<and> room = km_room k \<and> epoch < km_epoch k)\<close> Some
        by (cases "km_stashed k1") (auto simp: placement_unfold Let_def one [unfolded k0_def Some] k2_def split: if_splits prod.splits)
      then show ?thesis using step2 by simp
    next
      case True
      then obtain e ps where st: "km_stashed k1 = Some (r, e, ps)" "e > epoch" by blast
      obtain later more' k3 where two: "peers_changed E r e ps now k2 = ((later, more'), k3)" by (metis surj_pair)
      have final: "k' = k3" "requests = option_to_list first @ option_to_list later"
        using run \<open>\<not> (room \<noteq> None \<and> room = km_room k \<and> epoch < km_epoch k)\<close> Some st(2)
        by (auto simp: placement_unfold Let_def one [unfolded k0_def Some] st(1) two [unfolded k2_def])
      have keys2: "keys_ok (ke_crypto E) k2" using step2 by (simp add: step_ok_def)
      have at2: "km_room k2 = Some r" "\<not> e < km_epoch k2"
        using step1(2,3) at st(2) by (simp_all add: k2_def settings_def)
      note step3 = active_step [OF keys2 at2 two]
      have "rekeyed E k k3 (option_to_list first @ option_to_list later)"
      proof (rule rekeyed_trans)
        show "km_my_secret k2 \<noteq> None" using secret1 by (simp add: k2_def)
        show "km_epoch k3 \<noteq> km_epoch k2" using step3(3) step1(3) st(2) by (simp add: k2_def)
        show "km_my_secret k3 \<noteq> None" by (rule peers_changed_active(9) [OF keys2 at2 two])
      qed (use step2 step3(1) in \<open>simp_all add: step_ok_def\<close>)
      moreover have "floor_le (floors_get (km_floors k) u r) (floors_get (km_floors k3) u r)" for u r
        using step2 step3(1) unfolding step_ok_def by (meson floor_le_trans)
      moreover have "floor_step k k3" using floor0 step1(2) step3(2) by (simp add: k2_def settings_def)
      ultimately show ?thesis using step2 step3(1) sound_request_cong [OF step3(2)] final by (simp add: step_ok_def ball_Un)
    qed
  qed
qed

subsection \<open>Runs\<close>

lemma key_step_ok:
  assumes "key_step E k requests k'" "keys_ok (ke_crypto E) k" "shown_ok k"
  shows "step_ok E k k' requests"
  using assms
proof (induction rule: key_step.induct)
  case (Ev ev now k request notices k')
  show ?case
  proof (cases ev)
    case (PresenceChanged p)
    then show ?thesis using Ev presence_step by (simp add: engine_event_def)
  next
    case (PresenceEnded user)
    then show ?thesis using Ev presence_step by (simp add: engine_event_def)
  next
    case (PeersChanged room epoch peers)
    then show ?thesis using Ev peers_changed_step by (simp add: engine_event_def)
  next
    case (SenderKeyPublished u epoch wrapped)
    then have result: "request = None" "k' = snd (sender_key (ke_crypto E) u epoch wrapped now k)" using Ev.hyps by (simp_all add: engine_event_def)
    show ?thesis
    proof (cases "length wrapped = WRAPPED_BYTES")
      case True
      obtain res k1 where run: "sender_key_at (ke_crypto E) u epoch wrapped now now k = (res, k1)" by fastforce
      then have "k' = k1" using result True by (simp add: sender_key_def)
      note same = receiving_only_same [OF sender_key_at_only [OF run]]
      have base: "base_keys_ok (ke_crypto E) k" "peers_ok (ke_crypto E) k" using Ev.prems(1) by (simp_all add: keys_ok_def base_keys_ok_def)
      have "keys_ok (ke_crypto E) k1" using receiving_only_keys [OF sender_key_at_only [OF run] sender_key_at_base [OF run base(1)] Ev.prems(1)] .
      then have "step_ok E k k1 []"
        by (rule unchanged_step) (use sender_key_at_current [OF run base(2)] Ev.prems(2) in \<open>simp_all add: shown_ok_def same\<close>)
      then show ?thesis using \<open>k' = k1\<close> result(1) by (simp add: option_to_list_def)
    next
      case False
      then show ?thesis using result Ev.prems by (simp add: sender_key_def option_to_list_def unchanged_step)
    qed
  qed (use Ev in \<open>simp_all add: engine_event_def option_to_list_def unchanged_step\<close>)
next
  case (Place room epoch tracks peers now k requests notices k')
  then show ?case using placement_step by blast
next
  case (Renew k pair now)
  let ?k = "replace_encryption pair now k"
  have fields: "km_me ?k = km_me k" "km_server ?k = km_server k" "km_room ?k = km_room k" by (simp_all add: replace_encryption_def)
  have spoke: "spoke C ?k = spoke C k" for C by (rule spoke_cong) (rule fields)+
  have "my_track_ids ?k = my_track_ids k" by (simp add: my_track_ids_def replace_encryption_def)
  moreover have "peer_keys ?k = peer_keys k" by (rule peer_keys_cong) (simp add: replace_encryption_def)
  ultimately have "keys_ok (ke_crypto E) ?k"
    using Renew.prems(1) unfolding keys_ok_defs spoke by (simp add: replace_encryption_def)
  moreover have "current_ok (ke_crypto E) ?k" if "current_ok (ke_crypto E) k"
    using that unfolding current_ok_def spoke by (simp add: replace_encryption_def)
  ultimately show ?case using Renew.prems(2) by (intro unchanged_step) (simp_all add: replace_encryption_def shown_ok_def)
next
  case (Recv m epoch k key k')
  note ok = recv_key_ok [OF Recv.prems(1) Recv.hyps]
  note same = receiving_only_same [OF ok(3)]
  show ?case by (rule unchanged_step) (use ok(1,2) Recv.prems(2) in \<open>simp_all add: shown_ok_def same\<close>)
next
  case (Tick k now)
  note ok = tick_ok [OF Tick.prems(1), of now]
  then show ?case using Tick.prems(2) by (intro unchanged_step) (simp_all add: shown_ok_def settings_def)
qed

text \<open>The states a manager can reach from its start, with the libraries fixed and everything else up to the server.\<close>

inductive key_reach :: "crypto \<Rightarrow> key_manager \<Rightarrow> key_manager \<Rightarrow> bool" for C start where
  Start: "key_reach C start start"
| Step: "key_reach C start k \<Longrightarrow> key_step E k requests k' \<Longrightarrow> ke_crypto E = C \<Longrightarrow> key_reach C start k'"

lemma new_keys_ok: "keys_ok C (new_keys me pair server fl now)" "shown_ok (new_keys me pair server fl now)" "current_ok C (new_keys me pair server fl now)"
  by (simp_all add: new_keys_def keys_ok_defs shown_ok_def current_ok_def own_key_def)

lemma key_reach_ok:
  assumes "key_reach C start k" "keys_ok C start" "shown_ok start"
  shows "keys_ok C k \<and> shown_ok k \<and> (sane_keys C \<longrightarrow> current_ok C start \<longrightarrow> current_ok C k) \<and> km_me k = km_me start \<and> km_server k = km_server start \<and>
    (\<forall>u r. floor_le (floors_get (km_floors start) u r) (floors_get (km_floors k) u r))"
  using assms
proof (induction rule: key_reach.induct)
  case (Step k E requests k')
  then have "step_ok E k k' requests" using key_step_ok by simp
  then show ?case using Step unfolding step_ok_def by (metis floor_le_trans)
qed simp

lemma reached_ok:
  assumes "key_reach C (new_keys me pair server fl now) k"
  shows "keys_ok C k" "shown_ok k" "sane_keys C \<Longrightarrow> current_ok C k" "km_me k = me" "km_server k = server"
  using key_reach_ok [OF assms new_keys_ok(1,2)] new_keys_ok(3) by (simp_all add: new_keys_def)

end
