(* ===== verification/Keys_Safe.thy ===== *)
theory Keys_Safe
  imports Engine_Keys
begin

text \<open>
  What the sender keys promise, whatever the server sends: who learns our secret, whose secret opens
  received media, that epochs left behind stay closed, and that two clients agree on the keys. Two
  runs show where the promises end.
\<close>

subsection \<open>Our secret\<close>

text \<open>
  C3. Our secret goes to trusted peers only, and to all of them. In every state a client reaches, whatever
  the server sends: every request it makes wraps the secret drawn in that very step, once to each
  recipient, all of them shown in our room with a current encryption key vouched for by the
  identity they present. After each step our secret is the one of before, with the same epoch and
  holders; or gone; or new, and then handed to exactly the peers trusted now. Media keys come from it.
\<close>

theorem secrets_reach_trusted_peers_only:
  assumes "key_reach C (new_keys me pair server fl t) k" "key_step E k requests k'" "ke_crypto E = C"
  shows "(\<forall>r \<in> set requests. sound_request E k' r) \<and> rekeyed E k k' requests \<and>
    km_wrapped_to k' = (if km_my_secret k' = None then {||} else peer_keys k') \<and>
    (\<forall>u p. fmlookup (km_peers k') u = Some p \<longrightarrow> u \<noteq> me \<and> fmlookup (km_present k') u = km_room k' \<and>
       (\<exists>sk. vouched C server u (kp_identity_key p) sk \<and> ek_key sk = kp_encryption_key p)) \<and>
    (\<forall>m. send_key k' m = (case km_my_secret k' of
       Some s \<Rightarrow> if m \<in> set (my_track_ids k') then Some (km_epoch k', derive C s m) else None | None \<Rightarrow> None))"
proof -
  note ok = reached_ok [OF assms(1)]
  have step: "step_ok E k k' requests" using key_step_ok [OF assms(2)] ok assms(3) by simp
  then have keys: "keys_ok C k'" "shown_ok k'" "km_me k' = me" "km_server k' = server" using ok assms(3) by (simp_all add: step_ok_def)
  have "send_key k' m = (case km_my_secret k' of
       Some s \<Rightarrow> if m \<in> set (my_track_ids k') then Some (km_epoch k', derive C s m) else None | None \<Rightarrow> None)" for m
    using keys(1) by (auto simp: keys_ok_def send_ok_def send_key_def own_key_def split: option.splits)
  then show ?thesis using step keys by (auto simp: step_ok_def keys_ok_def base_keys_ok_def shared_ok_def peers_ok_def shown_ok_def)
qed

subsection \<open>Received media\<close>

lemma not_below_floor: "\<not> below_floor k e \<Longrightarrow> unat (km_epoch k) \<le> unat e + 1"
proof -
  assume "\<not> below_floor k e"
  then have le: "km_epoch k \<le> (if e = - 1 then - 1 else e + 1)" by (simp add: below_floor_def not_less)
  show ?thesis
  proof (cases "e = - 1")
    case True
    have "km_epoch k \<le> e" using True by simp
    then show ?thesis by (simp add: word_le_nat_alt)
  next
    case False
    then have "1 + e \<noteq> 0" by (metis add.commute add_eq_0_iff2)
    then have "unat (e + 1) = unat e + 1" using unatSuc [of e] by (simp add: add.commute)
    then show ?thesis using le False by (simp add: word_le_nat_alt)
  qed
qed

text \<open>
  C6. Media opens only with the keys of its sender. Whenever a client finds a key for a track: the track
  belongs to one trusted peer of the room state, the key derives from the secret received from that
  user for this very epoch, which is ours or the one before and above the floor, and the secret
  came sealed for us, this server, room, epoch and sender, by the holder of an encryption key vouched
  for as that user's. As long as every vouched key can be wrapped to, a secret that is not about
  to expire came from the identity the peer presents now.
\<close>

theorem received_keys_authentic:
  assumes "key_reach C (new_keys me pair server fl t) k" "recv_key C m e k = (Some key, k')"
  shows "\<exists>u p r. fmlookup (km_peers k) u = Some p \<and> m \<in> set (track_ids (kp_tracks p)) \<and>
    (\<forall>v q. fmlookup (km_peers k) v = Some q \<longrightarrow> m \<in> set (track_ids (kp_tracks q)) \<longrightarrow> v = u) \<and>
    fmlookup (km_received k) (u, e) = Some r \<and> key = derive C (rc_secret r) m \<and>
    e \<le> km_epoch k \<and> unat (km_epoch k) \<le> unat e + 1 \<and> (\<forall>lowest. km_floor k = Some lowest \<longrightarrow> lowest < e) \<and>
    (e < km_epoch k \<longrightarrow> rc_retire_at r \<noteq> None) \<and> (\<exists>identity_key. spoke C k u e (rc_secret r) identity_key) \<and>
    (sane_keys C \<longrightarrow> rc_retire_at r = None \<longrightarrow> spoke C k u e (rc_secret r) (kp_identity_key p))"
proof -
  note ok = reached_ok [OF assms(1)]
  have key: "Some key = (if below_floor k e then None else case fmlookup (km_owners k) m of None \<Rightarrow> None
      | Some u \<Rightarrow> map_option (\<lambda>r. derive C (rc_secret r) m) (fmlookup (km_received k) (u, e)))"
    by (rule recv_key_ok(4) [OF ok(1) assms(2)])
  then obtain u r where found: "\<not> below_floor k e" "fmlookup (km_owners k) m = Some u" "fmlookup (km_received k) (u, e) = Some r" "key = derive C (rc_secret r) m"
    by (auto split: if_splits option.splits simp: map_option_case)
  have owners: "owners_ok k" and received: "received_ok C k" using ok(1) by (simp_all add: keys_ok_def base_keys_ok_def)
  obtain p where p: "fmlookup (km_peers k) u = Some p" "m \<in> set (track_ids (kp_tracks p))"
    using owners found(2) unfolding owners_ok_def by blast
  have only: "v = u" if "fmlookup (km_peers k) v = Some q" "m \<in> set (track_ids (kp_tracks q))" for v q
    using owners that found(2) unfolding owners_ok_def by (metis option.inject)
  have "sane_keys C \<Longrightarrow> rc_retire_at r = None \<Longrightarrow> spoke C k u e (rc_secret r) (kp_identity_key p)"
    using ok(3) found(3) p(1) unfolding current_ok_def by fastforce
  moreover have "e \<le> km_epoch k \<and> (\<forall>lowest. km_floor k = Some lowest \<longrightarrow> lowest < e) \<and> (e < km_epoch k \<longrightarrow> rc_retire_at r \<noteq> None) \<and>
      (\<exists>identity_key. spoke C k u e (rc_secret r) identity_key)"
    by (rule received [unfolded received_ok_def, THEN spec, THEN spec, THEN spec, THEN mp, OF found(3)])
  moreover have "\<forall>v q. fmlookup (km_peers k) v = Some q \<longrightarrow> m \<in> set (track_ids (kp_tracks q)) \<longrightarrow> v = u" using only by blast
  ultimately show ?thesis using found(3,4) p not_below_floor [OF found(1)] by (intro exI [of _ u] exI [of _ p] exI [of _ r] conjI) blast+
qed

subsection \<open>Epochs left behind\<close>

text \<open>An epoch is closed in a room when a floor stands at or above it and is in force while we are there.\<close>

definition closed :: "room_id \<Rightarrow> epoch \<Rightarrow> key_manager \<Rightarrow> bool" where
  "closed room e k \<longleftrightarrow> floor_le (Some e) (floors_get (km_floors k) (km_me k) room) \<and> (km_room k = Some room \<longrightarrow> floor_le (Some e) (km_floor k))"

lemma closed_step:
  assumes "step_ok E k k' requests" "closed room e k"
  shows "closed room e k'"
proof -
  have up: "floor_le (floors_get (km_floors k) u r) (floors_get (km_floors k') u r)" for u r using assms(1) by (simp add: step_ok_def)
  have me: "km_me k' = km_me k" and floor: "floor_step k k'" using assms(1) by (simp_all add: step_ok_def)
  have "floor_le (Some e) (floors_get (km_floors k') (km_me k') room)"
    using up [of "km_me k" room] assms(2) me floor_le_trans unfolding closed_def by metis
  then show ?thesis using floor assms(2) by (auto simp: closed_def floor_step_def)
qed

lemma closed_reach:
  assumes "key_reach C start k" "keys_ok C start" "shown_ok start" "closed room e start"
  shows "closed room e k"
  using assms
proof (induction rule: key_reach.induct)
  case (Step k E requests k')
  then have "keys_ok (ke_crypto E) k" "shown_ok k" using key_reach_ok [OF Step.hyps(1)] by simp_all
  then show ?case using closed_step [OF key_step_ok [OF Step.hyps(2)]] Step by blast
qed simp

text \<open>
  C10. Epochs left behind stay closed. Once a client took part in an epoch of a room (other than epoch 0),
  then left the room, or was started anew with the floors it had raised: whenever it is in that room
  again, whatever the server did in between, it finds no key for media of that epoch or an earlier
  one and refuses every sender key for them, without changing its state.
\<close>

theorem epochs_left_behind_stay_closed:
  assumes "key_reach C (new_keys me pair server fl t) k" "km_room k = Some room" "km_epoch k \<noteq> 0" "e \<le> km_epoch k"
    and left: "key_reach C k k1 \<and> km_room k1 \<noteq> Some room \<or>
      (\<exists>pair1 fl1 t1. k1 = new_keys me pair1 server fl1 t1 \<and> floor_le (floors_get (km_floors k) me room) (floors_get fl1 me room))"
    and again: "key_reach C k1 k2" "km_room k2 = Some room"
  shows "recv_key C m e k2 = (None, k2) \<and> (\<exists>err. sender_key C u e wrapped now k2 = (Inl err, k2))"
proof -
  note ok = reached_ok [OF assms(1)]
  have raised: "floor_le (Some e) (floors_get (km_floors k) me room)"
    using ok(1,4) assms(2-4) floor_le_trans [of "Some e" "Some (km_epoch k)"] by (simp add: keys_ok_def base_keys_ok_def floor_ok_def)
  have start: "keys_ok C k1 \<and> shown_ok k1 \<and> closed room e k1"
    using left
  proof
    assume left: "key_reach C k k1 \<and> km_room k1 \<noteq> Some room"
    note kept = key_reach_ok [OF conjunct1 [OF left] ok(1,2)]
    then show ?thesis using left raised ok(4) floor_le_trans unfolding closed_def by metis
  next
    assume "\<exists>pair1 fl1 t1. k1 = new_keys me pair1 server fl1 t1 \<and> floor_le (floors_get (km_floors k) me room) (floors_get fl1 me room)"
    then obtain pair1 fl1 t1 where new: "k1 = new_keys me pair1 server fl1 t1" and fl1: "floor_le (floors_get (km_floors k) me room) (floors_get fl1 me room)" by blast
    have "closed room e k1" using floor_le_trans [OF raised fl1] by (simp add: new closed_def) (simp add: new_keys_def)
    then show ?thesis using new_keys_ok by (simp add: new)
  qed
  then have "closed room e k2" using closed_reach [OF again(1)] by blast
  then have "below_floor k2 e" using again(2) by (auto simp: closed_def below_floor_def floor_le_Some)
  then show ?thesis by (auto simp: recv_key_def sender_key_def sender_key_at_def)
qed

subsection \<open>Agreement\<close>

lemma wrap_unwrap:
  assumes hpke: "hpke_ok C" and pairs: "kp_public a = cr_public C (kp_private a)" "kp_public b = cr_public C (kp_private b)"
    and secret: "length secret = 32" and wrapped: "wrap C seed a (kp_public b) c secret = Inr blob"
  shows "unwrap C b (kp_public a) c blob = Inr secret" and "length blob = WRAPPED_BYTES"
proof -
  obtain encapped ciphertext where sealed: "cr_hpke_seal C seed (kp_private a) (cr_public C (kp_private b)) (wrap_info c) secret = Some (encapped, ciphertext)"
    and blob: "blob = encapped @ ciphertext"
    using wrapped pairs by (auto simp: wrap_def split: if_splits option.splits)
  have opens: "length encapped = ENCAPPED_BYTES" "cr_is_key C encapped" "length ciphertext = length secret + 16"
      "cr_hpke_open C (cr_public C (kp_private a)) (kp_private b) encapped (wrap_info c) ciphertext = Some secret" "cr_is_key C (cr_public C (kp_private a))"
    using hpke sealed unfolding hpke_ok_def by blast+
  then show "unwrap C b (kp_public a) c blob = Inr secret" by (simp add: unwrap_def Let_def blob pairs secret)
  show "length blob = WRAPPED_BYTES" using opens by (simp add: blob secret WRAPPED_BYTES_def ENCAPPED_BYTES_def)
qed

text \<open>
  C12. Clients agree on the keys of media. When a client publishes a new secret, and the blob for another
  client reaches it while it is in the same room of the same server, trusts the sender under the
  sender's key and is in that epoch, it accepts the blob and then finds, for every track of the
  sender that the room state names, the very key the sender seals media with in that epoch. This
  needs HPKE to open what it sealed.
\<close>

theorem sender_keys_agree:
  assumes hpke: "hpke_ok C" and random: "\<And>e. length (ke_secret E e) = 32" "ke_crypto E = C"
    and a: "key_reach C (new_keys a pa server fa ta) ka" "key_step E ka requests ka'" "requests \<noteq> []" "last requests = PublishSenderKey e wrapped" "(b, blob) \<in> set wrapped"
    and b: "key_reach C (new_keys b pb server fb tb) kb" "km_room kb = km_room ka'" "km_epoch kb = e" "\<not> below_floor kb e"
    and keys: "kp_public (km_encryption ka') = cr_public C (kp_private (km_encryption ka'))" "kp_public (km_encryption kb) = cr_public C (kp_private (km_encryption kb))"
    and trust: "fmlookup (km_peers kb) a = Some p" "kp_encryption_key p = kp_public (km_encryption ka')"
      "map_option kp_encryption_key (fmlookup (km_peers ka') b) = Some (kp_public (km_encryption kb))"
    and track: "m \<in> set (track_ids (kp_tracks p))" "send_key ka' m = Some (e', key)"
  shows "\<exists>kb'. sender_key C a e blob now kb = (Inr (), kb') \<and> fst (recv_key C m e kb') = Some key \<and> e' = e"
proof -
  note oka = reached_ok [OF a(1)] and okb = reached_ok [OF b(1)]
  have step: "step_ok E ka ka' requests" using key_step_ok [OF a(2)] oka random(2) by simp
  then have keysa: "keys_ok C ka'" "km_me ka' = a" "km_server ka' = server" and rekeyed: "rekeyed E ka ka' requests"
    using oka random(2) by (simp_all add: step_ok_def)
  obtain room wrapped' where room: "km_room ka' = Some room" and mine: "km_my_secret ka' = Some (ke_secret E (km_epoch ka'))"
      and req: "PublishSenderKey e wrapped = PublishSenderKey (km_epoch ka') wrapped'"
      and blobs: "\<forall>(u, blob) \<in> set wrapped'. \<exists>p. fmlookup (km_peers ka') u = Some p \<and> wrap_to E room (ke_secret E (km_epoch ka')) ka' u p = Inr blob"
    using rekeyed a(3,4) trust(3) unfolding rekeyed_def by auto
  let ?s = "ke_secret E (km_epoch ka')"
  have e: "e = km_epoch ka'" and blob: "\<exists>q. fmlookup (km_peers ka') b = Some q \<and> wrap_to E room ?s ka' b q = Inr blob"
    using req blobs a(5) by auto
  then have "wrap C (ke_seed E e b) (km_encryption ka') (kp_public (km_encryption kb)) (key_context ka' room e a b) ?s = Inr blob"
    using trust(3) by (auto simp: wrap_to_def random(2) keysa(2))
  moreover have "key_context ka' room e a b = key_context kb room e a b" by (simp add: key_context_def keysa(3) okb(5))
  ultimately have opened: "unwrap C (km_encryption kb) (kp_public (km_encryption ka')) (key_context kb room e a b) blob = Inr ?s" "length blob = WRAPPED_BYTES"
    using wrap_unwrap [OF hpke keys random(1)] by simp_all
  obtain res kb' where run: "sender_key_at C a e blob now now kb = (res, kb')" by fastforce
  have accepted: "res = Inr () \<and> fmlookup (km_received kb') (a, e) = Some \<lparr> rc_secret = ?s, rc_retire_at = None \<rparr>"
    using run b(2-4) trust(1,2) opened(1) room okb(4) by (auto simp: sender_key_at_def Let_def)
  note only = sender_key_at_only [OF run]
  have base: "base_keys_ok C kb" using okb(1) by (simp add: keys_ok_def)
  have okb': "keys_ok C kb'" by (rule receiving_only_keys [OF only sender_key_at_base [OF run base] okb(1)])
  have owner: "fmlookup (km_owners kb) m = Some a" using okb(1) trust(1) track(1) unfolding keys_ok_def base_keys_ok_def owners_ok_def by blast
  have below: "\<not> below_floor kb' e" using b(4) by (simp add: below_floor_def receiving_only_same [OF only])
  obtain found kb'' where recv: "recv_key C m e kb' = (found, kb'')" by fastforce
  have "found = Some (derive C ?s m)"
    using recv_key_ok(4) [OF okb' recv] below owner accepted by (simp add: receiving_only_same [OF only])
  moreover have "key = derive C ?s m" "e' = e"
    using track(2) keysa(1) mine e by (auto simp: send_key_def keys_ok_def send_ok_def own_key_def split: option.splits if_splits)
  moreover have "sender_key C a e blob now kb = (Inr (), kb')" using run accepted opened(2) by (simp add: sender_key_def)
  ultimately show ?thesis using recv by simp
qed

end
