(* ===== verification/Keys_Runs.thy ===== *)
theory Keys_Runs
  imports Keys_Safe
begin

text \<open>
  Runs of the key manager on concrete states: the promises of \<open>Keys_Safe\<close> at work between two clients,
  and the two places where they end.
\<close>

subsection \<open>Example runs\<close>

definition demo_key :: "nat \<Rightarrow> public_key" where
  "demo_key n = [of_nat n]"

definition demo_secret :: "nat \<Rightarrow> bytes" where
  "demo_secret n = replicate 32 (of_nat n)"

definition demo_pair :: "nat \<Rightarrow> key_pair" where
  "demo_pair n = \<lparr> kp_private = demo_key n, kp_public = demo_key n \<rparr>"

text \<open>A user presenting an identity and an encryption key, with a microphone track of their number.\<close>

definition demo_peer :: "user_id \<Rightarrow> nat \<Rightarrow> nat \<Rightarrow> peer" where
  "demo_peer u i n = \<lparr> pe_user = u, pe_tracks = \<lparr> t_mic = ucast u, t_shares = [] \<rparr>, pe_share = None, pe_identity_key = demo_key i,
     pe_encryption_key = \<lparr> ek_key = demo_key n, ek_not_after = 100, ek_sig = [] \<rparr> \<rparr>"

text \<open>HPKE that refuses the key of zeros, as X25519 does.\<close>

definition picky_crypto :: crypto where
  "picky_crypto = plain_crypto\<lparr> cr_is_key := (\<lambda>_. True), cr_public := (\<lambda>k. k), cr_hpke_seal := (\<lambda>_ _ key _ p. if key = demo_key 0 then None else Some (replicate 32 0, p @ replicate 16 0)) \<rparr>"

definition demo_key_env :: "crypto \<Rightarrow> key_env" where
  "demo_key_env C = \<lparr> ke_crypto = C, ke_unix = Some 7, ke_secret = (\<lambda>e. demo_secret (unat e)), ke_seed = (\<lambda>_ _. []), ke_order = (\<lambda>m. []) \<rparr>"

definition demo_shown :: "crypto \<Rightarrow> user_id \<Rightarrow> key_manager \<Rightarrow> key_manager" where
  "demo_shown C u k = snd (engine_event (demo_key_env C) (PresenceChanged
     \<lparr> pr_user = u, pr_name = [], pr_avatar = None, pr_room = Some 1, pr_mic = True, pr_deafened = False, pr_sharing = False, pr_role = User \<rparr>) 0 k)"

definition demo_placed :: "crypto \<Rightarrow> room_id option \<Rightarrow> epoch \<Rightarrow> peer list \<Rightarrow> key_manager \<Rightarrow> key_manager" where
  "demo_placed C room e ps k = snd (apply_placement (demo_key_env C) room e
     (if room = None then None else Some \<lparr> t_mic = ucast (km_me k), t_shares = [] \<rparr>) ps 0 k)"

definition demo_peers :: "crypto \<Rightarrow> epoch \<Rightarrow> peer list \<Rightarrow> key_manager \<Rightarrow> key_manager" where
  "demo_peers C e ps k = snd (engine_event (demo_key_env C) (PeersChanged 1 e ps) 0 k)"

definition demo_sent :: "crypto \<Rightarrow> user_id \<Rightarrow> epoch \<Rightarrow> nat \<Rightarrow> key_manager \<Rightarrow> key_manager" where
  "demo_sent C u e n k = snd (engine_event (demo_key_env C) (SenderKeyPublished u e (replicate 32 0 @ demo_secret n @ replicate 16 0)) 0 k)"

definition demo_client :: "user_id \<Rightarrow> key_manager" where
  "demo_client u = new_keys u (demo_pair (unat u)) [5] floors_default 0"

lemmas demo_defs = demo_shown_def demo_placed_def demo_peers_def demo_sent_def

lemma event_reach:
  assumes "key_reach C start k" "ke_crypto E = C"
  shows "key_reach C start (snd (engine_event E ev now k))"
  using key_reach.Step [OF assms(1) key_step.Ev assms(2)] by (metis prod.collapse)

lemma placement_reach:
  assumes "key_reach C start k" "ke_crypto E = C"
  shows "key_reach C start (snd (apply_placement E room e ts ps now k))"
  using key_reach.Step [OF assms(1) key_step.Place assms(2)] by (metis prod.collapse)

lemma demo_sent_reach:
  assumes "key_reach C start k"
  shows "key_reach C start (demo_shown C u k)" "key_reach C start (demo_placed C room e ps k)" "key_reach C start (demo_peers C e ps k)"
    "key_reach C start (demo_sent C u e n k)"
  unfolding demo_defs by (rule event_reach placement_reach, rule assms, simp add: demo_key_env_def)+

text \<open>Maps with one entry, and the parts of the code as they act on such states.\<close>

lemma one_entry:
  "fmupd a b (fmupd a c fmempty) = fmupd a b fmempty" "fmdrop a (fmupd a b fmempty) = fmempty"
  "fmmap_keys f (fmupd a b fmempty) = fmupd a (f a b) fmempty" "fmmap_keys f fmempty = fmempty"
  by (rule fmap_ext; simp)+

lemma one_entry_retain:
  "fmretain P (fmupd a b fmempty) = (if P a b then fmupd a b fmempty else fmempty)" "fmretain P fmempty = fmempty"
  by (rule fmap_ext; simp)+

lemma one_entry_keys: "fmkeys (fmupd a b fmempty) = [a]"
  by (simp add: fmkeys_def sorted_list_of_fset.rep_eq)

lemmas one_entry_map = one_entry one_entry_retain one_entry_keys

lemma picky_verify [simp]: "cr_verify picky_crypto i m s"
  by (simp add: picky_crypto_def plain_crypto_def)

lemma picky_wrap: "wrap picky_crypto seed a key c s = (if key = demo_key 0 then Inl SealFailed else Inr (replicate 32 0 @ s @ replicate 16 0))"
  by (simp add: picky_crypto_def plain_crypto_def wrap_def)

lemma demo_key_eq [simp]: "demo_key a = demo_key b \<longleftrightarrow> (of_nat a :: u8) = of_nat b"
  by (simp add: demo_key_def)

lemma peers_changed_phases:
  assumes "km_room k = Some room" "\<not> epoch < km_epoch k" "judge_peers E room peers k = ((trusted, n1), k1)"
    "install_peers peers trusted now k1 = k2"
    "(if epoch \<noteq> km_epoch k2 \<or> km_my_secret k2 = None \<or> peer_keys k2 \<noteq> km_wrapped_to k2 then start_epoch E epoch now k2 else k2) = k3"
    "wrap_for_new_peers E room k3 = ((request, refused), k4)" "km_early k4 = fmempty" "ke_order E fmempty = []"
  shows "peers_changed E room epoch peers now k = ((request, n1 @ map BadEncryptionKey refused), k4\<lparr> km_generation := km_generation k4 + 1 \<rparr>)"
proof -
  have "take_early E now k4 = k4" using assms(7,8) by (simp add: take_early_def Let_def)
  then show ?thesis using assms(1,2) unfolding peers_changed_def Let_def assms(3) prod.case assms(4,5,6) by simp
qed

lemma demo_judged:
  assumes "km_me k \<noteq> u" "km_my_tracks k = Some \<lparr> t_mic = x, t_shares = [] \<rparr>" "x \<noteq> ucast u" "km_present k = fmupd u (1) fmempty"
    "km_checked k = fmempty \<or> km_checked k = fmupd u c fmempty \<and> (fst c, fst (snd c)) \<noteq> (demo_key i, pe_encryption_key (demo_peer u i n))"
    "km_unwrappable k = fmempty \<or> km_unwrappable k = fmupd u w fmempty \<and> w \<noteq> demo_key n"
  shows "judge_peers (demo_key_env picky_crypto) 1 [demo_peer u i n] k =
    ((fmupd u (key_peer_of (demo_peer u i n)) fmempty, []),
     k\<lparr> km_checked := fmupd u (demo_key i, pe_encryption_key (demo_peer u i n), True) fmempty \<rparr>)"
proof -
  have valid: "invalid_state [demo_peer u i n] k = None"
    using assms(1-3) by (auto simp: invalid_state_def MAX_ROOM_MEMBERS_def clashing_tracks_def Let_def demo_peer_def track_ids_def)
  let ?C = picky_crypto and ?p = "demo_peer u i n"
  have sel: "pe_user ?p = u" "pe_identity_key ?p = demo_key i" by (simp_all add: demo_peer_def)
  have signed: "signed_by_identity ?C ?p k = (True, k\<lparr> km_checked := fmupd u (demo_key i, pe_encryption_key ?p, True) fmempty \<rparr>)"
  proof (cases "km_checked k = fmempty")
    case True
    then show ?thesis by (simp add: signed_by_identity_def Let_def sel one_entry_map)
  next
    case False
    then obtain s where s: "km_checked k = fmupd u s fmempty" "(fst s, fst (snd s)) \<noteq> (demo_key i, pe_encryption_key ?p)" using assms(5) by blast
    then show ?thesis unfolding signed_by_identity_def Let_def sel s(1) by (cases s) (auto simp: one_entry_map)
  qed
  have "fmretain (\<lambda>user _. user \<in> set (map pe_user [?p])) (km_checked k) = km_checked k"
    "fmretain (\<lambda>user _. user \<in> set (map pe_user [?p])) (km_unwrappable k) = km_unwrappable k"
    using assms(5,6) by (auto simp: one_entry_map demo_peer_def)
  then have trimmed: "k\<lparr> km_checked := fmretain (\<lambda>user _. user \<in> set (map pe_user [?p])) (km_checked k),
      km_unwrappable := fmretain (\<lambda>user _. user \<in> set (map pe_user [?p])) (km_unwrappable k) \<rparr> = k" by simp
  have shown: "filter (\<lambda>p. pe_user p \<noteq> km_me k \<and> fmlookup (km_present k) (pe_user p) = Some 1) [?p] = [?p]"
    using assms(1,4) by (simp add: demo_peer_def one_entry_map)
  have free: "fmlookup (km_unwrappable k) u \<noteq> Some (demo_key n)" using assms(6) by (auto simp: one_entry_map)
  have user: "pe_user ?p = u" "ek_key (pe_encryption_key ?p) = demo_key n" "ek_not_after (pe_encryption_key ?p) = 100" by (simp_all add: demo_peer_def)
  have env: "ke_crypto (demo_key_env ?C) = ?C" "ke_unix (demo_key_env ?C) = Some 7" by (simp_all add: demo_key_env_def)
  show ?thesis
    unfolding judge_peers_def valid option.case trusted_peers_def Let_def trimmed shown trust_each.simps env user signed prod.case
    using free by (simp add: one_entry_map signed)
qed

text \<open>Installing the one peer, and wrapping a new secret to it.\<close>

lemma demo_installed:
  "install_peers [demo_peer u i n] (fmupd u (key_peer_of (demo_peer u i n)) fmempty) now k =
     (retire_received now (\<lambda>from _. departed (fmupd u (key_peer_of (demo_peer u i n)) fmempty) k from) k)\<lparr> km_room_peers := [demo_peer u i n],
       km_peers := fmupd u (key_peer_of (demo_peer u i n)) fmempty, km_owners := fmupd (ucast u) u fmempty \<rparr>"
  by (simp add: install_peers_def Let_def retire_received_def departed_def peers_list_def owners_of_def one_entry_map key_peer_of_def demo_peer_def track_ids_def)

lemma demo_peer_keys: "km_peers k = fmupd u (key_peer_of (demo_peer u i n)) fmempty \<Longrightarrow> peer_keys k = {|(u, demo_key n)|}"
  by (simp add: peer_keys_def peers_list_def one_entry_map key_peer_of_def demo_peer_def)

lemma demo_wrapped:
  assumes "km_peers k = fmupd u (key_peer_of (demo_peer u i n)) fmempty" "km_owners k = fmupd (ucast u) u fmempty" "km_wrapped_to k = {||}" "km_my_secret k = Some s"
  shows "demo_key n \<noteq> demo_key 0 \<Longrightarrow> wrap_for_new_peers (demo_key_env picky_crypto) room k =
      ((Some (PublishSenderKey (km_epoch k) [(u, replicate 32 0 @ s @ replicate 16 0)]), []), k\<lparr> km_wrapped_to := {|(u, demo_key n)|} \<rparr>)"
    and "demo_key n = demo_key 0 \<Longrightarrow> wrap_for_new_peers (demo_key_env picky_crypto) room k =
      ((None, [u]), k\<lparr> km_unwrappable := fmupd u (demo_key 0) (km_unwrappable k), km_peers := fmempty, km_owners := fmempty \<rparr>)"
proof -
  have key: "kp_encryption_key (key_peer_of (demo_peer u i n)) = demo_key n" by (simp add: key_peer_of_def demo_peer_def)
  have each: "wrap_each (demo_key_env picky_crypto) room s k (peers_list k) =
      (if demo_key n = demo_key 0 then ([], [(u, demo_key n)]) else ([(u, replicate 32 0 @ s @ replicate 16 0)], []))"
    by (simp add: peers_list_def assms(1,3) one_entry_map key picky_wrap demo_key_env_def)
  show "wrap_for_new_peers (demo_key_env picky_crypto) room k =
      ((Some (PublishSenderKey (km_epoch k) [(u, replicate 32 0 @ s @ replicate 16 0)]), []), k\<lparr> km_wrapped_to := {|(u, demo_key n)|} \<rparr>)" if "demo_key n \<noteq> demo_key 0"
    unfolding wrap_for_new_peers_def assms(4) option.case each using that by (simp add: List.map_filter_simps assms key Let_def)
  show "wrap_for_new_peers (demo_key_env picky_crypto) room k =
      ((None, [u]), k\<lparr> km_unwrappable := fmupd u (demo_key 0) (km_unwrappable k), km_peers := fmempty, km_owners := fmempty \<rparr>)" if "demo_key n = demo_key 0"
    unfolding wrap_for_new_peers_def assms(4) option.case each using that
    by (simp add: List.map_filter_simps assms leave_out_def Let_def one_entry_map del: demo_key_eq)
qed

lemma demo_key_env_simps [simp]: "ke_crypto (demo_key_env C) = C" "ke_secret (demo_key_env C) e = demo_secret (unat e)" "ke_order (demo_key_env C) m = []"
  by (simp_all add: demo_key_env_def)

text \<open>A room state with one peer, which makes us draw a new secret.\<close>

lemma demo_rekeyed:
  assumes at: "km_room k = Some 1" "km_epoch k \<le> e" "km_early k = fmempty"
    and judged: "km_me k \<noteq> u" "km_my_tracks k = Some \<lparr> t_mic = x, t_shares = [] \<rparr>" "x \<noteq> ucast u" "km_present k = fmupd u 1 fmempty"
      "km_checked k = fmempty \<or> km_checked k = fmupd u c fmempty \<and> (fst c, fst (snd c)) \<noteq> (demo_key i, pe_encryption_key (demo_peer u i n))"
      "km_unwrappable k = fmempty \<or> km_unwrappable k = fmupd u w fmempty \<and> w \<noteq> demo_key n"
    and new: "e \<noteq> km_epoch k \<or> km_my_secret k = None \<or> km_wrapped_to k \<noteq> {|(u, demo_key n)|}"
    and still: "km_received k = fmempty \<or> e = km_epoch k \<and> (km_peers k = fmempty \<or> km_peers k = fmupd u (key_peer_of (demo_peer u i j)) fmempty)"
  defines "k3 \<equiv> k\<lparr> km_epoch := e, km_epoch_since := (if e \<noteq> km_epoch k then 0 else km_epoch_since k),
      km_floors := (if e \<noteq> km_epoch k then floors_raise (km_me k) 1 e (km_floors k) else km_floors k),
      km_room_peers := [demo_peer u i n], km_checked := fmupd u (demo_key i, pe_encryption_key (demo_peer u i n), True) fmempty,
      km_my_secret := Some (demo_secret (unat e)), km_send_keys := fmupd x (derive picky_crypto (demo_secret (unat e)) x) fmempty,
      km_generation := km_generation k + 1 \<rparr>"
  shows "demo_key n \<noteq> demo_key 0 \<Longrightarrow> peers_changed (demo_key_env picky_crypto) 1 e [demo_peer u i n] 0 k =
      ((Some (PublishSenderKey e [(u, replicate 32 0 @ demo_secret (unat e) @ replicate 16 0)]), []),
       k3\<lparr> km_peers := fmupd u (key_peer_of (demo_peer u i n)) fmempty, km_owners := fmupd (ucast u) u fmempty, km_wrapped_to := {|(u, demo_key n)|} \<rparr>)"
    and "demo_key n = demo_key 0 \<Longrightarrow> peers_changed (demo_key_env picky_crypto) 1 e [demo_peer u i n] 0 k =
      ((None, [BadEncryptionKey u]),
       k3\<lparr> km_peers := fmempty, km_owners := fmempty, km_wrapped_to := {||}, km_unwrappable := fmupd u (demo_key 0) (km_unwrappable k) \<rparr>)"
proof -
  let ?E = "demo_key_env picky_crypto" and ?p = "demo_peer u i n"
  define k1 where "k1 = k\<lparr> km_checked := fmupd u (demo_key i, pe_encryption_key ?p, True) fmempty \<rparr>"
  define k2 where "k2 = k1\<lparr> km_room_peers := [?p], km_peers := fmupd u (key_peer_of ?p) fmempty, km_owners := fmupd (ucast u) u fmempty \<rparr>"
  have judge: "judge_peers ?E 1 [?p] k = ((fmupd u (key_peer_of ?p) fmempty, []), k1)" unfolding k1_def by (rule demo_judged [OF judged])
  have "retire_received 0 (\<lambda>from _. departed (fmupd u (key_peer_of ?p) fmempty) k1 from) k1 = k1"
  proof (cases "km_received k = fmempty")
    case True
    then show ?thesis by (simp add: k1_def retire_received_def one_entry_map)
  next
    case False
    then have "\<not> departed (fmupd u (key_peer_of ?p) fmempty) k1 v" for v
      using still by (auto simp: departed_def k1_def key_peer_of_def demo_peer_def split: if_splits)
    moreover have "fmmap_keys (\<lambda>(a, b) r. r) m = m" for m :: "(user_id \<times> epoch, received) fmap" by (rule fmap_ext) (auto simp: option.map_ident split: prod.splits)
    ultimately show ?thesis by (simp add: retire_received_def)
  qed
  then have install: "install_peers [?p] (fmupd u (key_peer_of ?p) fmempty) 0 k1 = k2" by (simp add: demo_installed k2_def)
  define k4 where "k4 = k2\<lparr> km_epoch := e, km_epoch_since := (if e \<noteq> km_epoch k then 0 else km_epoch_since k),
      km_floors := (if e \<noteq> km_epoch k then floors_raise (km_me k) 1 e (km_floors k) else km_floors k),
      km_my_secret := Some (demo_secret (unat e)), km_send_keys := fmupd x (derive picky_crypto (demo_secret (unat e)) x) fmempty, km_wrapped_to := {||} \<rparr>"
  have "start_epoch ?E e 0 k2 = k4"
    using at still judged(2)
    by (cases "e = km_epoch k") (auto simp: start_epoch_def Let_def k4_def k2_def k1_def retire_received_def one_entry_map my_track_ids_def track_ids_def)
  moreover have "e \<noteq> km_epoch k2 \<or> km_my_secret k2 = None \<or> peer_keys k2 \<noteq> km_wrapped_to k2"
  proof -
    have "peer_keys k2 = {|(u, demo_key n)|}" by (rule demo_peer_keys [where i = i]) (simp add: k2_def)
    moreover have "km_wrapped_to k2 = km_wrapped_to k" "km_my_secret k2 = km_my_secret k" "km_epoch k2 = km_epoch k" by (simp_all add: k2_def k1_def)
    ultimately show ?thesis using new by metis
  qed
  ultimately have start: "(if e \<noteq> km_epoch k2 \<or> km_my_secret k2 = None \<or> peer_keys k2 \<noteq> km_wrapped_to k2 then start_epoch ?E e 0 k2 else k2) = k4" by (simp only: if_True)
  have k4: "km_peers k4 = fmupd u (key_peer_of ?p) fmempty" "km_owners k4 = fmupd (ucast u) u fmempty" "km_wrapped_to k4 = {||}" "km_my_secret k4 = Some (demo_secret (unat e))"
    "km_epoch k4 = e" by (simp_all add: k4_def k2_def)
  note wrap = demo_wrapped [OF k4(1-4), of 1]
  have order: "ke_order ?E fmempty = []" by simp
  have early: "\<not> e < km_epoch k" using at(2) by simp
  show "peers_changed ?E 1 e [?p] 0 k = ((Some (PublishSenderKey e [(u, replicate 32 0 @ demo_secret (unat e) @ replicate 16 0)]), []),
       k3\<lparr> km_peers := fmupd u (key_peer_of ?p) fmempty, km_owners := fmupd (ucast u) u fmempty, km_wrapped_to := {|(u, demo_key n)|} \<rparr>)" if "demo_key n \<noteq> demo_key 0"
    using peers_changed_phases [OF at(1) early judge install start wrap(1) [OF that] _ order] at(3)
    by (simp add: k3_def k4_def k2_def k1_def)
  show "peers_changed ?E 1 e [?p] 0 k = ((None, [BadEncryptionKey u]),
       k3\<lparr> km_peers := fmempty, km_owners := fmempty, km_wrapped_to := {||}, km_unwrappable := fmupd u (demo_key 0) (km_unwrappable k) \<rparr>)" if "demo_key n = demo_key 0"
    using peers_changed_phases [OF at(1) early judge install start wrap(2) [OF that] _ order] at(3)
    by (simp add: k3_def k4_def k2_def k1_def del: demo_key_eq)
qed

text \<open>Joining room 1 as the first step, with one peer shown there, and hearing its secret.\<close>

definition demo_joined :: "user_id \<Rightarrow> user_id \<Rightarrow> epoch \<Rightarrow> key_manager" where
  "demo_joined a u e = (demo_client a)\<lparr> km_present := fmupd u 1 fmempty, km_room_peers := [demo_peer u 4 (unat u)], km_room := Some 1, km_epoch := e,
     km_floors := (if e = 0 then floors_default else floors_raise a 1 e floors_default), km_my_tracks := Some \<lparr> t_mic = ucast a, t_shares = [] \<rparr>,
     km_peers := fmupd u (key_peer_of (demo_peer u 4 (unat u))) fmempty, km_owners := fmupd (ucast u) u fmempty,
     km_my_secret := Some (demo_secret (unat e)), km_wrapped_to := {|(u, demo_key (unat u))|},
     km_checked := fmupd u (demo_key 4, pe_encryption_key (demo_peer u 4 (unat u)), True) fmempty,
     km_send_keys := fmupd (ucast a) (derive picky_crypto (demo_secret (unat e)) (ucast a)) fmempty, km_generation := 1 \<rparr>"

lemma demo_shown_run: "u \<noteq> a \<Longrightarrow> demo_shown picky_crypto u (demo_client a) = (demo_client a)\<lparr> km_present := fmupd u 1 fmempty \<rparr>"
  by (simp add: demo_shown_def engine_event_def engine_set_presence_def set_presence_def Let_def demo_client_def new_keys_def
      MAX_SIGNED_IN_def MAX_ONLINE_def ADMIN_HEADROOM_def)

lemma demo_joined_run:
  assumes "u \<noteq> a" "(ucast u :: u32) \<noteq> ucast a" "demo_key (unat u) \<noteq> demo_key 0"
  shows "apply_placement (demo_key_env picky_crypto) (Some 1) e (Some \<lparr> t_mic = ucast a, t_shares = [] \<rparr>) [demo_peer u 4 (unat u)] 0
      (demo_shown picky_crypto u (demo_client a)) =
    (([PublishSenderKey e [(u, replicate 32 0 @ demo_secret (unat e) @ replicate 16 0)]], []), demo_joined a u e)"
proof -
  let ?k = "placed_at (Some 1) (Some \<lparr> t_mic = ucast a, t_shares = [] \<rparr>) ((demo_client a)\<lparr> km_present := fmupd u 1 fmempty \<rparr>)"
  have k: "?k = (demo_client a)\<lparr> km_present := fmupd u 1 fmempty, km_room := Some 1, km_my_tracks := Some \<lparr> t_mic = ucast a, t_shares = [] \<rparr> \<rparr>"
    by (simp add: placed_at_def change_room_def demo_client_def new_keys_def floors_get_def floors_default_def)
  have "peers_changed (demo_key_env picky_crypto) 1 e [demo_peer u 4 (unat u)] 0 ?k =
      ((Some (PublishSenderKey e [(u, replicate 32 0 @ demo_secret (unat e) @ replicate 16 0)]), []), demo_joined a u e)"
    unfolding k
    by (subst demo_rekeyed(1) [where x = "ucast a" and j = 0])
      (use assms in \<open>auto simp: demo_client_def new_keys_def demo_joined_def simp del: demo_key_eq\<close>)
  moreover have "km_stashed (demo_joined a u e) = None" "(demo_joined a u e)\<lparr> km_stashed := None \<rparr> = demo_joined a u e"
    by (simp_all add: demo_joined_def demo_client_def new_keys_def)
  moreover have "\<not> below_floor (change_room (Some 1) ((demo_client a)\<lparr> km_present := fmupd u 1 fmempty \<rparr>)) e"
    by (simp add: below_floor_def change_room_def demo_client_def new_keys_def floors_get_def floors_default_def)
  moreover have "km_room ((demo_client a)\<lparr> km_present := fmupd u 1 fmempty \<rparr>) = None" by (simp add: demo_client_def new_keys_def)
  ultimately show ?thesis unfolding placement_unfold demo_shown_run [OF assms(1)] by (simp add: Let_def option_to_list_def)
qed

lemma length_demo_secret [simp]: "length (demo_secret n) = 32"
  by (simp add: demo_secret_def)

lemma demo_sent_run:
  assumes "km_room k = Some 1" "fmlookup (km_peers k) u = Some p" "\<not> below_floor k (km_epoch k)" "km_received k = fmempty" "km_recv_keys k = fmempty"
  shows "demo_sent picky_crypto u (km_epoch k) n k = k\<lparr> km_received := fmupd (u, km_epoch k) \<lparr> rc_secret = demo_secret n, rc_retire_at = None \<rparr> fmempty,
    km_generation := km_generation k + 1 \<rparr>"
proof -
  have "unwrap picky_crypto pair key c (replicate 32 0 @ demo_secret n @ replicate 16 0) = Inr (demo_secret n)" for pair key c
    by (simp add: unwrap_def Let_def picky_crypto_def plain_crypto_def ENCAPPED_BYTES_def)
  then show ?thesis using assms
    by (simp add: demo_sent_def engine_event_def sender_key_def WRAPPED_BYTES_def sender_key_at_def Let_def retire_received_def one_entry_map)
qed

lemma demo_joined_reach:
  assumes "u \<noteq> a" "(ucast u :: u32) \<noteq> ucast a" "demo_key (unat u) \<noteq> demo_key 0"
  shows "key_reach picky_crypto (demo_client a) (demo_joined a u e)"
  using placement_reach [OF demo_sent_reach(1) [OF key_reach.Start], where E = "demo_key_env picky_crypto"] demo_joined_run [OF assms, of e]
  by (metis demo_key_env_simps(1) snd_conv)

lemmas demo_unfold = demo_joined_def demo_client_def new_keys_def demo_peer_def key_peer_of_def

lemma demo_heard_run:
  "demo_sent picky_crypto 2 1 8 (demo_joined 1 2 1) =
     (demo_joined 1 2 1)\<lparr> km_received := fmupd (2, 1) \<lparr> rc_secret = demo_secret 8, rc_retire_at = None \<rparr> fmempty, km_generation := 2 \<rparr>"
proof -
  have "demo_sent picky_crypto 2 (km_epoch (demo_joined 1 2 1)) 8 (demo_joined 1 2 1) = (demo_joined 1 2 1)\<lparr> km_received :=
      fmupd (2, km_epoch (demo_joined 1 2 1)) \<lparr> rc_secret = demo_secret 8, rc_retire_at = None \<rparr> fmempty, km_generation := km_generation (demo_joined 1 2 1) + 1 \<rparr>"
    by (rule demo_sent_run [where p = "key_peer_of (demo_peer 2 4 2)"]) (simp_all add: demo_joined_def demo_client_def new_keys_def below_floor_def)
  then show ?thesis by (simp add: demo_joined_def)
qed

subsection \<open>The promises at work\<close>

lemma demo_client_new: "demo_client a = new_keys a (demo_pair (unat a)) [5] floors_default 0"
  by (simp add: demo_client_def)

lemma demo_join_step:
  "key_step (demo_key_env picky_crypto) (demo_shown picky_crypto 2 (demo_client 1))
     [PublishSenderKey 1 [(2, replicate 32 0 @ demo_secret 1 @ replicate 16 0)]] (demo_joined 1 2 1)"
  by (rule key_step.Place [where room = "Some 1" and epoch = 1 and tracks = "Some \<lparr> t_mic = 1, t_shares = [] \<rparr>" and peers = "[demo_peer 2 4 2]" and now = 0])
    (use demo_joined_run [of 2 1 1] in simp)

lemma demo_shown_reach: "key_reach picky_crypto (demo_client a) (demo_shown picky_crypto u (demo_client a))"
  by (intro demo_sent_reach key_reach.Start)

theorem secrets_reach_trusted_peers_only_witness:
  "sound_request (demo_key_env picky_crypto) (demo_joined 1 2 1) (PublishSenderKey 1 [(2, replicate 32 0 @ demo_secret 1 @ replicate 16 0)])"
  using secrets_reach_trusted_peers_only [OF demo_shown_reach [of 1 2, unfolded demo_client_new] demo_join_step [unfolded demo_client_new] demo_key_env_simps(1)] by simp

lemma demo_heard_recv: "\<exists>k'. recv_key picky_crypto 2 1 (demo_sent picky_crypto 2 1 8 (demo_joined 1 2 1)) = (Some (derive picky_crypto (demo_secret 8) 2), k')"
  unfolding demo_heard_run
  by (simp add: recv_key_def Let_def owner_def below_floor_def demo_joined_def demo_client_def new_keys_def)

theorem received_keys_authentic_witness:
  "\<exists>u identity_key. spoke picky_crypto (demo_sent picky_crypto 2 1 8 (demo_joined 1 2 1)) u 1 (demo_secret 8) identity_key"
proof -
  have "key_reach picky_crypto (demo_client 1) (demo_sent picky_crypto 2 1 8 (demo_joined 1 2 1))"
    by (intro demo_sent_reach demo_joined_reach) simp_all
  from received_keys_authentic [OF this [unfolded demo_client_new]] demo_heard_recv
  obtain u r where "fmlookup (km_received (demo_sent picky_crypto 2 1 8 (demo_joined 1 2 1))) (u, 1) = Some r"
      "\<exists>identity_key. spoke picky_crypto (demo_sent picky_crypto 2 1 8 (demo_joined 1 2 1)) u 1 (rc_secret r) identity_key"
    by blast
  then show ?thesis by (auto simp: demo_heard_run split: if_splits) blast
qed

lemma placement_room:
  assumes "keys_ok (ke_crypto E) k" "shown_ok k" "apply_placement E (Some r) e ts ps now k = (result, k')"
  shows "km_room k' = Some r"
proof (cases "Some r = km_room k \<and> e < km_epoch k")
  case True
  then have "apply_placement E (Some r) e ts ps now k = (([], []), k)" unfolding placement_unfold by (intro if_P conjI option.distinct(2)) (use True in blast)+
  then show ?thesis using True assms(3) by simp
next
  case False
  let ?k = "placed_at (Some r) ts k"
  have at: "km_room ?k = Some r" "\<not> e < km_epoch ?k" using False by (auto simp: placed_at_def change_room_def)
  obtain first more k1 where one: "peers_changed E r e ps now ?k = ((first, more), k1)" by (metis surj_pair)
  note step = active_step [OF placed_at_ok(1) [OF assms(1,2)] at one]
  have k1: "km_room k1 = Some r" "keys_ok (ke_crypto E) k1" using step(1,2) at by (simp_all add: settings_def step_ok_def)
  have two: "km_room k2 = Some r" if "e < e'" "peers_changed E r e' ps' now (k1\<lparr> km_stashed := None \<rparr>) = ((a, b), k2)" for e' ps' a b k2
    using active_step(2) [of E "k1\<lparr> km_stashed := None \<rparr>" r e' ps' now a b k2] k1 step(3) that
    by (auto simp: stash_ok settings_def)
  show ?thesis
    using assms(3) False k1(1) two unfolding placement_unfold Let_def option.case one prod.case
    by (auto dest: two split: option.splits if_splits prod.splits)
qed

theorem epochs_left_behind_stay_closed_witness:
  "\<exists>k. km_room k = Some 1 \<and> recv_key picky_crypto 2 1 k = (None, k)"
proof -
  let ?J = "demo_joined 1 2 1" and ?E = "demo_key_env picky_crypto"
  let ?again = "new_keys 1 (demo_pair 1) [5] (km_floors ?J) 0"
  obtain result k where placed: "apply_placement ?E (Some 1) 2 None [] 0 ?again = (result, k)" by fastforce
  have "key_reach picky_crypto (new_keys 1 (demo_pair (unat (1 :: user_id))) [5] floors_default 0) ?J" using demo_joined_reach [of 2 1 1] by (simp add: demo_client_new)
  moreover have "km_room ?J = Some 1" "km_epoch ?J \<noteq> 0" "1 \<le> km_epoch ?J" by (simp_all add: demo_joined_def)
  moreover have "\<exists>pair1 fl1 t1. ?again = new_keys 1 pair1 [5] fl1 t1 \<and> floor_le (floors_get (km_floors ?J) 1 1) (floors_get fl1 1 1)"
    using floor_le_refl by blast
  moreover have "key_reach picky_crypto ?again k" using placement_reach [OF key_reach.Start demo_key_env_simps(1)] placed by (metis snd_conv)
  moreover have "km_room k = Some 1" by (rule placement_room [OF _ _ placed]) (simp_all add: new_keys_ok)
  ultimately show ?thesis
    using epochs_left_behind_stay_closed [where C = picky_crypto and k = ?J and ?k1.0 = ?again and ?k2.0 = k and room = 1 and e = 1] by blast
qed

lemma picky_hpke_ok: "hpke_ok picky_crypto"
  by (auto simp: hpke_ok_def picky_crypto_def plain_crypto_def ENCAPPED_BYTES_def split: if_splits)

theorem sender_keys_agree_witness:
  "\<exists>k. sender_key picky_crypto 1 1 (replicate 32 0 @ demo_secret 1 @ replicate 16 0) 0 (demo_joined 2 1 1) = (Inr (), k) \<and>
     fst (recv_key picky_crypto 1 1 k) = Some (derive picky_crypto (demo_secret 1) 1)"
proof -
  have keys: "kp_encryption_key (key_peer_of (demo_peer u i n)) = demo_key n" "kp_tracks (key_peer_of (demo_peer u i n)) = \<lparr> t_mic = ucast u, t_shares = [] \<rparr>" for u i n
    by (simp_all add: key_peer_of_def demo_peer_def)
  have a: "key_reach picky_crypto (new_keys 1 (demo_pair (unat (1 :: user_id))) [5] floors_default 0) (demo_shown picky_crypto 2 (demo_client 1))"
    using demo_shown_reach [of 1 2] by (simp add: demo_client_new)
  have b: "key_reach picky_crypto (new_keys 2 (demo_pair (unat (2 :: user_id))) [5] floors_default 0) (demo_joined 2 1 1)"
    using demo_joined_reach [of 1 2 1] by (simp add: demo_client_new)
  have random: "length (ke_secret (demo_key_env picky_crypto) e) = 32" for e by simp
  have pairs: "kp_public (km_encryption (demo_joined a u 1)) = cr_public picky_crypto (kp_private (km_encryption (demo_joined a u 1)))" for a u
    by (simp add: demo_joined_def demo_client_def new_keys_def demo_pair_def picky_crypto_def)
  have "\<exists>kb'. sender_key picky_crypto 1 1 (replicate 32 0 @ demo_secret 1 @ replicate 16 0) 0 (demo_joined 2 1 1) = (Inr (), kb') \<and>
      fst (recv_key picky_crypto 1 1 kb') = Some (derive picky_crypto (demo_secret 1) 1) \<and> (1 :: epoch) = 1"
    by (rule sender_keys_agree [OF picky_hpke_ok random demo_key_env_simps(1) a demo_join_step list.distinct(2) last.simps [THEN trans, OF if_P, OF refl] list.set_intros(1) b _ _ _ pairs pairs, where e' = 1 and p = "key_peer_of (demo_peer 1 4 1)"])
      (simp_all add: demo_joined_def demo_client_def new_keys_def below_floor_def keys track_ids_def send_key_def demo_pair_def)
  then show ?thesis by blast
qed

subsection \<open>Where the promises end\<close>

text \<open>
  C38. A peer whose key cannot be wrapped to is not counted as departed when its identity changes. User 2,
  presenting one identity, sends us its secret; then presents a key that HPKE refuses, and is left
  out; then presents another identity with a good key, and is trusted. Its media still opens with the
  secret of the first identity, for as long as the epoch lasts.
\<close>

theorem refused_key_hides_identity_change:
  fixes now :: instant
  defines "heard \<equiv> demo_sent picky_crypto 2 1 8 (demo_joined 1 2 1)"
  defines "k \<equiv> demo_peers picky_crypto 1 [demo_peer 2 6 6] (demo_peers picky_crypto 1 [demo_peer 2 4 0] heard)"
  shows "key_reach picky_crypto (demo_client 1) k \<and>
    map_option kp_identity_key (fmlookup (km_peers heard) 2) = Some (demo_key 4) \<and>
    map_option kp_identity_key (fmlookup (km_peers k) 2) = Some (demo_key 6) \<and>
    fst (recv_key picky_crypto 2 1 (tick now k)) = Some (derive picky_crypto (demo_secret 8) 2)"
proof -
  let ?E = "demo_key_env picky_crypto"
  define refused where "refused = demo_peers picky_crypto 1 [demo_peer 2 4 0] heard"
  have heard: "heard = (demo_joined 1 2 1)\<lparr> km_received := fmupd (2, 1) \<lparr> rc_secret = demo_secret 8, rc_retire_at = None \<rparr> fmempty, km_generation := 2 \<rparr>"
    unfolding heard_def by (rule demo_heard_run)
  have one: "peers_changed ?E 1 1 [demo_peer 2 4 0] 0 heard = ((None, [BadEncryptionKey 2]), heard\<lparr> km_room_peers := [demo_peer 2 4 0],
      km_checked := fmupd 2 (demo_key 4, pe_encryption_key (demo_peer 2 4 0), True) fmempty, km_generation := 3,
      km_peers := fmempty, km_owners := fmempty, km_wrapped_to := {||}, km_unwrappable := fmupd 2 (demo_key 0) fmempty \<rparr>)"
    by (subst demo_rekeyed(2) [where x = 1 and j = 2 and c = "(demo_key 4, pe_encryption_key (demo_peer 2 4 2), True)"]) (auto simp: heard demo_joined_def demo_client_def new_keys_def demo_peer_def)
  then have refused: "refused = heard\<lparr> km_room_peers := [demo_peer 2 4 0],
      km_checked := fmupd 2 (demo_key 4, pe_encryption_key (demo_peer 2 4 0), True) fmempty, km_generation := 3,
      km_peers := fmempty, km_owners := fmempty, km_wrapped_to := {||}, km_unwrappable := fmupd 2 (demo_key 0) fmempty \<rparr>"
    by (simp add: refused_def demo_peers_def engine_event_def)
  have "snd (peers_changed ?E 1 1 [demo_peer 2 6 6] 0 refused) = refused\<lparr> km_room_peers := [demo_peer 2 6 6],
      km_checked := fmupd 2 (demo_key 6, pe_encryption_key (demo_peer 2 6 6), True) fmempty, km_generation := 4,
      km_peers := fmupd 2 (key_peer_of (demo_peer 2 6 6)) fmempty, km_owners := fmupd 2 2 fmempty, km_wrapped_to := {|(2, demo_key 6)|} \<rparr>"
    by (subst demo_rekeyed(1) [where x = 1 and j = 6 and c = "(demo_key 4, pe_encryption_key (demo_peer 2 4 0), True)" and w = "demo_key 0"]) (auto simp: refused heard demo_joined_def demo_client_def new_keys_def demo_peer_def)
  then have k: "k = refused\<lparr> km_room_peers := [demo_peer 2 6 6],
      km_checked := fmupd 2 (demo_key 6, pe_encryption_key (demo_peer 2 6 6), True) fmempty, km_generation := 4,
      km_peers := fmupd 2 (key_peer_of (demo_peer 2 6 6)) fmempty, km_owners := fmupd 2 2 fmempty, km_wrapped_to := {|(2, demo_key 6)|} \<rparr>"
    by (simp add: k_def refused_def [symmetric]) (simp add: demo_peers_def engine_event_def)
  have "key_reach picky_crypto (demo_client 1) (demo_joined 1 2 1)" by (rule demo_joined_reach) simp_all
  then have "key_reach picky_crypto (demo_client 1) k" unfolding k_def heard_def by (intro demo_sent_reach)
  moreover have "fst (recv_key picky_crypto 2 1 (tick now k)) = Some (derive picky_crypto (demo_secret 8) 2)"
    by (simp add: k refused heard recv_key_def tick_def Let_def owner_def below_floor_def demo_joined_def demo_client_def new_keys_def one_entry_map)
  ultimately show ?thesis by (simp add: k refused heard demo_joined_def key_peer_of_def demo_peer_def del: demo_key_eq)
qed

text \<open>Epoch 0 raises no floor: a manager's epoch starts at 0, so taking part in epoch 0 is not noticed.\<close>

lemma epoch_zero_leaves_no_floor:
  "key_reach picky_crypto (demo_client 1) (demo_joined 1 2 0) \<and> km_my_secret (demo_joined 1 2 0) \<noteq> None \<and>
   floors_get (km_floors (demo_joined 1 2 0)) 1 1 = None"
  using demo_joined_reach [of 2 1 0] by (simp add: demo_joined_def floors_get_def floors_default_def)

end
