(* ===== verification/Auth_Tries.thy ===== *)
theory Auth_Tries
  imports Auth
begin

text \<open>
  Enrollments in parallel. A state has the server, the invite ids of the runs in flight and, as a
  record of what happened, the invite ids of the tries claimed since the invite was minted. Runs
  begin, settle and end in any order; a run that is dropped halfway only ends. In between anything
  may happen to the server that mints invites without a used try or only takes invites away.
\<close>

subsection \<open>Steps\<close>

type_synonym auth_state = "auth_server \<times> ustring multiset \<times> ustring multiset"

definition invites_only_go :: "(ustring, invite_rec) fmap \<Rightarrow> (ustring, invite_rec) fmap \<Rightarrow> bool" where
  "invites_only_go old new \<longleftrightarrow> (\<forall>code i. fmlookup new code = Some i \<longrightarrow> fmlookup old code = Some i)"

definition stays_faultless :: "auth_server \<Rightarrow> auth_server \<Rightarrow> bool" where
  "stays_faultless s s' \<longleftrightarrow> (au_faults s = [] \<longrightarrow> au_faults s' = [])"

inductive auth_step :: "auth_state \<Rightarrow> auth_state \<Rightarrow> bool" where
  Claimed: "begin_enrollment X run s = (Inr (Some i), s') \<Longrightarrow>
    auth_step (s, M, G) (s', add_mset (en_code_id run) M, add_mset (en_code_id run) G)"
| Not_begun: "begin_enrollment X run s = (r, s') \<Longrightarrow> (\<And>i. r \<noteq> Inr (Some i)) \<Longrightarrow> auth_step (s, M, G) (s', M, G)"
| Settled: "en_code_id run \<in># M \<Longrightarrow> settle run now b s = (r, s') \<Longrightarrow> auth_step (s, M, G) (s', M, G)"
| Ended: "code_id \<in># M \<Longrightarrow> auth_step (s, M, G) (drop_run code_id minted_by s, M - {#code_id#}, G)"
| Minted: "db_insert_invite i (hb_db (au_hub s)) = (Inr True, d) \<Longrightarrow> ir_failures i = 0 \<Longrightarrow>
    auth_step (s, M, G)
      (s\<lparr> au_hub := (au_hub s)\<lparr> hb_db := d \<rparr> \<rparr>, M, filter_mset (\<lambda>code_id. code_id \<noteq> ir_code_id i) G)"
| Elsewhere: "invites_only_go (au_invites s) (au_invites s') \<Longrightarrow> au_runs s' = au_runs s \<Longrightarrow> stays_faultless s s' \<Longrightarrow>
    auth_step (s, M, G) (s', M, G)"

text \<open>The server starts with no run in flight and no spent invite, which it deletes first.\<close>

inductive auth_reach :: "bool \<Rightarrow> auth_state \<Rightarrow> bool" for faultless where
  Start: "au_runs s = fmempty \<Longrightarrow> (faultless \<Longrightarrow> au_faults s = []) \<Longrightarrow>
    (\<And>code i. fmlookup (au_invites s) code = Some i \<Longrightarrow> i_failures i < unat INVITE_TRIES \<and> count G code = i_failures i) \<Longrightarrow>
    (\<And>code. count G code \<le> unat INVITE_TRIES) \<Longrightarrow> auth_reach faultless (s, {#}, G)"
| Step: "auth_reach faultless t \<Longrightarrow> auth_step t t' \<Longrightarrow> auth_reach faultless t'"

text \<open>The statements of the server that take invites away.\<close>

lemma execute_invites:
  assumes "\<And>d. invites_only_go (tbl_invites d) (tbl_invites (f d))"
  shows "invites_only_go (tbl_invites d) (tbl_invites (snd (execute f d)))"
proof (cases rule: stmt_cases [of "modifyE f" d])
  case (fault fs)
  then show ?thesis by (simp add: execute_def invites_only_go_def)
next
  case (run fs)
  then show ?thesis using assms [of "d\<lparr> db_faults := fs \<rparr>"] by (simp add: execute_def)
qed

lemma retained_go: "invites_only_go m (fmretain P m)"
  by (simp add: invites_only_go_def split: option.splits)

lemma removed_go: "invites_only_go (tbl_invites d) (tbl_invites (fold remove_one ids d))"
proof (induction ids arbitrary: d)
  case (Cons u ids)
  have "invites_only_go (tbl_invites d) (tbl_invites (remove_one u d))" by (simp add: remove_one_def retained_go)
  then show ?case using Cons [of "remove_one u d"] unfolding invites_only_go_def by simp
qed (simp add: invites_only_go_def)

lemma invites_go:
  "invites_only_go (tbl_invites d) (tbl_invites (snd (db_purge_expired_invites now d)))"
  "invites_only_go (tbl_invites d) (tbl_invites (snd (db_delete_spent_invites n d)))"
  "invites_only_go (tbl_invites d) (tbl_invites (snd (db_remove_users ids d)))"
  unfolding db_purge_expired_invites_def db_delete_spent_invites_def db_remove_users_def
  by (intro execute_invites; simp add: retained_go removed_go)+

subsection \<open>What each phase does to the invites\<close>

lemma role_changed_db [simp]: "hb_db (role_changed target role h) = hb_db h"
  by (simp add: role_changed_def Let_def quiet_fields quiet_intros update_session_def split: option.splits)

lemma emitted_db [simp]: "hb_db (emit_user_list_change ev h) = hb_db h" "hb_db (emit_to user ev h) = hb_db h"
  by (simp_all add: quiet_fields quiet_intros)

lemma enroll_invites:
  assumes "db_enroll pubkey code_id name now d = (r, d')"
  shows "invites_only_go (tbl_invites d) (tbl_invites d')" "db_faults d = [] \<Longrightarrow> db_faults d' = []"
proof -
  have user: "tbl_invites d' = tbl_invites d \<and> (db_faults d = [] \<longrightarrow> db_faults d' = [])" if "db_user uid d = (r, d')" for uid r d d'
  proof
    show "tbl_invites d' = tbl_invites d"
      using that unfolding db_user_def by (cases rule: stmt_cases [of "liftE (\<lambda>d. optional_row (user_entry d uid))" d]) auto
    show "db_faults d = [] \<longrightarrow> db_faults d' = []" using that by (auto simp: db_user_def stmt_faultless)
  qed
  obtain r1 d1 where tx: "stmt (enroll_tx pubkey code_id name now) d = (r1, d1)" by fastforce
  have "invites_only_go (tbl_invites d) (tbl_invites d1)"
    using tx by (cases rule: stmt_cases [of "enroll_tx pubkey code_id name now" d])
      (auto simp: enroll_tx_def Let_def invites_only_go_def split: option.splits if_splits)
  moreover have "db_faults d = [] \<Longrightarrow> db_faults d1 = []"
    using tx by (auto simp: stmt_faultless enroll_tx_def Let_def split: option.splits if_splits)
  ultimately show "invites_only_go (tbl_invites d) (tbl_invites d')" "db_faults d = [] \<Longrightarrow> db_faults d' = []"
    using assms tx by (auto simp: db_enroll_def bindE_def dest: user split: sum.splits option.splits prod.splits)
qed

lemma settled:
  assumes "settle run now b s = (r, s')"
  shows "invites_only_go (au_invites s) (au_invites s')" "au_runs s' = au_runs s" "stays_faultless s s'"
proof -
  obtain r1 d1 where e: "db_enroll (en_pubkey run) (en_code_id run) (en_name run) now (hb_db (au_hub s)) = (r1, d1)" by fastforce
  have "b \<Longrightarrow> hb_db (au_hub s') = d1 \<and> au_runs s' = au_runs s" "\<not> b \<Longrightarrow> s' = s"
    using assms e
    by (auto simp: settle_def enroll_hub_def bindE_def auth_db_result split: sum.splits option.splits prod.splits enrolled.splits if_splits)
  then show "invites_only_go (au_invites s) (au_invites s')" "au_runs s' = au_runs s" "stays_faultless s s'"
    using enroll_invites [OF e] by (cases b; simp add: stays_faultless_def invites_only_go_def)+
qed

lemma begin_faultless:
  assumes "begin_enrollment X run s = (r, s')"
  shows "stays_faultless s s'"
proof -
  have consume: "db_faults d = [] \<longrightarrow> db_faults d' = []" if "db_consume_invite_try code_id d = (r, d')" for code_id d r d'
    using that by (auto simp: db_consume_invite_try_def execute_def stmt_faultless split: option.splits)
  have claim: "stays_faultless s s'" if "claim_try code_id now s = (r, s')" for code_id now s r s'
    using that unfolding stays_faultless_def
    by (auto simp: claim_try_def bindE_def auth_db_result count_refusal_def dest!: consume invite_read(2)
      split: sum.splits option.splits prod.splits if_splits)
  then show ?thesis
    using assms by (fastforce simp: begin_enrollment_def bindE_def count_refusal_def stays_faultless_def
      split: sum.splits option.splits prod.splits if_splits)
qed

definition runs_match :: "invite_runs \<Rightarrow> ustring multiset \<Rightarrow> bool" where
  "runs_match runs M \<longleftrightarrow> (\<forall>code. fmlookup runs code = (if code \<in># M then Some (count M code) else None))"

lemma run_started: "runs_match runs M \<Longrightarrow> runs_match (runs_start runs code) (add_mset code M)"
  by (auto simp: runs_match_def runs_start_def fmget_def not_in_iff)

lemma run_finished:
  assumes "runs_match runs M" "code \<in># M" "runs_finish runs code = (alone, runs')"
  shows "runs_match runs' (M - {#code#})" "alone \<longleftrightarrow> count M code = 1"
proof -
  have found: "fmlookup runs code = Some (count M code)" using assms(1,2) by (simp add: runs_match_def)
  have pos: "count M code > 0" using assms(2) by simp
  show "alone \<longleftrightarrow> count M code = 1"
    using assms(3) found pos by (auto simp: runs_finish_def simp del: count_greater_zero_iff split: if_splits)
  show "runs_match runs' (M - {#code#})"
    unfolding runs_match_def
  proof
    fix c
    show "fmlookup runs' c = (if c \<in># M - {#code#} then Some (count (M - {#code#}) c) else None)"
      using assms(1,3) found pos
      by (cases "c = code") (auto simp: runs_match_def runs_finish_def in_diff_count split: if_splits)
  qed
qed

lemma invite_deleted:
  "invites_only_go (tbl_invites d) (tbl_invites (snd (db_delete_invite code d)))"
  "db_faults d = [] \<Longrightarrow> tbl_invites (snd (db_delete_invite code d)) = fmdrop code (tbl_invites d) \<and>
     db_faults (snd (db_delete_invite code d)) = []"
  unfolding db_delete_invite_def
  by (intro execute_invites, simp add: invites_only_go_def) (simp add: execute_def stmt_faultless)

lemma ended:
  assumes "runs_match (au_runs s) M" "code \<in># M" and s': "s' = drop_run code minted_by s"
  shows "runs_match (au_runs s') (M - {#code#})" "invites_only_go (au_invites s) (au_invites s')" "stays_faultless s s'"
    "au_faults s = [] \<Longrightarrow> count M code = 1 \<Longrightarrow> fmlookup (au_invites s') code = Some i \<Longrightarrow> i_failures i < 2 ^ 32 \<Longrightarrow>
       i_failures i < unat INVITE_TRIES"
proof -
  obtain alone runs where fin: "runs_finish (au_runs s) code = (alone, runs)" by fastforce
  obtain found d where read: "db_invite code (hb_db (au_hub s)) = (found, d)" by fastforce
  let ?spent = "case found of Inr (Some i) \<Rightarrow> ir_failures i \<ge> INVITE_TRIES | _ \<Rightarrow> False"
  have result: "au_runs s' = runs \<and> hb_db (au_hub s') =
      (if \<not> alone then hb_db (au_hub s) else if \<not> ?spent then d else snd (db_delete_invite code d))"
    unfolding s' using fin read by (simp add: drop_run_def Let_def split: option.splits)
  note reading = invite_read [OF read] and deleting = invite_deleted [of d code]
  show "runs_match (au_runs s') (M - {#code#})" using run_finished(1) [OF assms(1,2) fin] result by simp
  show "invites_only_go (au_invites s) (au_invites s')" "stays_faultless s s'"
    using result reading(1,2) deleting by (auto simp: stays_faultless_def invites_only_go_def)
  assume clean: "au_faults s = []" and one: "count M code = 1" and left: "fmlookup (au_invites s') code = Some i"
    and small: "i_failures i < 2 ^ 32"
  have alone using run_finished(2) [OF assms(1,2) fin] one by simp
  have stored: "fmlookup (au_invites s) code = Some i"
    using left \<open>invites_only_go (au_invites s) (au_invites s')\<close> by (simp add: invites_only_go_def)
  obtain row where row: "found = Inr (Some row)" "ir_failures row = of_nat (i_failures i)"
    using reading(4) [OF clean stored small] by blast
  have "\<not> ?spent" using result \<open>alone\<close> deleting(2) reading(2) clean left by (auto split: if_splits)
  then show "i_failures i < unat INVITE_TRIES"
    using row small by (simp add: word_le_nat_alt unat_of_nat not_le)
qed

subsection \<open>The invariant\<close>

definition tries_ok :: "bool \<Rightarrow> auth_state \<Rightarrow> bool" where
  "tries_ok faultless t \<longleftrightarrow> (case t of (s, M, G) \<Rightarrow>
     runs_match (au_runs s) M \<and> (faultless \<longrightarrow> au_faults s = []) \<and>
     (\<forall>code. count G code \<le> unat INVITE_TRIES) \<and>
     (\<forall>code i. fmlookup (au_invites s) code = Some i \<longrightarrow>
        count G code = i_failures i \<and> (faultless \<longrightarrow> i_failures i = unat INVITE_TRIES \<longrightarrow> code \<in># M)))"

lemma tries_go:
  assumes "tries_ok faultless (s, M, G)" "invites_only_go (au_invites s) (au_invites s')" "au_runs s' = au_runs s" "stays_faultless s s'"
  shows "tries_ok faultless (s', M, G)"
  using assms by (auto simp: tries_ok_def invites_only_go_def stays_faultless_def)

lemma tries_step:
  assumes "auth_step t t'" "tries_ok faultless t"
  shows "tries_ok faultless t'"
  using assms
proof (cases rule: auth_step.cases)
  case (Claimed X run s i s' M G)
  from Claimed(3) show ?thesis
  proof (cases rule: begun_enrollment)
    case (claimed j stored)
    have "stays_faultless s s'" by (rule begin_faultless [OF Claimed(3)])
    then show ?thesis
      using assms(2) claimed run_started unfolding Claimed(1,2) tries_ok_def stays_faultless_def by auto
  qed blast
next
  case (Not_begun X run s r s' M G)
  from Not_begun(3) show ?thesis
  proof (cases rule: begun_enrollment)
    case refused
    then show ?thesis
      using tries_go [OF assms(2) [unfolded Not_begun(1)]] begin_faultless [OF Not_begun(3)]
      by (simp add: Not_begun(2) invites_only_go_def)
  qed (use Not_begun(4) in blast)
next
  case (Settled run M now b s r s' G)
  then show ?thesis using tries_go [OF assms(2) [unfolded Settled(1)] settled [OF Settled(4)]] by simp
next
  case (Ended code M s G minted_by)
  let ?s = "drop_run code minted_by s"
  have match: "runs_match (au_runs s) M" using assms(2) by (simp add: Ended(1) tries_ok_def)
  note drop = ended [OF match Ended(3) refl, of minted_by]
  note before = assms(2) [unfolded Ended(1) tries_ok_def prod.case]
  have kept: "fmlookup (au_invites s) c = Some i" if "fmlookup (au_invites ?s) c = Some i" for c i
    using drop(2) that by (simp add: invites_only_go_def)
  have small: "i_failures i < 2 ^ 32" if "fmlookup (au_invites s) c = Some i" for c i
  proof -
    have "i_failures i \<le> unat INVITE_TRIES" using before that by metis
    then show ?thesis by (simp add: INVITE_TRIES_def)
  qed
  have "c \<in># M - {#code#}" if at: "fmlookup (au_invites ?s) c = Some i" and full: "i_failures i = unat INVITE_TRIES" and faultless for c i
  proof (cases "c = code \<and> count M code = 1")
    case True
    then show ?thesis using drop(4) [OF _ _ _ small] before at full kept \<open>faultless\<close> by (metis less_irrefl)
  next
    case False
    have "c \<in># M" using before kept [OF at] full \<open>faultless\<close> by blast
    then have "count M c > 0" by simp
    then show ?thesis using False by (auto simp: in_diff_count simp del: count_greater_zero_iff)
  qed
  then show ?thesis
    using before drop(1,3) kept unfolding Ended(2) tries_ok_def stays_faultless_def by auto
next
  case (Minted i s d M G)
  note before = assms(2) [unfolded Minted(1) tries_ok_def prod.case]
  let ?f = "\<lambda>d. if fmlookup (tbl_invites d) (ir_code_id i) \<noteq> None then retE False d
     else retE True (d\<lparr> tbl_invites := fmupd (ir_code_id i)
            \<lparr> i_secret = ir_secret i, i_minted_by = ir_minted_by i, i_expires_at = ir_expires_at i,
              i_failures = unat (ir_failures i) \<rparr> (tbl_invites d) \<rparr>)"
  have run: "stmt ?f (hb_db (au_hub s)) = (Inr True, d)" using Minted(3) by (simp add: db_insert_invite_def)
  then have "tbl_invites d = fmupd (ir_code_id i) \<lparr> i_secret = ir_secret i, i_minted_by = ir_minted_by i,
      i_expires_at = ir_expires_at i, i_failures = 0 \<rparr> (au_invites s)"
    using Minted(4) by (cases rule: stmt_cases [of ?f "hb_db (au_hub s)"]) (auto split: if_splits)
  moreover have "au_faults s = [] \<Longrightarrow> db_faults d = []" using run by (auto simp: stmt_faultless split: if_splits)
  ultimately show ?thesis
    using before unfolding Minted(2) tries_ok_def by (auto simp: INVITE_TRIES_def)
next
  case (Elsewhere s s' M G)
  then show ?thesis using tries_go [OF assms(2) [unfolded Elsewhere(1)]] by simp
qed

lemma reached_tries: "auth_reach faultless t \<Longrightarrow> tries_ok faultless t"
proof (induction rule: auth_reach.induct)
  case (Start s G)
  then have "fmlookup (au_invites s) code = Some i \<Longrightarrow> i_failures i \<noteq> unat INVITE_TRIES" for code i by (metis less_irrefl)
  with Start show ?case by (auto simp: tries_ok_def runs_match_def)
next
  case (Step t t')
  then show ?case using tries_step by blast
qed

text \<open>
  C8. The secret of an invite can be guessed at three times at most. In every state that parallel
  enrollments reach, in any interleaving with each other, with runs that are dropped halfway, with
  minting, expiry and removal of invites and with failures of the database: of each invite id at most
  three tries were claimed since the invite was minted, a stored invite has counted exactly these,
  and the runs in flight are counted exactly. If no statement of the database failed, an invite whose
  tries are used up is still stored only while one of its runs is in flight.
\<close>

theorem invite_guesses_bounded:
  assumes "auth_reach faultless (s, M, G)"
  shows "count G code \<le> 3 \<and> fmget (au_runs s) code 0 = count M code \<and>
    (\<forall>i. fmlookup (tbl_invites (hb_db (au_hub s))) code = Some i \<longrightarrow>
       i_failures i = count G code \<and> (faultless \<longrightarrow> code \<notin># M \<longrightarrow> i_failures i < 3))"
proof -
  note ok = reached_tries [OF assms, unfolded tries_ok_def prod.case]
  have three: "unat INVITE_TRIES = 3" by (simp add: INVITE_TRIES_def)
  have few: "count G code \<le> 3" using ok three by metis
  have runs: "fmget (au_runs s) code 0 = count M code"
    using conjunct1 [OF ok] by (simp add: runs_match_def fmget_def not_in_iff)
  have "i_failures i = count G code \<and> (faultless \<longrightarrow> code \<notin># M \<longrightarrow> i_failures i < 3)"
    if "fmlookup (tbl_invites (hb_db (au_hub s))) code = Some i" for i
    using ok that three few by (metis le_neq_implies_less)
  then show ?thesis using few runs by blast
qed

subsection \<open>A run\<close>

definition demo_code :: ustring where "demo_code = [75, 55, 81]"

definition demo_auth :: auth_server where
  "demo_auth = \<lparr> au_hub = fresh_hub (empty_database\<lparr> tbl_invites := fmupd demo_code
       \<lparr> i_secret = [65], i_minted_by = None, i_expires_at = 100, i_failures = 0 \<rparr> fmempty \<rparr>) (replicate 32 9) fmempty,
     au_runs = fmempty, au_limiter = limiter_default, au_refusals = fmempty, au_fingerprint = replicate 32 9 \<rparr>"

definition demo_auth_env :: auth_env where
  "demo_auth_env = \<lparr> ax_now = 0, ax_unix = 5, ax_crypto = plain_crypto\<lparr> cr_hmac := (\<lambda>_ _. []) \<rparr>, ax_seed = [], ax_decoy = [],
     ax_exporter = Some [], ax_remote = IpV4 0, ax_server_nonce = [],
     ax_channel = \<lparr> ch_write = (\<lambda>_. Some 0), ch_read = (\<lambda>_. Some (0, \<lparr> pf_confirm_a = [], pf_signature = [] \<rparr>)) \<rparr>,
     ax_meanwhile = (\<lambda>s. s) \<rparr>"

definition demo_run :: enrollment where
  "demo_run = \<lparr> en_source = source_of (IpV4 0), en_code_id = demo_code, en_pubkey = replicate 32 7, en_name = [65],
     en_client_nonce = [], en_exporter = [] \<rparr>"

lemma demo_run_begun: "fst (begin_run limiter_default (source_of (IpV4 0)) 0)"
  by code_simp

lemma demo_begun:
  "\<exists>limiter. begin_enrollment demo_auth_env demo_run demo_auth =
     (Inr (Some \<lparr> ir_code_id = demo_code, ir_secret = [65], ir_minted_by = None, ir_expires_at = 100, ir_failures = 0 \<rparr>),
      demo_auth\<lparr> au_limiter := limiter, au_runs := fmupd demo_code 1 fmempty,
        au_hub := fresh_hub (empty_database\<lparr> tbl_invites := fmupd demo_code
          \<lparr> i_secret = [65], i_minted_by = None, i_expires_at = 100, i_failures = 1 \<rparr> fmempty \<rparr>) (replicate 32 9) fmempty \<rparr>)"
proof -
  obtain limiter where "begin_run limiter_default (source_of (IpV4 0)) 0 = (True, limiter)"
    using demo_run_begun by (cases "begin_run limiter_default (source_of (IpV4 0)) 0") auto
  then show ?thesis
    by (simp add: begin_enrollment_def bindE_def demo_run_def demo_auth_env_def demo_auth_def is_full_def fresh_hub_def
      MAX_ONLINE_def claim_try_def auth_db_result db_invite_def stmt_def db_consume_invite_try_def execute_def
      empty_database_def demo_code_def ID_CHARS_def INVITE_TRIES_def runs_start_def fmget_def)
qed

theorem invite_guesses_bounded_witness:
  "\<exists>s. auth_reach True (s, {#demo_code#}, {#demo_code#}) \<and> fmget (au_runs s) demo_code 0 = 1 \<and>
     (\<exists>i. fmlookup (au_invites s) demo_code = Some i \<and> i_failures i = 1)"
proof -
  have "auth_reach True (demo_auth, {#}, {#})"
    by (rule auth_reach.Start) (auto simp: demo_auth_def fresh_hub_def empty_database_def INVITE_TRIES_def split: if_splits)
  moreover obtain i s where begun: "begin_enrollment demo_auth_env demo_run demo_auth = (Inr (Some i), s)"
    "fmlookup (au_invites s) demo_code \<noteq> None" using demo_begun by (fastforce simp: fresh_hub_def)
  have "auth_step (demo_auth, {#}, {#}) (s, {#demo_code#}, {#demo_code#})"
    using auth_step.Claimed [OF begun(1), of "{#}" "{#}"] by (simp add: demo_run_def)
  ultimately have reach: "auth_reach True (s, {#demo_code#}, {#demo_code#})" by (rule auth_reach.Step)
  from invite_guesses_bounded [OF reach, of demo_code] begun(2) reach show ?thesis by auto
qed

lemma demo_enrolled:
  "\<exists>row s. run_enrollment demo_auth_env demo_run [0] demo_auth = (Inr row, s)"
proof -
  obtain limiter s1 where begun: "begin_enrollment demo_auth_env demo_run demo_auth =
     (Inr (Some \<lparr> ir_code_id = demo_code, ir_secret = [65], ir_minted_by = None, ir_expires_at = 100, ir_failures = 0 \<rparr>), s1)"
    "hb_db (au_hub s1) = empty_database\<lparr> tbl_invites := fmupd demo_code
          \<lparr> i_secret = [65], i_minted_by = None, i_expires_at = 100, i_failures = 1 \<rparr> fmempty \<rparr>"
    using demo_begun by (fastforce simp: fresh_hub_def)
  have talk: "exchange demo_auth_env fp demo_run [65] [0] \<noteq> None" for fp
    by (simp add: exchange_def demo_auth_env_def demo_run_def server_respond_def spake2_start_def plain_crypto_def
      server_confirm_of_def confirm_keys_def check_confirm_a_def verify_mac_def mac_def timely_def PAKE_TIMEOUT_def
      PAKE_REPLY_TIMEOUT_def from_secs_def Let_def)
  have "\<exists>row d. db_enroll (replicate 32 7) demo_code [65] 5 (hb_db (au_hub s1)) = (Inr (Some (Added row)), d)"
    unfolding begun(2)
    by (simp add: db_enroll_def bindE_def stmt_def enroll_tx_def empty_database_def i64_less_def user_id_by_pubkey_def
      next_rowid_def db_user_def optional_row_def user_entry_def user_row_of_def new_user_def)
  then obtain row d where "db_enroll (replicate 32 7) demo_code [65] 5 (hb_db (au_hub s1)) = (Inr (Some (Added row)), d)" by blast
  then have "\<exists>s. settle demo_run 5 True s1 = (Inr row, s)"
    by (simp add: settle_def enroll_hub_def bindE_def auth_db_result demo_run_def)
  then show ?thesis
    using begun(1) talk by (auto simp: run_enrollment_def bindE_def Let_def demo_auth_env_def split: prod.splits)
qed

theorem signed_in_means_key_proved_witness:
  "\<exists>a s. authenticate demo_auth_env (Enroll demo_code (replicate 32 7) [] [0] [65]) demo_auth = (Inr a, s) \<and>
     row_pubkey (an_row a) = replicate 32 7"
proof -
  have "valid_name [65] = Some [65]" "normalize demo_code = demo_code" by code_simp+
  then obtain a s where run: "authenticate demo_auth_env (Enroll demo_code (replicate 32 7) [] [0] [65]) demo_auth = (Inr a, s)"
    using demo_enrolled by (auto simp: authenticate_def bindE_def demo_run_def demo_auth_env_def)
  from signed_in_means_key_proved [OF run] run show ?thesis by auto
qed

end
