(* ===== verification/Replay.thy ===== *)
theory Replay
  imports Wire
begin

text \<open>
  The replay window of \<open>fragment.rs\<close>: a bitmap of 2048 bits, in 32 words, behind the highest sequence
  number seen on a track. Sequence numbers are \<open>u32\<close> values and counters \<open>u64\<close> values, here natural
  numbers: every sum stays below the highest sequence number plus one, so nothing wraps. The bitmap
  refines a plain set of the numbers seen: the same answers, so no number is accepted twice, and the
  counter of lost datagrams is exact.
\<close>

unbundle bit_operations_syntax

subsection \<open>The window\<close>


datatype seen = New | Duplicate | TooOld




definition window_set :: "u64 list \<Rightarrow> nat \<Rightarrow> u64 list" where
  "window_set bits behind = bits[behind div 64 := bits ! (behind div 64) OR push_bit (behind mod 64) 1]"







subsection \<open>The bitmap\<close>



lemma length_set [simp]: "length (window_set bits p) = length bits"
  by (simp add: window_set_def)







subsection \<open>A set of numbers seen\<close>

text \<open>
  What the window stands for: the set of all numbers taken as new so far, and the count of those that
  forward jumps of a whole window passed over.
\<close>

type_synonym seen_set = "nat set \<times> nat"

definition seen_peek :: "seen_set \<Rightarrow> nat \<Rightarrow> seen" where
  "seen_peek t seq =
     (if fst t = {} \<or> Max (fst t) < seq then New
      else if Max (fst t) - seq \<ge> 2048 then TooOld else if seq \<in> fst t then Duplicate else New)"

definition seen_check :: "seen_set \<Rightarrow> nat \<Rightarrow> seen \<times> seen_set" where
  "seen_check t seq =
     (let s = seen_peek t seq in
      (s, if s \<noteq> New then t
          else (insert seq (fst t),
                if fst t \<noteq> {} \<and> 2048 \<le> seq - Max (fst t) then snd t + (seq - Max (fst t) - 1) else snd t)))"











fun seen_checks :: "seen_set \<Rightarrow> nat list \<Rightarrow> seen list \<times> seen_set" where
  "seen_checks t [] = ([], t)"
| "seen_checks t (seq # seqs) =
     (let (s, t) = seen_check t seq; (ss, t) = seen_checks t seqs in (s # ss, t))"

lemma seen_checks_Cons:
  "fst (seen_checks t (seq # seqs)) = fst (seen_check t seq) # fst (seen_checks (snd (seen_check t seq)) seqs)"
  "snd (seen_checks t (seq # seqs)) = snd (seen_checks (snd (seen_check t seq)) seqs)"
  by (simp_all add: case_prod_unfold Let_def)

declare seen_checks.simps(2) [simp del]
declare seen_checks_Cons [simp]







end
