(* ===== verification/Fragments.thy ===== *)
theory Fragments
  imports Wire
begin

text \<open>
  Access units and their fragments, \<open>fragment.rs\<close> of the client: cutting a unit into fragments that
  each fill a datagram, and rebuilding units from fragments that arrive in any order. The reassembler
  keeps the fragments, which of them are first and last ones, and the maximal runs of consecutive
  sequence numbers. Sequence numbers are \<open>u32\<close> values, here natural numbers with the checks against
  both ends written out. This theory has the definitions and what the runs are.
\<close>

unbundle bit_operations_syntax

subsection \<open>Fragments\<close>

definition TIMESTAMP_BYTES :: nat where "TIMESTAMP_BYTES = 4"

record fragment =
  fr_flags :: flags
  fr_timestamp :: "bytes option"
  fr_body :: bytes

definition plaintext_parts :: "fragment \<Rightarrow> bytes list" where
  "plaintext_parts f = [case fr_timestamp f of None \<Rightarrow> [] | Some t \<Rightarrow> t, fr_body f]"

lemma body_bytes [simp]: "BODY_BYTES = 1133"
  by (simp add: BODY_BYTES_def DATAGRAM_PAYLOAD_FLOOR_def HEADER_BYTES_def TAG_BYTES_def)

function fragments_from :: "flags \<Rightarrow> bytes \<Rightarrow> nat \<Rightarrow> fragment list" where
  "fragments_from base unit pos =
     (if pos < length unit
      then let stop = min (pos + BODY_BYTES) (length unit)
           in \<lparr> fr_flags = base, fr_timestamp = None, fr_body = take (stop - pos) (drop pos unit) \<rparr> # fragments_from base unit stop
      else [])"
  by pat_completeness auto
termination by (relation "measure (\<lambda>(base, unit, pos). length unit - pos)") auto

declare fragments_from.simps [simp del]

definition mark_last :: "fragment list \<Rightarrow> fragment list" where
  "mark_last fs = (if fs = [] then [] else butlast fs @ [(last fs)\<lparr> fr_flags := fr_flags (last fs) OR LAST \<rparr>])"

definition fragment_unit :: "bytes \<Rightarrow> u32 \<Rightarrow> bool \<Rightarrow> fragment list" where
  "fragment_unit unit timestamp keyframe =
     (let base = flags_with 0 KEYFRAME keyframe;
          first_len = min (length unit) (BODY_BYTES - TIMESTAMP_BYTES)
      in mark_last (\<lparr> fr_flags = base OR FIRST, fr_timestamp = Some (to_be_bytes timestamp), fr_body = take first_len unit \<rparr>
                    # fragments_from base unit first_len))"

subsection \<open>The reassembler\<close>

record access_unit =
  un_first_seq :: nat
  un_last_seq :: nat
  un_timestamp :: u32
  un_flags :: flags
  un_data :: bytes

definition MAX_VIDEO_UNIT_FRAGMENTS :: nat where "MAX_VIDEO_UNIT_FRAGMENTS = 4096"
definition MAX_AUDIO_UNIT_FRAGMENTS :: nat where "MAX_AUDIO_UNIT_FRAGMENTS = 4"
definition MAX_BUFFERED :: nat where "MAX_BUFFERED = 4096"
definition BUFFERED_UNITS :: nat where "BUFFERED_UNITS = 64"

definition max_unit_bytes :: "nat \<Rightarrow> nat" where
  "max_unit_bytes max_fragments = max_fragments * BODY_BYTES - TIMESTAMP_BYTES"

record reassembler =
  ra_max_fragments :: nat
  ra_max_buffered :: nat
  ra_fragments :: "(nat, flags \<times> bytes) fmap"
  ra_firsts :: "nat fset"
  ra_lasts :: "nat fset"
  ra_spans :: "(nat, nat) fmap"

definition new_reassembler :: "nat \<Rightarrow> reassembler" where
  "new_reassembler max_fragments =
     \<lparr> ra_max_fragments = min (max max_fragments 1) (2 ^ 32 - 1),
       ra_max_buffered = min MAX_BUFFERED (max max_fragments 1 * BUFFERED_UNITS),
       ra_fragments = fmempty, ra_firsts = {||}, ra_lasts = {||}, ra_spans = fmempty \<rparr>"

text \<open>\<open>range(a..=b).next()\<close> and \<open>.next_back()\<close> on an ordered set.\<close>

definition range_next :: "nat fset \<Rightarrow> nat \<Rightarrow> nat \<Rightarrow> nat option" where
  "range_next S a b = (let R = ffilter (\<lambda>x. a \<le> x \<and> x \<le> b) S in if R = {||} then None else Some (fMin R))"

definition range_next_back :: "nat fset \<Rightarrow> nat \<Rightarrow> nat \<Rightarrow> nat option" where
  "range_next_back S a b = (let R = ffilter (\<lambda>x. a \<le> x \<and> x \<le> b) S in if R = {||} then None else Some (fMax R))"

definition span_of :: "reassembler \<Rightarrow> nat \<Rightarrow> (nat \<times> nat) option" where
  "span_of r seq =
     (case range_next_back (fmdom (ra_spans r)) 0 seq of
        None \<Rightarrow> None
      | Some lo \<Rightarrow>
          (case fmlookup (ra_spans r) lo of
             None \<Rightarrow> None
           | Some hi \<Rightarrow> if hi \<ge> seq then Some (lo, hi) else None))"

definition join_spans :: "nat \<Rightarrow> reassembler \<Rightarrow> reassembler" where
  "join_spans seq r =
     (let lo = (if seq = 0 then seq else case span_of r (seq - 1) of Some (lo, _) \<Rightarrow> lo | None \<Rightarrow> seq);
          joined = (if seq + 1 < 2 ^ 32 then fmlookup (ra_spans r) (seq + 1) else None);
          spans = (if seq + 1 < 2 ^ 32 then fmdrop (seq + 1) (ra_spans r) else ra_spans r);
          hi = (case joined of Some hi \<Rightarrow> hi | None \<Rightarrow> seq)
      in r\<lparr> ra_spans := fmupd lo hi spans \<rparr>)"

definition set_flag :: "bool \<Rightarrow> nat \<Rightarrow> nat fset \<Rightarrow> nat fset" where
  "set_flag on seq S = (if on then finsert seq S else S |-| {|seq|})"

definition insert_fragment :: "nat \<Rightarrow> flags \<Rightarrow> bytes \<Rightarrow> reassembler \<Rightarrow> reassembler" where
  "insert_fragment seq flags plaintext r =
     (let fresh = (fmlookup (ra_fragments r) seq = None);
          r = r\<lparr> ra_fragments := fmupd seq (flags, plaintext) (ra_fragments r) \<rparr>;
          r = (if fresh then join_spans seq r else r)
      in r\<lparr> ra_firsts := set_flag (contains flags FIRST) seq (ra_firsts r),
            ra_lasts := set_flag (contains flags LAST) seq (ra_lasts r) \<rparr>)"

definition unlink :: "nat \<Rightarrow> nat \<Rightarrow> reassembler \<Rightarrow> reassembler" where
  "unlink first final r =
     (let spans = (case span_of r first of
                     None \<Rightarrow> ra_spans r
                   | Some (lo, hi) \<Rightarrow>
                       let spans = fmdrop lo (ra_spans r);
                           spans = (if lo < first then fmupd lo (first - 1) spans else spans)
                       in if final < hi then fmupd (final + 1) hi spans else spans);
          gone = fset_of_list [first..<final + 1]
      in r\<lparr> ra_spans := spans, ra_firsts := ra_firsts r |-| gone, ra_lasts := ra_lasts r |-| gone \<rparr>)"

definition drop_fragments :: "nat \<Rightarrow> nat \<Rightarrow> reassembler \<Rightarrow> reassembler" where
  "drop_fragments first final r = (unlink first final r)\<lparr> ra_fragments := fmdrop_fset (fset_of_list [first..<final + 1]) (ra_fragments r) \<rparr>"

definition drop_unfinishable :: "nat \<Rightarrow> nat \<Rightarrow> reassembler \<Rightarrow> reassembler" where
  "drop_unfinishable lo hi r =
     (let after_last = (case range_next_back (ra_lasts r) lo hi of Some l \<Rightarrow> l + 1 | None \<Rightarrow> lo)
      in if hi - after_last \<ge> ra_max_fragments r - 1
         then drop_fragments after_last (hi - (ra_max_fragments r - 1)) r else r)"

definition build_unit :: "nat \<Rightarrow> nat \<Rightarrow> (flags \<times> bytes) list \<Rightarrow> access_unit option" where
  "build_unit first final run =
     (case run of
        [] \<Rightarrow> None
      | (flags, head) # rest \<Rightarrow>
          (case head of
             t0 # t1 # t2 # t3 # head \<Rightarrow>
               Some \<lparr> un_first_seq = first, un_last_seq = final, un_timestamp = from_be_bytes t0 t1 t2 t3,
                      un_flags = flags OR LAST, un_data = head @ concat (map snd rest) \<rparr>
           | _ \<Rightarrow> None))"

definition take_unit :: "nat \<Rightarrow> nat \<Rightarrow> reassembler \<Rightarrow> access_unit option \<times> reassembler" where
  "take_unit first final r =
     (build_unit first final (List.map_filter (fmlookup (ra_fragments r)) [first..<final + 1]), drop_fragments first final r)"

text \<open>The three parts of \<open>push\<close>: making room, inserting, and looking for a unit around the new fragment.\<close>

definition make_room :: "nat \<Rightarrow> reassembler \<Rightarrow> reassembler" where
  "make_room seq r =
     (if fmsize (ra_fragments r) \<ge> ra_max_buffered r \<and> fmlookup (ra_fragments r) seq = None \<and> ra_fragments r \<noteq> fmempty
      then let oldest = fMin (fmdom (ra_fragments r)) in drop_fragments oldest oldest r else r)"

definition unit_around :: "nat \<Rightarrow> reassembler \<Rightarrow> access_unit option \<times> reassembler" where
  "unit_around seq r =
     (case span_of r seq of
        None \<Rightarrow> (None, r)
      | Some (lo, hi) \<Rightarrow>
          (case range_next (ra_lasts r) seq hi of
             None \<Rightarrow> (None, drop_unfinishable lo hi r)
           | Some final \<Rightarrow>
               (case range_next_back (ra_firsts r) lo seq of
                  Some first \<Rightarrow>
                    if final - first < ra_max_fragments r then take_unit first final r
                    else (None, drop_fragments first final r)
                | None \<Rightarrow>
                    if final - lo \<ge> ra_max_fragments r - 1 then (None, drop_fragments lo final r) else (None, r))))"

definition reassembler_push :: "nat \<Rightarrow> flags \<Rightarrow> bytes \<Rightarrow> reassembler \<Rightarrow> access_unit option \<times> reassembler" where
  "reassembler_push seq flags plaintext r = unit_around seq (insert_fragment seq flags plaintext (make_room seq r))"

definition forget_before :: "nat \<Rightarrow> reassembler \<Rightarrow> reassembler" where
  "forget_before seq r =
     (let r = r\<lparr> ra_fragments := fmfilter (\<lambda>s. seq \<le> s) (ra_fragments r),
                 ra_firsts := ffilter (\<lambda>s. seq \<le> s) (ra_firsts r), ra_lasts := ffilter (\<lambda>s. seq \<le> s) (ra_lasts r) \<rparr>;
          straddling = (case span_of r seq of Some (lo, hi) \<Rightarrow> if lo < seq then Some hi else None | None \<Rightarrow> None);
          spans = fmfilter (\<lambda>lo. seq \<le> lo) (ra_spans r)
      in r\<lparr> ra_spans := (case straddling of Some hi \<Rightarrow> fmupd seq hi spans | None \<Rightarrow> spans) \<rparr>)"

subsection \<open>Maximal runs\<close>

definition is_span :: "nat set \<Rightarrow> nat \<Rightarrow> nat \<Rightarrow> bool" where
  "is_span B lo hi \<longleftrightarrow> lo \<le> hi \<and> {lo..hi} \<subseteq> B \<and> (lo = 0 \<or> lo - 1 \<notin> B) \<and> Suc hi \<notin> B"

definition spans_ok :: "reassembler \<Rightarrow> nat set \<Rightarrow> bool" where
  "spans_ok r B \<longleftrightarrow> (\<forall>lo hi. fmlookup (ra_spans r) lo = Some hi \<longleftrightarrow> is_span B lo hi)"

lemma span_exists:
  assumes "finite B" "seq \<in> B"
  shows "\<exists>lo hi. is_span B lo hi \<and> lo \<le> seq \<and> seq \<le> hi"
proof -
  define lo where "lo = (LEAST l. l \<le> seq \<and> {l..seq} \<subseteq> B)"
  have lo: "lo \<le> seq \<and> {lo..seq} \<subseteq> B"
    unfolding lo_def by (rule LeastI [of _ seq]) (use assms in simp)
  have least: "lo \<le> l" if "l \<le> seq" "{l..seq} \<subseteq> B" for l
    unfolding lo_def using that by (simp add: Least_le)
  let ?H = "{h. seq \<le> h \<and> {seq..h} \<subseteq> B}"
  have "?H \<subseteq> B" by auto
  then have fin: "finite ?H" using assms(1) by (rule finite_subset)
  have "seq \<in> ?H" using assms by simp
  then have hi: "Max ?H \<in> ?H" using fin Max_in by blast
  have "lo = 0 \<or> lo - 1 \<notin> B"
  proof (rule disjCI, rule ccontr)
    assume "\<not> lo - 1 \<notin> B" "\<not> lo = 0"
    then have "{lo - 1..seq} \<subseteq> B" using lo by (auto simp: subset_iff) (metis Suc_pred le_neq_implies_less less_Suc_eq_le not_less_eq_eq not_gr_zero)
    then have "lo \<le> lo - 1" using lo by (intro least) auto
    then show False using \<open>\<not> lo = 0\<close> by linarith
  qed
  moreover have "Suc (Max ?H) \<notin> B"
  proof
    assume "Suc (Max ?H) \<in> B"
    then have "Suc (Max ?H) \<in> ?H" using hi by (auto simp: le_Suc_eq)
    then show False using Max_ge [OF fin, of "Suc (Max ?H)"] by simp
  qed
  moreover have "{lo..Max ?H} \<subseteq> {lo..seq} \<union> {seq..Max ?H}" by auto
  then have "{lo..Max ?H} \<subseteq> B" using lo hi by blast
  ultimately have "is_span B lo (Max ?H)" using lo hi \<open>{lo..Max ?H} \<subseteq> B\<close> by (simp add: is_span_def)
  then show ?thesis using lo hi by blast
qed

lemma span_unique:
  assumes "is_span B lo hi" "is_span B lo' hi'" "lo \<le> s" "s \<le> hi" "lo' \<le> s" "s \<le> hi'"
  shows "lo = lo' \<and> hi = hi'"
proof -
  have low: "a \<le> a'" if "is_span B a b" "is_span B a' b'" "a' \<le> s" "a \<le> s" "s \<le> b'" "s \<le> b" for a b a' b'
  proof (rule ccontr)
    assume "\<not> a \<le> a'"
    then have "a - 1 \<in> {a'..b'}" "a \<noteq> 0" using that by auto
    then show False using that(1,2) by (auto simp: is_span_def)
  qed
  have high: "b \<ge> b'" if "is_span B a b" "is_span B a' b'" "a' \<le> s" "a \<le> s" "s \<le> b'" "s \<le> b" for a b a' b'
  proof (rule ccontr)
    assume "\<not> b \<ge> b'"
    then have "Suc b \<in> {a'..b'}" using that by auto
    then show False using that(1,2) by (auto simp: is_span_def)
  qed
  show ?thesis using low high assms by (meson order_antisym)
qed

lemma range_next_iff:
  "range_next S a b = Some x \<longleftrightarrow> x |\<in>| S \<and> a \<le> x \<and> x \<le> b \<and> (\<forall>y. y |\<in>| S \<longrightarrow> a \<le> y \<longrightarrow> y \<le> b \<longrightarrow> x \<le> y)"
  "range_next S a b = None \<longleftrightarrow> (\<forall>y. y |\<in>| S \<longrightarrow> a \<le> y \<longrightarrow> y \<le> b \<longrightarrow> False)"
proof -
  let ?R = "ffilter (\<lambda>x. a \<le> x \<and> x \<le> b) S"
  have least: "?R \<noteq> {||} \<Longrightarrow> fMin ?R |\<in>| ?R \<and> (\<forall>y. y |\<in>| ?R \<longrightarrow> fMin ?R \<le> y)" using fMin_in fMin_le by blast
  show "range_next S a b = None \<longleftrightarrow> (\<forall>y. y |\<in>| S \<longrightarrow> a \<le> y \<longrightarrow> y \<le> b \<longrightarrow> False)"
    by (auto simp: range_next_def Let_def)
  show "range_next S a b = Some x \<longleftrightarrow> x |\<in>| S \<and> a \<le> x \<and> x \<le> b \<and> (\<forall>y. y |\<in>| S \<longrightarrow> a \<le> y \<longrightarrow> y \<le> b \<longrightarrow> x \<le> y)"
    using least by (cases "?R = {||}") (auto simp: range_next_def Let_def intro: order_antisym)
qed

lemma range_next_back_iff:
  "range_next_back S a b = Some x \<longleftrightarrow> x |\<in>| S \<and> a \<le> x \<and> x \<le> b \<and> (\<forall>y. y |\<in>| S \<longrightarrow> a \<le> y \<longrightarrow> y \<le> b \<longrightarrow> y \<le> x)"
  "range_next_back S a b = None \<longleftrightarrow> (\<forall>y. y |\<in>| S \<longrightarrow> a \<le> y \<longrightarrow> y \<le> b \<longrightarrow> False)"
proof -
  let ?R = "ffilter (\<lambda>x. a \<le> x \<and> x \<le> b) S"
  have greatest: "?R \<noteq> {||} \<Longrightarrow> fMax ?R |\<in>| ?R \<and> (\<forall>y. y |\<in>| ?R \<longrightarrow> y \<le> fMax ?R)" using fMax_in fMax_ge by blast
  show "range_next_back S a b = None \<longleftrightarrow> (\<forall>y. y |\<in>| S \<longrightarrow> a \<le> y \<longrightarrow> y \<le> b \<longrightarrow> False)"
    by (auto simp: range_next_back_def Let_def)
  show "range_next_back S a b = Some x \<longleftrightarrow> x |\<in>| S \<and> a \<le> x \<and> x \<le> b \<and> (\<forall>y. y |\<in>| S \<longrightarrow> a \<le> y \<longrightarrow> y \<le> b \<longrightarrow> y \<le> x)"
    using greatest by (cases "?R = {||}") (auto simp: range_next_back_def Let_def intro: order_antisym)
qed

lemma span_of_iff:
  assumes ok: "spans_ok r B" and fin: "finite B"
  shows "span_of r seq = Some (lo, hi) \<longleftrightarrow> is_span B lo hi \<and> lo \<le> seq \<and> seq \<le> hi"
proof
  assume "span_of r seq = Some (lo, hi)"
  then have "range_next_back (fmdom (ra_spans r)) 0 seq = Some lo" "fmlookup (ra_spans r) lo = Some hi" "seq \<le> hi"
    by (auto simp: span_of_def split: option.splits if_splits)
  then show "is_span B lo hi \<and> lo \<le> seq \<and> seq \<le> hi" using ok by (auto simp: spans_ok_def range_next_back_iff)
next
  assume span: "is_span B lo hi \<and> lo \<le> seq \<and> seq \<le> hi"
  then have lo: "fmlookup (ra_spans r) lo = Some hi" using ok by (simp add: spans_ok_def)
  have "k \<le> lo" if k: "k |\<in>| fmdom (ra_spans r)" "k \<le> seq" for k
  proof (rule ccontr)
    assume "\<not> k \<le> lo"
    obtain h where "is_span B k h" using k(1) ok by (auto simp: spans_ok_def elim: fmdomE)
    moreover have "k - 1 \<in> {lo..hi}" using \<open>\<not> k \<le> lo\<close> k(2) span by auto
    ultimately show False using span \<open>\<not> k \<le> lo\<close> by (auto simp: is_span_def)
  qed
  then have "range_next_back (fmdom (ra_spans r)) 0 seq = Some lo"
    using span lo by (auto simp: range_next_back_iff intro: fmdomI)
  then show "span_of r seq = Some (lo, hi)" using lo span by (simp add: span_of_def)
qed

lemma span_of_None:
  assumes "spans_ok r B" "finite B"
  shows "span_of r seq = None \<longleftrightarrow> seq \<notin> B"
proof
  assume "span_of r seq = None"
  then show "seq \<notin> B" using span_exists [OF assms(2), of seq] span_of_iff [OF assms, of seq] by auto
next
  assume "seq \<notin> B"
  then show "span_of r seq = None"
    using span_of_iff [OF assms, of seq] by (cases "span_of r seq") (auto simp: is_span_def subset_iff)
qed

subsection \<open>Joining and splitting runs\<close>

lemma span_insert:
  assumes new: "seq \<notin> B" and lo: "lo = (if seq \<noteq> 0 \<and> seq - 1 \<in> B then l0 else seq)" and hi: "hi = (if Suc seq \<in> B then h0 else seq)"
    and low: "seq \<noteq> 0 \<Longrightarrow> seq - 1 \<in> B \<Longrightarrow> is_span B l0 (seq - 1)" and high: "Suc seq \<in> B \<Longrightarrow> is_span B (Suc seq) h0"
  shows "is_span (insert seq B) l h \<longleftrightarrow> l = lo \<and> h = hi \<or> is_span B l h \<and> l \<noteq> Suc seq \<and> Suc h \<noteq> seq"
proof -
  have below: "lo \<le> seq \<and> {lo..<seq} \<subseteq> B \<and> (lo = 0 \<or> lo - 1 \<notin> insert seq B)"
  proof (cases "seq \<noteq> 0 \<and> seq - 1 \<in> B")
    case True
    moreover have "{l0..<seq} = {l0..seq - 1}" using True by auto
    ultimately show ?thesis using low new by (auto simp: lo is_span_def)
  next
    case False
    then show ?thesis by (auto simp: lo)
  qed
  have above: "seq \<le> hi \<and> {Suc seq..hi} \<subseteq> B \<and> Suc hi \<notin> insert seq B"
    using high by (cases "Suc seq \<in> B") (auto simp: hi is_span_def)
  have "{lo..hi} \<subseteq> {lo..<seq} \<union> {seq} \<union> {Suc seq..hi}" by auto
  then have "{lo..hi} \<subseteq> insert seq B" using below above by blast
  then have joined: "is_span (insert seq B) lo hi" using below above by (simp add: is_span_def)
  have kept: "is_span (insert seq B) l h" if "is_span B l h" "l \<noteq> Suc seq" "Suc h \<noteq> seq"
    using that by (auto simp: is_span_def)
  have old: "is_span B l h \<and> l \<noteq> Suc seq \<and> Suc h \<noteq> seq" if "is_span (insert seq B) l h" "seq \<notin> {l..h}"
    using that by (auto simp: is_span_def subset_iff)
  show ?thesis
    using joined kept old span_unique [OF _ joined, of l h seq] below above by (auto simp: atLeastAtMost_iff)
qed

lemma span_remove:
  assumes span: "is_span B lo hi" and cut: "lo \<le> f" "f \<le> t" "t \<le> hi"
  shows "is_span (B - {f..t}) l h \<longleftrightarrow>
    is_span B l h \<and> l \<noteq> lo \<or> l = lo \<and> h = f - 1 \<and> lo < f \<or> l = Suc t \<and> h = hi \<and> t < hi"
proof -
  have inside: "{lo..f - 1} \<subseteq> {lo..hi}" "{Suc t..hi} \<subseteq> {lo..hi}" using cut by auto
  have left: "is_span (B - {f..t}) lo (f - 1)" if "lo < f" using span cut that inside(1) by (auto simp: is_span_def)
  have right: "is_span (B - {f..t}) (Suc t) hi" if "t < hi" using span cut that inside(2) by (auto simp: is_span_def)
  have kept: "is_span (B - {f..t}) l h" if other: "is_span B l h" "l \<noteq> lo"
  proof -
    have "{l..h} \<inter> {lo..hi} = {}"
    proof (rule ccontr)
      assume "{l..h} \<inter> {lo..hi} \<noteq> {}"
      then obtain s where "s \<in> {l..h}" "s \<in> {lo..hi}" by blast
      then show False using span_unique [OF other(1) span, of s] other(2) by auto
    qed
    moreover have "{f..t} \<subseteq> {lo..hi}" using cut by auto
    ultimately have "{l..h} \<inter> {f..t} = {}" by blast
    then show ?thesis using other(1) by (auto simp: is_span_def)
  qed
  have old: "is_span B l h \<and> l \<noteq> lo" if piece: "is_span (B - {f..t}) l h" and apart: "{l..h} \<inter> {lo..hi} = {}"
  proof -
    have lh: "l \<le> h" "{l..h} \<subseteq> B" using piece by (auto simp: is_span_def)
    have "l = 0 \<or> l - 1 \<notin> B"
    proof (rule ccontr)
      assume "\<not> ?thesis"
      then have "l - 1 \<in> {f..t}" "l \<noteq> 0" using piece by (auto simp: is_span_def)
      then have "l \<in> {lo..hi} \<or> l = Suc hi" using cut by auto
      then show False using apart lh span by (auto simp: is_span_def)
    qed
    moreover have "Suc h \<notin> B"
    proof
      assume "Suc h \<in> B"
      then have "Suc h \<in> {f..t}" using piece by (auto simp: is_span_def)
      then have "h \<in> {lo..hi} \<or> lo \<noteq> 0 \<and> h = lo - 1" using cut by auto
      then show False using apart lh span by (auto simp: is_span_def)
    qed
    ultimately show ?thesis using lh apart span by (auto simp: is_span_def)
  qed
  have pieces: "l = lo \<and> h = f - 1 \<and> lo < f \<or> l = Suc t \<and> h = hi \<and> t < hi"
    if piece: "is_span (B - {f..t}) l h" and x: "x \<in> {l..h}" "x \<in> {lo..hi}" for x
  proof -
    have "x \<notin> {f..t}" using piece x(1) by (auto simp: is_span_def)
    then consider "x < f" | "t < x" using cut by fastforce
    then show ?thesis
    proof cases
      case 1
      then show ?thesis using span_unique [OF piece left, of x] x by auto
    next
      case 2
      then show ?thesis using span_unique [OF piece right, of x] x by auto
    qed
  qed
  show ?thesis using left right kept old pieces by blast
qed

lemma joined_ok:
  assumes ok: "spans_ok r B" and fin: "finite B" and new: "seq \<notin> B" and bound: "B \<subseteq> {..<2 ^ 32}"
  shows "spans_ok (join_spans seq r) (insert seq B)"
proof -
  define l0 where "l0 = (case span_of r (seq - 1) of Some (lo, _) \<Rightarrow> lo | None \<Rightarrow> seq)"
  define h0 where "h0 = (case fmlookup (ra_spans r) (Suc seq) of Some hi \<Rightarrow> hi | None \<Rightarrow> seq)"
  have low: "is_span B l0 (seq - 1)" if pos: "seq \<noteq> 0" and in_B: "seq - 1 \<in> B"
  proof -
    obtain lo hi where span: "is_span B lo hi" "lo \<le> seq - 1" "seq - 1 \<le> hi" using span_exists [OF fin in_B] by blast
    have "hi = seq - 1"
    proof (rule ccontr)
      assume "hi \<noteq> seq - 1"
      then have "seq \<in> {lo..hi}" using span pos by auto
      then show False using span(1) new by (auto simp: is_span_def)
    qed
    then have "span_of r (seq - 1) = Some (lo, seq - 1)" using span span_of_iff [OF ok fin] by simp
    then show ?thesis using span(1) \<open>hi = seq - 1\<close> by (simp add: l0_def)
  qed
  have high: "is_span B (Suc seq) h0" if in_B: "Suc seq \<in> B"
  proof -
    obtain lo hi where span: "is_span B lo hi" "lo \<le> Suc seq" "Suc seq \<le> hi" using span_exists [OF fin in_B] by blast
    have "lo = Suc seq"
    proof (rule ccontr)
      assume "lo \<noteq> Suc seq"
      then have "seq \<in> {lo..hi}" using span by auto
      then show False using span(1) new by (auto simp: is_span_def)
    qed
    then have "fmlookup (ra_spans r) (Suc seq) = Some hi" using span(1) ok by (simp add: spans_ok_def)
    then show ?thesis using span(1) \<open>lo = Suc seq\<close> by (simp add: h0_def)
  qed
  have none: "fmlookup (ra_spans r) (Suc seq) = None" if "Suc seq \<notin> B"
    using that ok by (cases "fmlookup (ra_spans r) (Suc seq)") (auto simp: spans_ok_def is_span_def)
  have no_low: "l0 = seq" if "seq - 1 \<notin> B"
    using iffD2 [OF span_of_None [OF ok fin] that] by (simp add: l0_def)
  define lo where "lo = (if seq \<noteq> 0 \<and> seq - 1 \<in> B then l0 else seq)"
  define hi where "hi = (if Suc seq \<in> B then h0 else seq)"
  have far: "Suc seq \<in> B \<Longrightarrow> Suc seq < 2 ^ 32" using bound by auto
  have "lo = (if seq = 0 then seq else l0)" using no_low by (auto simp: lo_def)
  moreover have "hi = (case (if seq + 1 < 2 ^ 32 then fmlookup (ra_spans r) (seq + 1) else None) of Some hi \<Rightarrow> hi | None \<Rightarrow> seq)"
    using none far by (auto simp: hi_def h0_def)
  moreover have "fmlookup (if seq + 1 < 2 ^ 32 then fmdrop (seq + 1) (ra_spans r) else ra_spans r) l =
      (if l = Suc seq then None else fmlookup (ra_spans r) l)" for l using none far by auto
  ultimately have spans: "fmlookup (ra_spans (join_spans seq r)) l =
      (if l = lo then Some hi else if l = Suc seq then None else fmlookup (ra_spans r) l)" for l
    by (simp add: join_spans_def Let_def l0_def)
  have start: "l = lo \<longleftrightarrow> Suc h = seq" if "is_span B l h" for l h
  proof
    assume "l = lo"
    then have "l \<noteq> seq" using that new by (auto simp: is_span_def)
    then have "is_span B l (seq - 1)" "seq \<noteq> 0" using low \<open>l = lo\<close> by (auto simp: lo_def split: if_splits)
    then show "Suc h = seq" using span_unique [OF that, of l "seq - 1" l] that by (auto simp: is_span_def)
  next
    assume "Suc h = seq"
    then have "seq - 1 \<in> B" "seq \<noteq> 0" using that by (auto simp: is_span_def)
    moreover from this have "is_span B l0 (seq - 1)" by (intro low)
    moreover from this have "l0 \<le> seq - 1" by (simp add: is_span_def)
    ultimately show "l = lo"
      using span_unique [OF that, of l0 "seq - 1" "seq - 1"] \<open>Suc h = seq\<close> that by (auto simp: lo_def is_span_def)
  qed
  have joined: "is_span (insert seq B) l h \<longleftrightarrow> l = lo \<and> h = hi \<or> is_span B l h \<and> l \<noteq> Suc seq \<and> Suc h \<noteq> seq" for l h
    by (rule span_insert [OF new lo_def hi_def]) (fact low, fact high)
  have "lo \<le> seq" using low by (auto simp: lo_def is_span_def)
  then show ?thesis
    unfolding spans_ok_def joined spans
    using ok [unfolded spans_ok_def] start by (auto split: if_splits)
qed

lemma unlinked_ok:
  assumes ok: "spans_ok r B" and fin: "finite B" and span: "is_span B lo hi" and cut: "lo \<le> f" "f \<le> t" "t \<le> hi"
  shows "spans_ok (unlink f t r) (B - {f..t})"
proof -
  have "span_of r f = Some (lo, hi)" using span_of_iff [OF ok fin] span cut by auto
  then have "fmlookup (ra_spans (unlink f t r)) l =
      (if l = Suc t \<and> t < hi then Some hi else if l = lo then (if lo < f then Some (f - 1) else None) else fmlookup (ra_spans r) l)" for l
    using cut by (auto simp: unlink_def Let_def)
  moreover have "\<not> is_span B (Suc t) h" for h
  proof -
    have "t \<in> B" using span cut by (auto simp: is_span_def)
    then show ?thesis by (simp add: is_span_def)
  qed
  moreover have "Suc t \<noteq> lo" "fmlookup (ra_spans r) lo = Some hi" using cut ok span by (auto simp: spans_ok_def)
  ultimately show ?thesis
    unfolding spans_ok_def span_remove [OF span cut]
    using ok [unfolded spans_ok_def] by auto
qed

end
