(* ===== verification/Units.thy ===== *)
theory Units
  imports Reassembly
begin

text \<open>
  The properties of fragmentation and reassembly. What is sent on a track is an interface: datagrams by
  sequence number, cut into units that each start with a first and end with a last fragment. Under it
  the reassembler emits exactly the units that arrived whole. The fragments of \<open>fragment\<close>, numbered in
  order, provide it.
\<close>

subsection \<open>Whatever is pushed\<close>

inductive ra_reach :: "nat \<Rightarrow> reassembler \<Rightarrow> bool" for n where
  Fresh: "ra_reach n (new_reassembler n)"
| Pushed: "ra_reach n r \<Longrightarrow> seq < 2 ^ 32 \<Longrightarrow> ra_reach n (snd (reassembler_push seq flags plaintext r))"
| Forgot: "ra_reach n r \<Longrightarrow> ra_reach n (forget_before seq r)"

definition buffers_within :: "reassembler \<Rightarrow> (nat \<Rightarrow> flags \<times> bytes) \<Rightarrow> nat set \<Rightarrow> nat \<Rightarrow> bool" where
  "buffers_within r content B n \<longleftrightarrow>
     buffers r content B \<and> card B \<le> ra_max_buffered r \<and> ra_max_fragments r = min (max n 1) (2 ^ 32 - 1) \<and>
     ra_max_buffered r = min MAX_BUFFERED (max n 1 * BUFFERED_UNITS)"

lemma reached_buffers: "ra_reach n r \<Longrightarrow> \<exists>content B. buffers_within r content B n"
proof (induction rule: ra_reach.induct)
  case Fresh
  have "buffers_within (new_reassembler n) content {} n" for content
    unfolding buffers_within_def using new_buffers by (simp add: new_reassembler_def)
  then show ?case by blast
next
  case (Pushed r seq flags plaintext)
  then obtain content B where ok: "buffers_within r content B n" by blast
  then have "0 < ra_max_buffered r" by (simp add: buffers_within_def MAX_BUFFERED_def BUFFERED_UNITS_def)
  from pushed [OF _ this _ Pushed(2) surjective_pairing, of content B flags plaintext] ok
  show ?case unfolding buffers_within_def by metis
next
  case (Forgot r seq)
  then obtain content B where ok: "buffers_within r content B n" by blast
  then have "card {s \<in> B. seq \<le> s} \<le> card B" by (intro card_mono) (auto simp: buffers_within_def buffers_def)
  with ok forgotten [of r content B seq] show ?case unfolding buffers_within_def by (metis order_trans)
qed

lemma built_from:
  assumes "build_unit f t run = Some u"
  shows "run \<noteq> [] \<and> concat (map snd run) = to_be_bytes (un_timestamp u) @ un_data u \<and> un_flags u = fst (hd run) OR LAST"
  using assms by (auto simp: build_unit_def split: list.splits)

text \<open>The spans are the maximal runs of buffered numbers, and the sets the numbers whose flags say so.\<close>

definition mirrors :: "reassembler \<Rightarrow> bool" where
  "mirrors r \<longleftrightarrow>
     (\<forall>lo hi. fmlookup (ra_spans r) lo = Some hi \<longleftrightarrow>
        lo \<le> hi \<and> (\<forall>s. lo \<le> s \<and> s \<le> hi \<longrightarrow> fmlookup (ra_fragments r) s \<noteq> None) \<and>
        (lo = 0 \<or> fmlookup (ra_fragments r) (lo - 1) = None) \<and> fmlookup (ra_fragments r) (hi + 1) = None) \<and>
     (\<forall>s. s |\<in>| ra_firsts r \<longleftrightarrow> (\<exists>flags body. fmlookup (ra_fragments r) s = Some (flags, body) \<and> contains flags FIRST)) \<and>
     (\<forall>s. s |\<in>| ra_lasts r \<longleftrightarrow> (\<exists>flags body. fmlookup (ra_fragments r) s = Some (flags, body) \<and> contains flags LAST))"

lemma buffers_mirrors:
  assumes "buffers r content B"
  shows "mirrors r"
proof -
  have at: "fmlookup (ra_fragments r) s = (if s \<in> B then Some (content s) else None)" for s
    using assms by (simp add: buffers_def)
  have "fmlookup (ra_spans r) lo = Some hi \<longleftrightarrow> is_span B lo hi" for lo hi
    using assms by (simp add: buffers_def spans_ok_def)
  moreover have "s |\<in>| ra_firsts r \<longleftrightarrow> s \<in> B \<and> contains (fst (content s)) FIRST"
    "s |\<in>| ra_lasts r \<longleftrightarrow> s \<in> B \<and> contains (fst (content s)) LAST" for s
    using assms by (simp_all add: buffers_def)
  ultimately show ?thesis unfolding mirrors_def at by (auto simp: is_span_def split: if_splits) (metis prod.collapse)+
qed

text \<open>
  C14. The reassembler keeps its books, emits only whole units and buffers a bounded number of
  fragments, whatever is pushed: repeats, overlaps, any flags, any order. After any pushes and
  forgetting, and after one push more, the spans are exactly the maximal runs of buffered sequence
  numbers and the sets of firsts and lasts exactly the buffered fragments with that flag. A push that
  emits a unit emits an unbroken run of buffered fragments around the pushed one, from one marked first
  to one marked last, no longer than the limit of the track; its timestamp and data are the bytes of
  these fragments in order, and none of them stays buffered. At most 4096 fragments, and for short units
  64 units' worth, are buffered.
\<close>

theorem reassembler_sound:
  assumes "ra_reach n r" "seq < 2 ^ 32" "reassembler_push seq flags plaintext r = (out, r')"
  shows "mirrors r \<and> mirrors r' \<and> fmsize (ra_fragments r') \<le> min MAX_BUFFERED (max n 1 * BUFFERED_UNITS) \<and>
    (\<forall>u. out = Some u \<longrightarrow>
       un_first_seq u \<le> seq \<and> seq \<le> un_last_seq u \<and> un_last_seq u - un_first_seq u < max n 1 \<and>
       (\<exists>run. map (fmlookup (fmupd seq (flags, plaintext) (ra_fragments r))) [un_first_seq u..<un_last_seq u + 1] = map Some run \<and>
          contains (fst (hd run)) FIRST \<and> contains (fst (last run)) LAST \<and>
          concat (map snd run) = to_be_bytes (un_timestamp u) @ un_data u \<and> un_flags u = fst (hd run) OR LAST) \<and>
       (\<forall>s. un_first_seq u \<le> s \<longrightarrow> s \<le> un_last_seq u \<longrightarrow> fmlookup (ra_fragments r') s = None))"
proof -
  obtain content B where ok: "buffers_within r content B n" using reached_buffers [OF assms(1)] by blast
  let ?c = "content(seq := (flags, plaintext))"
  have buf: "buffers r content B" and cap: "0 < ra_max_buffered r" "card B \<le> ra_max_buffered r"
    using ok unfolding buffers_within_def by (blast, simp add: MAX_BUFFERED_def BUFFERED_UNITS_def, blast)
  from pushed [OF buf cap assms(2,3)] obtain B' where B': "buffers r' ?c B'" "card B' \<le> ra_max_buffered r"
    "\<And>u. out = Some u \<Longrightarrow> emitted (ra_max_fragments r) ?c (insert seq B) seq u \<and> B' \<inter> {un_first_seq u..un_last_seq u} = {}"
    by metis
  have "mirrors r" "mirrors r'" using buf B'(1) buffers_mirrors by blast+
  moreover have "fmsize (ra_fragments r') \<le> min MAX_BUFFERED (max n 1 * BUFFERED_UNITS)"
    using buffers_size [OF B'(1)] B'(2) ok by (simp add: buffers_within_def)
  moreover have "un_first_seq u \<le> seq \<and> seq \<le> un_last_seq u \<and> un_last_seq u - un_first_seq u < max n 1 \<and>
       (\<exists>run. map (fmlookup (fmupd seq (flags, plaintext) (ra_fragments r))) [un_first_seq u..<un_last_seq u + 1] = map Some run \<and>
          contains (fst (hd run)) FIRST \<and> contains (fst (last run)) LAST \<and>
          concat (map snd run) = to_be_bytes (un_timestamp u) @ un_data u \<and> un_flags u = fst (hd run) OR LAST) \<and>
       (\<forall>s. un_first_seq u \<le> s \<longrightarrow> s \<le> un_last_seq u \<longrightarrow> fmlookup (ra_fragments r') s = None)" if "out = Some u" for u
  proof -
    let ?f = "un_first_seq u" and ?l = "un_last_seq u"
    note em = conjunct1 [OF B'(3) [OF that], unfolded emitted_def]
    have lookup: "fmlookup (fmupd seq (flags, plaintext) (ra_fragments r)) s = Some (?c s)" if "s \<in> insert seq B" for s
      using that buf by (auto simp: buffers_def)
    have "map (fmlookup (fmupd seq (flags, plaintext) (ra_fragments r))) [?f..<?l + 1] = map Some (map ?c [?f..<?l + 1])"
    proof -
      have "{?f..?l} \<subseteq> insert seq B" using em by blast
      then have "fmlookup (fmupd seq (flags, plaintext) (ra_fragments r)) s = Some (?c s)" if "s \<in> set [?f..<?l + 1]" for s
        using that by (intro lookup) (auto simp only: set_upt atLeastLessThan_iff atLeastAtMost_iff subset_iff)
      then show ?thesis unfolding map_map comp_def by (rule map_cong [OF refl])
    qed
    moreover have "hd (map ?c [?f..<?l + 1]) = ?c ?f" "last (map ?c [?f..<?l + 1]) = ?c ?l"
      using em by (simp_all add: hd_map last_map upt_rec [of ?f] hd_conv_nth)
    moreover note built_from [of ?f ?l "map ?c [?f..<?l + 1]" u]
    moreover have "fmlookup (ra_fragments r') s = None" if "?f \<le> s" "s \<le> ?l" for s
      using B'(1) B'(3) [OF \<open>out = Some u\<close>] that by (auto simp: buffers_def)
    moreover have "?l - ?f < max n 1" using em ok by (auto simp: buffers_within_def)
    ultimately show ?thesis using em by metis
  qed
  ultimately show ?thesis by blast
qed

theorem reassembler_sound_witness:
  "\<exists>u r'. reassembler_push 5 6 [0, 0, 0, 7, 9] (new_reassembler 4) = (Some u, r') \<and> mirrors r' \<and>
     un_first_seq u = 5 \<and> un_last_seq u = 5 \<and> un_timestamp u = 7 \<and> un_data u = [9] \<and> fmlookup (ra_fragments r') 5 = None"
proof -
  obtain out r' where push: "reassembler_push 5 6 [0, 0, 0, 7, 9] (new_reassembler 4) = (out, r')" by fastforce
  moreover have "map_option (\<lambda>u. (un_first_seq u, un_last_seq u, un_timestamp u, un_data u)) (fst (reassembler_push 5 6 [0, 0, 0, 7, 9] (new_reassembler 4)))
      = Some (5, 5, 7, [9])"
    by code_simp
  ultimately obtain u where "out = Some u" "un_first_seq u = 5" "un_last_seq u = 5" "un_timestamp u = 7" "un_data u = [9]"
    by auto
  with reassembler_sound [OF ra_reach.Fresh [of 4] _ push] push show ?thesis by auto
qed

subsection \<open>What is sent on a track\<close>

fun pushes :: "reassembler \<Rightarrow> (nat \<times> flags \<times> bytes) list \<Rightarrow> access_unit option list \<times> reassembler" where
  "pushes r [] = ([], r)"
| "pushes r ((seq, flags, plaintext) # ds) =
     (let (out, r) = reassembler_push seq flags plaintext r; (outs, r) = pushes r ds in (out # outs, r))"

lemma pushes_Cons:
  "fst (pushes r ((seq, c) # ds)) = fst (reassembler_push seq (fst c) (snd c) r) # fst (pushes (snd (reassembler_push seq (fst c) (snd c) r)) ds)"
  by (cases c) (simp add: case_prod_unfold Let_def)

locale sent_track =
  fixes content :: "nat \<Rightarrow> flags \<times> bytes" and lower upper :: "nat \<Rightarrow> nat" and stream :: "nat set" and limit :: nat
  assumes bounds: "s \<in> stream \<Longrightarrow> lower s \<le> s \<and> s \<le> upper s"
    and same_unit: "s \<in> stream \<Longrightarrow> lower s \<le> q \<Longrightarrow> q \<le> upper s \<Longrightarrow> q \<in> stream \<and> lower q = lower s \<and> upper q = upper s"
    and first_flag: "s \<in> stream \<Longrightarrow> contains (fst (content s)) FIRST \<longleftrightarrow> s = lower s"
    and last_flag: "s \<in> stream \<Longrightarrow> contains (fst (content s)) LAST \<longleftrightarrow> s = upper s"
    and short: "s \<in> stream \<Longrightarrow> upper s - lower s < limit"
    and numbers: "stream \<subseteq> {..<2 ^ 32}"
begin

definition whole :: "nat \<Rightarrow> nat set \<Rightarrow> bool" where
  "whole s B \<longleftrightarrow> {lower s..upper s} \<subseteq> B"

lemma before_unit: "s \<in> stream \<Longrightarrow> lower s \<noteq> 0 \<Longrightarrow> lower s - 1 \<in> stream \<Longrightarrow> upper (lower s - 1) = lower s - 1"
proof (rule ccontr)
  assume s: "s \<in> stream" "lower s \<noteq> 0" "lower s - 1 \<in> stream" "upper (lower s - 1) \<noteq> lower s - 1"
  have own: "lower (lower s) = lower s" using same_unit [OF s(1), of "lower s"] bounds [OF s(1)] by auto
  have "lower s \<le> upper (lower s - 1)" using bounds [OF s(3)] s(4) by linarith
  moreover have "lower (lower s - 1) \<le> lower s" using bounds [OF s(3)] by linarith
  ultimately have "lower (lower s) = lower (lower s - 1)" using same_unit [OF s(3), of "lower s"] by blast
  then show False using own bounds [OF s(3)] s(2) by linarith
qed

lemma last_ahead:
  assumes ok: "buffers r content B" and sub: "B \<subseteq> stream" and span: "is_span B lo hi" "lo \<le> seq" "seq \<le> hi"
  shows "range_next (ra_lasts r) seq hi = (if upper seq \<le> hi then Some (upper seq) else None)"
proof -
  have run: "{lo..hi} \<subseteq> B" using span(1) by (simp add: is_span_def)
  have seq: "seq \<in> stream" using run sub span by auto
  have only: "y = upper seq" if "y |\<in>| ra_lasts r" "seq \<le> y" "y \<le> upper seq" for y
  proof -
    have "y \<in> stream" "contains (fst (content y)) LAST" using that(1) ok sub by (auto simp: buffers_def)
    then have "y = upper y" using last_flag by blast
    moreover have "upper y = upper seq" using same_unit [OF seq, of y] bounds [OF seq] that by auto
    ultimately show ?thesis by simp
  qed
  show ?thesis
  proof (cases "upper seq \<le> hi")
    case True
    have up: "upper seq \<in> {lo..hi}" using True bounds [OF seq] span by auto
    then have "upper seq \<in> B" "upper seq \<in> stream" using run sub by auto
    moreover have "upper (upper seq) = upper seq" using same_unit [OF seq, of "upper seq"] bounds [OF seq] by auto
    ultimately have "upper seq |\<in>| ra_lasts r" using ok last_flag by (simp add: buffers_def)
    moreover have "upper seq \<le> y" if "y |\<in>| ra_lasts r" "seq \<le> y" for y using only [OF that] by (cases "y \<le> upper seq") auto
    ultimately show ?thesis using True bounds [OF seq] by (simp add: range_next_iff)
  next
    case False
    have "False" if "y |\<in>| ra_lasts r" "seq \<le> y" "y \<le> hi" for y using only [OF that(1,2)] that(3) False by linarith
    then show ?thesis using False by (auto simp: range_next_iff)
  qed
qed

lemma first_behind:
  assumes ok: "buffers r content B" and sub: "B \<subseteq> stream" and span: "is_span B lo hi" "lo \<le> seq" "seq \<le> hi"
  shows "range_next_back (ra_firsts r) lo seq = (if lo \<le> lower seq then Some (lower seq) else None)"
proof -
  have run: "{lo..hi} \<subseteq> B" using span(1) by (simp add: is_span_def)
  have seq: "seq \<in> stream" using run sub span by auto
  have only: "y = lower seq" if "y |\<in>| ra_firsts r" "y \<le> seq" "lower seq \<le> y" for y
  proof -
    have "y \<in> stream" "contains (fst (content y)) FIRST" using that(1) ok sub by (auto simp: buffers_def)
    then have "y = lower y" using first_flag by blast
    moreover have "lower y = lower seq" using same_unit [OF seq, of y] bounds [OF seq] that by auto
    ultimately show ?thesis by simp
  qed
  show ?thesis
  proof (cases "lo \<le> lower seq")
    case True
    have "lower seq \<in> {lo..hi}" using True bounds [OF seq] span by auto
    then have "lower seq \<in> B" "lower seq \<in> stream" using run sub by auto
    moreover have "lower (lower seq) = lower seq" using same_unit [OF seq, of "lower seq"] bounds [OF seq] by auto
    ultimately have "lower seq |\<in>| ra_firsts r" using ok first_flag by (simp add: buffers_def)
    moreover have "y \<le> lower seq" if "y |\<in>| ra_firsts r" "y \<le> seq" for y using only [OF that] by (cases "lower seq \<le> y") auto
    ultimately show ?thesis using True bounds [OF seq] by (simp add: range_next_back_iff)
  next
    case False
    have "False" if "y |\<in>| ra_firsts r" "lo \<le> y" "y \<le> seq" for y using only [OF that(1,3)] that(2) False by linarith
    then show ?thesis using False by (auto simp: range_next_back_iff)
  qed
qed

lemma nothing_unfinishable:
  assumes ok: "buffers r content B" and sub: "B \<subseteq> stream" and span: "is_span B lo hi" "lo \<le> seq" "seq \<le> hi"
    and limit: "ra_max_fragments r = limit" and ahead: "hi < upper seq"
  shows "drop_unfinishable lo hi r = r"
proof -
  let ?after = "case range_next_back (ra_lasts r) lo hi of Some l \<Rightarrow> l + 1 | None \<Rightarrow> lo"
  have run: "{lo..hi} \<subseteq> B" using span(1) by (simp add: is_span_def)
  have seq: "seq \<in> stream" using run sub span by auto
  have "lower seq \<le> ?after"
  proof (cases "lower seq \<le> lo")
    case True
    then show ?thesis by (auto simp: range_next_back_iff split: option.splits)
  next
    case False
    let ?p = "lower seq - 1"
    have "?p \<in> {lo..hi}" "lower seq \<noteq> 0" using False bounds [OF seq] span by auto
    then have "?p \<in> B" "?p \<in> stream" "lower seq \<noteq> 0" using run sub by auto
    then have "?p |\<in>| ra_lasts r" using before_unit [OF seq] last_flag [of ?p] ok by (simp add: buffers_def)
    moreover from this obtain l where l: "range_next_back (ra_lasts r) lo hi = Some l"
      using \<open>?p \<in> {lo..hi}\<close> by (cases "range_next_back (ra_lasts r) lo hi") (auto simp: range_next_back_iff)
    ultimately have "?p \<le> l" using \<open>?p \<in> {lo..hi}\<close> by (simp add: range_next_back_iff)
    then show ?thesis using l by simp
  qed
  then have "hi - ?after < limit - 1" using ahead short [OF seq] bounds [OF seq] span(3) by linarith
  then show ?thesis by (simp add: drop_unfinishable_def limit)
qed

lemma push_sent:
  assumes ok: "buffers r content B" and sub: "B \<subseteq> stream" and seq: "seq \<in> stream" "seq \<notin> B"
    and cap: "0 < ra_max_buffered r" "card B < ra_max_buffered r" and limit: "ra_max_fragments r = limit"
    and push: "reassembler_push seq (fst (content seq)) (snd (content seq)) r = (out, r')"
  shows "out = (if whole seq (insert seq B) then build_unit (lower seq) (upper seq) (map content [lower seq..<upper seq + 1]) else None)"
    and "buffers r' content (if whole seq (insert seq B) then insert seq B - {lower seq..upper seq} else insert seq B)"
    and "ra_max_fragments r' = limit" "ra_max_buffered r' = ra_max_buffered r"
proof -
  let ?B = "insert seq B" and ?r = "insert_fragment seq (fst (content seq)) (snd (content seq)) r"
  have room: "make_room seq r = r" using cap(2) buffers_size [OF ok] by (simp add: make_room_def)
  have "seq < 2 ^ 32" using seq(1) numbers by auto
  note ins = inserted [OF ok this refl, of "fst (content seq)" "snd (content seq)"]
  have buf: "buffers ?r content ?B" using ins(1) by (simp add: fun_upd_idem)
  have sub': "?B \<subseteq> stream" and fin: "finite ?B" and spans: "spans_ok ?r ?B"
    using sub seq(1) buf by (auto simp: buffers_def)
  obtain lo hi where span: "is_span ?B lo hi" "lo \<le> seq" "seq \<le> hi" using span_exists [OF fin, of seq] by blast
  have at: "span_of ?r seq = Some (lo, hi)" using span span_of_iff [OF spans fin] by simp
  have complete: "whole seq ?B \<longleftrightarrow> lo \<le> lower seq \<and> upper seq \<le> hi"
  proof
    assume "lo \<le> lower seq \<and> upper seq \<le> hi"
    then have "{lower seq..upper seq} \<subseteq> {lo..hi}" by auto
    then show "whole seq ?B" using span(1) unfolding whole_def is_span_def by blast
  next
    assume w: "whole seq ?B"
    have "lo \<le> lower seq"
    proof (rule ccontr)
      assume "\<not> lo \<le> lower seq"
      then have "lo - 1 \<in> {lower seq..upper seq}" "lo \<noteq> 0" using span(2) bounds [OF seq(1)] by auto
      then show False using w span(1) by (auto simp: whole_def is_span_def)
    qed
    moreover have "upper seq \<le> hi"
    proof (rule ccontr)
      assume "\<not> upper seq \<le> hi"
      then have "Suc hi \<in> {lower seq..upper seq}" using span(3) bounds [OF seq(1)] by auto
      then show False using w span(1) by (auto simp: whole_def is_span_def)
    qed
    ultimately show "lo \<le> lower seq \<and> upper seq \<le> hi" ..
  qed
  note ahead = last_ahead [OF buf sub' span] and behind = first_behind [OF buf sub' span]
  have limit': "ra_max_fragments ?r = limit" using ins(2) limit by simp
  have result: "(out, r') = (if whole seq ?B then take_unit (lower seq) (upper seq) ?r else (None, ?r))"
  proof (cases "upper seq \<le> hi")
    case False
    then show ?thesis
      using push room at ahead complete nothing_unfinishable [OF buf sub' span limit'] by (simp add: reassembler_push_def unit_around_def)
  next
    case up: True
    show ?thesis
    proof (cases "lo \<le> lower seq")
      case True
      then show ?thesis
        using push room at ahead behind up complete limit' short [OF seq(1)] by (simp add: reassembler_push_def unit_around_def)
    next
      case False
      then have "\<not> upper seq - lo \<ge> limit - 1" using short [OF seq(1)] bounds [OF seq(1)] span(2) by linarith
      then show ?thesis
        using push room at ahead behind up complete limit' False by (simp add: reassembler_push_def unit_around_def)
    qed
  qed
  have le: "lower seq \<le> upper seq" using bounds [OF seq(1)] by linarith
  show "out = (if whole seq ?B then build_unit (lower seq) (upper seq) (map content [lower seq..<upper seq + 1]) else None)"
    using result looked_up_run [OF buf, of "lower seq" "upper seq"] by (auto simp: take_unit_def whole_def split: if_splits)
  have "buffers r' content (if whole seq ?B then ?B - {lower seq..upper seq} else ?B) \<and>
      ra_max_fragments r' = limit \<and> ra_max_buffered r' = ra_max_buffered r"
  proof (cases "whole seq ?B")
    case True
    then have "r' = drop_fragments (lower seq) (upper seq) ?r" using result by (simp add: take_unit_def)
    from dropped_fragments [OF buf span(1) _ le _ this] True complete ins(2,3) limit show ?thesis by simp
  next
    case False
    then show ?thesis using result buf ins(2,3) limit by simp
  qed
  then show "buffers r' content (if whole seq ?B then ?B - {lower seq..upper seq} else ?B)"
    "ra_max_fragments r' = limit" "ra_max_buffered r' = ra_max_buffered r" by blast+
qed

definition unfinished :: "nat set \<Rightarrow> nat set" where
  "unfinished A = {s \<in> A. \<not> whole s A}"

definition unit_at :: "nat \<Rightarrow> access_unit option" where
  "unit_at s = build_unit (lower s) (upper s) (map content [lower s..<upper s + 1])"

lemma mates:
  assumes "s \<in> stream" "q \<in> {lower s..upper s}"
  shows "whole q A \<longleftrightarrow> whole s A"
  using same_unit [OF assms(1), of q] assms(2) by (simp add: whole_def)

lemma whole_pending:
  assumes "A \<subseteq> stream" "seq \<in> stream" "seq \<notin> A"
  shows "whole seq (insert seq (unfinished A)) \<longleftrightarrow> whole seq (insert seq A)"
proof
  assume w: "whole seq (insert seq A)"
  have "\<not> whole seq A" using assms(3) bounds [OF assms(2)] by (auto simp: whole_def)
  then show "whole seq (insert seq (unfinished A))"
    using w mates [OF assms(2), of _ A] by (auto simp: whole_def [of seq] unfinished_def)
qed (auto simp: whole_def unfinished_def)

lemma unfinished_insert:
  assumes "A \<subseteq> stream" "seq \<in> stream" "seq \<notin> A"
  shows "unfinished (insert seq A) =
    (if whole seq (insert seq A) then insert seq (unfinished A) - {lower seq..upper seq} else insert seq (unfinished A))"
proof -
  have other: "whole s (insert seq A) \<longleftrightarrow> whole s A" if "s \<in> A" "s \<notin> {lower seq..upper seq}" for s
  proof -
    have s: "s \<in> stream" using that(1) assms(1) by blast
    have "seq \<notin> {lower s..upper s}" using same_unit [OF s, of seq] bounds [OF s] that(2) by auto
    then show ?thesis by (auto simp: whole_def)
  qed
  have mate: "whole s (insert seq A) \<longleftrightarrow> whole seq (insert seq A)" "\<not> whole s A" if "s \<in> {lower seq..upper seq}" for s
  proof -
    show "whole s (insert seq A) \<longleftrightarrow> whole seq (insert seq A)" by (rule mates [OF assms(2) that])
    have "\<not> whole seq A" using assms(3) bounds [OF assms(2)] by (auto simp: whole_def)
    then show "\<not> whole s A" using mates [OF assms(2) that] by simp
  qed
  have own: "seq \<in> {lower seq..upper seq}" using bounds [OF assms(2)] by auto
  show ?thesis
  proof (rule set_eqI)
    fix s
    show "s \<in> unfinished (insert seq A) \<longleftrightarrow>
        s \<in> (if whole seq (insert seq A) then insert seq (unfinished A) - {lower seq..upper seq} else insert seq (unfinished A))"
      using other [of s] mate [of s] own by (cases "s \<in> {lower seq..upper seq}"; cases "s = seq") (auto simp: unfinished_def)
  qed
qed

lemma pushes_sent:
  assumes "buffers r content (unfinished A)" "A \<subseteq> stream" "finite A" "distinct xs" "set xs \<subseteq> stream - A"
    "card A + length xs \<le> ra_max_buffered r" "ra_max_fragments r = limit"
  shows "fst (pushes r (map (\<lambda>s. (s, content s)) xs)) =
    map (\<lambda>i. if whole (xs ! i) (A \<union> set (take (Suc i) xs)) then unit_at (xs ! i) else None) [0..<length xs]"
  using assms
proof (induction xs arbitrary: r A)
  case (Cons x xs)
  obtain out r' where push: "reassembler_push x (fst (content x)) (snd (content x)) r = (out, r')" by fastforce
  have x: "x \<in> stream" "x \<notin> A" using Cons.prems(5) by auto
  have sub: "unfinished A \<subseteq> stream" "unfinished A \<subseteq> A" using Cons.prems(2) by (auto simp: unfinished_def)
  have "card (unfinished A) \<le> card A" using sub(2) Cons.prems(3) by (rule card_mono [rotated])
  then have cap: "0 < ra_max_buffered r" "card (unfinished A) < ra_max_buffered r" using Cons.prems(6) by auto
  have "x \<notin> unfinished A" using x(2) sub(2) by blast
  note one = push_sent [OF Cons.prems(1) sub(1) x(1) this cap Cons.prems(7) push, unfolded whole_pending [OF Cons.prems(2) x]]
  have "fst (pushes r' (map (\<lambda>s. (s, content s)) xs)) =
      map (\<lambda>i. if whole (xs ! i) (insert x A \<union> set (take (Suc i) xs)) then unit_at (xs ! i) else None) [0..<length xs]"
  proof (rule Cons.IH)
    show "buffers r' content (unfinished (insert x A))" using one(2) unfinished_insert [OF Cons.prems(2) x] by simp
    show "card (insert x A) + length xs \<le> ra_max_buffered r'" using one(4) Cons.prems(3,6) x(2) by simp
  qed (use Cons.prems x one(3) in auto)
  then show ?case
    using push one(1)
    by (simp add: pushes_Cons unit_at_def upt_conv_Cons map_Suc_upt [symmetric] comp_def del: upt_Suc pushes.simps)
qed simp

end

subsection \<open>The fragments of units provide it\<close>

text \<open>
  The datagrams of consecutive units from a sequence number on, each with the unit it belongs to: its
  flags and plaintext, which is the timestamp, if any, and the body.
\<close>

type_synonym sent_unit = "bytes \<times> u32 \<times> bool"

definition sent_as :: "nat \<Rightarrow> sent_unit \<Rightarrow> access_unit" where
  "sent_as n u = (case u of (data, timestamp, keyframe) \<Rightarrow>
     \<lparr> un_first_seq = n, un_last_seq = n + length (fragment_unit data timestamp keyframe) - 1, un_timestamp = timestamp,
       un_flags = flags_with 0 KEYFRAME keyframe OR FIRST OR LAST, un_data = data \<rparr>)"

fun layout :: "nat \<Rightarrow> sent_unit list \<Rightarrow> (access_unit \<times> flags \<times> bytes) list" where
  "layout n [] = []"
| "layout n ((data, timestamp, keyframe) # us) =
     (let fs = fragment_unit data timestamp keyframe
      in map (\<lambda>f. (sent_as n (data, timestamp, keyframe), fr_flags f, concat (plaintext_parts f))) fs @ layout (n + length fs) us)"

definition laid :: "nat \<Rightarrow> nat \<Rightarrow> (access_unit \<times> flags \<times> bytes) list \<Rightarrow> bool" where
  "laid limit n L \<longleftrightarrow> (\<forall>i < length L.
     let u = fst (L ! i); f = un_first_seq u; l = un_last_seq u in
       n \<le> f \<and> f \<le> n + i \<and> n + i \<le> l \<and> l < n + length L \<and> l - f < limit \<and>
       (\<forall>q. f \<le> q \<longrightarrow> q \<le> l \<longrightarrow> fst (L ! (q - n)) = u) \<and>
       (contains (fst (snd (L ! i))) FIRST \<longleftrightarrow> n + i = f) \<and> (contains (fst (snd (L ! i))) LAST \<longleftrightarrow> n + i = l) \<and>
       build_unit f l (map (\<lambda>q. snd (L ! (q - n))) [f..<l + 1]) = Some u)"

lemma laid_append:
  assumes "laid limit n xs" "laid limit (n + length xs) ys"
  shows "laid limit n (xs @ ys)"
  unfolding laid_def
proof (intro allI impI)
  fix i
  assume i: "i < length (xs @ ys)"
  show "let u = fst ((xs @ ys) ! i); f = un_first_seq u; l = un_last_seq u in
       n \<le> f \<and> f \<le> n + i \<and> n + i \<le> l \<and> l < n + length (xs @ ys) \<and> l - f < limit \<and>
       (\<forall>q. f \<le> q \<longrightarrow> q \<le> l \<longrightarrow> fst ((xs @ ys) ! (q - n)) = u) \<and>
       (contains (fst (snd ((xs @ ys) ! i))) FIRST \<longleftrightarrow> n + i = f) \<and> (contains (fst (snd ((xs @ ys) ! i))) LAST \<longleftrightarrow> n + i = l) \<and>
       build_unit f l (map (\<lambda>q. snd ((xs @ ys) ! (q - n))) [f..<l + 1]) = Some u"
  proof (cases "i < length xs")
    case True
    note at = assms(1) [unfolded laid_def Let_def, rule_format, OF True]
    let ?u = "fst (xs ! i)"
    have inside: "(xs @ ys) ! (q - n) = xs ! (q - n)" if "un_first_seq ?u \<le> q" "q \<le> un_last_seq ?u" for q
      using at that by (auto simp: nth_append)
    then have run: "map (\<lambda>q. snd ((xs @ ys) ! (q - n))) [un_first_seq ?u..<un_last_seq ?u + 1] =
        map (\<lambda>q. snd (xs ! (q - n))) [un_first_seq ?u..<un_last_seq ?u + 1]" by auto
    have here: "(xs @ ys) ! i = xs ! i" using True by (simp add: nth_append)
    show ?thesis unfolding Let_def here run using at inside by (simp del: upt_Suc)
  next
    case False
    let ?j = "i - length xs"
    have j: "?j < length ys" using i False by simp
    note at = assms(2) [unfolded laid_def Let_def, rule_format, OF j]
    let ?u = "fst (ys ! ?j)"
    have inside: "(xs @ ys) ! (q - n) = ys ! (q - (n + length xs))" if "un_first_seq ?u \<le> q" "q \<le> un_last_seq ?u" for q
    proof -
      have "n + length xs \<le> q" using conjunct1 [OF at] that(1) by linarith
      then have "\<not> q - n < length xs" "q - n - length xs = q - (n + length xs)" by linarith+
      then show ?thesis by (simp add: nth_append)
    qed
    then have run: "map (\<lambda>q. snd ((xs @ ys) ! (q - n))) [un_first_seq ?u..<un_last_seq ?u + 1] =
        map (\<lambda>q. snd (ys ! (q - (n + length xs)))) [un_first_seq ?u..<un_last_seq ?u + 1]" by auto
    have here: "(xs @ ys) ! i = ys ! ?j" and sum: "n + length xs + ?j = n + i" using False by (simp_all add: nth_append)
    have "n \<le> un_first_seq ?u \<and> un_last_seq ?u < n + length (xs @ ys)" using at by simp
    then show ?thesis unfolding Let_def here run using at inside unfolding sum by (simp del: upt_Suc)
  qed
qed

text \<open>What \<open>fragment\<close> makes of a unit.\<close>

lemma fragments_from_parts:
  "concat (map fr_body (fragments_from base unit pos)) = drop pos unit \<and>
   (\<forall>f \<in> set (fragments_from base unit pos). fr_flags f = base \<and> fr_timestamp f = None)"
proof (induction base unit pos rule: fragments_from.induct)
  case (1 base unit pos)
  show ?case
  proof (cases "pos < length unit")
    case True
    define stop where "stop = min (pos + BODY_BYTES) (length unit)"
    have "pos \<le> stop" using True by (simp add: stop_def)
    have cut: "take (stop - pos) (drop pos unit) @ drop stop unit = drop pos unit"
      using \<open>pos \<le> stop\<close> append_take_drop_id [of "stop - pos" "drop pos unit"] by simp
    have "fragments_from base unit pos = \<lparr> fr_flags = base, fr_timestamp = None, fr_body = take (stop - pos) (drop pos unit) \<rparr> #
        fragments_from base unit stop"
      using True by (subst fragments_from.simps) (simp add: stop_def Let_def)
    then show ?thesis using 1 [OF True refl] cut unfolding stop_def [symmetric] by simp
  next
    case False
    then show ?thesis by (simp add: fragments_from.simps)
  qed
qed

lemma flag_facts:
  defines "base k \<equiv> flags_with 0 KEYFRAME k"
  shows "\<not> contains (base k) FIRST" "\<not> contains (base k) LAST" "contains (base k OR FIRST) FIRST" "\<not> contains (base k OR FIRST) LAST"
    "contains (base k OR FIRST OR LAST) FIRST" "contains (base k OR FIRST OR LAST) LAST"
    "\<not> contains (base k OR LAST) FIRST" "contains (base k OR LAST) LAST"
  by (cases k; simp add: base_def flags_with_def contains_def KEYFRAME_def FIRST_def LAST_def)+

lemma to_be_bytes_cons: "to_be_bytes ts @ xs = ucast (drop_bit 24 ts) # ucast (drop_bit 16 ts) # ucast (drop_bit 8 ts) # ucast ts # xs"
  by (simp add: to_be_bytes_def)

lemma fragment_unit_parts:
  defines "base k \<equiv> flags_with 0 KEYFRAME k"
  obtains (single) "fragment_unit data ts k =
      [\<lparr> fr_flags = base k OR FIRST OR LAST, fr_timestamp = Some (to_be_bytes ts), fr_body = data \<rparr>]"
  | (many) head middle tail where "fragment_unit data ts k =
      \<lparr> fr_flags = base k OR FIRST, fr_timestamp = Some (to_be_bytes ts), fr_body = head \<rparr> # middle @
      [\<lparr> fr_flags = base k OR LAST, fr_timestamp = None, fr_body = tail \<rparr>]"
      "\<And>f. f \<in> set middle \<Longrightarrow> fr_flags f = base k \<and> fr_timestamp f = None"
      "data = head @ concat (map fr_body middle) @ tail"
proof -
  define first_len where "first_len = min (length data) (BODY_BYTES - TIMESTAMP_BYTES)"
  let ?more = "fragments_from (base k) data first_len"
  note parts = fragments_from_parts [of "base k" data first_len]
  have unit: "fragment_unit data ts k = mark_last (\<lparr> fr_flags = base k OR FIRST, fr_timestamp = Some (to_be_bytes ts),
      fr_body = take first_len data \<rparr> # ?more)" by (simp add: fragment_unit_def first_len_def base_def Let_def)
  show ?thesis
  proof (cases "?more = []")
    case True
    then have "take first_len data = data" using parts append_take_drop_id [of first_len data] by simp
    then show ?thesis using single unit True by (simp add: mark_last_def or.assoc)
  next
    case False
    let ?tail = "last ?more"
    have split: "?more = butlast ?more @ [?tail]" using False by simp
    have last: "fr_flags ?tail = base k \<and> fr_timestamp ?tail = None" using parts False by simp
    then have "?tail\<lparr> fr_flags := fr_flags ?tail OR LAST \<rparr> = \<lparr> fr_flags = base k OR LAST, fr_timestamp = None, fr_body = fr_body ?tail \<rparr>"
      by (cases ?tail) simp
    moreover have "concat (map fr_body ?more) = concat (map fr_body (butlast ?more)) @ fr_body ?tail"
      by (subst split) simp
    then have "data = take first_len data @ concat (map fr_body (butlast ?more)) @ fr_body ?tail"
      using parts append_take_drop_id [of first_len data] by simp
    ultimately show ?thesis
      using many [of "take first_len data" "butlast ?more" "fr_body ?tail"] unit False parts
      by (auto simp: mark_last_def dest: in_set_butlastD)
  qed
qed

lemma block_laid:
  assumes "length (fragment_unit data ts k) \<le> limit"
  shows "laid limit n (map (\<lambda>f. (sent_as n (data, ts, k), fr_flags f, concat (plaintext_parts f))) (fragment_unit data ts k))"
    (is "laid limit n ?L")
proof -
  let ?fs = "fragment_unit data ts k" and ?u = "sent_as n (data, ts, k)"
  have pos: "0 < length ?fs" by (cases rule: fragment_unit_parts [of data ts k]) simp_all
  then obtain m where m: "length ?fs = Suc m" by (cases "length ?fs") auto
  then have u: "un_first_seq ?u = n" "un_last_seq ?u = n + m" by (simp_all add: sent_as_def)
  have flags: "contains (fr_flags (?fs ! i)) FIRST \<longleftrightarrow> i = 0" "contains (fr_flags (?fs ! i)) LAST \<longleftrightarrow> i = m"
    if i: "i < length ?fs" for i
  proof (atomize (full), cases rule: fragment_unit_parts [of data ts k])
    case single
    then show "(contains (fr_flags (?fs ! i)) FIRST \<longleftrightarrow> i = 0) \<and> (contains (fr_flags (?fs ! i)) LAST \<longleftrightarrow> i = m)"
      using i flag_facts m by simp
  next
    case (many head middle tail)
    have mid: "fr_flags (middle ! j) = flags_with 0 KEYFRAME k" if "j < length middle" for j using many(2) that by simp
    consider "i = 0" | j where "i = Suc j" "j < length middle" | "i = Suc (length middle)"
      using i many(1) by (cases i) (auto simp: less_Suc_eq)
    then show "(contains (fr_flags (?fs ! i)) FIRST \<longleftrightarrow> i = 0) \<and> (contains (fr_flags (?fs ! i)) LAST \<longleftrightarrow> i = m)"
      using m by cases (simp_all add: many(1) nth_append mid flag_facts)
  qed
  have "map (\<lambda>q. snd (?L ! (q - n))) [n..<n + length ?fs] = map snd ?L"
    by (rule nth_equalityI) simp_all
  moreover have "un_last_seq ?u + 1 = n + length ?fs" using u m by linarith
  ultimately have run: "map (\<lambda>q. snd (?L ! (q - n))) [un_first_seq ?u..<un_last_seq ?u + 1] = map snd ?L"
    using u(1) by (simp only:)
  have "build_unit (un_first_seq ?u) (un_last_seq ?u) (map snd ?L) = Some ?u"
  proof (cases rule: fragment_unit_parts [of data ts k])
    case single
    then show ?thesis
      by (simp add: build_unit_def plaintext_parts_def to_be_bytes_cons sent_as_def or.assoc)
  next
    case (many head middle tail)
    have "concat (map (\<lambda>f. concat (plaintext_parts f)) middle) = concat (map fr_body middle)"
      using many(2) by (intro arg_cong [of _ _ concat] map_cong) (auto simp: plaintext_parts_def)
    then show ?thesis
      using many(1,3) by (simp add: build_unit_def plaintext_parts_def to_be_bytes_cons sent_as_def comp_def or.assoc)
  qed
  then have built: "build_unit (un_first_seq ?u) (un_last_seq ?u) (map (\<lambda>q. snd (?L ! (q - n))) [un_first_seq ?u..<un_last_seq ?u + 1]) = Some ?u"
    unfolding run .
  have same: "fst (?L ! (q - n)) = ?u" if "n \<le> q" "q \<le> n + m" for q
  proof -
    have "q - n < length ?fs" using that m by linarith
    then show ?thesis by simp
  qed
  show ?thesis
    unfolding laid_def Let_def
  proof (intro allI impI)
    fix i
    assume i: "i < length ?L"
    then have here: "fst (?L ! i) = ?u" "fst (snd (?L ! i)) = fr_flags (?fs ! i)" by simp_all
    have "i \<le> m" "n + m < n + length ?L" "m < limit" "i < length ?fs" using i m assms by simp_all
    then show "n \<le> un_first_seq (fst (?L ! i)) \<and> un_first_seq (fst (?L ! i)) \<le> n + i \<and> n + i \<le> un_last_seq (fst (?L ! i)) \<and>
       un_last_seq (fst (?L ! i)) < n + length ?L \<and> un_last_seq (fst (?L ! i)) - un_first_seq (fst (?L ! i)) < limit \<and>
       (\<forall>q. un_first_seq (fst (?L ! i)) \<le> q \<longrightarrow> q \<le> un_last_seq (fst (?L ! i)) \<longrightarrow> fst (?L ! (q - n)) = fst (?L ! i)) \<and>
       (contains (fst (snd (?L ! i))) FIRST \<longleftrightarrow> n + i = un_first_seq (fst (?L ! i))) \<and>
       (contains (fst (snd (?L ! i))) LAST \<longleftrightarrow> n + i = un_last_seq (fst (?L ! i))) \<and>
       build_unit (un_first_seq (fst (?L ! i))) (un_last_seq (fst (?L ! i)))
         (map (\<lambda>q. snd (?L ! (q - n))) [un_first_seq (fst (?L ! i))..<un_last_seq (fst (?L ! i)) + 1]) = Some (fst (?L ! i))"
      unfolding here using built same flags unfolding u by (intro conjI allI impI) simp_all
  qed
qed

lemma layout_laid:
  "(\<And>data ts k. (data, ts, k) \<in> set us \<Longrightarrow> length (fragment_unit data ts k) \<le> limit) \<Longrightarrow> laid limit n (layout n us)"
proof (induction us arbitrary: n)
  case (Cons u us)
  obtain data ts k where u: "u = (data, ts, k)" by (cases u)
  show ?case using Cons laid_append [OF block_laid [of data ts k limit n]] by (simp add: u Let_def)
qed (simp add: laid_def)

definition fits :: "nat \<Rightarrow> nat \<Rightarrow> sent_unit list \<Rightarrow> bool" where
  "fits limit n us \<longleftrightarrow>
     (\<forall>(data, ts, k) \<in> set us. length (fragment_unit data ts k) \<le> limit) \<and> n + length (layout n us) \<le> 2 ^ 32"

definition sent_stream :: "nat \<Rightarrow> nat \<Rightarrow> sent_unit list \<Rightarrow> nat set" where
  "sent_stream limit n us = (if fits limit n us then {n..<n + length (layout n us)} else {})"

interpretation sent: sent_track "\<lambda>s. snd (layout n us ! (s - n))" "\<lambda>s. un_first_seq (fst (layout n us ! (s - n)))"
  "\<lambda>s. un_last_seq (fst (layout n us ! (s - n)))" "sent_stream limit n us" limit for n us limit
proof
  fix s
  let ?L = "layout n us" and ?u = "fst (layout n us ! (s - n))"
  assume s: "s \<in> sent_stream limit n us"
  then have fit: "fits limit n us" and i: "s - n < length ?L" and sum: "n + (s - n) = s"
    by (auto simp: sent_stream_def split: if_splits)
  have "laid limit n ?L" using fit by (intro layout_laid) (auto simp: fits_def)
  note at = this [unfolded laid_def Let_def, rule_format, OF i, unfolded sum]
  show "un_first_seq ?u \<le> s \<and> s \<le> un_last_seq ?u" "un_last_seq ?u - un_first_seq ?u < limit" using at by blast+
  show "contains (fst (snd (?L ! (s - n)))) FIRST = (s = un_first_seq ?u)"
    "contains (fst (snd (?L ! (s - n)))) LAST = (s = un_last_seq ?u)" using at by blast+
  fix q
  assume q: "un_first_seq ?u \<le> q" "q \<le> un_last_seq ?u"
  then have "n \<le> q" "q < n + length ?L" using at by linarith+
  then show "q \<in> sent_stream limit n us \<and> un_first_seq (fst (?L ! (q - n))) = un_first_seq ?u \<and>
      un_last_seq (fst (?L ! (q - n))) = un_last_seq ?u"
  proof -
    have "fst (?L ! (q - n)) = ?u" using at q by blast
    then show ?thesis using \<open>n \<le> q\<close> \<open>q < n + length ?L\<close> fit by (simp add: sent_stream_def)
  qed
next
  show "sent_stream limit n us \<subseteq> {..<2 ^ 32}" by (auto simp: sent_stream_def fits_def)
qed

text \<open>
  C15. Units survive the network in any order. Let units be cut by \<open>fragment\<close>, none into more fragments
  than the receiver's limit, and numbered in sequence from any number on. Let any selection of their
  datagrams, no more than the receiver buffers, arrive in any order, without repeats, at a fresh
  reassembler. Then each arrival yields a unit exactly if it is the last missing datagram of that unit,
  and the unit it yields is the one that was sent: its data, timestamp, first and last sequence numbers,
  and flags.
\<close>

theorem units_arrive_in_any_order:
  assumes "\<forall>(data, ts, k) \<in> set us. length (fragment_unit data ts k) \<le> m" "n + length (layout n us) \<le> 2 ^ 32"
    "1 \<le> m" "m < 2 ^ 32" "distinct order" "\<forall>i \<in> set order. i < length (layout n us)"
    "length order \<le> min MAX_BUFFERED (m * BUFFERED_UNITS)"
  shows "fst (pushes (new_reassembler m) (map (\<lambda>i. (n + i, snd (layout n us ! i))) order)) =
    map (\<lambda>j. let u = fst (layout n us ! (order ! j)) in
           if \<forall>s. un_first_seq u \<le> s \<longrightarrow> s \<le> un_last_seq u \<longrightarrow> s - n \<in> set (take (Suc j) order) then Some u else None)
      [0..<length order]"
proof -
  let ?L = "layout n us" and ?xs = "map (\<lambda>i. n + i) order"
  have fit: "fits m n us" using assms(1,2) by (simp add: fits_def)
  then have laid: "laid m n ?L" by (intro layout_laid) (auto simp: fits_def)
  have stream: "sent_stream m n us = {n..<n + length ?L}" using fit by (simp add: sent_stream_def)
  have "fst (pushes (new_reassembler m) (map (\<lambda>s. (s, snd (?L ! (s - n)))) ?xs)) =
      map (\<lambda>j. if sent.whole n us (?xs ! j) ({} \<union> set (take (Suc j) ?xs)) then sent.unit_at n us (?xs ! j) else None) [0..<length ?xs]"
  proof (rule sent.pushes_sent [of _ n us "{}" m])
    show "buffers (new_reassembler m) (\<lambda>s. snd (?L ! (s - n))) (sent.unfinished n us {})"
      using new_buffers by (simp add: sent.unfinished_def)
    show "ra_max_fragments (new_reassembler m) = m" using assms(3,4) by (simp add: new_reassembler_def)
    show "card {} + length ?xs \<le> ra_max_buffered (new_reassembler m)" using assms(3,7) by (simp add: new_reassembler_def)
    show "distinct ?xs" using assms(5) by (simp add: distinct_map)
    show "set ?xs \<subseteq> sent_stream m n us - {}" using assms(6) by (auto simp: stream)
  qed simp_all
  moreover have "sent.unit_at n us (?xs ! j) = Some (fst (?L ! (order ! j)))"
    and "sent.whole n us (?xs ! j) ({} \<union> set (take (Suc j) ?xs)) \<longleftrightarrow>
      (\<forall>s. un_first_seq (fst (?L ! (order ! j))) \<le> s \<longrightarrow> s \<le> un_last_seq (fst (?L ! (order ! j))) \<longrightarrow> s - n \<in> set (take (Suc j) order))"
    if j: "j < length order" for j
  proof -
    let ?i = "order ! j" and ?u = "fst (?L ! (order ! j))"
    have "?i < length ?L" using assms(6) j by simp
    note at = laid [unfolded laid_def Let_def, rule_format, OF this]
    show "sent.unit_at n us (?xs ! j) = Some ?u" using at j by (simp add: sent.unit_at_def del: upt_Suc)
    have "s \<in> set (take (Suc j) ?xs) \<longleftrightarrow> s - n \<in> set (take (Suc j) order)" if "un_first_seq ?u \<le> s" for s
    proof -
      have "n \<le> s" using conjunct1 [OF at] that by linarith
      then show ?thesis unfolding take_map set_map by force
    qed
    then show "sent.whole n us (?xs ! j) ({} \<union> set (take (Suc j) ?xs)) \<longleftrightarrow>
      (\<forall>s. un_first_seq ?u \<le> s \<longrightarrow> s \<le> un_last_seq ?u \<longrightarrow> s - n \<in> set (take (Suc j) order))"
      using j by (auto simp: sent.whole_def)
  qed
  ultimately show ?thesis by (simp add: comp_def Let_def del: take_map)
qed

lemma demo_cut: "length (fragment_unit (replicate 1200 5) 7 True) = 2"
  by (simp add: fragment_unit_def mark_last_def fragments_from.simps TIMESTAMP_BYTES_def Let_def)

theorem units_arrive_in_any_order_witness:
  "fst (pushes (new_reassembler 4) (map (\<lambda>i. (10 + i, snd (layout 10 [(replicate 1200 5, 7, True)] ! i))) [1, 0])) =
     [None, Some \<lparr> un_first_seq = 10, un_last_seq = 11, un_timestamp = 7, un_flags = 7, un_data = replicate 1200 5 \<rparr>]"
proof -
  let ?us = "[(replicate 1200 5, 7, True)] :: sent_unit list"
  let ?u = "\<lparr> un_first_seq = 10, un_last_seq = 11, un_timestamp = 7, un_flags = 7, un_data = replicate 1200 5 \<rparr>"
  have "sent_as 10 (replicate 1200 5, 7, True) = ?u"
    by (simp add: sent_as_def demo_cut flags_with_def KEYFRAME_def FIRST_def LAST_def)
  then have at: "length (layout 10 ?us) = 2" "fst (layout 10 ?us ! 0) = ?u" "fst (layout 10 ?us ! 1) = ?u"
    using demo_cut by (simp_all add: Let_def nth_append)
  have one: "\<not> (\<forall>s. 10 \<le> s \<longrightarrow> s \<le> 11 \<longrightarrow> s - 10 = Suc 0)" by (intro notI) (drule spec [of _ 10], simp)
  have two: "\<forall>s. s \<le> 11 \<longrightarrow> 10 \<le> s \<longrightarrow> s - 10 = Suc 0 \<or> s = (10 :: nat)" by arith
  show ?thesis
    using units_arrive_in_any_order [of ?us 4 10 "[1, 0]"] demo_cut at one
    by (simp add: two MAX_BUFFERED_def BUFFERED_UNITS_def Let_def del: layout.simps pushes.simps)
qed

end
