(* ===== verification/Reorder.thy ===== *)
theory Reorder
  imports Fragments
begin

text \<open>
  The reorder buffer of the client, \<open>reorder.rs\<close>: it emits whole units in the order of their sequence
  numbers and waits at most 50 ms for a missing one, then tells that it was abandoned. The property is
  about all histories of pushes and polls of units that do not overlap.
\<close>

definition REORDER_WINDOW :: duration where "REORDER_WINDOW = from_millis 50"
definition MAX_WAITING :: nat where "MAX_WAITING = 256"

datatype reorder_output = OutUnit access_unit | Abandoned nat | LateUnit

record reorder =
  ro_next :: "nat option"
  ro_waiting :: "(nat, access_unit) fmap"
  ro_gap_since :: "instant option"

definition reorder_default :: reorder where
  "reorder_default = \<lparr> ro_next = None, ro_waiting = fmempty, ro_gap_since = None \<rparr>"

text \<open>\<open>checked_add(1)\<close> on a \<open>u32\<close>.\<close>

definition seq_after :: "access_unit \<Rightarrow> nat option" where
  "seq_after u = (if un_last_seq u + 1 < 2 ^ 32 then Some (un_last_seq u + 1) else None)"

lemma fmsize_drop_less: "k |\<in>| fmdom m \<Longrightarrow> fmsize (fmdrop k m) < fmsize m"
proof -
  assume k: "k |\<in>| fmdom m"
  then have "fmsize m > 0" by (auto simp: fmsize_def fcard.rep_eq card_gt_0_iff)
  moreover have "fmlookup m k \<noteq> None" using k by (simp add: fmlookup_dom_iff)
  ultimately show ?thesis by (simp add: fmsize_drop)
qed

function (sequential) reorder_poll :: "instant \<Rightarrow> reorder \<Rightarrow> reorder_output list \<times> reorder" where
  "reorder_poll now r =
     (if ro_waiting r = fmempty then ([], r)
      else
        let first = fMin (fmdom (ro_waiting r));
            next = (case ro_next r of Some n \<Rightarrow> n | None \<Rightarrow> first);
            since = (case ro_gap_since r of Some t \<Rightarrow> t | None \<Rightarrow> now)
        in if first > next \<and> now < since + REORDER_WINDOW then ([], r\<lparr> ro_gap_since := Some since \<rparr>)
           else
             let unit = the (fmlookup (ro_waiting r) first);
                 (out, r') = reorder_poll now (r\<lparr> ro_gap_since := None, ro_waiting := fmdrop first (ro_waiting r), ro_next := seq_after unit \<rparr>)
             in ((if first > next then [Abandoned next] else []) @ OutUnit unit # out, r'))"
  by pat_completeness auto
termination
proof (relation "measure (\<lambda>(now, r). fmsize (ro_waiting r))")
  fix now :: instant and r :: reorder and first unit g nx
  assume "ro_waiting r \<noteq> fmempty" "first = fMin (fmdom (ro_waiting r))"
  then have "first |\<in>| fmdom (ro_waiting r)" by (metis fMin_in fmrestrict_fset_dom fmrestrict_fset_null)
  then show "((now, r\<lparr> ro_gap_since := None, ro_waiting := fmdrop first (ro_waiting r), ro_next := seq_after unit \<rparr>), (now, r))
      \<in> measure (\<lambda>(now, r). fmsize (ro_waiting r))"
    by (simp add: fmsize_drop_less)
qed simp

declare reorder_poll.simps [simp del]

definition reorder_push :: "access_unit \<Rightarrow> instant \<Rightarrow> reorder \<Rightarrow> reorder_output list \<times> reorder" where
  "reorder_push unit now r =
     (if (case ro_next r of Some next \<Rightarrow> un_last_seq unit < next | None \<Rightarrow> False) then ([LateUnit], r)
      else
        let r = (if ro_next r = None then r\<lparr> ro_next := Some (un_first_seq unit) \<rparr> else r);
            waiting = (if fmsize (ro_waiting r) \<ge> MAX_WAITING then fmdrop (fMin (fmdom (ro_waiting r))) (ro_waiting r) else ro_waiting r)
        in reorder_poll now (r\<lparr> ro_waiting := fmupd (un_first_seq unit) unit waiting \<rparr>))"

definition reorder_deadline :: "reorder \<Rightarrow> instant option" where
  "reorder_deadline r = (case ro_gap_since r of Some since \<Rightarrow> Some (since + REORDER_WINDOW) | None \<Rightarrow> None)"

subsection \<open>Histories\<close>

text \<open>Units pushed so far, the buffer, and everything it put out.\<close>

definition apart :: "access_unit \<Rightarrow> access_unit \<Rightarrow> bool" where
  "apart u v \<longleftrightarrow> un_last_seq u < un_first_seq v \<or> un_last_seq v < un_first_seq u"

inductive reorder_reach :: "access_unit set \<Rightarrow> reorder \<Rightarrow> reorder_output list \<Rightarrow> bool" where
  Fresh: "reorder_reach {} reorder_default []"
| Push: "reorder_reach U r outs \<Longrightarrow> un_first_seq u \<le> un_last_seq u \<Longrightarrow> un_last_seq u < 2 ^ 32 \<Longrightarrow> (\<And>v. v \<in> U \<Longrightarrow> apart u v) \<Longrightarrow>
    reorder_push u now r = (out, r') \<Longrightarrow> reorder_reach (insert u U) r' (outs @ out)"
| Poll: "reorder_reach U r outs \<Longrightarrow> reorder_poll now r = (out, r') \<Longrightarrow> reorder_reach U r' (outs @ out)"

text \<open>
  What a history may look like from the number that comes next: a unit that starts there, or after
  telling that it is abandoned one that starts later; and what comes next after it.
\<close>

fun explained :: "nat option \<Rightarrow> reorder_output list \<Rightarrow> nat option \<Rightarrow> bool" where
  "explained n [] n' \<longleftrightarrow> n' = n"
| "explained n (LateUnit # os) n' \<longleftrightarrow> explained n os n'"
| "explained n (OutUnit u # os) n' \<longleftrightarrow> (n = None \<or> n = Some (un_first_seq u)) \<and> explained (seq_after u) os n'"
| "explained n (Abandoned f # OutUnit u # os) n' \<longleftrightarrow> n = Some f \<and> f < un_first_seq u \<and> explained (seq_after u) os n'"
| "explained n (Abandoned f # os) n' \<longleftrightarrow> False"

fun units_out :: "reorder_output list \<Rightarrow> access_unit list" where
  "units_out [] = []"
| "units_out (OutUnit u # os) = u # units_out os"
| "units_out (_ # os) = units_out os"

lemma explained_append: "explained n xs m \<Longrightarrow> explained m ys k \<Longrightarrow> explained n (xs @ ys) k"
  by (induction n xs m rule: explained.induct) auto

subsection \<open>A poll\<close>

definition pollable :: "access_unit set \<Rightarrow> reorder \<Rightarrow> bool" where
  "pollable U r \<longleftrightarrow>
     (\<forall>u \<in> U. un_first_seq u \<le> un_last_seq u) \<and> (\<forall>u \<in> U. \<forall>v \<in> U. u \<noteq> v \<longrightarrow> apart u v) \<and>
     (\<forall>k u. fmlookup (ro_waiting r) k = Some u \<longrightarrow> k = un_first_seq u \<and> u \<in> U \<and> (\<forall>n. ro_next r = Some n \<longrightarrow> n \<le> k))"

definition held :: "reorder \<Rightarrow> access_unit set" where
  "held r = fmran' (ro_waiting r)"

definition polled_well :: "access_unit set \<Rightarrow> instant \<Rightarrow> reorder \<Rightarrow> reorder_output list \<Rightarrow> reorder \<Rightarrow> bool" where
  "polled_well U now r out r' \<longleftrightarrow>
     pollable U r' \<and> explained (ro_next r) out (ro_next r') \<and>
     distinct (units_out out) \<and> held r = set (units_out out) \<union> held r' \<and> set (units_out out) \<inter> held r' = {} \<and>
     fmsize (ro_waiting r') \<le> fmsize (ro_waiting r) \<and>
     (ro_next r' = ro_next r \<and> units_out out = [] \<or> (\<exists>w \<in> U. ro_next r' = seq_after w)) \<and>
     (ro_waiting r' \<noteq> fmempty \<longrightarrow> ro_next r' \<noteq> None \<and> (\<exists>since. ro_gap_since r' = Some since \<and> now < since + REORDER_WINDOW))"

lemma held_iff: "v \<in> held r \<longleftrightarrow> (\<exists>k. fmlookup (ro_waiting r) k = Some v)"
  by (simp add: held_def fmlookup_ran'_iff)

lemma first_waiting:
  assumes some: "ro_waiting r \<noteq> fmempty" and ok: "pollable U r" and first: "first = fMin (fmdom (ro_waiting r))"
  obtains u where "fmlookup (ro_waiting r) first = Some u" "un_first_seq u = first" "u \<in> U"
    "\<And>v. v \<in> held r \<Longrightarrow> v \<noteq> u \<Longrightarrow> un_last_seq u < un_first_seq v"
proof -
  have "first |\<in>| fmdom (ro_waiting r)" using some unfolding first by (metis fMin_in fmrestrict_fset_dom fmrestrict_fset_null)
  then obtain u where u: "fmlookup (ro_waiting r) first = Some u" by (auto elim: fmdomE)
  then have in_U: "un_first_seq u = first" "u \<in> U" using ok by (auto simp: pollable_def)
  have "un_last_seq u < un_first_seq v" if held: "v \<in> held r" and other: "v \<noteq> u" for v
  proof -
    obtain k where k: "fmlookup (ro_waiting r) k = Some v" using held by (auto simp: held_iff)
    then have v: "k = un_first_seq v" "v \<in> U" using ok by (auto simp: pollable_def)
    have "first \<le> k" unfolding first using k by (intro fMin_le) (rule fmdomI)
    moreover have "apart u v" "un_first_seq v \<le> un_last_seq v" using ok v(2) in_U(2) other by (auto simp: pollable_def)
    ultimately show ?thesis using v(1) in_U(1) by (auto simp: apart_def)
  qed
  with u in_U show ?thesis using that by blast
qed

lemma popped:
  assumes ok: "pollable U r" and u: "fmlookup (ro_waiting r) first = Some u" "un_first_seq u = first" "u \<in> U"
    and least: "\<And>v. v \<in> held r \<Longrightarrow> v \<noteq> u \<Longrightarrow> un_last_seq u < un_first_seq v"
    and r1: "r1 = r\<lparr> ro_gap_since := None, ro_waiting := fmdrop first (ro_waiting r), ro_next := seq_after u \<rparr>"
  shows "pollable U r1" "held r = insert u (held r1)" "u \<notin> held r1" "fmsize (ro_waiting r1) < fmsize (ro_waiting r)"
proof -
  have other: "v \<noteq> u \<and> v \<in> held r" if "fmlookup (ro_waiting r1) k = Some v" for k v
    using that ok u(2) by (auto simp: r1 pollable_def held_iff split: if_splits)
  then show "u \<notin> held r1" by (auto simp: held_iff)
  show "held r = insert u (held r1)" using u(1) by (auto simp: r1 held_iff split: if_splits) (metis option.inject)
  show "fmsize (ro_waiting r1) < fmsize (ro_waiting r)" using u(1) by (auto simp: r1 intro: fmsize_drop_less fmdomI)
  have "n \<le> un_first_seq v" if "fmlookup (ro_waiting r1) k = Some v" "ro_next r1 = Some n" for k v n
    using least [of v] other [OF that(1)] that(2) by (auto simp: r1 seq_after_def split: if_splits)
  moreover have "k = un_first_seq v \<and> v \<in> U" if "fmlookup (ro_waiting r1) k = Some v" for k v
    using that ok by (auto simp: r1 pollable_def split: if_splits)
  ultimately show "pollable U r1" using ok unfolding pollable_def by metis
qed

lemma polled: "pollable U r \<Longrightarrow> reorder_poll now r = (out, r') \<Longrightarrow> polled_well U now r out r'"
proof (induction now r arbitrary: out r' rule: reorder_poll.induct)
  case (1 now r)
  define first where "first = fMin (fmdom (ro_waiting r))"
  define next' where "next' = (case ro_next r of Some n \<Rightarrow> n | None \<Rightarrow> first)"
  define since where "since = (case ro_gap_since r of Some t \<Rightarrow> t | None \<Rightarrow> now)"
  have unfold: "reorder_poll now r =
     (if ro_waiting r = fmempty then ([], r)
      else if first > next' \<and> now < since + REORDER_WINDOW then ([], r\<lparr> ro_gap_since := Some since \<rparr>)
      else case reorder_poll now (r\<lparr> ro_gap_since := None, ro_waiting := fmdrop first (ro_waiting r),
             ro_next := seq_after (the (fmlookup (ro_waiting r) first)) \<rparr>) of (out, r') \<Rightarrow>
           ((if first > next' then [Abandoned next'] else []) @ OutUnit (the (fmlookup (ro_waiting r) first)) # out, r'))"
    by (subst reorder_poll.simps) (simp only: Let_def next'_def since_def first_def)
  consider "ro_waiting r = fmempty" | "ro_waiting r \<noteq> fmempty" "first > next'" "now < since + REORDER_WINDOW"
    | "ro_waiting r \<noteq> fmempty" "\<not> (first > next' \<and> now < since + REORDER_WINDOW)" by blast
  then show ?case
  proof cases
    case 1
    then show ?thesis using "1.prems" by (simp add: reorder_poll.simps polled_well_def held_def)
  next
    case 2
    then have "out = []" "r' = r\<lparr> ro_gap_since := Some since \<rparr>"
      using "1.prems"(2) unfolding unfold by simp_all
    moreover have "ro_next r \<noteq> None" using 2(2) by (cases "ro_next r") (simp_all add: next'_def)
    ultimately show ?thesis using "1.prems"(1) 2 by (auto simp: polled_well_def pollable_def held_def)
  next
    case 3
    obtain u where u: "fmlookup (ro_waiting r) first = Some u" "un_first_seq u = first" "u \<in> U"
      "\<And>v. v \<in> held r \<Longrightarrow> v \<noteq> u \<Longrightarrow> un_last_seq u < un_first_seq v"
      using first_waiting [OF 3(1) "1.prems"(1) first_def] by blast
    let ?r1 = "r\<lparr> ro_gap_since := None, ro_waiting := fmdrop first (ro_waiting r), ro_next := seq_after u \<rparr>"
    note pop = popped [OF "1.prems"(1) u refl]
    obtain out1 where rec: "reorder_poll now ?r1 = (out1, r')"
      and out: "out = (if first > next' then [Abandoned next'] else []) @ OutUnit u # out1"
      using "1.prems"(2) 3 u(1) unfolding unfold by (auto split: prod.splits)
    have "polled_well U now ?r1 out1 r'"
      by (rule "1.IH" [OF 3(1) first_def next'_def since_def 3(2) _ pop(1) rec]) (simp add: u(1))
    moreover have "explained (ro_next r) out (ro_next r')" if "explained (seq_after u) out1 (ro_next r')"
    proof (cases "ro_next r")
      case None
      then show ?thesis using that u(2) by (simp add: out next'_def)
    next
      case (Some n)
      have "n \<le> first" using "1.prems"(1) u(1) Some by (auto simp: pollable_def)
      then show ?thesis using that u(2) Some by (auto simp: out next'_def)
    qed
    ultimately show ?thesis using pop u(3) by (auto simp: polled_well_def out)
  qed
qed

subsection \<open>Pushes\<close>

definition in_good_order :: "access_unit set \<Rightarrow> reorder \<Rightarrow> reorder_output list \<Rightarrow> bool" where
  "in_good_order U r outs \<longleftrightarrow>
     pollable U r \<and> explained None outs (ro_next r) \<and> distinct (units_out outs) \<and> set (units_out outs) \<subseteq> U \<and>
     set (units_out outs) \<inter> held r = {} \<and> held r \<subseteq> U \<and> fmsize (ro_waiting r) \<le> MAX_WAITING \<and>
     (\<forall>n. ro_next r = Some n \<longrightarrow> (\<exists>w \<in> U. n = un_last_seq w + 1)) \<and>
     (ro_waiting r \<noteq> fmempty \<longrightarrow> ro_next r \<noteq> None \<and> ro_gap_since r \<noteq> None)"

lemma units_out_append [simp]: "units_out (xs @ ys) = units_out xs @ units_out ys"
  by (induction xs rule: units_out.induct) auto

lemma poll_good:
  assumes good: "in_good_order U r outs" and poll: "reorder_poll now r = (out, r')"
  shows "in_good_order U r' (outs @ out)"
proof -
  have ok: "pollable U r" using good by (simp add: in_good_order_def)
  note p = polled [OF ok poll, unfolded polled_well_def]
  have "\<forall>n. ro_next r' = Some n \<longrightarrow> (\<exists>w \<in> U. n = un_last_seq w + 1)"
    using p good unfolding in_good_order_def seq_after_def by (metis option.distinct(1) option.inject)
  then show ?thesis
    using p good unfolding in_good_order_def by (auto intro: explained_append)
qed

lemma apart_irrefl: "un_first_seq u \<le> un_last_seq u \<Longrightarrow> \<not> apart u u"
  by (simp add: apart_def)

lemma pollable_insert:
  assumes "pollable U r" "un_first_seq u \<le> un_last_seq u" "\<And>v. v \<in> U \<Longrightarrow> apart u v"
  shows "pollable (insert u U) r"
  using assms unfolding pollable_def by (auto simp: apart_def)

lemma pushed_alone:
  assumes "ro_next r = None" "ro_waiting r = fmempty"
  shows "\<exists>r'. reorder_push u now r = ([OutUnit u], r') \<and> ro_next r' = seq_after u \<and> ro_waiting r' = fmempty"
proof -
  have one: "fMin (fmdom (fmupd (un_first_seq u) u fmempty)) = un_first_seq u" by simp
  have gone: "fmdrop (un_first_seq u) (fmupd (un_first_seq u) u fmempty) = fmempty" by (rule fmap_ext) simp
  have "fmupd (un_first_seq u) u fmempty \<noteq> fmempty" by (metis fmempty_lookup fmupd_lookup option.distinct(1))
  then show ?thesis
    using one gone assms by (auto simp: reorder_push_def MAX_WAITING_def reorder_poll.simps Let_def)
qed

lemma push_first:
  assumes good: "in_good_order U r outs" and u: "un_first_seq u \<le> un_last_seq u" "\<And>v. v \<in> U \<Longrightarrow> apart u v"
    and fresh: "ro_next r = None" and push: "reorder_push u now r = (out, r')"
  shows "in_good_order (insert u U) r' (outs @ out)"
proof -
  have empty: "ro_waiting r = fmempty" using good fresh by (simp add: in_good_order_def)
  have result: "out = [OutUnit u]" "ro_next r' = seq_after u" "ro_waiting r' = fmempty"
    using pushed_alone [OF fresh empty, of u now] push by auto
  have "explained None (outs @ [OutUnit u]) (seq_after u)"
    using good fresh by (intro explained_append [of None outs None]) (simp_all add: in_good_order_def)
  moreover have "u \<notin> U" using u apart_irrefl by blast
  moreover have "pollable (insert u U) r'"
    using pollable_insert [of U r u] good u result(3) by (auto simp: in_good_order_def pollable_def)
  ultimately show ?thesis
    using good result by (auto simp: in_good_order_def held_iff seq_after_def split: if_splits)
qed

text \<open>The map a late enough unit is put into: the first waiting unit has made room for it if need be.\<close>

definition room_in :: "reorder \<Rightarrow> (nat, access_unit) fmap" where
  "room_in r = (if fmsize (ro_waiting r) \<ge> MAX_WAITING then fmdrop (fMin (fmdom (ro_waiting r))) (ro_waiting r) else ro_waiting r)"

lemma room_in_sub: "fmlookup (room_in r) k = Some v \<Longrightarrow> fmlookup (ro_waiting r) k = Some v"
  by (auto simp: room_in_def split: if_splits)

lemma room_in_fits:
  assumes "fmsize (ro_waiting r) \<le> MAX_WAITING"
  shows "fmsize (fmupd k u (room_in r)) \<le> MAX_WAITING"
proof (cases "fmsize (ro_waiting r) \<ge> MAX_WAITING")
  case True
  then have "ro_waiting r \<noteq> fmempty" by (auto simp: MAX_WAITING_def)
  then have "fMin (fmdom (ro_waiting r)) |\<in>| fmdom (ro_waiting r)" by (metis fMin_in fmrestrict_fset_dom fmrestrict_fset_null)
  from fmsize_drop_less [OF this] assms True show ?thesis by (simp add: room_in_def fmsize_upd)
next
  case False
  then show ?thesis by (simp add: room_in_def fmsize_upd)
qed

lemma queued_entry:
  assumes "fmlookup (fmupd (un_first_seq u) u (room_in r)) k = Some v"
  shows "k = un_first_seq u \<and> v = u \<or> fmlookup (ro_waiting r) k = Some v"
  using assms room_in_sub [of r k v] by (auto split: if_splits)

lemma queued_pollable:
  assumes good: "in_good_order U r outs" and u: "un_first_seq u \<le> un_last_seq u" "\<And>v. v \<in> U \<Longrightarrow> apart u v"
    and n: "ro_next r = Some n" "\<not> un_last_seq u < n" and q: "q = r\<lparr> ro_waiting := fmupd (un_first_seq u) u (room_in r) \<rparr>"
  shows "pollable (insert u U) q" "held q \<subseteq> insert u (held r)"
proof -
  note g = good [unfolded in_good_order_def]
  obtain w where w: "w \<in> U" "n = un_last_seq w + 1" using g n(1) by blast
  have "un_first_seq w \<le> un_last_seq w" using g w(1) by (simp add: pollable_def)
  then have le: "n \<le> un_first_seq u" using u(2) [OF w(1)] w(2) n(2) by (auto simp: apart_def)
  note ins = pollable_insert [OF conjunct1 [OF g] u, unfolded pollable_def]
  have "k = un_first_seq v \<and> v \<in> insert u U \<and> (\<forall>m. ro_next q = Some m \<longrightarrow> m \<le> k)"
    if entry: "fmlookup (fmupd (un_first_seq u) u (room_in r)) k = Some v" for k v
    using queued_entry [of u r k v, OF entry]
  proof (elim disjE)
    assume "k = un_first_seq u \<and> v = u"
    then show ?thesis using n(1) le by (simp add: q)
  next
    assume "fmlookup (ro_waiting r) k = Some v"
    then show ?thesis using g by (simp add: q pollable_def)
  qed
  moreover have at_q: "ro_waiting q = fmupd (un_first_seq u) u (room_in r)" by (simp add: q)
  ultimately show "pollable (insert u U) q" using ins unfolding pollable_def at_q by blast
  show "held q \<subseteq> insert u (held r)"
  proof
    fix v
    assume "v \<in> held q"
    then obtain k where k: "fmlookup (ro_waiting q) k = Some v" by (auto simp: held_iff)
    from queued_entry [of u r k v] this show "v \<in> insert u (held r)" by (auto simp: q held_iff)
  qed
qed

lemma push_later:
  assumes good: "in_good_order U r outs" and u: "un_first_seq u \<le> un_last_seq u" "\<And>v. v \<in> U \<Longrightarrow> apart u v"
    and n: "ro_next r = Some n" "\<not> un_last_seq u < n" and push: "reorder_push u now r = (out, r')"
  shows "in_good_order (insert u U) r' (outs @ out)"
proof -
  note g = good [unfolded in_good_order_def]
  let ?r = "r\<lparr> ro_waiting := fmupd (un_first_seq u) u (room_in r) \<rparr>"
  have poll: "reorder_poll now ?r = (out, r')" using push n by (simp add: reorder_push_def room_in_def Let_def)
  obtain w where w: "w \<in> U" "n = un_last_seq w + 1" using g n(1) by blast
  have u_new: "u \<notin> U" using u apart_irrefl by blast
  note ok = queued_pollable(1) [OF good u n refl] and held = queued_pollable(2) [OF good u n refl]
  have fits: "fmsize (fmupd (un_first_seq u) u (room_in r)) \<le> MAX_WAITING" using g by (simp add: room_in_fits)
  note p = polled [OF ok poll, unfolded polled_well_def]
  have "\<forall>m. ro_next r' = Some m \<longrightarrow> (\<exists>w \<in> insert u U. m = un_last_seq w + 1)"
    using p n(1) w unfolding seq_after_def by (metis (no_types, lifting) insertCI option.distinct(1) option.inject reorder.select_convs(1) reorder.surjective reorder.update_convs(2))
  moreover have "explained None (outs @ out) (ro_next r')"
    using g p by (intro explained_append [of None outs "ro_next r"]) simp_all
  moreover have within: "set (units_out out) \<union> held r' \<subseteq> insert u (held r)" using p held by blast
  moreover have "set (units_out outs) \<inter> insert u (held r) = {}" "insert u (held r) \<subseteq> insert u U" "set (units_out outs) \<subseteq> insert u U"
    using g u_new by blast+
  then have "set (units_out outs) \<inter> set (units_out out) = {}" "set (units_out (outs @ out)) \<subseteq> insert u U"
    "set (units_out (outs @ out)) \<inter> held r' = {}" "held r' \<subseteq> insert u U"
    using within p by auto
  moreover have "fmsize (ro_waiting r') \<le> MAX_WAITING" using p fits by (metis le_trans reorder.select_convs(2) reorder.surjective reorder.update_convs(2))
  moreover have "distinct (units_out outs)" "distinct (units_out out)" "pollable (insert u U) r'"
    "ro_waiting r' \<noteq> fmempty \<longrightarrow> ro_next r' \<noteq> None \<and> ro_gap_since r' \<noteq> None"
    using g p by blast+
  ultimately show ?thesis unfolding in_good_order_def by simp
qed

lemma push_good:
  assumes good: "in_good_order U r outs" and u: "un_first_seq u \<le> un_last_seq u" "\<And>v. v \<in> U \<Longrightarrow> apart u v"
    and push: "reorder_push u now r = (out, r')"
  shows "in_good_order (insert u U) r' (outs @ out)"
proof (cases "ro_next r")
  case None
  then show ?thesis using push_first [OF good u _ push] by simp
next
  case (Some n)
  show ?thesis
  proof (cases "un_last_seq u < n")
    case True
    then have "out = [LateUnit]" "r' = r" using push Some by (simp_all add: reorder_push_def)
    moreover have "explained None (outs @ [LateUnit]) (ro_next r)"
      using good by (intro explained_append [of None outs "ro_next r"]) (simp_all add: in_good_order_def)
    ultimately show ?thesis using good pollable_insert [of U r u] u by (auto simp: in_good_order_def)
  next
    case False
    then show ?thesis using push_later [OF good u Some _ push] by simp
  qed
qed

text \<open>
  C16. Units come out in order, each at most once, and every gap is told. Over all histories of pushes
  and polls, at any times, of units that do not overlap: each unit that comes out starts where the one
  before it ended, or is announced by telling the number from which on units were abandoned; no unit comes out
  twice and none that was not pushed; at most 256 units wait, and while any waits a deadline is set.
\<close>

theorem units_come_out_in_order:
  assumes "reorder_reach U r outs"
  shows "explained None outs (ro_next r) \<and> distinct (units_out outs) \<and> set (units_out outs) \<subseteq> U \<and>
    fmsize (ro_waiting r) \<le> MAX_WAITING \<and> (ro_waiting r \<noteq> fmempty \<longrightarrow> reorder_deadline r \<noteq> None)"
proof -
  have "in_good_order U r outs"
    using assms
  proof (induction rule: reorder_reach.induct)
    case Fresh
    then show ?case by (auto simp: in_good_order_def reorder_default_def pollable_def held_iff)
  next
    case (Push U r outs u now out r')
    then show ?case using push_good [of U r outs u now out r'] by blast
  next
    case (Poll U r outs now out r')
    then show ?case using poll_good by blast
  qed
  then show ?thesis by (auto simp: in_good_order_def reorder_deadline_def)
qed

theorem units_come_out_in_order_witness:
  "\<exists>r. reorder_reach {\<lparr> un_first_seq = 7, un_last_seq = 9, un_timestamp = 0, un_flags = 0, un_data = [] \<rparr>} r
      [OutUnit \<lparr> un_first_seq = 7, un_last_seq = 9, un_timestamp = 0, un_flags = 0, un_data = [] \<rparr>] \<and> ro_next r = Some 10"
proof -
  let ?u = "\<lparr> un_first_seq = 7, un_last_seq = 9, un_timestamp = 0, un_flags = 0, un_data = [] \<rparr>"
  obtain r where push: "reorder_push ?u 0 reorder_default = ([OutUnit ?u], r)"
    using pushed_alone [of reorder_default ?u 0] by (auto simp: reorder_default_def)
  from reorder_reach.Push [OF reorder_reach.Fresh _ _ _ push] have reach: "reorder_reach {?u} r [OutUnit ?u]" by simp
  from units_come_out_in_order [OF reach] reach show ?thesis by (auto simp: seq_after_def)
qed

end
