(* ===== verification/Spec2Isabelle.thy ===== *)
theory Spec2Isabelle
  imports Wire Admission Hub_Refusals Egress_Send Keys_Runs Auth_Tries Replay Units Reorder
begin

text \<open>
  A verification library for throcc, a voice and screen-sharing server with its clients.

  \<^bold>\<open>The program.\<close> People meet in rooms on a server. Each client holds one QUIC connection: a control
  stream carries framed messages, datagrams carry media. The server authenticates connections
  (\<open>throcc-server/src/auth.rs\<close>), limits what arrives (\<open>limits.rs\<close>, \<open>refusals.rs\<close>, \<open>room_password.rs\<close>), keeps
  users, rooms and invites in SQLite (\<open>database.rs\<close>) and runs one hub behind a lock (\<open>rooms.rs\<close>) that
  handles requests, moves users between rooms, raises the epoch of every room whose members changed and
  rebuilds the table by which the forwarding unit (\<open>sfu.rs\<close>) copies datagrams to receivers, each of
  whom has queues that drop what comes too late (\<open>egress.rs\<close>). Media is encrypted end to end: in every
  epoch each client makes a secret, wraps it to the peers whose keys it trusts, and derives one key per
  track (\<open>throcc-client-core/src/keys.rs\<close>, \<open>throcc-crypto\<close>); floors keep epochs closed that it left behind
  (\<open>floors.rs\<close>). Received datagrams pass a replay window, the reassembler and the reorder buffer
  (\<open>media/fragment.rs\<close>, \<open>media/reorder.rs\<close>).

  \<^bold>\<open>How it is modelled.\<close> Pure code is a function. A method on \<open>&mut self\<close> takes and returns the state, a
  record with the fields of the struct; one that returns a \<open>Result\<close> is a computation of type \<open>se\<close>
  (\<open>Prelude\<close>), which keeps what it changed before it failed, as the code does. Wire integers are words of
  their width; sequence numbers of a track and counters are naturals where every use is guarded against
  overflow, and the guard is in the definition. Instants and durations are nanoseconds, passed in. A
  \<open>HashMap\<close> or \<open>BTreeMap\<close> is a finite map; where the order of a hash map could matter, the order is an
  argument. \<open>f64\<close> is the rational value with every operation rounded as IEEE-754 does (\<open>F64\<close>). Libraries are
  parameters: Argon2, SHA-2, Ed25519, X25519, HPKE, HKDF, AES-GCM, SPAKE2, postcard, randomness, the
  clocks and what arrives on a connection; what a theorem needs of one is a hypothesis that its witness
  instantiates. A failing database is a list of outcomes that its statements consume, so theorems that
  say so hold whichever statements fail; a failing file is a flag of the write. Interleaving is explicit:
  the hub is one step per lock, enrollments in parallel are steps of runs in flight, and what other tasks
  do during an exchange is an arbitrary change of the server.

  \<^bold>\<open>Protocol.\<close> \<open>Roles\<close> has ids, limits and permissions (\<open>ids.rs\<close>, \<open>limits.rs\<close>, \<open>permissions.rs\<close>); \<open>Wire\<close> the
  media header, nonce, serial comparison and framing (\<open>frame.rs\<close>, \<open>framing.rs\<close>, \<open>transport.rs\<close>), with
  round trips; \<open>Messages\<close> the control protocol and the checks on names (\<open>messages.rs\<close>); \<open>Codes\<close> invite codes
  and fingerprints (\<open>invite.rs\<close>, \<open>fingerprint.rs\<close>); \<open>Signed\<close> and \<open>Crypto\<close> every byte string that is signed,
  authenticated or hashed, wrapping, media encryption and both sides of the PAKE (\<open>throcc-crypto\<close>), with the
  injectivity of the formats and the round trips.

  \<^bold>\<open>Admission.\<close> \<open>Rate_Limits\<close> has token buckets in double arithmetic. The locale \<open>meter\<close> states what a
  client of an allowance relies on; single and keyed buckets interpret it. \<open>Admission\<close> has the gate, the
  arrival limiter and the enrollment window, \<open>Room_Password\<close> the backoff for wrong room passwords, \<open>Auth\<close> and
  \<open>Auth_Tries\<close> sign-in and enrollment (\<open>auth.rs\<close>): who is signed in has proved a key, and an invite can be
  tried three times.

  \<^bold>\<open>The hub.\<close> \<open>Database\<close> has every table, statement and transaction with failures. \<open>Hub\<close> and \<open>Hub_Requests\<close>
  have the state of \<open>rooms.rs\<close>, placements, routes, audiences and epochs, signing in and out, every request,
  the password work they hand out and resume, and the periodic jobs. \<open>Hub_Frame\<close>, \<open>Hub_Inv\<close>, \<open>Hub_Place\<close>,
  \<open>Hub_Keep\<close>, \<open>Hub_Calm\<close>, \<open>Hub_Safe\<close> and \<open>Hub_Reach\<close> show that every step keeps the invariant of the hub,
  through the locales \<open>hub_view\<close> and \<open>place_view\<close> of properties that requests which move nobody cannot
  change. On reachable states, \<open>Hub_Routes\<close> shows where media goes, \<open>Hub_Entry\<close> who enters rooms, \<open>Hub_Live\<close>
  that allowed requests succeed, \<open>Hub_Outcomes\<close> and \<open>Hub_Refusals\<close> what moves, key publications and refused
  requests do; \<open>Hub_Demo\<close> is the server the witnesses run.

  \<^bold>\<open>Media on the server.\<close> \<open>Sfu\<close> has the forwarding table, the ingress loop and the keyframe aggregator,
  \<open>Audio_Queues\<close> a receiver's audio (the locale \<open>turn_queues\<close> states what taking turns needs), \<open>Egress\<close> its
  video queue with history and budget; \<open>Egress_Inv\<close>, \<open>Egress_Arrivals\<close>, \<open>Egress_Flow\<close> and \<open>Egress_Send\<close> show
  the invariant of the queues, the budget and the order of sending.

  \<^bold>\<open>Keys of a client.\<close> \<open>Server_File\<close> and \<open>Floors\<close> have what is kept per server with every writer of the
  file (\<open>servers.rs\<close>, \<open>known_servers.rs\<close>, \<open>server_look.rs\<close>, \<open>floors.rs\<close>). \<open>Keys\<close> has the key manager, \<open>Engine_Keys\<close>
  its use by the media engine, \<open>Keys_Trust\<close>, \<open>Keys_Wrap\<close>, \<open>Keys_Inv\<close>, \<open>Keys_Keep\<close> and \<open>Keys_Steps\<close> its
  invariant against an arbitrary server; \<open>Keys_Safe\<close> has the promises and \<open>Keys_Runs\<close> their runs, one of
  them where the comment on \<open>peers_changed\<close> does not hold.

  \<^bold>\<open>Received media.\<close> \<open>Replay\<close> refines the window of machine words to a set. \<open>Fragments\<close> and \<open>Reassembly\<close>
  have cutting and rebuilding of units; in \<open>Units\<close> the locale \<open>sent_track\<close> states what a receiver relies on
  of a sender, the fragments of the code interpret it, and every unit comes back whatever the order of
  arrival. \<open>Reorder\<close> emits them in order.

  \<^bold>\<open>Bounds.\<close> No definition has fuel: loops are recursions over data or carry a termination proof (the
  invitation tree, the budget loops, fragmentation, polling the reorder buffer). Minting an invite tries as
  often as the code does. Bounds that theorems assume are said in their texts: below \<open>2 ^ 63 - 1\<close> rowids,
  below \<open>2 ^ 32\<close> counted wrong guesses, sequence numbers of 32 bits.

  \<^bold>\<open>Not modelled.\<close> The graphical and command-line clients and everything that draws, captures, encodes,
  decodes or plays, which is I/O with the operating system and codecs; the client's session and
  connection tasks, whose logic is waiting on sockets and channels, with the view state they show; the
  jitter buffer, which is a loop around the Opus decoder; files, key store, TLS and start-up of both sides;
  the stores of verified people, playback and settings of the client; SQLite's pragmas and migrations;
  formatting for logs; tests, fuzz targets, packaging and the vendored user-interface toolkit.
\<close>

end
